(* ===== verification/Prelude.thy ===== *)
theory Prelude
  imports
    Complex_Main
    "HOL-Library.Char_ord"
    "HOL-Library.List_Lexorder"
    "HOL-Library.Product_Lexorder"
    "HOL-Library.Sublist"
begin

section \<open>Shared vocabulary: Python strings, SQL tables, state machines\<close>

text \<open>
  What every component of the development uses: the Python string methods the sources call,
  the SQL statements the repositories issue, and two interfaces (\<open>keyed_store\<close> and
  \<open>inv_machine\<close>) whose lemmas the components inherit by interpretation.

  A Python \<open>str\<close> is a \<^typ>\<open>string\<close>: a list of code points below 256. The character
  classes (\<open>isspace\<close>, \<open>isalnum\<close>, \<open>lower\<close>) are those of Python on these code
  points. String order is Python's: lexicographic by code point (theories \<open>Char_ord\<close> and
  \<open>List_Lexorder\<close>); tuples compare lexicographically (\<open>Product_Lexorder\<close>). Python
  floats (epoch seconds, scores, distances) are exact rationals: rounding is not modelled.
\<close>

named_theorems sql_simps \<open>equations of the SQL statement forms\<close>
named_theorems inv_intros \<open>preservation of a component's invariant by its operations\<close>

type_synonym epoch = rat

subsection \<open>Character classes\<close>

abbreviation code_point :: "char \<Rightarrow> nat" where
  "code_point c \<equiv> of_char c"

text \<open>\<open>str.isspace\<close>, which is also \<open>\\s\<close> of \<open>re\<close>.\<close>

definition py_isspace :: "char \<Rightarrow> bool" where
  "py_isspace c = (let n = code_point c in
     (9 \<le> n \<and> n \<le> 13) \<or> (28 \<le> n \<and> n \<le> 32) \<or> n = 133 \<or> n = 160)"

definition py_isdigit_ascii :: "char \<Rightarrow> bool" where
  "py_isdigit_ascii c = (let n = code_point c in 48 \<le> n \<and> n \<le> 57)"

text \<open>\<open>str.isalnum\<close>: letters, decimal digits, and the other numeric code points below
  256 (the superscripts and the vulgar fractions).\<close>

definition py_isalnum :: "char \<Rightarrow> bool" where
  "py_isalnum c = (let n = code_point c in
     (48 \<le> n \<and> n \<le> 57) \<or> (65 \<le> n \<and> n \<le> 90) \<or> (97 \<le> n \<and> n \<le> 122)
     \<or> n = 170 \<or> n = 178 \<or> n = 179 \<or> n = 181 \<or> n = 185 \<or> n = 186
     \<or> (188 \<le> n \<and> n \<le> 190) \<or> (192 \<le> n \<and> n \<le> 255 \<and> n \<noteq> 215 \<and> n \<noteq> 247))"

text \<open>\<open>\\w\<close> of \<open>re\<close> on \<open>str\<close> patterns.\<close>

definition py_isword :: "char \<Rightarrow> bool" where
  "py_isword c = (py_isalnum c \<or> c = CHR ''_'')"

definition py_lower :: "char \<Rightarrow> char" where
  "py_lower c = (let n = code_point c in
     if (65 \<le> n \<and> n \<le> 90) \<or> (192 \<le> n \<and> n \<le> 222 \<and> n \<noteq> 215) then char_of (n + 32) else c)"

text \<open>\<open>str.casefold\<close> below 256: lower case, and the sharp s becomes \<open>ss\<close>. (The fold of
  the micro sign lies outside the code points modelled; it is left as it is.)\<close>

definition py_casefold :: "string \<Rightarrow> string" where
  "py_casefold s = concat (map (\<lambda>c. if code_point c = 223 then ''ss'' else [py_lower c]) s)"

lemma py_casefold_Nil [simp]: "py_casefold [] = []"
  by (simp add: py_casefold_def)

lemma py_casefold_append: "py_casefold (s @ t) = py_casefold s @ py_casefold t"
  by (simp add: py_casefold_def)

text \<open>\<open>repr(s)\<close>: single quotes unless the text has a single quote and no double quote; a
  backslash, the quote and the unprintable code points are escaped.\<close>

definition hex_digit :: "nat \<Rightarrow> char" where
  "hex_digit n = (if n < 10 then char_of (48 + n) else char_of (87 + n))"

definition repr_char :: "char \<Rightarrow> char \<Rightarrow> string" where
  "repr_char q c = (let n = code_point c in
     if c = q \<or> n = 92 then [char_of (92 :: nat), c]
     else if n = 9 then [char_of (92 :: nat), CHR ''t'']
     else if n = 10 then [char_of (92 :: nat), CHR ''n'']
     else if n = 13 then [char_of (92 :: nat), CHR ''r'']
     else if n < 32 \<or> 127 \<le> n \<and> n \<le> 160 \<or> n = 173
     then [char_of (92 :: nat), CHR ''x'', hex_digit (n div 16), hex_digit (n mod 16)]
     else [c])"

definition py_repr :: "string \<Rightarrow> string" where
  "py_repr s = (let sq = char_of (39 :: nat); dq = char_of (34 :: nat);
                    q = (if sq \<in> set s \<and> dq \<notin> set s then dq else sq)
                in [q] @ concat (map (repr_char q) s) @ [q])"

subsection \<open>Stripping\<close>

definition lstrip_by :: "('a \<Rightarrow> bool) \<Rightarrow> 'a list \<Rightarrow> 'a list" where
  "lstrip_by P s = dropWhile P s"

definition rstrip_by :: "('a \<Rightarrow> bool) \<Rightarrow> 'a list \<Rightarrow> 'a list" where
  "rstrip_by P s = rev (dropWhile P (rev s))"

definition strip_by :: "('a \<Rightarrow> bool) \<Rightarrow> 'a list \<Rightarrow> 'a list" where
  "strip_by P s = rstrip_by P (lstrip_by P s)"

abbreviation py_strip :: "string \<Rightarrow> string" where
  "py_strip \<equiv> strip_by py_isspace"

abbreviation py_rstrip :: "string \<Rightarrow> string" where
  "py_rstrip \<equiv> rstrip_by py_isspace"

abbreviation py_lstrip :: "string \<Rightarrow> string" where
  "py_lstrip \<equiv> lstrip_by py_isspace"

lemma lstrip_by_Nil [simp]: "lstrip_by P [] = []"
  by (simp add: lstrip_by_def)

lemma rstrip_by_Nil [simp]: "rstrip_by P [] = []"
  by (simp add: rstrip_by_def)

lemma strip_by_Nil [simp]: "strip_by P [] = []"
  by (simp add: strip_by_def)

lemma rstrip_by_snoc: "rstrip_by P (s @ [c]) = (if P c then rstrip_by P s else s @ [c])"
  by (simp add: rstrip_by_def)

lemma rstrip_by_decomp: "\<exists>t. s = rstrip_by P s @ t \<and> (\<forall>c\<in>set t. P c)"
proof (induction s rule: rev_induct)
  case Nil
  then show ?case by simp
next
  case (snoc c s)
  then obtain t where t: "s = rstrip_by P s @ t" "\<forall>c\<in>set t. P c" by blast
  show ?case
  proof (cases "P c")
    case True
    with t have "s @ [c] = rstrip_by P (s @ [c]) @ (t @ [c])" "\<forall>c\<in>set (t @ [c]). P c"
      by (auto simp: rstrip_by_snoc)
    then show ?thesis by blast
  next
    case False
    then show ?thesis by (simp add: rstrip_by_snoc)
  qed
qed

lemma rstrip_by_prefix: "prefix (rstrip_by P s) s"
  using rstrip_by_decomp [of s P] by (metis prefixI)

lemma length_rstrip_by [simp]: "length (rstrip_by P s) \<le> length s"
  by (meson prefix_length_le rstrip_by_prefix)

lemma length_lstrip_by [simp]: "length (lstrip_by P s) \<le> length s"
  by (simp add: lstrip_by_def length_dropWhile_le)

lemma set_lstrip_by: "set (lstrip_by P s) \<subseteq> set s"
  by (auto simp: lstrip_by_def dest: set_dropWhileD)

lemma set_rstrip_by: "set (rstrip_by P s) \<subseteq> set s"
  by (auto simp: rstrip_by_def dest: set_dropWhileD)

lemma set_strip_by: "set (strip_by P s) \<subseteq> set s"
  unfolding strip_by_def by (meson set_lstrip_by set_rstrip_by subset_trans)

lemma rstrip_by_last: "rstrip_by P s \<noteq> [] \<Longrightarrow> \<not> P (last (rstrip_by P s))"
  unfolding rstrip_by_def by (metis hd_dropWhile last_rev rev.simps(1) rev_rev_ident)

lemma lstrip_by_hd: "lstrip_by P s \<noteq> [] \<Longrightarrow> \<not> P (hd (lstrip_by P s))"
  unfolding lstrip_by_def by (rule hd_dropWhile)

lemma lstrip_by_id: "s = [] \<or> \<not> P (hd s) \<Longrightarrow> lstrip_by P s = s"
  by (cases s) (auto simp: lstrip_by_def)

lemma rstrip_by_id: "s = [] \<or> \<not> P (last s) \<Longrightarrow> rstrip_by P s = s"
  by (cases s rule: rev_cases) (auto simp: rstrip_by_snoc)

lemma rstrip_by_hd: "rstrip_by P s \<noteq> [] \<Longrightarrow> hd (rstrip_by P s) = hd s"
  using rstrip_by_prefix [of P s] by (metis hd_append2 prefix_def)

lemma strip_by_id: "s = [] \<or> \<not> P (hd s) \<and> \<not> P (last s) \<Longrightarrow> strip_by P s = s"
  by (auto simp: strip_by_def lstrip_by_id rstrip_by_id)

lemma strip_by_last: "strip_by P s \<noteq> [] \<Longrightarrow> \<not> P (last (strip_by P s))"
  unfolding strip_by_def by (rule rstrip_by_last)

lemma strip_by_hd: "strip_by P s \<noteq> [] \<Longrightarrow> \<not> P (hd (strip_by P s))"
  unfolding strip_by_def by (metis lstrip_by_hd rstrip_by_Nil rstrip_by_hd)

lemma strip_by_idem [simp]: "strip_by P (strip_by P s) = strip_by P s"
  by (rule strip_by_id) (metis strip_by_hd strip_by_last)

subsection \<open>Splitting and joining\<close>

text \<open>\<open>s.split(c)\<close> for a one-character separator, and \<open>sep.join(parts)\<close>.\<close>

fun split_on :: "'a \<Rightarrow> 'a list \<Rightarrow> 'a list list" where
  "split_on c [] = [[]]"
| "split_on c (x # xs) =
     (if x = c then [] # split_on c xs
      else (case split_on c xs of [] \<Rightarrow> [[x]] | y # ys \<Rightarrow> (x # y) # ys))"

fun join :: "'a list \<Rightarrow> 'a list list \<Rightarrow> 'a list" where
  "join sep [] = []"
| "join sep [x] = x"
| "join sep (x # y # ys) = x @ sep @ join sep (y # ys)"

lemma split_on_not_Nil [simp]: "split_on c s \<noteq> []"
  by (induction s) (auto split: list.splits)

lemma split_on_no_sep: "p \<in> set (split_on c s) \<Longrightarrow> c \<notin> set p"
proof (induction s arbitrary: p)
  case Nil
  then show ?case by simp
next
  case (Cons x xs)
  obtain y ys where ys: "split_on c xs = y # ys"
    by (cases "split_on c xs") simp_all
  show ?case
    using Cons ys by (auto split: if_splits)
qed

lemma split_on_chars: "p \<in> set (split_on c s) \<Longrightarrow> set p \<subseteq> set s"
proof (induction s arbitrary: p)
  case Nil
  then show ?case by simp
next
  case (Cons x xs)
  obtain y ys where ys: "split_on c xs = y # ys"
    by (cases "split_on c xs") simp_all
  show ?case
    using Cons ys by (fastforce split: if_splits)
qed

lemma join_split_on [simp]: "join [c] (split_on c s) = s"
proof (induction s)
  case Nil
  then show ?case by simp
next
  case (Cons x xs)
  obtain y ys where ys: "split_on c xs = y # ys"
    by (cases "split_on c xs") simp_all
  show ?case
    using Cons ys by (cases ys) auto
qed

lemma split_on_free: "c \<notin> set p \<Longrightarrow> split_on c p = [p]"
  by (induction p) auto

lemma split_on_append_sep: "c \<notin> set p \<Longrightarrow> split_on c (p @ c # s) = p # split_on c s"
  by (induction p) auto

lemma split_on_join:
  "ps \<noteq> [] \<Longrightarrow> \<forall>p\<in>set ps. c \<notin> set p \<Longrightarrow> split_on c (join [c] ps) = ps"
  by (induction "[c]" ps rule: join.induct) (simp_all add: split_on_free split_on_append_sep)

lemma join_append:
  "xs \<noteq> [] \<Longrightarrow> ys \<noteq> [] \<Longrightarrow> join sep (xs @ ys) = join sep xs @ sep @ join sep ys"
proof (induction xs)
  case Nil
  then show ?case by simp
next
  case (Cons x xs)
  then show ?case by (cases xs; cases ys) simp_all
qed

lemma join_eq_Nil: "\<forall>p\<in>set ps. p \<noteq> [] \<Longrightarrow> join sep ps = [] \<longleftrightarrow> ps = []"
  by (induction sep ps rule: join.induct) auto

text \<open>\<open>s.split()\<close>: the runs of non-space characters.\<close>

definition py_split_ws :: "string \<Rightarrow> string list" where
  "py_split_ws s = filter (\<lambda>w. w \<noteq> [])
     (split_on (CHR '' '') (map (\<lambda>c. if py_isspace c then CHR '' '' else c) s))"

text \<open>\<open>s.rpartition(c)\<close> and \<open>s.partition(c)\<close> without the separator component.\<close>

definition rpartition :: "'a \<Rightarrow> 'a list \<Rightarrow> 'a list \<times> 'a list" where
  "rpartition c s =
     (if c \<in> set s
      then (rev (tl (dropWhile (\<lambda>x. x \<noteq> c) (rev s))), rev (takeWhile (\<lambda>x. x \<noteq> c) (rev s)))
      else ([], s))"

definition partition_at :: "'a \<Rightarrow> 'a list \<Rightarrow> 'a list \<times> 'a list" where
  "partition_at c s = (takeWhile (\<lambda>x. x \<noteq> c) s, tl (dropWhile (\<lambda>x. x \<noteq> c) s))"

lemma rpartition_append:
  assumes "c \<notin> set t"
  shows "rpartition c (s @ c # t) = (s, t)"
proof -
  have rt: "rev (s @ c # t) = rev t @ c # rev s" by simp
  have 1: "dropWhile (\<lambda>x. x \<noteq> c) (rev t @ c # rev s) = c # rev s"
    using assms by (subst dropWhile_append2) auto
  have 2: "takeWhile (\<lambda>x. x \<noteq> c) (rev t @ c # rev s) = rev t"
    using assms by (subst takeWhile_append2) auto
  show ?thesis
    unfolding rpartition_def rt 1 2 by simp
qed

lemma rpartition_free: "c \<notin> set t \<Longrightarrow> rpartition c t = ([], t)"
  by (simp add: rpartition_def)

lemma rpartition_snd_free: "c \<notin> set (snd (rpartition c s))"
  by (auto simp: rpartition_def dest: set_takeWhileD)

subsection \<open>Searching and replacing\<close>

text \<open>\<open>s.find(needle)\<close> from the start of a list; \<open>str.find(needle, start)\<close> is
  \<open>find_from\<close>, which is \<^const>\<open>None\<close> where Python returns -1.\<close>

fun find_sub :: "'a list \<Rightarrow> 'a list \<Rightarrow> nat option" where
  "find_sub needle [] = (if needle = [] then Some 0 else None)"
| "find_sub needle (x # xs) =
     (if prefix needle (x # xs) then Some 0 else map_option Suc (find_sub needle xs))"

definition find_from :: "'a list \<Rightarrow> 'a list \<Rightarrow> nat \<Rightarrow> nat option" where
  "find_from body needle start =
     (if start \<le> length body then map_option ((+) start) (find_sub needle (drop start body))
      else None)"

abbreviation occurs_at :: "'a list \<Rightarrow> nat \<Rightarrow> 'a list \<Rightarrow> bool" where
  "occurs_at needle i body \<equiv> prefix needle (drop i body) \<and> i \<le> length body"

lemma find_sub_Some:
  "find_sub needle s = Some i \<Longrightarrow>
     occurs_at needle i s \<and> (\<forall>j<i. \<not> prefix needle (drop j s))"
proof (induction s arbitrary: i)
  case Nil
  then show ?case by (simp split: if_splits)
next
  case (Cons x xs)
  show ?case
  proof (cases "prefix needle (x # xs)")
    case True
    with Cons.prems show ?thesis by simp
  next
    case False
    with Cons.prems obtain k where k: "find_sub needle xs = Some k" "i = Suc k" by auto
    have "\<not> prefix needle (drop j (x # xs))" if "j < i" for j
      using that False k Cons.IH [OF k(1)] by (cases j) auto
    then show ?thesis using k Cons.IH [OF k(1)] by simp
  qed
qed

lemma find_sub_None: "find_sub needle s = None \<longleftrightarrow> (\<forall>i\<le>length s. \<not> prefix needle (drop i s))"
proof (induction s)
  case Nil
  then show ?case by simp
next
  case (Cons x xs)
  have "(\<forall>i\<le>length (x # xs). \<not> prefix needle (drop i (x # xs))) \<longleftrightarrow>
        \<not> prefix needle (x # xs) \<and> (\<forall>i\<le>length xs. \<not> prefix needle (drop i xs))"
    by (metis Suc_le_mono drop0 drop_Suc_Cons le0 length_Cons not0_implies_Suc)
  with Cons.IH show ?case by auto
qed

text \<open>\<open>s.replace(old, new)\<close>: every non-overlapping occurrence from the left; an empty
  \<open>old\<close> matches before every character and at the end.\<close>

function replace_ne :: "'a list \<Rightarrow> 'a list \<Rightarrow> 'a list \<Rightarrow> 'a list" where
  "replace_ne old new [] = []"
| "replace_ne old new (x # xs) =
     (if prefix old (x # xs) then new @ replace_ne old new (drop (length old - 1) xs)
      else x # replace_ne old new xs)"
  by pat_completeness auto
termination
  by (relation "measure (\<lambda>(old, new, s). length s)") auto

definition py_replace :: "'a list \<Rightarrow> 'a list \<Rightarrow> 'a list \<Rightarrow> 'a list" where
  "py_replace old new s =
     (if old = [] then concat (map (\<lambda>c. new @ [c]) s) @ new else replace_ne old new s)"

subsection \<open>Batches and JSON values\<close>

text \<open>\<open>itertools.batched(xs, n)\<close> for a positive \<open>n\<close>.\<close>

function batched :: "nat \<Rightarrow> 'a list \<Rightarrow> 'a list list" where
  "batched n xs = (if n = 0 \<or> xs = [] then [] else take n xs # batched n (drop n xs))"
  by pat_completeness auto
termination
  by (relation "measure (\<lambda>(n, xs). length xs)") auto

declare batched.simps [simp del]

lemma batched_Nil [simp]: "batched n [] = []"
  by (simp add: batched.simps)

lemma concat_batched: "0 < n \<Longrightarrow> concat (batched n xs) = xs"
proof (induction n xs rule: batched.induct)
  case (1 n xs)
  then show ?case by (cases "xs = []") (simp_all add: batched.simps [of n xs])
qed

lemma batched_sizes: "b \<in> set (batched n xs) \<Longrightarrow> b \<noteq> [] \<and> length b \<le> n"
proof (induction n xs rule: batched.induct)
  case (1 n xs)
  then show ?case by (cases "n = 0 \<or> xs = []") (auto simp: batched.simps [of n xs])
qed

text \<open>Assigning \<open>ids[i] = F x\<close> for the numbered entries of a list.\<close>

lemma length_foldl_update [simp]:
  "length (foldl (\<lambda>ids x. ids[idx x := F x]) ids xs) = length ids"
  by (induction xs arbitrary: ids) auto

lemma foldl_update_other:
  "\<forall>x\<in>set xs. idx x \<noteq> i \<Longrightarrow> foldl (\<lambda>ids x. ids[idx x := F x]) ids xs ! i = ids ! i"
  by (induction xs arbitrary: ids) auto

lemma foldl_update_nth:
  "distinct (map idx xs) \<Longrightarrow> x \<in> set xs \<Longrightarrow> idx x < length ids \<Longrightarrow>
     foldl (\<lambda>ids x. ids[idx x := F x]) ids xs ! idx x = F x"
proof (induction xs arbitrary: ids)
  case Nil
  then show ?case by simp
next
  case (Cons y ys)
  show ?case
  proof (cases "x = y")
    case True
    with Cons.prems have "idx x \<notin> set (map idx ys)" by simp
    then have "\<forall>z\<in>set ys. idx z \<noteq> idx x" by (metis image_eqI set_map)
    with True Cons.prems show ?thesis by (simp add: foldl_update_other)
  next
    case False
    with Cons show ?thesis by simp
  qed
qed

text \<open>JSON documents. A column that holds \<open>json.dumps(x)\<close> holds the document \<open>x\<close>
  itself; \<open>json_extract(doc, '$.k') = :text\<close> compares a string member.\<close>

datatype json = JNull | JBool bool | JInt int | JStr string | JArr "json list"
  | JObj "(string \<times> json) list"

definition json_extract :: "json \<Rightarrow> string \<Rightarrow> string option" where
  "json_extract d k = (case d of JObj m \<Rightarrow>
     (case map_of m k of Some (JStr s) \<Rightarrow> Some s | _ \<Rightarrow> None) | _ \<Rightarrow> None)"

subsection \<open>SQL statements on tables\<close>

text \<open>A table is the list of its rows in rowid order. \<open>UPDATE ... WHERE\<close> maps, \<open>DELETE ...
  WHERE\<close> filters, \<open>rowcount\<close> is the number of rows the \<open>WHERE\<close> clause selects;
  \<open>INSERT OR REPLACE\<close> drops the row of the same primary key and appends.\<close>

datatype db_error = IntegrityError | NoResultFound | MultipleResultsFound | OperationalError

definition sql_update :: "('r \<Rightarrow> bool) \<Rightarrow> ('r \<Rightarrow> 'r) \<Rightarrow> 'r list \<Rightarrow> 'r list" where
  "sql_update P f t = map (\<lambda>r. if P r then f r else r) t"

definition sql_delete :: "('r \<Rightarrow> bool) \<Rightarrow> 'r list \<Rightarrow> 'r list" where
  "sql_delete P t = filter (\<lambda>r. \<not> P r) t"

definition sql_count :: "('r \<Rightarrow> bool) \<Rightarrow> 'r list \<Rightarrow> nat" where
  "sql_count P t = length (filter P t)"

definition sql_get :: "('r \<Rightarrow> 'k) \<Rightarrow> 'k \<Rightarrow> 'r list \<Rightarrow> 'r option" where
  "sql_get key k t = find (\<lambda>r. key r = k) t"

definition sql_replace :: "('r \<Rightarrow> 'k) \<Rightarrow> 'r \<Rightarrow> 'r list \<Rightarrow> 'r list" where
  "sql_replace key r t = sql_delete (\<lambda>x. key x = key r) t @ [r]"

definition sql_insert :: "('r \<Rightarrow> 'k) \<Rightarrow> 'r \<Rightarrow> 'r list \<Rightarrow> db_error + 'r list" where
  "sql_insert key r t = (if key r \<in> key ` set t then Inl IntegrityError else Inr (t @ [r]))"

lemma set_sql_update [sql_simps]:
  "set (sql_update P f t) = {r \<in> set t. \<not> P r} \<union> f ` {r \<in> set t. P r}"
  by (auto simp: sql_update_def)

lemma length_sql_update [simp]: "length (sql_update P f t) = length t"
  by (simp add: sql_update_def)

lemma set_sql_delete [sql_simps]: "set (sql_delete P t) = {r \<in> set t. \<not> P r}"
  by (auto simp: sql_delete_def)

lemma sql_update_Nil [simp]: "sql_update P f [] = []"
  by (simp add: sql_update_def)

lemma sql_update_Cons [simp]:
  "sql_update P f (r # t) = (if P r then f r else r) # sql_update P f t"
  by (simp add: sql_update_def)

lemma sql_update_none: "\<forall>r\<in>set t. \<not> P r \<Longrightarrow> sql_update P f t = t"
  by (induction t) auto

lemma map_key_sql_update:
  "(\<And>r. P r \<Longrightarrow> key (f r) = key r) \<Longrightarrow> map key (sql_update P f t) = map key t"
  by (induction t) auto

lemma sql_count_0: "sql_count P t = 0 \<longleftrightarrow> (\<forall>r\<in>set t. \<not> P r)"
  by (induction t) (auto simp: sql_count_def)

lemma distinct_sql_delete: "distinct (map key t) \<Longrightarrow> distinct (map key (sql_delete P t))"
  by (simp add: sql_delete_def distinct_map_filter)

lemma sql_get_None: "sql_get key k t = None \<longleftrightarrow> k \<notin> key ` set t"
  by (auto simp: sql_get_def find_None_iff)

lemma sql_get_SomeD: "sql_get key k t = Some r \<Longrightarrow> r \<in> set t \<and> key r = k"
  by (auto simp: sql_get_def find_Some_iff)

lemma sql_get_Some_iff:
  assumes "distinct (map key t)"
  shows "sql_get key k t = Some r \<longleftrightarrow> r \<in> set t \<and> key r = k"
proof
  assume "sql_get key k t = Some r"
  then show "r \<in> set t \<and> key r = k" by (rule sql_get_SomeD)
next
  assume r: "r \<in> set t \<and> key r = k"
  then obtain r' where r': "sql_get key k t = Some r'"
    using sql_get_None [of key k t] by (cases "sql_get key k t") auto
  then have "r' = r"
    using r sql_get_SomeD [OF r'] assms by (auto simp: distinct_map inj_on_def)
  with r' show "sql_get key k t = Some r" by simp
qed

lemma sql_get_append:
  "sql_get key k (s @ t) = (case sql_get key k s of None \<Rightarrow> sql_get key k t | Some r \<Rightarrow> Some r)"
  by (induction s) (auto simp: sql_get_def)

lemma sql_get_delete_key:
  "sql_get key k (sql_delete (\<lambda>r. key r = k') t) = (if k = k' then None else sql_get key k t)"
  by (induction t) (auto simp: sql_get_def sql_delete_def)

lemma sql_get_delete_keep:
  "sql_get key k t = Some r \<Longrightarrow> \<not> P r \<Longrightarrow> sql_get key k (sql_delete P t) = Some r"
  by (induction t) (auto simp: sql_get_def sql_delete_def split: if_splits)

lemma sql_count_deleted: "sql_count P t = length t - length (sql_delete P t)"
  using sum_length_filter_compl [of P t] by (simp add: sql_count_def sql_delete_def)

lemma sql_get_replace:
  "sql_get key k (sql_replace key r t) = (if k = key r then Some r else sql_get key k t)"
  by (simp add: sql_replace_def sql_get_append sql_get_delete_key split: option.splits)
     (simp add: sql_get_def)

lemma distinct_sql_replace:
  "distinct (map key t) \<Longrightarrow> distinct (map key (sql_replace key r t))"
  by (auto simp: sql_replace_def distinct_sql_delete sql_simps)

lemma sql_insert_Inr:
  "sql_insert key r t = Inr t' \<longleftrightarrow> key r \<notin> key ` set t \<and> t' = t @ [r]"
  by (auto simp: sql_insert_def)

text \<open>A (partial) unique index: among the rows selected by \<open>Q\<close>, the columns \<open>g\<close>
  determine the row.\<close>

definition uniq_by :: "('r \<Rightarrow> 'k) \<Rightarrow> ('r \<Rightarrow> bool) \<Rightarrow> ('r \<Rightarrow> 'v) \<Rightarrow> 'r list \<Rightarrow> bool" where
  "uniq_by key Q g t \<longleftrightarrow> (\<forall>r\<in>set t. \<forall>s\<in>set t. Q r \<and> Q s \<and> g r = g s \<longrightarrow> key r = key s)"

lemma uniq_byI:
  "(\<And>r s. r \<in> set t \<Longrightarrow> s \<in> set t \<Longrightarrow> Q r \<Longrightarrow> Q s \<Longrightarrow> g r = g s \<Longrightarrow> key r = key s) \<Longrightarrow>
     uniq_by key Q g t"
  unfolding uniq_by_def by blast

lemma uniq_byD:
  "uniq_by key Q g t \<Longrightarrow> r \<in> set t \<Longrightarrow> s \<in> set t \<Longrightarrow> Q r \<Longrightarrow> Q s \<Longrightarrow> g r = g s \<Longrightarrow> key r = key s"
  unfolding uniq_by_def by blast

lemma sql_update_origin:
  "r' \<in> set (sql_update P f t) \<Longrightarrow> \<exists>r\<in>set t. r' = (if P r then f r else r)"
  by (auto simp: sql_update_def)

lemma uniq_by_Nil [simp]: "uniq_by key Q g []"
  by (simp add: uniq_by_def)

lemma uniq_by_delete: "uniq_by key Q g t \<Longrightarrow> uniq_by key Q g (sql_delete P t)"
  unfolding uniq_by_def sql_simps by blast

lemma uniq_by_append:
  assumes "uniq_by key Q g t" and "\<And>r. r \<in> set t \<Longrightarrow> Q r \<Longrightarrow> Q row \<Longrightarrow> g r \<noteq> g row"
  shows "uniq_by key Q g (t @ [row])"
proof (rule uniq_byI)
  fix r s
  assume rs: "r \<in> set (t @ [row])" "s \<in> set (t @ [row])" "Q r" "Q s" "g r = g s"
  then consider "r \<in> set t" "s \<in> set t" | "r = row" "s = row"
    using assms(2) by fastforce
  then show "key r = key s"
    using uniq_byD [OF assms(1), of r s] rs by cases simp_all
qed

lemma uniq_by_update:
  assumes "uniq_by key Q g t"
    and "\<And>r. r \<in> set t \<Longrightarrow> P r \<Longrightarrow> key (f r) = key r"
    and "\<And>r. r \<in> set t \<Longrightarrow> P r \<Longrightarrow> g (f r) = g r"
    and "\<And>r. r \<in> set t \<Longrightarrow> P r \<Longrightarrow> Q (f r) \<Longrightarrow> Q r"
  shows "uniq_by key Q g (sql_update P f t)"
proof (rule uniq_byI)
  fix r' s'
  assume r': "r' \<in> set (sql_update P f t)" and s': "s' \<in> set (sql_update P f t)"
  from sql_update_origin [OF r'] obtain r where r: "r \<in> set t" "r' = (if P r then f r else r)" ..
  from sql_update_origin [OF s'] obtain s where s: "s \<in> set t" "s' = (if P s then f s else s)" ..
  assume "Q r'" "Q s'" "g r' = g s'"
  with r s assms(2-4) have "Q r" "Q s" "g r = g s"
    by (auto split: if_splits)
  with r s have "key r = key s"
    using uniq_byD [OF assms(1)] by blast
  with r s assms(2) show "key r' = key s'"
    by auto
qed

text \<open>One row moves into the index.\<close>

lemma uniq_by_enter:
  assumes "uniq_by key Q g t" and "\<And>r. key r = k \<Longrightarrow> key (f r) = k"
    and "\<And>r s. r \<in> set t \<Longrightarrow> s \<in> set t \<Longrightarrow> key r = k \<Longrightarrow> key s \<noteq> k \<Longrightarrow> Q s \<Longrightarrow> g s \<noteq> g (f r)"
  shows "uniq_by key Q g (sql_update (\<lambda>r. key r = k) f t)"
proof (rule uniq_byI)
  fix r' s'
  assume r': "r' \<in> set (sql_update (\<lambda>r. key r = k) f t)" and s': "s' \<in> set (sql_update (\<lambda>r. key r = k) f t)"
  from sql_update_origin [OF r'] obtain r where r: "r \<in> set t" "r' = (if key r = k then f r else r)" ..
  from sql_update_origin [OF s'] obtain s where s: "s \<in> set t" "s' = (if key s = k then f s else s)" ..
  assume q: "Q r'" "Q s'" "g r' = g s'"
  show "key r' = key s'"
  proof (cases "key r = k"; cases "key s = k")
    assume "key r = k" "key s = k"
    with r s assms(2) show ?thesis by simp
  next
    assume "key r = k" "key s \<noteq> k"
    with r s q assms(3) [of r s] show ?thesis by simp
  next
    assume "key r \<noteq> k" "key s = k"
    with r s q assms(3) [of s r] show ?thesis by simp
  next
    assume "key r \<noteq> k" "key s \<noteq> k"
    with r s q show ?thesis using uniq_byD [OF assms(1), of r s] by simp
  qed
qed

subsection \<open>Interface: a table with a primary key\<close>

text \<open>What a client of a keyed table may rely on: a read after a write returns what was
  written, and writes under other keys are not disturbed.\<close>

locale keyed_store =
  fixes key :: "'r \<Rightarrow> 'k"
    and get :: "'k \<Rightarrow> 't \<Rightarrow> 'r option"
    and put :: "'r \<Rightarrow> 't \<Rightarrow> 't"
    and del :: "'k \<Rightarrow> 't \<Rightarrow> 't"
  assumes get_put: "get k (put r t) = (if k = key r then Some r else get k t)"
    and get_del: "get k (del k' t) = (if k = k' then None else get k t)"
begin

lemma get_after_put: "get (key r) (put r t) = Some r"
  by (simp add: get_put)

lemma put_frame: "k \<noteq> key r \<Longrightarrow> get k (put r t) = get k t"
  by (simp add: get_put)

lemma last_put_wins: "key r = key r' \<Longrightarrow> get k (put r' (put r t)) = get k (put r' t)"
  by (simp add: get_put)

lemma del_idempotent: "get k (del k' (del k' t)) = get k (del k' t)"
  by (simp add: get_del)

lemma single_use: "get k (del k t) = None"
  by (simp add: get_del)

end

subsection \<open>Interface: a transition system with an invariant\<close>

locale inv_machine =
  fixes init :: "'s"
    and step :: "'s \<Rightarrow> 's \<Rightarrow> bool"
    and inv :: "'s \<Rightarrow> bool"
  assumes init_inv: "inv init"
    and step_inv: "step s s' \<Longrightarrow> inv s \<Longrightarrow> inv s'"
begin

lemma steps_inv: "step\<^sup>*\<^sup>* s s' \<Longrightarrow> inv s \<Longrightarrow> inv s'"
  by (induction rule: rtranclp_induct) (auto intro: step_inv)

lemma reach_inv: "step\<^sup>*\<^sup>* init s \<Longrightarrow> inv s"
  using steps_inv init_inv by blast

end

end
