(* ===== verification/Jobs.thy ===== *)
theory Jobs
  imports Prelude
begin

section \<open>The job queue\<close>

text \<open>
  Models \<open>repositories/jobs.py\<close> (class \<open>JobRepository\<close>) over the table of \<open>models.Job\<close>.
  The table is a list of rows. Every operation takes the clock \<open>now\<close> as the source allows,
  and the identifiers \<open>nanoid.generate\<close> would return as arguments. A method that commits
  returns the new table; a statement that violates the primary key or the partial unique index
  \<open>uq_jobs_pending_dedup\<close> returns \<^const>\<open>Inl\<close>, and the table of the caller is
  the rolled-back one. Log fields are not modelled.
\<close>

subsection \<open>Rows\<close>

datatype job_status = Pending | Running | Done | Failed

record job =
  j_id :: string
  j_kind :: string
  j_user_id :: "string option"
  j_dedup_key :: "string option"
  j_payload :: json
  j_status :: job_status
  j_attempts :: int
  j_max_attempts :: int
  j_next_run_at :: epoch
  j_priority :: int
  j_locked_by :: "string option"
  j_locked_at :: "epoch option"
  j_last_error :: "string option"
  j_created_at :: epoch
  j_updated_at :: epoch

definition PRIORITY_DEFAULT :: int where "PRIORITY_DEFAULT = 0"

definition PRIORITY_BULK :: int where "PRIORITY_BULK = 10"

definition ENQUEUE_UPSERT_CHUNK_SIZE :: nat where "ENQUEUE_UPSERT_CHUNK_SIZE = 80"

text \<open>The partial unique index of \<open>models.Job\<close> (a NULL key never conflicts), and the effect
  of an \<open>UPDATE\<close> that may violate it.\<close>

definition pending_unique :: "job list \<Rightarrow> bool" where
  "pending_unique t = uniq_by j_id (\<lambda>r. j_status r = Pending \<and> j_dedup_key r \<noteq> None)
     (\<lambda>r. (j_kind r, j_dedup_key r)) t"

definition checked :: "job list \<Rightarrow> db_error + job list" where
  "checked t = (if pending_unique t then Inr t else Inl IntegrityError)"

lemma checked_Inr: "checked t = Inr t' \<longleftrightarrow> pending_unique t \<and> t' = t"
  by (auto simp: checked_def)

subsection \<open>Enqueueing\<close>

definition backoff_seconds :: "int \<Rightarrow> rat \<Rightarrow> rat \<Rightarrow> rat" where
  "backoff_seconds attempts base cap = min cap (base * 2 powi (attempts - 1))"

definition new_job ::
  "string \<Rightarrow> string \<Rightarrow> json \<Rightarrow> string option \<Rightarrow> string option \<Rightarrow> int \<Rightarrow> epoch \<Rightarrow> int \<Rightarrow> epoch \<Rightarrow> job" where
  "new_job jid kind payload dedup_key user_id max_attempts run_at priority now =
     \<lparr>j_id = jid, j_kind = kind, j_user_id = user_id, j_dedup_key = dedup_key,
      j_payload = payload, j_status = Pending, j_attempts = 0, j_max_attempts = max_attempts,
      j_next_run_at = run_at, j_priority = priority, j_locked_by = None, j_locked_at = None,
      j_last_error = None, j_created_at = now, j_updated_at = now\<rparr>"

definition pending_for :: "string \<Rightarrow> string \<Rightarrow> job \<Rightarrow> bool" where
  "pending_for kind key r \<longleftrightarrow>
     j_kind r = kind \<and> j_dedup_key r = Some key \<and> j_status r = Pending"

text \<open>\<open>INSERT ... ON CONFLICT (kind, dedup_key) WHERE status = 'pending' DO UPDATE\<close>.\<close>

definition upsert_pending ::
  "job \<Rightarrow> string \<Rightarrow> epoch \<Rightarrow> int \<Rightarrow> epoch \<Rightarrow> job list \<Rightarrow> db_error + job list" where
  "upsert_pending row key run_at priority now t =
     (if j_id row \<in> j_id ` set t then Inl IntegrityError
      else if \<exists>r\<in>set t. pending_for (j_kind row) key r
      then Inr (sql_update (pending_for (j_kind row) key)
             (\<lambda>r. r\<lparr>j_next_run_at := run_at, j_priority := min (j_priority r) priority,
                    j_updated_at := now\<rparr>) t)
      else Inr (t @ [row]))"

text \<open>\<open>select(Job.id).where(kind, dedup_key, pending).one()\<close>.\<close>

definition select_pending_id :: "string \<Rightarrow> string \<Rightarrow> job list \<Rightarrow> db_error + string" where
  "select_pending_id kind key t =
     (case filter (pending_for kind key) t of
        [] \<Rightarrow> Inl NoResultFound
      | [r] \<Rightarrow> Inr (j_id r)
      | _ \<Rightarrow> Inl MultipleResultsFound)"

definition enqueue_in_session ::
  "string \<Rightarrow> string \<Rightarrow> json \<Rightarrow> string option \<Rightarrow> string option \<Rightarrow> int \<Rightarrow> epoch \<Rightarrow> int \<Rightarrow> epoch
   \<Rightarrow> job list \<Rightarrow> db_error + (string \<times> job list)" where
  "enqueue_in_session jid kind payload dedup_key user_id max_attempts delay priority now t =
     (let run_at = now + delay;
          row = new_job jid kind payload dedup_key user_id max_attempts run_at priority now
      in case dedup_key of
           None \<Rightarrow>
             (case sql_insert j_id row t of Inl e \<Rightarrow> Inl e | Inr t' \<Rightarrow> Inr (jid, t'))
         | Some key \<Rightarrow>
             (case upsert_pending row key run_at priority now t of
                Inl e \<Rightarrow> Inl e
              | Inr t' \<Rightarrow>
                  (case select_pending_id kind key t' of
                     Inl e \<Rightarrow> Inl e
                   | Inr i \<Rightarrow> Inr (i, t'))))"

record job_entry =
  e_payload :: json
  e_dedup_key :: "string option"
  e_user_id :: "string option"

text \<open>The batch. Each entry carries its position in the caller's list and the identifier
  generated for it. Entries without a key are inserted first; the others go in chunks, each one
  multi-row upsert whose \<open>RETURNING (dedup_key, id)\<close> rows form a dictionary.\<close>

type_synonym numbered_entry = "nat \<times> string \<times> job_entry"

abbreviation entry_no :: "numbered_entry \<Rightarrow> nat" where "entry_no x \<equiv> fst x"
abbreviation entry_gen :: "numbered_entry \<Rightarrow> string" where "entry_gen x \<equiv> fst (snd x)"
abbreviation entry_of :: "numbered_entry \<Rightarrow> job_entry" where "entry_of x \<equiv> snd (snd x)"

fun insert_plain ::
  "string \<Rightarrow> int \<Rightarrow> epoch \<Rightarrow> int \<Rightarrow> epoch \<Rightarrow> numbered_entry list \<Rightarrow> job list \<Rightarrow> db_error + job list" where
  "insert_plain kind max_attempts run_at priority now [] t = Inr t"
| "insert_plain kind max_attempts run_at priority now ((i, jid, e) # es) t =
     (case sql_insert j_id (new_job jid kind (e_payload e) None (e_user_id e) max_attempts
              run_at priority now) t of
        Inl err \<Rightarrow> Inl err
      | Inr t' \<Rightarrow> insert_plain kind max_attempts run_at priority now es t')"

fun upsert_rows ::
  "string \<Rightarrow> int \<Rightarrow> epoch \<Rightarrow> int \<Rightarrow> epoch \<Rightarrow> numbered_entry list \<Rightarrow> job list
   \<Rightarrow> db_error + ((string \<times> string) list \<times> job list)" where
  "upsert_rows kind max_attempts run_at priority now [] t = Inr ([], t)"
| "upsert_rows kind max_attempts run_at priority now ((i, jid, e) # es) t =
     (let key = the (e_dedup_key e);
          row = new_job jid kind (e_payload e) (Some key) (e_user_id e) max_attempts
                  run_at priority now
      in case upsert_pending row key run_at priority now t of
           Inl err \<Rightarrow> Inl err
         | Inr t' \<Rightarrow>
             (case select_pending_id kind key t' of
                Inl err \<Rightarrow> Inl err
              | Inr rid \<Rightarrow>
                  (case upsert_rows kind max_attempts run_at priority now es t' of
                     Inl err \<Rightarrow> Inl err
                   | Inr (ret, t'') \<Rightarrow> Inr ((key, rid) # ret, t''))))"

fun enqueue_chunks ::
  "string \<Rightarrow> int \<Rightarrow> epoch \<Rightarrow> int \<Rightarrow> epoch \<Rightarrow> numbered_entry list list \<Rightarrow> string list \<Rightarrow> job list
   \<Rightarrow> db_error + (string list \<times> job list)" where
  "enqueue_chunks kind max_attempts run_at priority now [] job_ids t = Inr (job_ids, t)"
| "enqueue_chunks kind max_attempts run_at priority now (chunk # chunks) job_ids t =
     (case upsert_rows kind max_attempts run_at priority now chunk t of
        Inl err \<Rightarrow> Inl err
      | Inr (ret, t') \<Rightarrow>
          (let id_by_dedup_key = map_of (rev ret);
               job_ids' = foldl (\<lambda>ids x. ids[entry_no x :=
                    the (id_by_dedup_key (the (e_dedup_key (entry_of x))))]) job_ids chunk
           in enqueue_chunks kind max_attempts run_at priority now chunks job_ids' t'))"

definition enqueue_many_in_session ::
  "string list \<Rightarrow> string \<Rightarrow> job_entry list \<Rightarrow> int \<Rightarrow> epoch \<Rightarrow> int \<Rightarrow> epoch
   \<Rightarrow> job list \<Rightarrow> db_error + (string list \<times> job list)" where
  "enqueue_many_in_session gens kind entries max_attempts delay priority now t =
     (let run_at = now + delay;
          numbered = zip [0..<length entries] (zip gens entries);
          plain = filter (\<lambda>x. e_dedup_key (entry_of x) = None) numbered;
          dedup_indexed = filter (\<lambda>x. e_dedup_key (entry_of x) \<noteq> None) numbered;
          job_ids = foldl (\<lambda>ids x. ids[entry_no x := entry_gen x])
            (replicate (length entries) []) plain
      in case insert_plain kind max_attempts run_at priority now plain t of
           Inl err \<Rightarrow> Inl err
         | Inr t' \<Rightarrow> enqueue_chunks kind max_attempts run_at priority now
               (batched ENQUEUE_UPSERT_CHUNK_SIZE dedup_indexed) job_ids t')"

subsection \<open>Claiming and finishing\<close>

definition claim_runnable :: "epoch \<Rightarrow> epoch \<Rightarrow> job \<Rightarrow> bool" where
  "claim_runnable now stale_cutoff j =
     (j_status j = Pending \<and> j_next_run_at j \<le> now \<or>
      j_status j = Running \<and> (case j_locked_at j of None \<Rightarrow> False | Some l \<Rightarrow> l < stale_cutoff))"

definition key_running :: "job list \<Rightarrow> job \<Rightarrow> bool" where
  "key_running t j = (\<exists>r\<in>set t. j_status r = Running \<and> j_dedup_key r \<noteq> None \<and>
     j_dedup_key r = j_dedup_key j \<and> j_id r \<noteq> j_id j)"

definition claim_candidates :: "epoch \<Rightarrow> epoch \<Rightarrow> job list \<Rightarrow> job list" where
  "claim_candidates now stale_cutoff t =
     filter (\<lambda>j. claim_runnable now stale_cutoff j \<and> \<not> key_running t j) t"

definition claim_order :: "job \<Rightarrow> int \<times> epoch" where
  "claim_order j = (j_priority j, j_next_run_at j)"

definition lock_row :: "string \<Rightarrow> epoch \<Rightarrow> job \<Rightarrow> job" where
  "lock_row worker now r =
     r\<lparr>j_status := Running, j_locked_by := Some worker, j_locked_at := Some now,
       j_updated_at := now\<rparr>"

text \<open>\<open>_CLAIM_SQL\<close>; rows tied in \<open>ORDER BY priority, next_run_at\<close> are taken in table
  order.\<close>

definition claim :: "string \<Rightarrow> epoch \<Rightarrow> epoch \<Rightarrow> job list \<Rightarrow> job option \<times> job list" where
  "claim worker now stale_after t =
     (case claim_candidates now (now - stale_after) t of
        [] \<Rightarrow> (None, t)
      | c # cs \<Rightarrow>
          (let j = arg_min_list claim_order (c # cs)
           in (Some (lock_row worker now j),
               sql_update (\<lambda>r. j_id r = j_id j) (lock_row worker now) t)))"

definition held_by :: "string \<Rightarrow> job \<Rightarrow> bool" where
  "held_by worker r \<longleftrightarrow> j_status r = Running \<and> j_locked_by r = Some worker"

definition renew_claim :: "string \<Rightarrow> epoch \<Rightarrow> job list \<Rightarrow> nat \<times> job list" where
  "renew_claim worker now t =
     (sql_count (held_by worker) t,
      sql_update (held_by worker) (\<lambda>r. r\<lparr>j_locked_at := Some now, j_updated_at := now\<rparr>) t)"

text \<open>The fence \<open>WHERE id = :id AND locked_by = :worker\<close> of the lifecycle writes.\<close>

definition fenced :: "string \<Rightarrow> string \<Rightarrow> job \<Rightarrow> bool" where
  "fenced job_id worker r \<longleftrightarrow> j_id r = job_id \<and> j_locked_by r = Some worker"

definition complete :: "string \<Rightarrow> string \<Rightarrow> epoch \<Rightarrow> job list \<Rightarrow> bool \<times> job list" where
  "complete job_id worker now t =
     (sql_count (fenced job_id worker) t \<noteq> 0,
      sql_update (fenced job_id worker) (\<lambda>r. r\<lparr>j_status := Done, j_updated_at := now\<rparr>) t)"

datatype fail_outcome = FailMissing | FailSuperseded | FailStatus job_status

text \<open>\<open>fail\<close> computes the new values from a plain read of the row and commits them with one
  fenced \<open>UPDATE\<close>. \<open>fail_write\<close> is that update; its argument is the row as read.\<close>

definition fail_write ::
  "job \<Rightarrow> string \<Rightarrow> string \<Rightarrow> epoch \<Rightarrow> rat \<Rightarrow> rat \<Rightarrow> job list
   \<Rightarrow> db_error + (fail_outcome \<times> job list)" where
  "fail_write job worker error now base_backoff max_backoff t =
     (let attempts = j_attempts job + 1;
          (status, next_run_at, locked_by, locked_at) =
            (if attempts \<ge> j_max_attempts job
             then (Failed, j_next_run_at job, Some worker, j_locked_at job)
             else (Pending, now + backoff_seconds attempts base_backoff max_backoff, None, None));
          t' = sql_update (fenced (j_id job) worker)
            (\<lambda>r. r\<lparr>j_attempts := attempts, j_last_error := Some error, j_updated_at := now,
                   j_status := status, j_next_run_at := next_run_at,
                   j_locked_by := locked_by, j_locked_at := locked_at\<rparr>) t
      in case checked t' of
           Inl e \<Rightarrow> Inl e
         | Inr t'' \<Rightarrow>
             Inr (if sql_count (fenced (j_id job) worker) t = 0 then FailSuperseded
                  else FailStatus status, t''))"

definition fail ::
  "string \<Rightarrow> string \<Rightarrow> string \<Rightarrow> epoch \<Rightarrow> rat \<Rightarrow> rat \<Rightarrow> job list
   \<Rightarrow> db_error + (fail_outcome \<times> job list)" where
  "fail job_id worker error now base_backoff max_backoff t =
     (case sql_get j_id job_id t of
        None \<Rightarrow> Inr (FailMissing, t)
      | Some job \<Rightarrow> fail_write job worker error now base_backoff max_backoff t)"

definition fail_terminal :: "string \<Rightarrow> string \<Rightarrow> string \<Rightarrow> epoch \<Rightarrow> job list \<Rightarrow> bool \<times> job list" where
  "fail_terminal job_id worker error now t =
     (sql_count (fenced job_id worker) t \<noteq> 0,
      sql_update (fenced job_id worker)
        (\<lambda>r. r\<lparr>j_status := Failed, j_last_error := Some error, j_updated_at := now\<rparr>) t)"

definition reset_running_to_pending :: "string \<Rightarrow> epoch \<Rightarrow> job list \<Rightarrow> db_error + (nat \<times> job list)" where
  "reset_running_to_pending worker now t =
     (case checked (sql_update (held_by worker)
          (\<lambda>r. r\<lparr>j_status := Pending, j_next_run_at := now, j_locked_by := None,
                 j_locked_at := None, j_updated_at := now\<rparr>) t) of
        Inl e \<Rightarrow> Inl e
      | Inr t' \<Rightarrow> Inr (sql_count (held_by worker) t, t'))"

subsection \<open>The user-facing operations\<close>

definition list_jobs ::
  "string \<Rightarrow> job_status option \<Rightarrow> string option \<Rightarrow> nat \<Rightarrow> nat \<Rightarrow> job list \<Rightarrow> job list" where
  "list_jobs user_id status kind limit offset t =
     take limit (drop offset (sort_key (\<lambda>r. - j_created_at r)
       (filter (\<lambda>r. j_user_id r = Some user_id \<and>
                    (case status of None \<Rightarrow> True | Some s \<Rightarrow> j_status r = s) \<and>
                    (case kind of None \<Rightarrow> True | Some k \<Rightarrow> j_kind r = k)) t)))"

definition retry :: "string \<Rightarrow> string \<Rightarrow> epoch \<Rightarrow> job list \<Rightarrow> db_error + (bool \<times> job list)" where
  "retry job_id user_id now t =
     (case sql_get j_id job_id t of
        None \<Rightarrow> Inr (False, t)
      | Some job \<Rightarrow>
          if j_user_id job \<noteq> Some user_id \<or> j_status job \<noteq> Failed then Inr (False, t)
          else (case checked (sql_update (\<lambda>r. j_id r = job_id)
                  (\<lambda>r. r\<lparr>j_status := Pending, j_attempts := 0, j_next_run_at := now,
                         j_last_error := None, j_locked_by := None, j_locked_at := None,
                         j_updated_at := now\<rparr>) t) of
                  Inl e \<Rightarrow> Inl e
                | Inr t' \<Rightarrow> Inr (True, t')))"

definition sweep_done :: "epoch \<Rightarrow> epoch \<Rightarrow> job list \<Rightarrow> nat \<times> job list" where
  "sweep_done older_than now t =
     (let old = (\<lambda>r. j_status r = Done \<and> j_updated_at r < now - older_than)
      in (sql_count old t, sql_delete old t))"

definition dismiss :: "string \<Rightarrow> string \<Rightarrow> job list \<Rightarrow> bool \<times> job list" where
  "dismiss job_id user_id t =
     (case sql_get j_id job_id t of
        None \<Rightarrow> (False, t)
      | Some job \<Rightarrow>
          if j_user_id job \<noteq> Some user_id \<or> j_status job \<notin> {Done, Failed} then (False, t)
          else (True, sql_delete (\<lambda>r. j_id r = job_id) t))"

definition delete_jobs_for_workspace :: "string \<Rightarrow> string \<Rightarrow> job list \<Rightarrow> job list" where
  "delete_jobs_for_workspace user_id workspace t =
     sql_delete (\<lambda>r. j_user_id r = Some user_id \<and>
                     json_extract (j_payload r) ''workspace'' = Some workspace) t"

subsection \<open>The invariant of the queue\<close>

text \<open>Identifiers are unique, at most one pending row per kind and key, at most one running row
  per key, running rows are locked and pending rows are not.\<close>

definition row_ok :: "job \<Rightarrow> bool" where
  "row_ok r \<longleftrightarrow>
     (j_status r = Running \<longrightarrow> j_locked_by r \<noteq> None \<and> j_locked_at r \<noteq> None) \<and>
     (j_status r = Pending \<longrightarrow> j_locked_by r = None \<and> j_locked_at r = None)"

definition running_unique :: "job list \<Rightarrow> bool" where
  "running_unique t = uniq_by j_id (\<lambda>r. j_status r = Running \<and> j_dedup_key r \<noteq> None)
     j_dedup_key t"

definition job_inv :: "job list \<Rightarrow> bool" where
  "job_inv t \<longleftrightarrow> distinct (map j_id t) \<and> pending_unique t \<and> running_unique t \<and>
     (\<forall>r\<in>set t. row_ok r)"

lemma job_inv_Nil [simp]: "job_inv []"
  by (simp add: job_inv_def pending_unique_def running_unique_def)

text \<open>An \<open>UPDATE\<close> of the queue that keeps the identity columns and makes no row running: what
  remains to show is the unique index and the lock columns of the selected rows.\<close>

definition keeps_identity :: "(job \<Rightarrow> job) \<Rightarrow> bool" where
  "keeps_identity f \<longleftrightarrow>
     (\<forall>r. j_id (f r) = j_id r \<and> j_kind (f r) = j_kind r \<and> j_dedup_key (f r) = j_dedup_key r)"

lemma pending_unique_update:
  assumes "pending_unique t" and "keeps_identity f"
    and "\<And>r. r \<in> set t \<Longrightarrow> P r \<Longrightarrow> j_status (f r) = Pending \<Longrightarrow> j_status r = Pending"
  shows "pending_unique (sql_update P f t)"
  using assms unfolding pending_unique_def keeps_identity_def by (intro uniq_by_update) auto

lemma running_unique_update:
  assumes "running_unique t" and "keeps_identity f"
    and "\<And>r. r \<in> set t \<Longrightarrow> P r \<Longrightarrow> j_status (f r) = Running \<Longrightarrow> j_status r = Running"
  shows "running_unique (sql_update P f t)"
  using assms unfolding running_unique_def keeps_identity_def by (intro uniq_by_update) auto

lemma job_inv_update:
  assumes "job_inv t" and "keeps_identity f" and "pending_unique (sql_update P f t)"
    and "\<And>r. r \<in> set t \<Longrightarrow> P r \<Longrightarrow> j_status (f r) = Running \<Longrightarrow> j_status r = Running"
    and "\<And>r. r \<in> set t \<Longrightarrow> P r \<Longrightarrow> row_ok (f r)"
  shows "job_inv (sql_update P f t)"
proof -
  have "map j_id (sql_update P f t) = map j_id t"
    using assms(2) by (intro map_key_sql_update) (simp add: keeps_identity_def)
  moreover have "running_unique (sql_update P f t)"
    using assms by (intro running_unique_update) (auto simp: job_inv_def)
  ultimately show ?thesis
    using assms by (auto simp: job_inv_def sql_simps)
qed

lemma job_inv_update':
  assumes "job_inv t" and "keeps_identity f"
    and "\<And>r. r \<in> set t \<Longrightarrow> P r \<Longrightarrow> j_status (f r) = Pending \<Longrightarrow> j_status r = Pending"
    and "\<And>r. r \<in> set t \<Longrightarrow> P r \<Longrightarrow> j_status (f r) = Running \<Longrightarrow> j_status r = Running"
    and "\<And>r. r \<in> set t \<Longrightarrow> P r \<Longrightarrow> row_ok r \<Longrightarrow> row_ok (f r)"
  shows "job_inv (sql_update P f t)"
proof (rule job_inv_update [OF assms(1,2)])
  show "pending_unique (sql_update P f t)"
    using assms(1-3) by (intro pending_unique_update) (auto simp: job_inv_def)
qed (use assms in \<open>auto simp: job_inv_def\<close>)

lemma job_inv_delete: "job_inv t \<Longrightarrow> job_inv (sql_delete P t)"
  by (auto simp: job_inv_def sql_simps distinct_sql_delete pending_unique_def running_unique_def
           intro: uniq_by_delete)

lemma job_inv_append:
  assumes "job_inv t" and "j_id row \<notin> j_id ` set t" and "j_status row = Pending"
    and "row_ok row"
    and "\<And>k. j_dedup_key row = Some k \<Longrightarrow> \<forall>r\<in>set t. \<not> pending_for (j_kind row) k r"
  shows "job_inv (t @ [row])"
proof -
  have "pending_unique (t @ [row])" "running_unique (t @ [row])"
    using assms unfolding job_inv_def pending_unique_def running_unique_def
    by (auto simp: pending_for_def intro!: uniq_by_append)
  then show ?thesis
    using assms by (auto simp: job_inv_def)
qed

lemma new_job_simps [simp]:
  "j_id (new_job i k p d u m ra pr now) = i"
  "j_kind (new_job i k p d u m ra pr now) = k"
  "j_dedup_key (new_job i k p d u m ra pr now) = d"
  "j_status (new_job i k p d u m ra pr now) = Pending"
  "j_next_run_at (new_job i k p d u m ra pr now) = ra"
  "j_priority (new_job i k p d u m ra pr now) = pr"
  "row_ok (new_job i k p d u m ra pr now)"
  by (simp_all add: new_job_def row_ok_def)

lemma lock_row_simps [simp]:
  "j_id (lock_row w now r) = j_id r"
  "j_kind (lock_row w now r) = j_kind r"
  "j_dedup_key (lock_row w now r) = j_dedup_key r"
  "j_status (lock_row w now r) = Running"
  "j_locked_by (lock_row w now r) = Some w"
  "j_locked_at (lock_row w now r) = Some now"
  "j_priority (lock_row w now r) = j_priority r"
  "j_next_run_at (lock_row w now r) = j_next_run_at r"
  "row_ok (lock_row w now r)"
  by (simp_all add: lock_row_def row_ok_def)

subsection \<open>Every operation keeps the invariant\<close>

lemma upsert_pending_inv [inv_intros]:
  assumes "upsert_pending row key run_at pr now t = Inr t'" and "job_inv t"
    and "j_status row = Pending" and "row_ok row" and "j_dedup_key row = Some key"
  shows "job_inv t'"
proof (cases "\<exists>r\<in>set t. pending_for (j_kind row) key r")
  case True
  with assms(1) have t': "t' = sql_update (pending_for (j_kind row) key)
      (\<lambda>r. r\<lparr>j_next_run_at := run_at, j_priority := min (j_priority r) pr, j_updated_at := now\<rparr>) t"
    by (auto simp: upsert_pending_def split: if_splits)
  show ?thesis
    unfolding t' using assms(2)
    by (intro job_inv_update') (auto simp: keeps_identity_def pending_for_def row_ok_def)
next
  case False
  with assms show ?thesis
    by (auto simp: upsert_pending_def split: if_splits intro!: job_inv_append)
qed

lemma insert_row_inv:
  "sql_insert j_id row t = Inr t' \<Longrightarrow> job_inv t \<Longrightarrow> j_status row = Pending \<Longrightarrow> row_ok row \<Longrightarrow>
     j_dedup_key row = None \<Longrightarrow> job_inv t'"
  by (auto simp: sql_insert_Inr intro!: job_inv_append)

lemma enqueue_in_session_inv [inv_intros]:
  assumes "enqueue_in_session jid kind p d u m delay pr now t = Inr (i, t')" and "job_inv t"
  shows "job_inv t'"
  using assms
  by (cases d)
     (auto simp: enqueue_in_session_def Let_def split: sum.splits
           intro: insert_row_inv upsert_pending_inv)

lemma insert_plain_inv:
  "insert_plain kind m ra pr now es t = Inr t' \<Longrightarrow> job_inv t \<Longrightarrow> job_inv t'"
proof (induction kind m ra pr now es t rule: insert_plain.induct)
  case (2 kind m ra pr now i jid e es t)
  then show ?case by (auto split: sum.splits dest: insert_row_inv)
qed simp

lemma upsert_rows_inv:
  "upsert_rows kind m ra pr now es t = Inr (ret, t') \<Longrightarrow> job_inv t \<Longrightarrow> job_inv t'"
proof (induction kind m ra pr now es t arbitrary: ret rule: upsert_rows.induct)
  case (2 kind m ra pr now i jid e es t)
  let ?key = "the (e_dedup_key e)"
  let ?row = "new_job jid kind (e_payload e) (Some ?key) (e_user_id e) m ra pr now"
  from "2.prems" obtain t1 rid ret' where
    t1: "upsert_pending ?row ?key ra pr now t = Inr t1" and
    rid: "select_pending_id kind ?key t1 = Inr rid" and
    rest: "upsert_rows kind m ra pr now es t1 = Inr (ret', t')"
    by (auto simp: Let_def split: sum.splits)
  have "job_inv t1"
    using t1 "2.prems" by (intro upsert_pending_inv [OF t1]) auto
  with "2.IH" [OF refl refl t1 rid rest] show ?case by blast
qed simp

lemma enqueue_chunks_inv:
  "enqueue_chunks kind m ra pr now chunks ids t = Inr (ids', t') \<Longrightarrow> job_inv t \<Longrightarrow> job_inv t'"
  by (induction kind m ra pr now chunks ids t rule: enqueue_chunks.induct)
     (auto simp: Let_def split: sum.splits prod.splits dest: upsert_rows_inv)

lemma enqueue_many_in_session_inv [inv_intros]:
  "enqueue_many_in_session gens kind es m delay pr now t = Inr (ids, t') \<Longrightarrow> job_inv t \<Longrightarrow> job_inv t'"
  by (auto simp: enqueue_many_in_session_def Let_def split: sum.splits
           dest: insert_plain_inv enqueue_chunks_inv)

lemma claim_candidates_sub: "set (claim_candidates now c t) \<subseteq> set t"
  by (auto simp: claim_candidates_def)

lemma arg_min_list_least:
  "xs \<noteq> [] \<Longrightarrow> arg_min_list f xs \<in> set xs \<and> (\<forall>x\<in>set xs. f (arg_min_list f xs) \<le> f x)"
  by (simp add: arg_min_list_in f_arg_min_list_f)

lemma claim_SomeD:
  assumes "claim w now stale t = (Some j', t')"
  obtains j where "j \<in> set (claim_candidates now (now - stale) t)"
    and "\<forall>c\<in>set (claim_candidates now (now - stale) t). claim_order j \<le> claim_order c"
    and "j' = lock_row w now j"
    and "t' = sql_update (\<lambda>r. j_id r = j_id j) (lock_row w now) t"
proof -
  from assms obtain c cs where cs: "claim_candidates now (now - stale) t = c # cs"
    by (auto simp: claim_def split: list.splits)
  let ?j = "arg_min_list claim_order (c # cs)"
  have "?j \<in> set (c # cs)" "\<forall>x\<in>set (c # cs). claim_order ?j \<le> claim_order x"
    using arg_min_list_least [of "c # cs" claim_order] by blast+
  moreover have "j' = lock_row w now ?j" "t' = sql_update (\<lambda>r. j_id r = j_id ?j) (lock_row w now) t"
    using assms cs by (auto simp: claim_def Let_def)
  ultimately show ?thesis using that cs by metis
qed

lemma running_unique_lock:
  assumes "running_unique t" and "distinct (map j_id t)" and "j \<in> set t" and "\<not> key_running t j"
  shows "running_unique (sql_update (\<lambda>r. j_id r = j_id j) (lock_row w now) t)"
proof -
  have "r = j" if "r \<in> set t" "j_id r = j_id j" for r
    using that assms(2,3) by (auto simp: distinct_map inj_on_def)
  then show ?thesis
    using assms(1,4) unfolding running_unique_def key_running_def
    by (intro uniq_by_enter) force+
qed

lemma claim_inv [inv_intros]:
  assumes "claim w now stale t = (r, t')" and "job_inv t"
  shows "job_inv t'"
proof (cases r)
  case None
  with assms show ?thesis by (auto simp: claim_def Let_def split: list.splits)
next
  case (Some j')
  with assms(1) obtain j where j: "j \<in> set (claim_candidates now (now - stale) t)"
    and t': "t' = sql_update (\<lambda>r. j_id r = j_id j) (lock_row w now) t"
    by (auto elim: claim_SomeD)
  have "pending_unique t'" "running_unique t'"
    unfolding t' using assms(2) j
    by (auto simp: job_inv_def claim_candidates_def keeps_identity_def
             intro!: pending_unique_update running_unique_lock)
  moreover have "map j_id t' = map j_id t"
    unfolding t' by (rule map_key_sql_update) simp
  ultimately show ?thesis
    using assms(2) by (auto simp: job_inv_def t' sql_simps)
qed

lemma renew_claim_inv [inv_intros]: "renew_claim w now t = (n, t') \<Longrightarrow> job_inv t \<Longrightarrow> job_inv t'"
  unfolding renew_claim_def
  by (auto simp: held_by_def row_ok_def keeps_identity_def intro!: job_inv_update')

lemma complete_inv [inv_intros]: "complete i w now t = (b, t') \<Longrightarrow> job_inv t \<Longrightarrow> job_inv t'"
  unfolding complete_def
  by (auto simp: row_ok_def keeps_identity_def intro!: job_inv_update')

lemma fail_terminal_inv [inv_intros]: "fail_terminal i w e now t = (b, t') \<Longrightarrow> job_inv t \<Longrightarrow> job_inv t'"
  unfolding fail_terminal_def
  by (auto simp: row_ok_def keeps_identity_def intro!: job_inv_update')

lemma fail_write_inv:
  "fail_write job w e now bb mb t = Inr (out, t') \<Longrightarrow> job_inv t \<Longrightarrow> job_inv t'"
  unfolding fail_write_def Let_def
  by (auto simp: checked_Inr row_ok_def keeps_identity_def split: if_splits sum.splits
           intro!: job_inv_update)

lemma fail_inv [inv_intros]: "fail i w e now bb mb t = Inr (out, t') \<Longrightarrow> job_inv t \<Longrightarrow> job_inv t'"
  by (auto simp: fail_def split: option.splits intro: fail_write_inv)

lemma reset_running_to_pending_inv [inv_intros]:
  "reset_running_to_pending w now t = Inr (n, t') \<Longrightarrow> job_inv t \<Longrightarrow> job_inv t'"
  unfolding reset_running_to_pending_def
  by (auto simp: checked_Inr row_ok_def keeps_identity_def split: sum.splits intro!: job_inv_update)

lemma retry_inv [inv_intros]: "retry i u now t = Inr (b, t') \<Longrightarrow> job_inv t \<Longrightarrow> job_inv t'"
  unfolding retry_def
  by (auto simp: checked_Inr row_ok_def keeps_identity_def
           split: if_splits option.splits sum.splits intro!: job_inv_update)

lemma sweep_done_inv [inv_intros]: "sweep_done old now t = (n, t') \<Longrightarrow> job_inv t \<Longrightarrow> job_inv t'"
  by (auto simp: sweep_done_def Let_def intro: job_inv_delete)

lemma dismiss_inv [inv_intros]: "dismiss i u t = (b, t') \<Longrightarrow> job_inv t \<Longrightarrow> job_inv t'"
  by (auto simp: dismiss_def split: if_splits option.splits intro: job_inv_delete)

lemma delete_jobs_for_workspace_inv [inv_intros]: "job_inv t \<Longrightarrow> job_inv (delete_jobs_for_workspace u ws t)"
  unfolding delete_jobs_for_workspace_def by (rule job_inv_delete)

subsection \<open>The queue as a state machine\<close>

text \<open>One rule per committing method, with arbitrary arguments: any number of workers, users
  and enqueue sites, in any order. A method that raises rolls back and is no step.\<close>

inductive job_step :: "job list \<Rightarrow> job list \<Rightarrow> bool" where
  step_enqueue: "enqueue_in_session jid kind p d u m delay pr now t = Inr (i, t') \<Longrightarrow> job_step t t'"
| step_enqueue_many:
    "enqueue_many_in_session gens kind es m delay pr now t = Inr (ids, t') \<Longrightarrow> job_step t t'"
| step_claim: "claim w now stale t = (r, t') \<Longrightarrow> job_step t t'"
| step_renew: "renew_claim w now t = (n, t') \<Longrightarrow> job_step t t'"
| step_complete: "complete i w now t = (b, t') \<Longrightarrow> job_step t t'"
| step_fail: "fail i w e now bb mb t = Inr (out, t') \<Longrightarrow> job_step t t'"
| step_fail_terminal: "fail_terminal i w e now t = (b, t') \<Longrightarrow> job_step t t'"
| step_reset: "reset_running_to_pending w now t = Inr (n, t') \<Longrightarrow> job_step t t'"
| step_retry: "retry i u now t = Inr (b, t') \<Longrightarrow> job_step t t'"
| step_sweep: "sweep_done old now t = (n, t') \<Longrightarrow> job_step t t'"
| step_dismiss: "dismiss i u t = (b, t') \<Longrightarrow> job_step t t'"
| step_delete_ws: "job_step t (delete_jobs_for_workspace u ws t)"

lemma job_step_inv: "job_step t t' \<Longrightarrow> job_inv t \<Longrightarrow> job_inv t'"
  by (induction rule: job_step.induct) (blast intro: inv_intros)+

interpretation jobq: inv_machine "[]" job_step job_inv
  by unfold_locales (auto intro: job_step_inv)

subsection \<open>What the claims promise\<close>

lemma job_inv_get:
  "job_inv t \<Longrightarrow> sql_get j_id i t = Some r \<longleftrightarrow> r \<in> set t \<and> j_id r = i"
  by (rule sql_get_Some_iff) (simp add: job_inv_def)

lemma job_inv_same_id: "job_inv t \<Longrightarrow> r \<in> set t \<Longrightarrow> s \<in> set t \<Longrightarrow> j_id r = j_id s \<Longrightarrow> r = s"
  unfolding job_inv_def by (auto simp: distinct_map inj_on_def)

lemma sql_get_update_other:
  "(\<And>r. j_id (f r) = j_id r) \<Longrightarrow> (\<And>r. P r \<Longrightarrow> j_id r \<noteq> i) \<Longrightarrow>
     sql_get j_id i (sql_update P f t) = sql_get j_id i t"
  by (induction t) (auto simp: sql_get_def)

lemma sql_get_update_row:
  "(\<And>r. j_id (f r) = j_id r) \<Longrightarrow>
     sql_get j_id i (sql_update P f t) = map_option (\<lambda>r. if P r then f r else r) (sql_get j_id i t)"
  by (induction t) (auto simp: sql_get_def)


text \<open>C3: a claim returns nothing exactly when no row is both runnable (pending and due, or
  running with a lapsed lease) and free of a running row with its key; otherwise it returns such
  a row, of least (priority, next_run_at) among them, now locked by the worker, and changes no
  other row.\<close>

theorem claim_correct:
  assumes "job_inv t"
  shows "(claim w now stale t = (None, t) \<and> claim_candidates now (now - stale) t = []) \<or>
     (\<exists>j t'. claim w now stale t = (Some (lock_row w now j), t') \<and> j \<in> set t \<and>
        claim_runnable now (now - stale) j \<and> \<not> key_running t j \<and>
        (\<forall>c\<in>set t. claim_runnable now (now - stale) c \<and> \<not> key_running t c \<longrightarrow>
           claim_order j \<le> claim_order c) \<and>
        sql_get j_id (j_id j) t' = Some (lock_row w now j) \<and>
        (\<forall>i. i \<noteq> j_id j \<longrightarrow> sql_get j_id i t' = sql_get j_id i t))"
proof (cases "claim_candidates now (now - stale) t")
  case Nil
  then show ?thesis by (simp add: claim_def)
next
  case (Cons c cs)
  then obtain j' t' where c: "claim w now stale t = (Some j', t')"
    by (auto simp: claim_def Let_def)
  then obtain j where j: "j \<in> set (claim_candidates now (now - stale) t)"
    "\<forall>c\<in>set (claim_candidates now (now - stale) t). claim_order j \<le> claim_order c"
    "j' = lock_row w now j" "t' = sql_update (\<lambda>r. j_id r = j_id j) (lock_row w now) t"
    by (rule claim_SomeD)
  then have "sql_get j_id (j_id j) t = Some j"
    using assms job_inv_get [OF assms] claim_candidates_sub by blast
  then have "sql_get j_id (j_id j) t' = Some (lock_row w now j)"
    by (simp add: j(4) sql_get_update_row)
  moreover have "\<forall>i. i \<noteq> j_id j \<longrightarrow> sql_get j_id i t' = sql_get j_id i t"
    by (auto simp: j(4) intro!: sql_get_update_other)
  ultimately show ?thesis
    using c j by (auto simp: claim_candidates_def)
qed

text \<open>While the lease of a claim has not lapsed, a later claim by any worker returns
  neither that row nor a row with the same key.\<close>

theorem claim_exclusive:
  assumes "job_inv t" and "claim w now stale t = (Some a, t1)"
    and "claim w' now' stale' t1 = (Some b, t2)" and "now' - stale' \<le> now"
  shows "j_id a \<noteq> j_id b \<and> (j_dedup_key a \<noteq> None \<longrightarrow> j_dedup_key a \<noteq> j_dedup_key b)"
proof -
  from assms(2) obtain j where j: "j \<in> set (claim_candidates now (now - stale) t)"
    "a = lock_row w now j" "t1 = sql_update (\<lambda>r. j_id r = j_id j) (lock_row w now) t"
    by (rule claim_SomeD)
  then have a: "a \<in> set t1"
    using claim_candidates_sub by (fastforce simp: sql_simps)
  have inv1: "job_inv t1" using claim_inv assms(1,2) by blast
  from assms(3) obtain k where k: "k \<in> set (claim_candidates now' (now' - stale') t1)"
    "b = lock_row w' now' k"
    by (rule claim_SomeD)
  then have kt: "k \<in> set t1" "claim_runnable now' (now' - stale') k" "\<not> key_running t1 k"
    by (auto simp: claim_candidates_def)
  have "j_id a \<noteq> j_id k"
  proof
    assume "j_id a = j_id k"
    then have "a = k" using job_inv_same_id [OF inv1 a kt(1)] by simp
    then have "claim_runnable now' (now' - stale') (lock_row w now j)"
      using kt(2) by (simp add: j(2))
    with assms(4) show False by (simp add: claim_runnable_def)
  qed
  moreover have "j_dedup_key a \<noteq> None \<longrightarrow> j_dedup_key a \<noteq> j_dedup_key k"
    using kt(3) a \<open>j_id a \<noteq> j_id k\<close> by (auto simp: key_running_def j(2))
  ultimately show ?thesis by (simp add: k(2))
qed

subsection \<open>Fencing, failures and debounce\<close>

lemma fail_write_cases:
  assumes "fail_write job w e now bb mb t = Inr (out, t')"
  shows "t' = sql_update (fenced (j_id job) w)
      (\<lambda>r. if j_attempts job + 1 \<ge> j_max_attempts job
           then r\<lparr>j_attempts := j_attempts job + 1, j_last_error := Some e, j_updated_at := now,
                  j_status := Failed, j_next_run_at := j_next_run_at job,
                  j_locked_by := Some w, j_locked_at := j_locked_at job\<rparr>
           else r\<lparr>j_attempts := j_attempts job + 1, j_last_error := Some e, j_updated_at := now,
                  j_status := Pending,
                  j_next_run_at := now + backoff_seconds (j_attempts job + 1) bb mb,
                  j_locked_by := None, j_locked_at := None\<rparr>) t \<and>
    out = (if sql_count (fenced (j_id job) w) t = 0 then FailSuperseded
           else FailStatus (if j_attempts job + 1 \<ge> j_max_attempts job then Failed else Pending))"
  using assms by (auto simp: fail_write_def Let_def checked_Inr split: if_splits sum.splits)

text \<open>C4: a worker whose row another worker has reclaimed cannot change the table. Its
  \<open>complete\<close> and \<open>fail_terminal\<close> return False and its \<open>fail\<close>, whatever row it had
  read before the reclaim, reports \<open>superseded\<close>; none of them touches any row.\<close>

theorem superseded_worker_is_fenced:
  assumes "job_inv t" and "sql_get j_id i t = Some r" and "j_locked_by r \<noteq> Some w"
    and "j_id stale_read = i"
  shows "complete i w now t = (False, t) \<and> fail_terminal i w e now t = (False, t) \<and>
     fail_write stale_read w e now bb mb t = Inr (FailSuperseded, t)"
proof -
  have "\<forall>x\<in>set t. \<not> fenced i w x"
  proof (intro ballI notI)
    fix x assume "x \<in> set t" "fenced i w x"
    moreover have "r \<in> set t" "j_id r = i" using assms(2) job_inv_get [OF assms(1)] by auto
    ultimately show False
      using job_inv_same_id [OF assms(1), of x r] assms(3) by (simp add: fenced_def)
  qed
  moreover from this have "sql_count (fenced i w) t = 0"
    by (simp add: sql_count_0)
  moreover have "pending_unique t" using assms(1) by (simp add: job_inv_def)
  ultimately show ?thesis
    using assms(4)
    by (simp add: complete_def fail_terminal_def fail_write_def checked_def sql_update_none Let_def)
qed

lemma backoff_bounds:
  assumes "0 \<le> base" and "0 \<le> cap"
  shows "0 \<le> backoff_seconds n base cap \<and> backoff_seconds n base cap \<le> cap"
proof -
  have "0 \<le> base * 2 powi (n - 1)"
    using assms(1) by simp
  then show ?thesis
    using assms(2) by (auto simp: backoff_seconds_def)
qed

text \<open>C6: a failure recorded by the lock holder counts one attempt. The last allowed attempt
  ends in \<open>failed\<close>; an earlier one goes back to \<open>pending\<close>, unlocked, due again within the
  backoff cap. Either way no other row changes.\<close>

theorem fail_retries_or_ends:
  assumes "job_inv t" and "sql_get j_id i t = Some r" and "j_locked_by r = Some w"
    and "fail i w e now bb mb t = Inr (out, t')" and "0 \<le> bb" and "0 \<le> mb"
  shows "\<exists>r'. sql_get j_id i t' = Some r' \<and> j_attempts r' = j_attempts r + 1 \<and>
     j_last_error r' = Some e \<and>
     (if j_attempts r + 1 \<ge> j_max_attempts r
      then out = FailStatus Failed \<and> j_status r' = Failed
      else out = FailStatus Pending \<and> j_status r' = Pending \<and> j_locked_by r' = None \<and>
           now \<le> j_next_run_at r' \<and> j_next_run_at r' \<le> now + mb) \<and>
     (\<forall>k. k \<noteq> i \<longrightarrow> sql_get j_id k t' = sql_get j_id k t)"
proof -
  have r: "r \<in> set t" "j_id r = i" using assms(2) job_inv_get [OF assms(1)] by auto
  have fw: "fail_write r w e now bb mb t = Inr (out, t')"
    using assms(2,4) by (simp add: fail_def)
  define f :: "job \<Rightarrow> job" where "f = (\<lambda>x. if j_attempts r + 1 \<ge> j_max_attempts r
           then x\<lparr>j_attempts := j_attempts r + 1, j_last_error := Some e, j_updated_at := now,
                  j_status := Failed, j_next_run_at := j_next_run_at r,
                  j_locked_by := Some w, j_locked_at := j_locked_at r\<rparr>
           else x\<lparr>j_attempts := j_attempts r + 1, j_last_error := Some e, j_updated_at := now,
                  j_status := Pending,
                  j_next_run_at := now + backoff_seconds (j_attempts r + 1) bb mb,
                  j_locked_by := None, j_locked_at := None\<rparr>)"
  have keep: "j_id (f x) = j_id x" for x by (simp add: f_def)
  have fr: "fenced i w r" using r assms(3) by (simp add: fenced_def)
  then have "sql_count (fenced i w) t \<noteq> 0"
    using r(1) by (auto simp: sql_count_0)
  then have t': "t' = sql_update (fenced i w) f t"
    and out: "out = FailStatus (if j_attempts r + 1 \<ge> j_max_attempts r then Failed else Pending)"
    using fail_write_cases [OF fw] r(2) by (simp_all add: f_def)
  have 1: "sql_get j_id i t' = Some (f r)"
    by (simp add: t' sql_get_update_row keep assms(2) fr)
  have 2: "sql_get j_id k t' = sql_get j_id k t" if "k \<noteq> i" for k
    unfolding t' using that by (intro sql_get_update_other) (auto simp: keep fenced_def)
  show ?thesis
    using 1 2 out backoff_bounds [OF assms(5,6), of "j_attempts r + 1"]
    by (intro exI [of _ "f r"]) (auto simp: f_def)
qed

lemma filter_pending_unique:
  assumes "job_inv t" and "r \<in> set t" and "pending_for kind key r"
  shows "filter (pending_for kind key) t = [r]"
proof -
  have eq: "s = r" if "s \<in> set t" "pending_for kind key s" for s
  proof -
    have "pending_unique t" using assms(1) by (simp add: job_inv_def)
    from uniq_byD [OF this [unfolded pending_unique_def] that(1) assms(2)]
    have "j_id s = j_id r" using assms(3) that(2) by (simp add: pending_for_def)
    then show ?thesis using job_inv_same_id [OF assms(1) that(1) assms(2)] by simp
  qed
  obtain ys zs where t: "t = ys @ r # zs" using assms(2) by (meson split_list)
  have "distinct t" using assms(1) by (auto simp: job_inv_def distinct_map)
  then have "r \<notin> set ys" "r \<notin> set zs" using t by auto
  moreover have "\<not> pending_for kind key x" if "x \<in> set ys \<union> set zs" for x
    using eq [of x] that t \<open>r \<notin> set ys\<close> \<open>r \<notin> set zs\<close> by auto
  ultimately have "filter (pending_for kind key) ys = []" "filter (pending_for kind key) zs = []"
    by (simp_all add: filter_empty_conv)
  with t assms(3) show ?thesis by simp
qed

lemma select_pending_id_eq:
  "job_inv t \<Longrightarrow> r \<in> set t \<Longrightarrow> pending_for kind key r \<Longrightarrow> select_pending_id kind key t = Inr (j_id r)"
  using filter_pending_unique by (simp add: select_pending_id_def)

lemma upsert_pending_effect:
  assumes "upsert_pending row key run_at pr now t = Inr t'" and "job_inv t"
    and "j_status row = Pending" and "row_ok row" and "j_dedup_key row = Some key"
    and "j_next_run_at row = run_at" and "j_priority row = pr"
  shows "\<exists>r\<in>set t'. pending_for (j_kind row) key r \<and> j_next_run_at r = run_at \<and>
     j_priority r \<le> pr \<and> (\<forall>s\<in>set t. pending_for (j_kind row) key s \<longrightarrow>
        j_id r = j_id s \<and> j_priority r \<le> j_priority s \<and> j_payload r = j_payload s)"
proof (cases "\<exists>r\<in>set t. pending_for (j_kind row) key r")
  case True
  then obtain s where s: "s \<in> set t" "pending_for (j_kind row) key s" by blast
  let ?f = "\<lambda>r. r\<lparr>j_next_run_at := run_at, j_priority := min (j_priority r) pr, j_updated_at := now\<rparr>"
  have t': "t' = sql_update (pending_for (j_kind row) key) ?f t"
    using assms(1) True by (auto simp: upsert_pending_def split: if_splits)
  have uniq: "u = s" if "u \<in> set t" "pending_for (j_kind row) key u" for u
  proof -
    have "u \<in> set (filter (pending_for (j_kind row) key) t)" using that by simp
    then show ?thesis by (simp add: filter_pending_unique [OF assms(2) s])
  qed
  show ?thesis
  proof (intro bexI [of _ "?f s"] conjI ballI impI)
    fix u
    assume "u \<in> set t" "pending_for (j_kind row) key u"
    then have "u = s" by (rule uniq)
    then show "j_id (?f s) = j_id u" "j_priority (?f s) \<le> j_priority u"
      "j_payload (?f s) = j_payload u" by simp_all
  qed (use s in \<open>auto simp: pending_for_def t' sql_simps\<close>)
next
  case False
  with assms show ?thesis
    by (auto simp: upsert_pending_def pending_for_def split: if_splits)
qed

lemma enqueue_debounced:
  assumes "job_inv t" and "jid \<notin> j_id ` set t"
  shows "\<exists>i t' r. enqueue_in_session jid kind p (Some key) u m delay pr now t = Inr (i, t') \<and>
     job_inv t' \<and> filter (pending_for kind key) t' = [r] \<and> j_id r = i \<and>
     j_next_run_at r = now + delay \<and> j_priority r \<le> pr \<and>
     (\<forall>s\<in>set t. pending_for kind key s \<longrightarrow>
        i = j_id s \<and> j_priority r \<le> j_priority s \<and> j_payload r = j_payload s)"
proof -
  let ?row = "new_job jid kind p (Some key) u m (now + delay) pr now"
  obtain t' where t': "upsert_pending ?row key (now + delay) pr now t = Inr t'"
    using assms(2) by (cases "\<exists>r\<in>set t. pending_for kind key r") (auto simp: upsert_pending_def)
  have inv: "job_inv t'" by (rule upsert_pending_inv [OF t' assms(1)]) simp_all
  obtain r where r: "r \<in> set t'" "pending_for kind key r" "j_next_run_at r = now + delay"
    "j_priority r \<le> pr" "\<forall>s\<in>set t. pending_for kind key s \<longrightarrow>
        j_id r = j_id s \<and> j_priority r \<le> j_priority s \<and> j_payload r = j_payload s"
    using upsert_pending_effect [OF t' assms(1)] by auto
  have "enqueue_in_session jid kind p (Some key) u m delay pr now t = Inr (j_id r, t')"
    using t' select_pending_id_eq [OF inv r(1,2)] by (simp add: enqueue_in_session_def)
  then show ?thesis
    using inv r filter_pending_unique [OF inv r(1,2)] by auto
qed

text \<open>C7: enqueueing with a key debounces. If the insert does not collide on the generated
  identifier it succeeds, the returned identifier names the one pending row of that kind and
  key, due at the new time, and a pending row that was already there is the one returned, with
  its payload kept and its priority never worse than before or than requested.\<close>

theorem enqueue_debounces:
  assumes "job_inv t" and "jid \<notin> j_id ` set t"
  shows "\<exists>i t' r. enqueue_in_session jid kind p (Some key) u m delay pr now t = Inr (i, t') \<and>
     job_inv t' \<and> filter (pending_for kind key) t' = [r] \<and> j_id r = i \<and>
     j_next_run_at r = now + delay \<and> j_priority r \<le> pr \<and>
     (\<forall>s\<in>set t. pending_for kind key s \<longrightarrow>
        i = j_id s \<and> j_priority r \<le> j_priority s \<and> j_payload r = j_payload s)"
  by (rule enqueue_debounced [OF assms])

text \<open>C20: A defect: while a follow-up with the same kind and key is already pending, the lock
  holder of a running job cannot record a retryable failure. The \<open>UPDATE\<close> to \<open>pending\<close>
  violates the unique index, so \<open>fail\<close> raises, the row stays running, and no claim can return
  the follow-up either, because a running row holds its key.\<close>

theorem retry_blocked_by_followup:
  assumes "job_inv t" and "r \<in> set t" and "held_by w r" and "s \<in> set t"
    and "j_dedup_key r = Some key" and "pending_for (j_kind r) key s"
    and "j_attempts r + 1 < j_max_attempts r"
  shows "fail (j_id r) w e now bb mb t = Inl IntegrityError \<and>
     (\<forall>w' now' stale j t'. claim w' now' stale t = (Some j, t') \<longrightarrow> j_id j \<noteq> j_id s)"
proof -
  have ne: "j_id r \<noteq> j_id s"
    using assms(3,6) job_inv_same_id [OF assms(1,2,4)] by (auto simp: held_by_def pending_for_def)
  let ?f = "\<lambda>r'. r'\<lparr>j_attempts := j_attempts r + 1, j_last_error := Some e, j_updated_at := now,
      j_status := Pending, j_next_run_at := now + backoff_seconds (j_attempts r + 1) bb mb,
      j_locked_by := None, j_locked_at := None\<rparr>"
  let ?t = "sql_update (fenced (j_id r) w) ?f t"
  have "?f r \<in> set ?t" "s \<in> set ?t"
    using assms(2-4) ne by (auto simp: sql_simps fenced_def held_by_def)
  then have "\<not> pending_unique ?t"
    using assms(5,6) ne uniq_byD [of j_id "\<lambda>r. j_status r = Pending \<and> j_dedup_key r \<noteq> None"
        "\<lambda>r. (j_kind r, j_dedup_key r)" ?t "?f r" s]
    by (auto simp: pending_unique_def pending_for_def)
  then have "fail_write r w e now bb mb t = Inl IntegrityError"
    using assms(7) by (simp add: fail_write_def checked_def)
  moreover have "sql_get j_id (j_id r) t = Some r"
    using job_inv_get [OF assms(1)] assms(2) by simp
  ultimately have "fail (j_id r) w e now bb mb t = Inl IntegrityError"
    by (simp add: fail_def)
  moreover have "j_id j \<noteq> j_id s" if "claim w' now' stale t = (Some j, t')" for w' now' stale j t'
  proof -
    from that obtain c where "c \<in> set (claim_candidates now' (now' - stale) t)" "j = lock_row w' now' c"
      by (rule claim_SomeD)
    moreover have "key_running t s"
      unfolding key_running_def using assms ne
      by (intro bexI [of _ r]) (auto simp: held_by_def pending_for_def)
    ultimately show ?thesis
      using job_inv_same_id [OF assms(1) _ assms(4), of c] by (auto simp: claim_candidates_def)
  qed
  ultimately show ?thesis by blast
qed

subsection \<open>The batch enqueue\<close>

text \<open>\<open>i\<close> names a pending row of this kind and key.\<close>

definition pending_as :: "job list \<Rightarrow> string \<Rightarrow> string option \<Rightarrow> string \<Rightarrow> bool" where
  "pending_as t kind dk i \<longleftrightarrow>
     (\<exists>r\<in>set t. j_id r = i \<and> j_kind r = kind \<and> j_status r = Pending \<and> j_dedup_key r = dk)"

lemma upsert_pending_keeps:
  assumes "upsert_pending row key ra pr now t = Inr t'"
  shows "j_id ` set t' \<subseteq> insert (j_id row) (j_id ` set t)"
    and "pending_as t kd dk i \<Longrightarrow> pending_as t' kd dk i"
proof -
  let ?P = "pending_for (j_kind row) key"
  let ?f = "\<lambda>r. r\<lparr>j_next_run_at := ra, j_priority := min (j_priority r) pr, j_updated_at := now\<rparr>"
  have t': "t' = (if \<exists>r\<in>set t. ?P r then sql_update ?P ?f t else t @ [row])"
    using assms by (auto simp: upsert_pending_def split: if_splits)
  show "j_id ` set t' \<subseteq> insert (j_id row) (j_id ` set t)"
    by (auto simp: t' sql_simps)
  assume "pending_as t kd dk i"
  then obtain r where r: "r \<in> set t" "j_id r = i" "j_kind r = kd" "j_status r = Pending"
    "j_dedup_key r = dk" by (auto simp: pending_as_def)
  then have "(if \<exists>r\<in>set t. ?P r then (if ?P r then ?f r else r) else r) \<in> set t'"
    by (auto simp: t' sql_simps)
  then show "pending_as t' kd dk i"
    unfolding pending_as_def using r by (rule_tac bexI) auto
qed

lemma insert_plain_ok:
  assumes "job_inv t" and "distinct (map entry_gen es)"
    and "\<forall>x\<in>set es. entry_gen x \<notin> j_id ` set t"
  shows "\<exists>t'. insert_plain kind m ra pr now es t = Inr t' \<and> job_inv t' \<and>
     j_id ` set t' \<subseteq> j_id ` set t \<union> entry_gen ` set es \<and>
     (\<forall>kd dk i. pending_as t kd dk i \<longrightarrow> pending_as t' kd dk i) \<and>
     (\<forall>x\<in>set es. pending_as t' kind None (entry_gen x))"
  using assms
proof (induction es arbitrary: t)
  case Nil
  then show ?case by auto
next
  case (Cons x es)
  obtain i g e where x: "x = (i, g, e)" by (cases x)
  let ?row = "new_job g kind (e_payload e) None (e_user_id e) m ra pr now"
  let ?t1 = "t @ [?row]"
  have ins: "sql_insert j_id ?row t = Inr ?t1"
    using Cons.prems x by (simp add: sql_insert_def)
  then have "job_inv ?t1" using Cons.prems(1) by (rule insert_row_inv) simp_all
  moreover have "\<forall>y\<in>set es. entry_gen y \<notin> j_id ` set ?t1"
    using Cons.prems(2,3) x by (simp add: image_iff) metis
  ultimately obtain t' where t': "insert_plain kind m ra pr now es ?t1 = Inr t'" "job_inv t'"
    "j_id ` set t' \<subseteq> j_id ` set ?t1 \<union> entry_gen ` set es"
    "\<forall>kd dk i. pending_as ?t1 kd dk i \<longrightarrow> pending_as t' kd dk i"
    "\<forall>x\<in>set es. pending_as t' kind None (entry_gen x)"
    using Cons.IH [of ?t1] Cons.prems(2) x by auto
  moreover have "pending_as ?t1 kind None g" "pending_as t kd dk i \<Longrightarrow> pending_as ?t1 kd dk i" for kd dk i
    by (auto simp: pending_as_def)
  ultimately show ?case
    using ins x by (intro exI [of _ t']) auto
qed

lemma upsert_rows_ok:
  assumes "job_inv t" and "distinct (map entry_gen es)"
    and "\<forall>x\<in>set es. entry_gen x \<notin> j_id ` set t"
  shows "\<exists>ret t'. upsert_rows kind m ra pr now es t = Inr (ret, t') \<and> job_inv t' \<and>
     j_id ` set t' \<subseteq> j_id ` set t \<union> entry_gen ` set es \<and>
     map fst ret = map (\<lambda>x. the (e_dedup_key (entry_of x))) es \<and>
     (\<forall>kd dk i. pending_as t kd dk i \<longrightarrow> pending_as t' kd dk i) \<and>
     (\<forall>(k, i)\<in>set ret. pending_as t' kind (Some k) i)"
  using assms
proof (induction es arbitrary: t)
  case Nil
  then show ?case by auto
next
  case (Cons x es)
  obtain n g e where x: "x = (n, g, e)" by (cases x)
  let ?key = "the (e_dedup_key e)"
  let ?row = "new_job g kind (e_payload e) (Some ?key) (e_user_id e) m ra pr now"
  obtain t1 where t1: "upsert_pending ?row ?key ra pr now t = Inr t1"
    using Cons.prems(3) x
    by (cases "\<exists>r\<in>set t. pending_for kind ?key r") (auto simp: upsert_pending_def)
  have inv1: "job_inv t1" by (rule upsert_pending_inv [OF t1 Cons.prems(1)]) simp_all
  obtain r where r: "r \<in> set t1" "pending_for kind ?key r"
    using upsert_pending_effect [OF t1 Cons.prems(1)] by auto
  have sel: "select_pending_id kind ?key t1 = Inr (j_id r)"
    using inv1 r by (rule select_pending_id_eq)
  have p1: "pending_as t1 kind (Some ?key) (j_id r)"
    using r by (auto simp: pending_as_def pending_for_def)
  have ids1: "j_id ` set t1 \<subseteq> insert g (j_id ` set t)"
    using upsert_pending_keeps(1) [OF t1] by simp
  have fresh1: "\<forall>y\<in>set es. entry_gen y \<notin> j_id ` set t1"
  proof
    fix y assume "y \<in> set es"
    then have "entry_gen y \<noteq> g" "entry_gen y \<notin> j_id ` set t"
      using Cons.prems(2,3) x by auto
    with ids1 show "entry_gen y \<notin> j_id ` set t1" by blast
  qed
  obtain ret t' where t': "upsert_rows kind m ra pr now es t1 = Inr (ret, t')" "job_inv t'"
    "j_id ` set t' \<subseteq> j_id ` set t1 \<union> entry_gen ` set es"
    "map fst ret = map (\<lambda>x. the (e_dedup_key (entry_of x))) es"
    "\<forall>kd dk i. pending_as t1 kd dk i \<longrightarrow> pending_as t' kd dk i"
    "\<forall>(k, i)\<in>set ret. pending_as t' kind (Some k) i"
    using Cons.IH [OF inv1 _ fresh1] Cons.prems(2) x by auto
  have run: "upsert_rows kind m ra pr now (x # es) t = Inr ((?key, j_id r) # ret, t')"
    using t1 sel t'(1) x by (simp add: Let_def)
  have ids: "j_id ` set t' \<subseteq> j_id ` set t \<union> entry_gen ` set (x # es)"
    using t'(3) ids1 x by auto
  have keep: "\<forall>kd dk i. pending_as t kd dk i \<longrightarrow> pending_as t' kd dk i"
    using upsert_pending_keeps(2) [OF t1] t'(5) by blast
  have "\<forall>(k, i)\<in>set ((?key, j_id r) # ret). pending_as t' kind (Some k) i"
    using t'(5,6) p1 by simp
  moreover have "map fst ((?key, j_id r) # ret) = map (\<lambda>x. the (e_dedup_key (entry_of x))) (x # es)"
    using t'(4) x by simp
  ultimately show ?case
    using run t'(2) ids keep by blast
qed

lemma enqueue_chunks_ok:
  assumes "job_inv t" and "distinct (map entry_gen (concat chunks))"
    and "\<forall>x\<in>set (concat chunks). entry_gen x \<notin> j_id ` set t"
    and "distinct (map entry_no (concat chunks))"
    and "\<forall>x\<in>set (concat chunks). entry_no x < length ids"
  shows "\<exists>ids' t'. enqueue_chunks kind m ra pr now chunks ids t = Inr (ids', t') \<and> job_inv t' \<and>
     length ids' = length ids \<and>
     (\<forall>i. i \<notin> entry_no ` set (concat chunks) \<longrightarrow> ids' ! i = ids ! i) \<and>
     (\<forall>kd dk i. pending_as t kd dk i \<longrightarrow> pending_as t' kd dk i) \<and>
     (\<forall>x\<in>set (concat chunks). pending_as t' kind (Some (the (e_dedup_key (entry_of x))))
        (ids' ! entry_no x))"
  using assms
proof (induction chunks arbitrary: t ids)
  case Nil
  then show ?case by auto
next
  case (Cons chunk chunks)
  obtain ret t1 where t1: "upsert_rows kind m ra pr now chunk t = Inr (ret, t1)" "job_inv t1"
    "j_id ` set t1 \<subseteq> j_id ` set t \<union> entry_gen ` set chunk"
    "map fst ret = map (\<lambda>x. the (e_dedup_key (entry_of x))) chunk"
    "\<forall>kd dk i. pending_as t kd dk i \<longrightarrow> pending_as t1 kd dk i"
    "\<forall>(k, i)\<in>set ret. pending_as t1 kind (Some k) i"
    using upsert_rows_ok [OF Cons.prems(1), of chunk kind m ra pr now] Cons.prems(2,3) by auto
  let ?F = "\<lambda>x. the (map_of (rev ret) (the (e_dedup_key (entry_of x))))"
  let ?ids = "foldl (\<lambda>ids x. ids[entry_no x := ?F x]) ids chunk"
  have F: "pending_as t1 kind (Some (the (e_dedup_key (entry_of x)))) (?F x)" if "x \<in> set chunk" for x
  proof -
    let ?k = "the (e_dedup_key (entry_of x))"
    have "?k \<in> fst ` set (rev ret)"
      using that t1(4) by (metis image_eqI image_set set_rev)
    then obtain i where i: "map_of (rev ret) ?k = Some i"
      by (metis map_of_eq_None_iff not_None_eq)
    then have "(?k, i) \<in> set ret" by (metis map_of_SomeD set_rev)
    with t1(6) i show ?thesis by auto
  qed
  have fresh: "\<forall>x\<in>set (concat chunks). entry_gen x \<notin> j_id ` set t1"
  proof
    fix x assume x: "x \<in> set (concat chunks)"
    then have "entry_gen x \<notin> entry_gen ` set chunk"
      using Cons.prems(2) by auto
    moreover have "entry_gen x \<notin> j_id ` set t"
      using Cons.prems(3) x by simp
    ultimately show "entry_gen x \<notin> j_id ` set t1"
      using t1(3) by blast
  qed
  obtain ids' t' where t': "enqueue_chunks kind m ra pr now chunks ?ids t1 = Inr (ids', t')"
    "job_inv t'" "length ids' = length ids"
    "\<forall>i. i \<notin> entry_no ` set (concat chunks) \<longrightarrow> ids' ! i = ?ids ! i"
    "\<forall>kd dk i. pending_as t1 kd dk i \<longrightarrow> pending_as t' kd dk i"
    "\<forall>x\<in>set (concat chunks). pending_as t' kind (Some (the (e_dedup_key (entry_of x))))
        (ids' ! entry_no x)"
    using Cons.IH [OF t1(2) _ fresh, of ?ids] Cons.prems(2,4,5) by auto
  have run: "enqueue_chunks kind m ra pr now (chunk # chunks) ids t = Inr (ids', t')"
    using t1(1) t'(1) by (simp add: Let_def)
  have "pending_as t' kind (Some (the (e_dedup_key (entry_of x)))) (ids' ! entry_no x)"
    if x: "x \<in> set chunk" for x
  proof -
    have "entry_no x \<notin> entry_no ` set (concat chunks)"
      using Cons.prems(4) x by auto
    then have "ids' ! entry_no x = ?ids ! entry_no x" using t'(4) by blast
    also have "\<dots> = ?F x"
      using Cons.prems(4,5) x by (intro foldl_update_nth) auto
    finally show ?thesis using F [OF x] t'(5) by simp
  qed
  moreover have "ids' ! i = ids ! i" if i: "i \<notin> entry_no ` set (concat (chunk # chunks))" for i
  proof -
    have ni: "i \<notin> entry_no ` set (concat chunks)" "\<forall>x\<in>set chunk. entry_no x \<noteq> i"
      using i by auto
    have "ids' ! i = ?ids ! i" using ni(1) t'(4) by blast
    also have "\<dots> = ids ! i" using ni(2) by (rule foldl_update_other)
    finally show ?thesis .
  qed
  ultimately show ?case
    using run t' t1(5) by (intro exI [of _ ids'] exI [of _ t']) auto
qed

text \<open>A batch enqueue with fresh identifiers succeeds for any batch size (whatever the
  chunking), keeps the invariant, and returns one identifier per entry, each naming a pending
  row of the batch's kind and the entry's key; pending rows that were there stay pending.\<close>

theorem enqueue_many_correct:
  assumes "job_inv t" and "length gens = length entries" and "distinct gens"
    and "\<forall>g\<in>set gens. g \<notin> j_id ` set t"
  shows "\<exists>ids t'. enqueue_many_in_session gens kind entries m delay pr now t = Inr (ids, t') \<and>
     job_inv t' \<and> length ids = length entries \<and>
     (\<forall>i<length entries. pending_as t' kind (e_dedup_key (entries ! i)) (ids ! i)) \<and>
     (\<forall>kd dk i. pending_as t kd dk i \<longrightarrow> pending_as t' kd dk i)"
proof -
  define numbered where "numbered = zip [0..<length entries] (zip gens entries)"
  define plain where "plain = filter (\<lambda>x. e_dedup_key (entry_of x) = None) numbered"
  define ded where "ded = filter (\<lambda>x. e_dedup_key (entry_of x) \<noteq> None) numbered"
  define ids0 :: "string list" where "ids0 = foldl (\<lambda>ids x. ids[entry_no x := entry_gen x])
      (replicate (length entries) []) plain"
  have num: "map entry_no numbered = [0..<length entries]" "map entry_gen numbered = gens"
    using assms(2) by (auto simp: numbered_def intro!: nth_equalityI)
  then have dist: "distinct (map entry_no numbered)" "distinct (map entry_gen numbered)"
    using assms(3) by simp_all
  have sub: "set plain \<subseteq> set numbered" "set ded \<subseteq> set numbered"
    by (auto simp: plain_def ded_def)
  have gens: "entry_gen x \<in> set gens" if "x \<in> set numbered" for x
    using that num(2) by (metis image_eqI image_set)
  have len0: "length ids0 = length entries" by (simp add: ids0_def)
  obtain t1 where t1: "insert_plain kind m (now + delay) pr now plain t = Inr t1" "job_inv t1"
    "j_id ` set t1 \<subseteq> j_id ` set t \<union> entry_gen ` set plain"
    "\<forall>kd dk i. pending_as t kd dk i \<longrightarrow> pending_as t1 kd dk i"
    "\<forall>x\<in>set plain. pending_as t1 kind None (entry_gen x)"
    using insert_plain_ok [OF assms(1), of plain kind m "now + delay" pr now] assms(4) gens sub dist
    by (auto simp: plain_def distinct_map_filter)
  have conc: "concat (batched ENQUEUE_UPSERT_CHUNK_SIZE ded) = ded"
    by (simp add: concat_batched ENQUEUE_UPSERT_CHUNK_SIZE_def)
  have fresh: "\<forall>x\<in>set ded. entry_gen x \<notin> j_id ` set t1"
  proof
    fix x assume x: "x \<in> set ded"
    have "entry_gen x \<notin> entry_gen ` set plain"
      using x dist(2) sub by (auto simp: plain_def ded_def distinct_map inj_on_def)
    then show "entry_gen x \<notin> j_id ` set t1"
      using t1(3) assms(4) gens x sub by blast
  qed
  have lt: "entry_no x < length entries" if "x \<in> set numbered" for x
    using that num(1) by (metis atLeastLessThan_iff image_eqI image_set set_upt)
  obtain ids t' where t': "enqueue_chunks kind m (now + delay) pr now
        (batched ENQUEUE_UPSERT_CHUNK_SIZE ded) ids0 t1 = Inr (ids, t')" "job_inv t'"
    "length ids = length ids0"
    "\<forall>i. i \<notin> entry_no ` set ded \<longrightarrow> ids ! i = ids0 ! i"
    "\<forall>kd dk i. pending_as t1 kd dk i \<longrightarrow> pending_as t' kd dk i"
    "\<forall>x\<in>set ded. pending_as t' kind (Some (the (e_dedup_key (entry_of x)))) (ids ! entry_no x)"
    using enqueue_chunks_ok [OF t1(2), of "batched ENQUEUE_UPSERT_CHUNK_SIZE ded" ids0
        kind m "now + delay" pr now] fresh dist sub lt len0
    unfolding conc by (auto simp: ded_def distinct_map_filter)
  have run: "enqueue_many_in_session gens kind entries m delay pr now t = Inr (ids, t')"
    using t1(1) t'(1)
    by (simp add: enqueue_many_in_session_def Let_def numbered_def plain_def ded_def ids0_def)
  have "pending_as t' kind (e_dedup_key (entries ! i)) (ids ! i)" if i: "i < length entries" for i
  proof -
    define x where "x = numbered ! i"
    have "i < length numbered" using i assms(2) by (simp add: numbered_def)
    then have "x \<in> set numbered" unfolding x_def by (rule nth_mem)
    moreover have "entry_no x = i" "entry_of x = entries ! i"
      using i assms(2) by (simp_all add: x_def numbered_def)
    ultimately have x: "x \<in> set numbered" "entry_no x = i" "entry_of x = entries ! i" .
    show ?thesis
    proof (cases "e_dedup_key (entries ! i)")
      case None
      then have xp: "x \<in> set plain" using x by (simp add: plain_def)
      have "i \<notin> entry_no ` set ded"
        using x dist(1) None by (auto simp: ded_def distinct_map inj_on_def)
      then have "ids ! i = ids0 ! i" using t'(4) by blast
      also have "\<dots> = entry_gen x"
        unfolding ids0_def x(2) [symmetric]
        using xp dist(1) lt [OF x(1)] by (intro foldl_update_nth) (auto simp: plain_def distinct_map_filter)
      finally show ?thesis using t1(5) t'(5) xp None by simp
    next
      case (Some k)
      then have "x \<in> set ded" using x by (simp add: ded_def)
      with t'(6) Some x show ?thesis by fastforce
    qed
  qed
  then show ?thesis
    using run t'(2,3,5) t1(4) len0 by (intro exI [of _ ids] exI [of _ t']) auto
qed

subsection \<open>The theorems at concrete tables\<close>

definition ex_job :: job where
  "ex_job = new_job ''a'' ''push'' JNull (Some ''k'') None 5 0 0 0"

definition ex_running :: job where
  "ex_running = lock_row ''w1'' 0 ex_job"

definition ex_follow :: job where
  "ex_follow = new_job ''b'' ''push'' JNull (Some ''k'') None 5 0 0 0"

lemmas ex_defs = ex_job_def ex_running_def ex_follow_def new_job_def lock_row_def

lemma ex_enqueue:
  "enqueue_in_session ''a'' ''push'' JNull (Some ''k'') None 5 0 0 0 [] = Inr (''a'', [ex_job])"
  by (simp add: enqueue_in_session_def upsert_pending_def select_pending_id_def pending_for_def
      ex_job_def)

lemma ex_claim: "claim ''w1'' 0 300 [ex_job] = (Some ex_running, [ex_running])"
  by (simp add: claim_def claim_candidates_def claim_runnable_def key_running_def ex_defs)

lemma ex_invs: "job_inv [ex_job]" "job_inv [ex_running]" "job_inv [ex_running, ex_follow]"
  by (simp_all add: job_inv_def pending_unique_def running_unique_def uniq_by_def row_ok_def ex_defs)


theorem claim_correct_witness:
  "job_inv [ex_job] \<and>
   (\<exists>j t'. claim ''w1'' 0 300 [ex_job] = (Some (lock_row ''w1'' 0 j), t') \<and> j \<in> set [ex_job] \<and>
      sql_get j_id (j_id j) t' = Some (lock_row ''w1'' 0 j))"
  using claim_correct [OF ex_invs(1), of "''w1''" 0 300] ex_invs(1) ex_claim by auto

lemma ex_claim2:
  "claim ''w2'' 10 300 [ex_running, new_job ''c'' ''push'' JNull (Some ''m'') None 5 0 0 0] =
     (Some (lock_row ''w2'' 10 (new_job ''c'' ''push'' JNull (Some ''m'') None 5 0 0 0)),
      [ex_running, lock_row ''w2'' 10 (new_job ''c'' ''push'' JNull (Some ''m'') None 5 0 0 0)])"
  by (simp add: claim_def claim_candidates_def claim_runnable_def key_running_def ex_defs)

theorem claim_exclusive_witness:
  "\<exists>a b t1 t2.
     claim ''w1'' 0 300 [ex_job, new_job ''c'' ''push'' JNull (Some ''m'') None 5 0 0 0] = (Some a, t1) \<and>
     claim ''w2'' 10 300 t1 = (Some b, t2) \<and> j_id a \<noteq> j_id b \<and> j_dedup_key a \<noteq> j_dedup_key b"
proof -
  let ?c = "new_job ''c'' ''push'' JNull (Some ''m'') None 5 0 0 0"
  have inv: "job_inv [ex_job, ?c]"
    by (simp add: job_inv_def pending_unique_def running_unique_def uniq_by_def row_ok_def ex_defs)
  have c1: "claim ''w1'' 0 300 [ex_job, ?c] = (Some ex_running, [ex_running, ?c])"
    by (simp add: claim_def claim_candidates_def claim_runnable_def key_running_def claim_order_def
        ex_defs)
  have "j_dedup_key ex_running \<noteq> None" by (simp add: ex_defs)
  with claim_exclusive [OF inv c1 ex_claim2] c1 ex_claim2 show ?thesis by auto
qed

theorem superseded_worker_is_fenced_witness:
  "complete ''a'' ''w0'' 5 [ex_running] = (False, [ex_running]) \<and>
   fail_terminal ''a'' ''w0'' ''boom'' 5 [ex_running] = (False, [ex_running]) \<and>
   fail_write ex_running ''w0'' ''boom'' 5 2 300 [ex_running] = Inr (FailSuperseded, [ex_running])"
  by (rule superseded_worker_is_fenced [OF ex_invs(2), of "''a''" ex_running "''w0''"])
     (simp_all add: sql_get_def ex_defs)

theorem fail_retries_or_ends_witness:
  "\<exists>t' r'. fail ''a'' ''w1'' ''boom'' 5 2 300 [ex_running] = Inr (FailStatus Pending, t') \<and>
     sql_get j_id ''a'' t' = Some r' \<and> j_attempts r' = 1 \<and> j_next_run_at r' \<le> 305"
proof -
  have get: "sql_get j_id ''a'' [ex_running] = Some ex_running" "j_locked_by ex_running = Some ''w1''"
    "j_attempts ex_running = 0" "j_max_attempts ex_running = 5"
    by (simp_all add: sql_get_def ex_defs)
  obtain t' where t': "fail ''a'' ''w1'' ''boom'' 5 2 300 [ex_running] = Inr (FailStatus Pending, t')"
    by (simp add: fail_def fail_write_def checked_def pending_unique_def uniq_by_def sql_get_def
        sql_count_def fenced_def ex_defs)
  show ?thesis
    using fail_retries_or_ends [OF ex_invs(2) get(1,2) t'] get t' by auto
qed

theorem enqueue_debounces_witness:
  "\<exists>i t' r. enqueue_in_session ''b'' ''push'' JNull (Some ''k'') None 5 7 0 0 [ex_job] = Inr (i, t') \<and>
     filter (pending_for ''push'' ''k'') t' = [r] \<and> i = ''a'' \<and> j_next_run_at r = 7"
proof -
  have "''b'' \<notin> j_id ` set [ex_job]" and p: "pending_for ''push'' ''k'' ex_job" "j_id ex_job = ''a''"
    by (simp_all add: ex_defs pending_for_def)
  from enqueue_debounces [OF ex_invs(1) this(1), of "''push''" JNull "''k''" None 5 7 0 0] p
  show ?thesis by auto
qed

theorem retry_blocked_by_followup_witness:
  "fail ''a'' ''w1'' ''boom'' 5 2 300 [ex_running, ex_follow] = Inl IntegrityError \<and>
   fst (claim ''w2'' 5 300 [ex_running, ex_follow]) = None"
proof -
  have "fail (j_id ex_running) ''w1'' ''boom'' 5 2 300 [ex_running, ex_follow] = Inl IntegrityError"
    using retry_blocked_by_followup [OF ex_invs(3), of ex_running "''w1''" ex_follow "''k''"
        "''boom''" 5 2 300]
    by (simp add: held_by_def pending_for_def ex_defs)
  moreover have "claim ''w2'' 5 300 [ex_running, ex_follow] = (None, [ex_running, ex_follow])"
    by (simp add: claim_def claim_candidates_def claim_runnable_def key_running_def ex_defs)
  ultimately show ?thesis by (simp add: ex_defs)
qed

theorem enqueue_many_correct_witness:
  "\<exists>ids t'. enqueue_many_in_session [''x'', ''y''] ''embed''
       [\<lparr>e_payload = JNull, e_dedup_key = Some ''k'', e_user_id = None\<rparr>,
        \<lparr>e_payload = JNull, e_dedup_key = Some ''k'', e_user_id = None\<rparr>] 5 0 10 0 [ex_job] =
       Inr (ids, t') \<and>
     job_inv t' \<and> length ids = 2 \<and> pending_as t' ''embed'' (Some ''k'') (ids ! 1)"
proof -
  let ?e = "\<lparr>e_payload = JNull, e_dedup_key = Some ''k'', e_user_id = None\<rparr> :: job_entry"
  have "\<forall>g\<in>set [''x'', ''y'']. g \<notin> j_id ` set [ex_job]" by (simp add: ex_defs)
  from enqueue_many_correct [OF ex_invs(1), of "[''x'', ''y'']" "[?e, ?e]", OF _ _ this,
      of "''embed''" 5 0 10 0]
  show ?thesis by (auto simp: less_Suc_eq_0_disj)
qed

end
