(* ===== verification/Worker.thy ===== *)
theory Worker
  imports Jobs
begin

section \<open>The background worker\<close>

text \<open>
  Models \<open>worker.py\<close>. \<open>run_job\<close> is written against the three lifecycle methods of
  \<open>JobRepository\<close> it calls, as the record \<open>job_repo\<close>; the locale \<open>job_store\<close> states
  what it relies on, and is interpreted on the methods of theory \<open>Jobs\<close>. A handler is code of
  the application: it is a function from the payload and the database to a result and the
  database as it stands when the handler returns, which covers its own commits and those of
  every other process in the meantime. The threads (pool, heartbeat, other processes) are the
  steps of \<open>worker_step\<close>, in any order, with the clock made explicit.
\<close>

subsection \<open>Running one job\<close>

record 'db job_repo =
  rp_complete :: "string \<Rightarrow> string \<Rightarrow> 'db \<Rightarrow> db_error + (bool \<times> 'db)"
  rp_fail :: "string \<Rightarrow> string \<Rightarrow> string \<Rightarrow> 'db \<Rightarrow> db_error + (fail_outcome \<times> 'db)"
  rp_fail_terminal :: "string \<Rightarrow> string \<Rightarrow> string \<Rightarrow> 'db \<Rightarrow> db_error + (bool \<times> 'db)"

datatype handler_result = HOk | HPermanent string | HError string

type_synonym 'db handler = "json \<Rightarrow> 'db \<Rightarrow> handler_result \<times> 'db"

datatype job_outcome = OutNoHandler | OutSuperseded | OutUnknown | OutFailed | OutRetrying | OutCompleted

datatype log_level = INFO | WARNING | ERROR

record job_finished =
  jf_level :: log_level
  jf_outcome :: job_outcome
  jf_repo_write_failed :: bool

datatype worker_error = AssertionError | RepoError db_error | ValueError string

text \<open>The inner \<open>write\<close> of \<open>run_job\<close>: the value and the new database, or the exception kept in
  \<open>repo_error\<close> and the database as it was.\<close>

definition repo_write :: "('db \<Rightarrow> db_error + ('a \<times> 'db)) \<Rightarrow> 'db \<Rightarrow> 'a option \<times> db_error option \<times> 'db" where
  "repo_write fn db = (case fn db of
      Inl e \<Rightarrow> (None, Some e, db)
    | Inr (v, db') \<Rightarrow> (Some v, None, db'))"

definition job_finished_line ::
  "log_level \<Rightarrow> job_outcome \<Rightarrow> db_error option \<Rightarrow> 'db
   \<Rightarrow> job_finished option \<times> worker_error option \<times> 'db" where
  "job_finished_line level outcome repo_error db =
     (Some \<lparr>jf_level = (if repo_error = None then level else ERROR), jf_outcome = outcome,
            jf_repo_write_failed = (repo_error \<noteq> None)\<rparr>,
      map_option RepoError repo_error, db)"

definition after_no_handler ::
  "'db job_repo \<Rightarrow> job \<Rightarrow> string \<Rightarrow> 'db \<Rightarrow> job_finished option \<times> worker_error option \<times> 'db" where
  "after_no_handler repo job worker_id db =
     (let (applied, repo_error, db') = repo_write (rp_fail_terminal repo (j_id job) worker_id
            (''no handler for kind '' @ py_repr (j_kind job))) db
      in job_finished_line WARNING
           (if applied \<noteq> Some False then OutNoHandler else OutSuperseded) repo_error db')"

fun after_handler ::
  "'db job_repo \<Rightarrow> job \<Rightarrow> string \<Rightarrow> handler_result \<Rightarrow> 'db
   \<Rightarrow> job_finished option \<times> worker_error option \<times> 'db" where
  "after_handler repo job worker_id (HPermanent msg) db =
     (let (applied, repo_error, db') = repo_write (rp_fail_terminal repo (j_id job) worker_id msg) db
      in job_finished_line ERROR
           (if repo_error \<noteq> None then OutUnknown
            else if applied \<noteq> Some False then OutFailed else OutSuperseded) repo_error db')"
| "after_handler repo job worker_id (HError msg) db =
     (let (status, repo_error, db') = repo_write (rp_fail repo (j_id job) worker_id msg) db
      in job_finished_line WARNING
           (if repo_error \<noteq> None then OutUnknown
            else if status = Some FailSuperseded then OutSuperseded
            else if status = Some (FailStatus Failed) then OutFailed else OutRetrying) repo_error db')"
| "after_handler repo job worker_id HOk db =
     (let (applied, repo_error, db') = repo_write (rp_complete repo (j_id job) worker_id) db
      in job_finished_line INFO
           (if applied \<noteq> Some False then OutCompleted else OutSuperseded) repo_error db')"

text \<open>The result: the \<open>job_finished\<close> log line, the exception raised, the database.\<close>

definition run_job ::
  "'db job_repo \<Rightarrow> job \<Rightarrow> (string \<Rightarrow> 'db handler option) \<Rightarrow> 'db
   \<Rightarrow> job_finished option \<times> worker_error option \<times> 'db" where
  "run_job repo job registry db =
     (case j_locked_by job of
        None \<Rightarrow> (None, Some AssertionError, db)
      | Some worker_id \<Rightarrow>
          (case registry (j_kind job) of
             None \<Rightarrow> after_no_handler repo job worker_id db
           | Some handler \<Rightarrow>
               (let (res, db') = handler (j_payload job) db
                in after_handler repo job worker_id res db')))"

subsection \<open>Interface: the lifecycle writes\<close>

text \<open>What a finished run tells about the rows: the log line is written; a failed repository
  write is re-raised and left the database alone; otherwise the outcome names the state of the
  job's row, \<open>superseded\<close> meaning that the worker did not hold it and changed nothing.
  \<open>retrying\<close> also covers a row that no longer exists.\<close>

fun finished_ok ::
  "('db \<Rightarrow> string \<Rightarrow> job option) \<Rightarrow> string \<Rightarrow> string \<Rightarrow> 'db
   \<Rightarrow> job_finished option \<times> worker_error option \<times> 'db \<Rightarrow> bool" where
  "finished_ok row i w db (None, exc, db') = False"
| "finished_ok row i w db (Some jf, exc, db') =
     ((\<forall>k. k \<noteq> i \<longrightarrow> row db' k = row db k) \<and>
      jf_repo_write_failed jf = (exc \<noteq> None) \<and>
      (if exc \<noteq> None then db' = db else
       (case jf_outcome jf of
         OutCompleted \<Rightarrow> map_option j_status (row db' i) = Some Done
       | OutFailed \<Rightarrow> map_option j_status (row db' i) = Some Failed
       | OutNoHandler \<Rightarrow> map_option j_status (row db' i) = Some Failed
       | OutRetrying \<Rightarrow> row db' i = None \<or> map_option j_status (row db' i) = Some Pending
       | OutSuperseded \<Rightarrow> db' = db \<and> \<not> (\<exists>r. row db i = Some r \<and> j_locked_by r = Some w)
       | OutUnknown \<Rightarrow> False)))"

text \<open>\<open>row\<close> reads a job's row. A write that returns keeps the invariant and every other row,
  reports whether the worker holds the lock, and without the lock changes nothing.\<close>

locale job_store =
  fixes repo :: "'db job_repo"
    and row :: "'db \<Rightarrow> string \<Rightarrow> job option"
    and inv :: "'db \<Rightarrow> bool"
  assumes complete_law:
      "inv db \<Longrightarrow> rp_complete repo i w db = Inr (b, db') \<Longrightarrow>
         inv db' \<and> (\<forall>k. k \<noteq> i \<longrightarrow> row db' k = row db k) \<and>
         (b \<longleftrightarrow> (\<exists>r. row db i = Some r \<and> j_locked_by r = Some w)) \<and>
         (if b then map_option j_status (row db' i) = Some Done else db' = db)"
    and terminal_law:
      "inv db \<Longrightarrow> rp_fail_terminal repo i w e db = Inr (b, db') \<Longrightarrow>
         inv db' \<and> (\<forall>k. k \<noteq> i \<longrightarrow> row db' k = row db k) \<and>
         (b \<longleftrightarrow> (\<exists>r. row db i = Some r \<and> j_locked_by r = Some w)) \<and>
         (if b then map_option j_status (row db' i) = Some Failed else db' = db)"
    and fail_law:
      "inv db \<Longrightarrow> rp_fail repo i w e db = Inr (out, db') \<Longrightarrow>
         inv db' \<and> (\<forall>k. k \<noteq> i \<longrightarrow> row db' k = row db k) \<and>
         (case out of
            FailMissing \<Rightarrow> row db i = None \<and> db' = db
          | FailSuperseded \<Rightarrow> (\<exists>r. row db i = Some r \<and> j_locked_by r \<noteq> Some w) \<and> db' = db
          | FailStatus s \<Rightarrow> (\<exists>r. row db i = Some r \<and> j_locked_by r = Some w) \<and>
              map_option j_status (row db' i) = Some s \<and> (s = Failed \<or> s = Pending))"
begin


lemma complete_finishes:
  assumes "inv db"
  shows "finished_ok row (j_id job) w db (after_handler repo job w HOk db) \<and>
     inv (snd (snd (after_handler repo job w HOk db)))"
proof (cases "rp_complete repo (j_id job) w db")
  case (Inl e)
  then show ?thesis using assms by (simp add: repo_write_def job_finished_line_def)
next
  case (Inr y)
  obtain b db' where y: "y = (b, db')" by (cases y)
  show ?thesis
    using assms complete_law [OF assms Inr [unfolded y]] Inr y
    by (cases b) (simp_all add: repo_write_def job_finished_line_def)
qed

lemma terminal_finishes:
  assumes "inv db"
  shows "finished_ok row (j_id job) w db (after_handler repo job w (HPermanent e) db) \<and>
      inv (snd (snd (after_handler repo job w (HPermanent e) db)))"
    and "finished_ok row (j_id job) w db (after_no_handler repo job w db) \<and>
      inv (snd (snd (after_no_handler repo job w db)))"
proof -
  show "finished_ok row (j_id job) w db (after_handler repo job w (HPermanent e) db) \<and>
      inv (snd (snd (after_handler repo job w (HPermanent e) db)))"
  proof (cases "rp_fail_terminal repo (j_id job) w e db")
    case (Inl x)
    then show ?thesis using assms by (simp add: repo_write_def job_finished_line_def)
  next
    case (Inr y)
    obtain b db' where y: "y = (b, db')" by (cases y)
    show ?thesis
      using assms terminal_law [OF assms Inr [unfolded y]] Inr y
      by (cases b) (simp_all add: repo_write_def job_finished_line_def)
  qed
  define m where "m = ''no handler for kind '' @ py_repr (j_kind job)"
  show "finished_ok row (j_id job) w db (after_no_handler repo job w db) \<and>
      inv (snd (snd (after_no_handler repo job w db)))"
  proof (cases "rp_fail_terminal repo (j_id job) w m db")
    case (Inl x)
    then show ?thesis
      using assms unfolding after_no_handler_def m_def [symmetric]
      by (simp add: repo_write_def job_finished_line_def)
  next
    case (Inr y)
    obtain b db' where y: "y = (b, db')" by (cases y)
    show ?thesis
      using assms terminal_law [OF assms Inr [unfolded y]] Inr y
      unfolding after_no_handler_def m_def [symmetric]
      by (cases b) (simp_all add: repo_write_def job_finished_line_def)
  qed
qed

lemma fail_finishes:
  assumes "inv db"
  shows "finished_ok row (j_id job) w db (after_handler repo job w (HError e) db) \<and>
     inv (snd (snd (after_handler repo job w (HError e) db)))"
proof (cases "rp_fail repo (j_id job) w e db")
  case (Inl x)
  then show ?thesis using assms by (simp add: repo_write_def job_finished_line_def)
next
  case (Inr y)
  obtain out db' where y: "y = (out, db')" by (cases y)
  show ?thesis
    using fail_law [OF assms Inr [unfolded y]] Inr y
    by (cases out) (auto simp: repo_write_def job_finished_line_def)
qed

lemma after_handler_finishes:
  "inv db \<Longrightarrow> finished_ok row (j_id job) w db (after_handler repo job w res db) \<and>
     inv (snd (snd (after_handler repo job w res db)))"
  using complete_finishes terminal_finishes(1) fail_finishes by (cases res) blast+

lemma run_job_finishes:
  assumes "j_locked_by job = Some w"
    and "\<And>h. registry (j_kind job) = Some h \<Longrightarrow> inv (snd (h (j_payload job) db))"
    and "inv db"
  shows "\<exists>db1. finished_ok row (j_id job) w db1 (run_job repo job registry db) \<and>
     inv (snd (snd (run_job repo job registry db))) \<and>
     (case registry (j_kind job) of None \<Rightarrow> db1 = db | Some h \<Rightarrow> db1 = snd (h (j_payload job) db))"
proof (cases "registry (j_kind job)")
  case None
  then show ?thesis
    using assms(1) terminal_finishes(2) [OF assms(3), of job w] by (simp add: run_job_def)
next
  case (Some h)
  obtain res db1 where h: "h (j_payload job) db = (res, db1)" by fastforce
  then show ?thesis
    using Some assms(1) after_handler_finishes [of db1 job w res] assms(2) [OF Some]
    by (simp add: run_job_def)
qed

end

subsection \<open>The repository provides the interface\<close>

text \<open>The methods of theory \<open>Jobs\<close> at time \<open>now\<close>; when the database refuses the write
  (\<open>up\<close> false: a busy timeout, a full disk) they raise. \<open>run_job\<close> passes no backoff
  arguments, so the defaults 2 and 300 apply.\<close>

definition sql_repo :: "bool \<Rightarrow> epoch \<Rightarrow> job list job_repo" where
  "sql_repo up now =
     \<lparr>rp_complete = (\<lambda>i w t. if up then Inr (complete i w now t) else Inl OperationalError),
      rp_fail = (\<lambda>i w e t. if up then fail i w e now 2 300 t else Inl OperationalError),
      rp_fail_terminal = (\<lambda>i w e t. if up then Inr (fail_terminal i w e now t)
                                    else Inl OperationalError)\<rparr>"

lemma fenced_count:
  assumes "job_inv t"
  shows "sql_count (fenced i w) t \<noteq> 0 \<longleftrightarrow> (\<exists>r. sql_get j_id i t = Some r \<and> j_locked_by r = Some w)"
  using job_inv_get [OF assms, of i] by (auto simp: sql_count_0 fenced_def)

lemma fenced_update_row:
  assumes "job_inv t" and "\<And>r. j_id (f r) = j_id r"
  shows "k \<noteq> i \<Longrightarrow> sql_get j_id k (sql_update (fenced i w) f t) = sql_get j_id k t"
    and "sql_count (fenced i w) t \<noteq> 0 \<Longrightarrow>
      \<exists>r. sql_get j_id i t = Some r \<and> sql_get j_id i (sql_update (fenced i w) f t) = Some (f r)"
    and "sql_count (fenced i w) t = 0 \<Longrightarrow> sql_update (fenced i w) f t = t"
proof -
  show "k \<noteq> i \<Longrightarrow> sql_get j_id k (sql_update (fenced i w) f t) = sql_get j_id k t"
    using assms(2) by (intro sql_get_update_other) (auto simp: fenced_def)
  show "sql_count (fenced i w) t = 0 \<Longrightarrow> sql_update (fenced i w) f t = t"
    by (intro sql_update_none) (simp add: sql_count_0)
  assume "sql_count (fenced i w) t \<noteq> 0"
  then obtain r where r: "sql_get j_id i t = Some r" "j_locked_by r = Some w"
    using fenced_count [OF assms(1)] by blast
  moreover from r have "fenced i w r" using sql_get_SomeD [OF r(1)] by (simp add: fenced_def)
  ultimately show
    "\<exists>r. sql_get j_id i t = Some r \<and> sql_get j_id i (sql_update (fenced i w) f t) = Some (f r)"
    using assms(2) by (simp add: sql_get_update_row)
qed

lemma complete_provides:
  assumes "job_inv t" and "complete i w now t = (b, t')"
  shows "job_inv t' \<and> (\<forall>k. k \<noteq> i \<longrightarrow> sql_get j_id k t' = sql_get j_id k t) \<and>
     (b \<longleftrightarrow> (\<exists>r. sql_get j_id i t = Some r \<and> j_locked_by r = Some w)) \<and>
     (if b then map_option j_status (sql_get j_id i t') = Some Done else t' = t)"
proof -
  let ?f = "\<lambda>r. r\<lparr>j_status := Done, j_updated_at := now\<rparr>"
  have b: "b \<longleftrightarrow> sql_count (fenced i w) t \<noteq> 0" and t': "t' = sql_update (fenced i w) ?f t"
    using assms(2) by (auto simp: complete_def)
  show ?thesis
    using complete_inv [OF assms(2,1)] fenced_count [OF assms(1), of i w] b
      fenced_update_row [OF assms(1), where f = ?f and i = i and w = w]
    unfolding t' by auto
qed

lemma fail_terminal_provides:
  assumes "job_inv t" and "fail_terminal i w e now t = (b, t')"
  shows "job_inv t' \<and> (\<forall>k. k \<noteq> i \<longrightarrow> sql_get j_id k t' = sql_get j_id k t) \<and>
     (b \<longleftrightarrow> (\<exists>r. sql_get j_id i t = Some r \<and> j_locked_by r = Some w)) \<and>
     (if b then map_option j_status (sql_get j_id i t') = Some Failed else t' = t)"
proof -
  let ?f = "\<lambda>r. r\<lparr>j_status := Failed, j_last_error := Some e, j_updated_at := now\<rparr>"
  have b: "b \<longleftrightarrow> sql_count (fenced i w) t \<noteq> 0" and t': "t' = sql_update (fenced i w) ?f t"
    using assms(2) by (auto simp: fail_terminal_def)
  show ?thesis
    using fail_terminal_inv [OF assms(2,1)] fenced_count [OF assms(1), of i w] b
      fenced_update_row [OF assms(1), where f = ?f and i = i and w = w]
    unfolding t' by auto
qed

lemma fail_provides:
  assumes "job_inv t" and "fail i w e now bb mb t = Inr (out, t')"
  shows "job_inv t' \<and> (\<forall>k. k \<noteq> i \<longrightarrow> sql_get j_id k t' = sql_get j_id k t) \<and>
     (case out of
        FailMissing \<Rightarrow> sql_get j_id i t = None \<and> t' = t
      | FailSuperseded \<Rightarrow> (\<exists>r. sql_get j_id i t = Some r \<and> j_locked_by r \<noteq> Some w) \<and> t' = t
      | FailStatus s \<Rightarrow> (\<exists>r. sql_get j_id i t = Some r \<and> j_locked_by r = Some w) \<and>
          map_option j_status (sql_get j_id i t') = Some s \<and> (s = Failed \<or> s = Pending))"
proof (cases "sql_get j_id i t")
  case None
  then show ?thesis using assms by (auto simp: fail_def)
next
  case (Some r)
  then have id: "j_id r = i" using sql_get_SomeD by fastforce
  have fw: "fail_write r w e now bb mb t = Inr (out, t')"
    using assms(2) Some by (simp add: fail_def)
  obtain f :: "job \<Rightarrow> job" where f: "t' = sql_update (fenced i w) f t" "\<And>x. j_id (f x) = j_id x"
    "\<And>x. j_status (f x) = (if j_attempts r + 1 \<ge> j_max_attempts r then Failed else Pending)"
    "out = (if sql_count (fenced i w) t = 0 then FailSuperseded
           else FailStatus (if j_attempts r + 1 \<ge> j_max_attempts r then Failed else Pending))"
    using fail_write_cases [OF fw] unfolding id by auto
  show ?thesis
  proof (cases "sql_count (fenced i w) t = 0")
    case True
    then have "t' = t" using fenced_update_row(3) [OF assms(1) f(2)] f(1) by simp
    then show ?thesis
      using True Some f(4) fenced_count [OF assms(1), of i w] assms(1) by auto
  next
    case False
    then show ?thesis
      using Some f(1,3,4) fenced_count [OF assms(1), of i w] fail_inv [OF assms(2,1)]
        fenced_update_row(1,2) [OF assms(1) f(2), where i = i and w = w] by auto
  qed
qed

interpretation sqlrepo: job_store "sql_repo up now" "\<lambda>t i. sql_get j_id i t" job_inv for up now
proof unfold_locales
  fix db :: "job list" and i w b db'
  assume "job_inv db" "rp_complete (sql_repo up now) i w db = Inr (b, db')"
  then show "job_inv db' \<and> (\<forall>k. k \<noteq> i \<longrightarrow> sql_get j_id k db' = sql_get j_id k db) \<and>
     (b \<longleftrightarrow> (\<exists>r. sql_get j_id i db = Some r \<and> j_locked_by r = Some w)) \<and>
     (if b then map_option j_status (sql_get j_id i db') = Some Done else db' = db)"
    by (intro complete_provides) (auto simp: sql_repo_def split: if_splits)
next
  fix db :: "job list" and i w e b db'
  assume "job_inv db" "rp_fail_terminal (sql_repo up now) i w e db = Inr (b, db')"
  then show "job_inv db' \<and> (\<forall>k. k \<noteq> i \<longrightarrow> sql_get j_id k db' = sql_get j_id k db) \<and>
     (b \<longleftrightarrow> (\<exists>r. sql_get j_id i db = Some r \<and> j_locked_by r = Some w)) \<and>
     (if b then map_option j_status (sql_get j_id i db') = Some Failed else db' = db)"
    by (intro fail_terminal_provides) (auto simp: sql_repo_def split: if_splits)
next
  fix db :: "job list" and i w e out db'
  assume "job_inv db" "rp_fail (sql_repo up now) i w e db = Inr (out, db')"
  then show "job_inv db' \<and> (\<forall>k. k \<noteq> i \<longrightarrow> sql_get j_id k db' = sql_get j_id k db) \<and>
     (case out of
        FailMissing \<Rightarrow> sql_get j_id i db = None \<and> db' = db
      | FailSuperseded \<Rightarrow> (\<exists>r. sql_get j_id i db = Some r \<and> j_locked_by r \<noteq> Some w) \<and> db' = db
      | FailStatus s \<Rightarrow> (\<exists>r. sql_get j_id i db = Some r \<and> j_locked_by r = Some w) \<and>
          map_option j_status (sql_get j_id i db') = Some s \<and> (s = Failed \<or> s = Pending))"
    by (intro fail_provides [where bb = 2 and mb = 300]) (auto simp: sql_repo_def split: if_splits)
qed

subsection \<open>The loop of \<open>run_worker\<close>\<close>

text \<open>The checks before the loop starts: a registry is required, the renewal interval defaults
  to a third of the staleness window and must be positive and smaller than it.\<close>

definition check_worker_args :: "bool \<Rightarrow> rat \<Rightarrow> rat option \<Rightarrow> worker_error + rat" where
  "check_worker_args has_registry stale_after renew_interval =
     (if \<not> has_registry
      then Inl (ValueError ''registry is required; worker handlers belong to an application instance'')
      else (let ri = (case renew_interval of None \<Rightarrow> stale_after / 3 | Some r \<Rightarrow> r)
            in if ri \<le> 0 then Inl (ValueError ''renew_interval must be positive'')
               else if ri \<ge> stale_after
               then Inl (ValueError ''renew_interval must be smaller than stale_after'')
               else Inr ri))"

text \<open>\<open>while len(inflight) < concurrency\<close>: claim and submit until the pool is full or nothing
  is runnable. \<open>clock n\<close> is the time of the claim with \<open>n + 1\<close> free slots. The result is
  \<open>nothing_runnable\<close>, the jobs in flight and the table.\<close>

fun fill_slots ::
  "string \<Rightarrow> epoch \<Rightarrow> (nat \<Rightarrow> epoch) \<Rightarrow> nat \<Rightarrow> job list \<Rightarrow> job list \<Rightarrow> bool \<times> job list \<times> job list" where
  "fill_slots w stale clock 0 inflight t = (False, inflight, t)"
| "fill_slots w stale clock (Suc n) inflight t =
     (case claim w (clock n) stale t of
        (None, t') \<Rightarrow> (True, inflight, t')
      | (Some j, t') \<Rightarrow> fill_slots w stale clock n (inflight @ [j]) t')"

definition fill_pool ::
  "string \<Rightarrow> epoch \<Rightarrow> (nat \<Rightarrow> epoch) \<Rightarrow> nat \<Rightarrow> job list \<Rightarrow> job list \<Rightarrow> bool \<times> job list \<times> job list" where
  "fill_pool w stale clock concurrency inflight t =
     fill_slots w stale clock (concurrency - length inflight) inflight t"

lemma claim_NoneD: "claim w now stale t = (None, t') \<Longrightarrow> t' = t \<and> claim_candidates now (now - stale) t = []"
  by (auto simp: claim_def Let_def split: list.splits)

lemma fill_slots_correct:
  assumes "job_inv t" and "fill_slots w stale clock n inflight t = (idle, inflight', t')"
  shows "job_inv t' \<and> (\<exists>new. inflight' = inflight @ new \<and> length new \<le> n \<and>
       (if idle then \<exists>m<n. claim_candidates (clock m) (clock m - stale) t' = []
        else length new = n))"
  using assms
proof (induction n arbitrary: inflight t)
  case 0
  then show ?case by simp
next
  case (Suc n)
  show ?case
  proof (cases "claim w (clock n) stale t")
    case (Pair r t1)
    show ?thesis
    proof (cases r)
      case None
      then show ?thesis
        using Suc.prems Pair claim_NoneD [of w "clock n" stale t t1] by auto
    next
      case (Some j)
      have "job_inv t1" using claim_inv Pair Suc.prems(1) by blast
      moreover have "fill_slots w stale clock n (inflight @ [j]) t1 = (idle, inflight', t')"
        using Suc.prems(2) Pair Some by simp
      ultimately obtain new where new: "job_inv t'" "inflight' = (inflight @ [j]) @ new" "length new \<le> n"
        "if idle then \<exists>m<n. claim_candidates (clock m) (clock m - stale) t' = [] else length new = n"
        using Suc.IH by blast
      then show ?thesis
        by (intro conjI exI [of _ "j # new"]) (auto split: if_splits intro: less_SucI)
    qed
  qed
qed

subsection \<open>Leases: the worker among other processes\<close>

text \<open>The state of one worker: the clock, the time of its last heartbeat, the table and the
  claimed jobs its pool is running.\<close>

record worker_state =
  ws_now :: epoch
  ws_renewed :: epoch
  ws_db :: "job list"
  ws_inflight :: "job list"

abbreviation job_ids :: "job list \<Rightarrow> string set" where
  "job_ids js \<equiv> j_id ` set js"

text \<open>What the rest of the system may do to the table: enqueue with identifiers that are not
  those of running jobs (\<open>nanoid\<close>), run other workers under other names, and the methods
  behind the jobs API and the maintenance sweep.\<close>

inductive other_step :: "string \<Rightarrow> epoch \<Rightarrow> epoch \<Rightarrow> string set \<Rightarrow> job list \<Rightarrow> job list \<Rightarrow> bool"
  for w now stale ids where
  other_enqueue: "enqueue_in_session jid kind p d u m delay pr now t = Inr (i, t') \<Longrightarrow> jid \<notin> ids
     \<Longrightarrow> other_step w now stale ids t t'"
| other_enqueue_many: "enqueue_many_in_session gens kind es m delay pr now t = Inr (l, t') \<Longrightarrow>
     set gens \<inter> ids = {} \<Longrightarrow> other_step w now stale ids t t'"
| other_claim: "claim w' now stale t = (r, t') \<Longrightarrow> w' \<noteq> w \<Longrightarrow> other_step w now stale ids t t'"
| other_renew: "renew_claim w' now t = (n, t') \<Longrightarrow> w' \<noteq> w \<Longrightarrow> other_step w now stale ids t t'"
| other_complete: "complete i w' now t = (b, t') \<Longrightarrow> w' \<noteq> w \<Longrightarrow> other_step w now stale ids t t'"
| other_fail: "fail i w' e now bb mb t = Inr (out, t') \<Longrightarrow> w' \<noteq> w \<Longrightarrow> other_step w now stale ids t t'"
| other_fail_terminal: "fail_terminal i w' e now t = (b, t') \<Longrightarrow> w' \<noteq> w \<Longrightarrow>
     other_step w now stale ids t t'"
| other_reset: "reset_running_to_pending w' now t = Inr (n, t') \<Longrightarrow> w' \<noteq> w \<Longrightarrow>
     other_step w now stale ids t t'"
| other_retry: "retry i u now t = Inr (b, t') \<Longrightarrow> other_step w now stale ids t t'"
| other_sweep: "sweep_done old now t = (n, t') \<Longrightarrow> other_step w now stale ids t t'"
| other_dismiss: "dismiss i u t = (b, t') \<Longrightarrow> other_step w now stale ids t t'"
| other_delete_ws: "other_step w now stale ids t (delete_jobs_for_workspace u ws t)"

text \<open>The worker's own threads. The heartbeat thread is timely: the clock does not pass the last
  successful renewal by more than \<open>stale\<close> (a failed tick is no step). A job in flight ends with
  the lifecycle write for whatever its handler did, which may itself fail.\<close>

inductive worker_step :: "string \<Rightarrow> epoch \<Rightarrow> nat \<Rightarrow> worker_state \<Rightarrow> worker_state \<Rightarrow> bool"
  for w stale concurrency where
  tick: "ws_now s \<le> n \<Longrightarrow> n \<le> ws_renewed s + stale \<Longrightarrow>
     worker_step w stale concurrency s (s\<lparr>ws_now := n\<rparr>)"
| heartbeat: "renew_claim w (ws_now s) (ws_db s) = (n, t') \<Longrightarrow>
     worker_step w stale concurrency s (s\<lparr>ws_db := t', ws_renewed := ws_now s\<rparr>)"
| own_claim: "claim w (ws_now s) stale (ws_db s) = (Some j, t') \<Longrightarrow>
     length (ws_inflight s) < concurrency \<Longrightarrow>
     worker_step w stale concurrency s (s\<lparr>ws_db := t', ws_inflight := ws_inflight s @ [j]\<rparr>)"
| finish: "j \<in> set (ws_inflight s) \<Longrightarrow>
     after_handler (sql_repo up (ws_now s)) j w res (ws_db s) = (jf, exc, t') \<Longrightarrow>
     worker_step w stale concurrency s
       (s\<lparr>ws_db := t', ws_inflight := filter (\<lambda>x. j_id x \<noteq> j_id j) (ws_inflight s)\<rparr>)"
| finish_no_handler: "j \<in> set (ws_inflight s) \<Longrightarrow>
     after_no_handler (sql_repo up (ws_now s)) j w (ws_db s) = (jf, exc, t') \<Longrightarrow>
     worker_step w stale concurrency s
       (s\<lparr>ws_db := t', ws_inflight := filter (\<lambda>x. j_id x \<noteq> j_id j) (ws_inflight s)\<rparr>)"
| other: "other_step w (ws_now s) stale (job_ids (ws_inflight s)) (ws_db s) t' \<Longrightarrow>
     worker_step w stale concurrency s (s\<lparr>ws_db := t'\<rparr>)"

text \<open>The lease of an identifier: its row, if it still exists, is running, locked by the worker,
  with a lock no older than the last heartbeat.\<close>

definition leased :: "string \<Rightarrow> epoch \<Rightarrow> string set \<Rightarrow> job list \<Rightarrow> bool" where
  "leased w renewed ids t \<longleftrightarrow> (\<forall>r\<in>set t. j_id r \<in> ids \<longrightarrow>
     held_by w r \<and> (\<exists>l. j_locked_at r = Some l \<and> renewed \<le> l))"

definition lease_inv :: "string \<Rightarrow> epoch \<Rightarrow> nat \<Rightarrow> worker_state \<Rightarrow> bool" where
  "lease_inv w stale concurrency s \<longleftrightarrow>
     job_inv (ws_db s) \<and> ws_renewed s \<le> ws_now s \<and> ws_now s \<le> ws_renewed s + stale \<and>
     distinct (map j_id (ws_inflight s)) \<and> length (ws_inflight s) \<le> concurrency \<and>
     leased w (ws_renewed s) (job_ids (ws_inflight s)) (ws_db s)"

text \<open>A write that keeps the rows of \<open>ids\<close> as they are, or deletes them.\<close>

definition frames :: "string set \<Rightarrow> job list \<Rightarrow> job list \<Rightarrow> bool" where
  "frames ids t t' \<longleftrightarrow> (\<forall>r\<in>set t'. j_id r \<in> ids \<longrightarrow> r \<in> set t)"

lemma frames_refl [simp]: "frames ids t t"
  by (simp add: frames_def)

lemma frames_trans: "frames ids t t' \<Longrightarrow> frames ids t' t'' \<Longrightarrow> frames ids t t''"
  by (auto simp: frames_def)

lemma frames_delete: "frames ids t (sql_delete P t)"
  by (simp add: frames_def sql_simps)

lemma frames_append: "j_id r \<notin> ids \<Longrightarrow> frames ids t (t @ [r])"
  by (auto simp: frames_def)

lemma frames_update:
  assumes "\<And>r. r \<in> set t \<Longrightarrow> j_id r \<in> ids \<Longrightarrow> \<not> P r" and "\<And>r. j_id (f r) = j_id r"
  shows "frames ids t (sql_update P f t)"
  using assms unfolding frames_def by (auto simp: sql_simps)

lemma leased_frames: "leased w ren ids t \<Longrightarrow> frames ids t t' \<Longrightarrow> leased w ren ids t'"
  unfolding leased_def frames_def by blast

lemma leasedD:
  assumes "leased w ren ids t" and "r \<in> set t" and "j_id r \<in> ids"
  shows "j_status r = Running" "j_locked_by r = Some w" "\<exists>l. j_locked_at r = Some l \<and> ren \<le> l"
  using assms by (auto simp: leased_def held_by_def)

lemma leased_not_runnable:
  assumes "leased w ren ids t" and "r \<in> set t" and "j_id r \<in> ids" and "now \<le> ren + stale"
  shows "\<not> claim_runnable now (now - stale) r"
proof -
  from leasedD [OF assms(1-3)] obtain l where l: "j_status r = Running" "j_locked_at r = Some l" "ren \<le> l"
    by auto
  with assms(4) have "\<not> l < now - stale" by linarith
  with l show ?thesis by (simp add: claim_runnable_def)
qed

lemma upsert_pending_frames:
  assumes "upsert_pending row key ra pr now t = Inr t'" and "leased w ren ids t" and "j_id row \<notin> ids"
  shows "frames ids t t'"
proof (cases "\<exists>r\<in>set t. pending_for (j_kind row) key r")
  case True
  let ?f = "\<lambda>r. r\<lparr>j_next_run_at := ra, j_priority := min (j_priority r) pr, j_updated_at := now\<rparr>"
  have "t' = sql_update (pending_for (j_kind row) key) ?f t"
    using True assms(1) by (auto simp: upsert_pending_def split: if_splits)
  moreover have "\<not> pending_for (j_kind row) key r" if "r \<in> set t" "j_id r \<in> ids" for r
    using leasedD(1) [OF assms(2) that] by (simp add: pending_for_def)
  ultimately show ?thesis by (simp add: frames_update)
next
  case False
  then show ?thesis
    using assms(1,3) by (auto simp: upsert_pending_def frames_append split: if_splits)
qed

lemma enqueue_frames:
  assumes "enqueue_in_session jid kind p d u m delay pr now t = Inr (i, t')"
    and "leased w ren ids t" and "jid \<notin> ids"
  shows "frames ids t t'"
proof (cases d)
  case None
  then show ?thesis
    using assms(1,3)
    by (auto simp: enqueue_in_session_def Let_def sql_insert_Inr frames_append split: sum.splits)
next
  case (Some k)
  then have "upsert_pending (new_job jid kind p d u m (now + delay) pr now) k (now + delay) pr now t = Inr t'"
    using assms(1) by (auto simp: enqueue_in_session_def Let_def split: sum.splits)
  then show ?thesis
    by (rule upsert_pending_frames) (use assms in simp_all)
qed

lemma insert_plain_frames:
  "insert_plain kind m ra pr now es t = Inr t' \<Longrightarrow> entry_gen ` set es \<inter> ids = {} \<Longrightarrow> frames ids t t'"
proof (induction es arbitrary: t)
  case Nil
  then show ?case by simp
next
  case (Cons x es)
  obtain i g e where x: "x = (i, g, e)" by (cases x)
  from Cons.prems(1) obtain t1 where t1: "t1 = t @ [new_job g kind (e_payload e) None (e_user_id e) m ra pr now]"
    "insert_plain kind m ra pr now es t1 = Inr t'"
    by (auto simp: x sql_insert_Inr split: sum.splits)
  have "frames ids t t1" unfolding t1(1) using Cons.prems(2) x by (intro frames_append) auto
  moreover have "frames ids t1 t'" using Cons.IH [OF t1(2)] Cons.prems(2) by auto
  ultimately show ?case by (rule frames_trans)
qed

lemma upsert_rows_frames:
  "upsert_rows kind m ra pr now es t = Inr (ret, t') \<Longrightarrow> leased w ren ids t \<Longrightarrow>
     entry_gen ` set es \<inter> ids = {} \<Longrightarrow> frames ids t t'"
proof (induction es arbitrary: t ret)
  case Nil
  then show ?case by simp
next
  case (Cons x es)
  obtain i g e where x: "x = (i, g, e)" by (cases x)
  define row where "row = new_job g kind (e_payload e) (Some (the (e_dedup_key e))) (e_user_id e) m ra pr now"
  obtain t1 ret1 where t1: "upsert_pending row (the (e_dedup_key e)) ra pr now t = Inr t1"
    "upsert_rows kind m ra pr now es t1 = Inr (ret1, t')"
    using Cons.prems(1) by (auto simp: x Let_def row_def split: sum.splits)
  have f1: "frames ids t t1"
    using t1(1) Cons.prems(2) by (rule upsert_pending_frames) (use Cons.prems(3) x in \<open>auto simp: row_def\<close>)
  have "frames ids t1 t'"
    using Cons.IH [OF t1(2) leased_frames [OF Cons.prems(2) f1]] Cons.prems(3) by auto
  with f1 show ?case by (rule frames_trans)
qed

lemma enqueue_chunks_frames:
  "enqueue_chunks kind m ra pr now chunks l t = Inr (l', t') \<Longrightarrow> leased w ren ids t \<Longrightarrow>
     entry_gen ` set (concat chunks) \<inter> ids = {} \<Longrightarrow> frames ids t t'"
proof (induction chunks arbitrary: t l)
  case Nil
  then show ?case by simp
next
  case (Cons c cs)
  obtain ret t1 l1 where t1: "upsert_rows kind m ra pr now c t = Inr (ret, t1)"
    "enqueue_chunks kind m ra pr now cs l1 t1 = Inr (l', t')"
    using Cons.prems(1) by (auto simp: Let_def split: sum.splits)
  have f1: "frames ids t t1"
    using t1(1) Cons.prems(2) by (rule upsert_rows_frames) (use Cons.prems(3) in auto)
  have "frames ids t1 t'"
    using Cons.IH [OF t1(2) leased_frames [OF Cons.prems(2) f1]] Cons.prems(3) by auto
  with f1 show ?case by (rule frames_trans)
qed

lemma enqueue_many_frames:
  assumes "enqueue_many_in_session gens kind es m delay pr now t = Inr (l, t')"
    and "leased w ren ids t" and "set gens \<inter> ids = {}"
  shows "frames ids t t'"
proof -
  define numbered where "numbered = zip [0..<length es] (zip gens es)"
  have g: "entry_gen ` set numbered \<subseteq> set gens"
  proof
    fix g assume "g \<in> entry_gen ` set numbered"
    then obtain i e where "(i, g, e) \<in> set numbered" by force
    then have "(g, e) \<in> set (zip gens es)" unfolding numbered_def by (rule set_zip_rightD)
    then show "g \<in> set gens" by (rule set_zip_leftD)
  qed
  define plain where "plain = filter (\<lambda>x. e_dedup_key (entry_of x) = None) numbered"
  define ded where "ded = filter (\<lambda>x. e_dedup_key (entry_of x) \<noteq> None) numbered"
  obtain t1 l1 where t1: "insert_plain kind m (now + delay) pr now plain t = Inr t1"
    "enqueue_chunks kind m (now + delay) pr now (batched ENQUEUE_UPSERT_CHUNK_SIZE ded) l1 t1 = Inr (l, t')"
    using assms(1)
    by (auto simp: enqueue_many_in_session_def Let_def numbered_def plain_def ded_def split: sum.splits)
  have "entry_gen ` set plain \<inter> ids = {}" "entry_gen ` set ded \<inter> ids = {}"
    using g assms(3) by (auto simp: plain_def ded_def)
  then have f1: "frames ids t t1" and "frames ids t1 t'"
    using insert_plain_frames [OF t1(1)] enqueue_chunks_frames [OF t1(2) leased_frames [OF assms(2)]]
    by (auto simp: concat_batched ENQUEUE_UPSERT_CHUNK_SIZE_def)
  then show ?thesis by (rule frames_trans)
qed

lemma claim_frames:
  assumes "claim w' now stale t = (r, t')" and "leased w ren ids t" and "now \<le> ren + stale"
  shows "frames ids t t' \<and> (\<forall>j. r = Some j \<longrightarrow> j_id j \<notin> ids)"
proof (cases r)
  case None
  then show ?thesis using assms(1) claim_NoneD by fastforce
next
  case (Some j)
  with assms(1) have "claim w' now stale t = (Some j, t')" by simp
  then obtain c where c: "c \<in> set (claim_candidates now (now - stale) t)" "j = lock_row w' now c"
    "t' = sql_update (\<lambda>r. j_id r = j_id c) (lock_row w' now) t"
    by (rule claim_SomeD)
  then have "c \<in> set t" "claim_runnable now (now - stale) c"
    by (auto simp: claim_candidates_def)
  with leased_not_runnable [OF assms(2) _ _ assms(3)] have "j_id c \<notin> ids" by blast
  then show ?thesis
    using c Some by (auto intro!: frames_update)
qed

lemma fenced_frames:
  assumes "leased w ren ids t" and "w' \<noteq> w" and "\<And>r. j_id (f r) = j_id r"
  shows "frames ids t (sql_update (fenced i w') f t)" "frames ids t (sql_update (held_by w') f t)"
  using leasedD(2) [OF assms(1)] assms(2,3)
  by (auto intro!: frames_update simp: fenced_def held_by_def)

lemma fail_frames:
  assumes "fail i w' e now bb mb t = Inr (out, t')" and "leased w ren ids t" and "w' \<noteq> w"
  shows "frames ids t t'"
proof (cases "sql_get j_id i t")
  case None
  then show ?thesis using assms(1) by (simp add: fail_def)
next
  case (Some r)
  then have fw: "fail_write r w' e now bb mb t = Inr (out, t')"
    using assms(1) by (simp add: fail_def)
  show ?thesis
    unfolding fail_write_cases [OF fw, THEN conjunct1]
    by (rule fenced_frames [OF assms(2,3)]) simp
qed

lemma retry_frames:
  assumes "retry i u now t = Inr (b, t')" and "leased w ren ids t" and "job_inv t"
  shows "frames ids t t'"
proof (cases "b")
  case False
  then show ?thesis
    using assms(1) by (auto simp: retry_def split: option.splits if_splits sum.splits)
next
  case True
  let ?f = "\<lambda>r. r\<lparr>j_status := Pending, j_attempts := 0, j_next_run_at := now,
      j_last_error := None, j_locked_by := None, j_locked_at := None, j_updated_at := now\<rparr>"
  obtain r where r: "sql_get j_id i t = Some r" "j_status r = Failed"
    "t' = sql_update (\<lambda>r. j_id r = i) ?f t"
    using assms(1) True
    by (auto simp: retry_def checked_Inr split: option.splits if_splits sum.splits)
  then have "i \<notin> ids"
    using leasedD(1) [OF assms(2), of r] sql_get_SomeD [OF r(1)] by auto
  then show ?thesis
    unfolding r(3) by (intro frames_update) auto
qed

lemma reset_frames:
  assumes "reset_running_to_pending w' now t = Inr (n, t')" and "leased w ren ids t" and "w' \<noteq> w"
  shows "frames ids t t'"
  using assms(1) fenced_frames(2) [OF assms(2,3)]
  by (auto simp: reset_running_to_pending_def checked_Inr split: sum.splits)

lemma dismiss_frames: "dismiss i u t = (b, t') \<Longrightarrow> frames ids t t'"
  by (auto simp: dismiss_def frames_delete split: option.splits if_splits)

lemma other_step_frames:
  assumes "other_step w now stale ids t t'" and "leased w ren ids t" and "now \<le> ren + stale"
    and "job_inv t"
  shows "frames ids t t' \<and> job_inv t'"
  using assms
proof (cases rule: other_step.cases)
  case (other_enqueue jid kind p d u m delay pr i)
  then show ?thesis using enqueue_frames [OF other_enqueue(1) assms(2) other_enqueue(2)]
      enqueue_in_session_inv [OF other_enqueue(1) assms(4)] by simp
next
  case (other_enqueue_many gens kind es m delay pr l)
  then show ?thesis using enqueue_many_frames [OF other_enqueue_many(1) assms(2) other_enqueue_many(2)]
      enqueue_many_in_session_inv [OF other_enqueue_many(1) assms(4)] by simp
next
  case (other_claim w' r)
  then show ?thesis using claim_frames [OF other_claim(1) assms(2,3)] claim_inv [OF other_claim(1) assms(4)] by simp
next
  case (other_renew w' n)
  then show ?thesis
    using assms renew_claim_inv fenced_frames(2) [OF assms(2)] by (auto simp: renew_claim_def)
next
  case (other_complete i w' b)
  then show ?thesis
    using assms complete_inv fenced_frames(1) [OF assms(2)] by (auto simp: complete_def)
next
  case (other_fail i w' e bb mb out)
  then show ?thesis using fail_frames [OF other_fail(1) assms(2) other_fail(2)] fail_inv [OF other_fail(1) assms(4)] by simp
next
  case (other_fail_terminal i w' e b)
  then show ?thesis
    using assms fail_terminal_inv fenced_frames(1) [OF assms(2)] by (auto simp: fail_terminal_def)
next
  case (other_reset w' n)
  then show ?thesis using reset_frames [OF other_reset(1) assms(2) other_reset(2)]
      reset_running_to_pending_inv [OF other_reset(1) assms(4)] by simp
next
  case (other_retry i u b)
  then show ?thesis using retry_frames [OF other_retry(1) assms(2,4)] retry_inv [OF other_retry(1) assms(4)] by simp
next
  case (other_sweep old n)
  then show ?thesis using assms sweep_done_inv by (auto simp: sweep_done_def Let_def frames_delete)
next
  case (other_dismiss i u b)
  then show ?thesis using dismiss_frames [OF other_dismiss(1)] dismiss_inv [OF other_dismiss(1) assms(4)] by simp
next
  case (other_delete_ws u ws)
  then show ?thesis
    using assms delete_jobs_for_workspace_inv by (simp add: delete_jobs_for_workspace_def frames_delete)
qed

lemma frames_of_rows:
  assumes "job_inv t" "job_inv t'" and "\<forall>k. k \<noteq> i \<longrightarrow> sql_get j_id k t' = sql_get j_id k t"
  shows "frames (ids - {i}) t t'"
  unfolding frames_def
proof (intro ballI impI)
  fix r assume "r \<in> set t'" "j_id r \<in> ids - {i}"
  then have "sql_get j_id (j_id r) t' = Some r" "j_id r \<noteq> i"
    using job_inv_get [OF assms(2)] by auto
  then have "sql_get j_id (j_id r) t = Some r" using assms(3) by simp
  then show "r \<in> set t" using sql_get_SomeD by fastforce
qed

lemma finish_keeps_lease:
  assumes "lease_inv w stale c s" and "job_inv t'"
    and "\<forall>k. k \<noteq> j_id j \<longrightarrow> sql_get j_id k t' = sql_get j_id k (ws_db s)"
  shows "lease_inv w stale c
     (s\<lparr>ws_db := t', ws_inflight := filter (\<lambda>x. j_id x \<noteq> j_id j) (ws_inflight s)\<rparr>)"
proof -
  let ?ids = "job_ids (ws_inflight s)"
  have "frames (?ids - {j_id j}) (ws_db s) t'"
    using assms by (intro frames_of_rows) (auto simp: lease_inv_def)
  moreover have "leased w (ws_renewed s) (?ids - {j_id j}) (ws_db s)"
    using assms(1) by (auto simp: lease_inv_def leased_def)
  ultimately have "leased w (ws_renewed s) (?ids - {j_id j}) t'"
    by (rule leased_frames [rotated])
  then have "leased w (ws_renewed s) (job_ids (filter (\<lambda>x. j_id x \<noteq> j_id j) (ws_inflight s))) t'"
    by (auto simp: leased_def)
  then show ?thesis
    using assms(1,2) le_trans [OF length_filter_le, of "ws_inflight s" c]
    by (auto simp: lease_inv_def distinct_map_filter)
qed

lemma heartbeat_leased:
  assumes "leased w ren ids t" and "renew_claim w now t = (n, t')"
  shows "leased w now ids t'"
  unfolding leased_def
proof (intro ballI impI)
  fix r' assume r': "r' \<in> set t'" "j_id r' \<in> ids"
  have "t' = sql_update (held_by w) (\<lambda>r. r\<lparr>j_locked_at := Some now, j_updated_at := now\<rparr>) t"
    using assms(2) by (simp add: renew_claim_def)
  with r'(1) obtain r where r: "r \<in> set t"
    "r' = (if held_by w r then r\<lparr>j_locked_at := Some now, j_updated_at := now\<rparr> else r)"
    using sql_update_origin by fastforce
  then have "j_id r = j_id r'" by simp
  then have "held_by w r" using assms(1) r(1) r'(2) by (simp add: leased_def)
  then show "held_by w r' \<and> (\<exists>l. j_locked_at r' = Some l \<and> now \<le> l)"
    using r(2) by (simp add: held_by_def)
qed

lemma own_claim_leased:
  assumes "claim w now stale t = (Some j, t')" and "leased w ren ids t" and "now \<le> ren + stale"
    and "ren \<le> now"
  shows "leased w ren (insert (j_id j) ids) t' \<and> j_id j \<notin> ids \<and> j_locked_by j = Some w"
proof -
  from assms(1) obtain c where c: "j = lock_row w now c"
    "t' = sql_update (\<lambda>r. j_id r = j_id c) (lock_row w now) t"
    by (rule claim_SomeD)
  have fr: "frames ids t t'" "j_id j \<notin> ids"
    using claim_frames [OF assms(1-3)] by auto
  have "leased w ren ids t'" using assms(2) fr(1) by (rule leased_frames)
  moreover have "held_by w r \<and> (\<exists>l. j_locked_at r = Some l \<and> ren \<le> l)"
    if "r \<in> set t'" "j_id r = j_id j" for r
    using that c assms(4) by (auto simp: sql_simps held_by_def)
  ultimately show ?thesis
    using fr(2) c(1) by (auto simp: leased_def)
qed

lemma worker_step_inv:
  assumes "worker_step w stale c s s'" and "lease_inv w stale c s"
  shows "lease_inv w stale c s'"
  using assms(1)
proof (cases rule: worker_step.cases)
  case (tick n)
  then show ?thesis using assms(2) by (simp add: lease_inv_def)
next
  case (heartbeat n t')
  then show ?thesis
    using assms(2) heartbeat_leased [OF _ heartbeat(2)] renew_claim_inv [OF heartbeat(2)]
    by (auto simp: lease_inv_def)
next
  case (own_claim j t')
  then show ?thesis
    using assms(2) own_claim_leased [OF own_claim(2)] claim_inv [OF own_claim(2)]
    by (auto simp: lease_inv_def)
next
  case (finish j up res jf exc t')
  have "job_inv (ws_db s)" using assms(2) by (simp add: lease_inv_def)
  from sqlrepo.after_handler_finishes [OF this, where now = "ws_now s" and job = j and w = w
      and up = up and res = res] finish(3)
  have "job_inv t'" "\<forall>k. k \<noteq> j_id j \<longrightarrow> sql_get j_id k t' = sql_get j_id k (ws_db s)"
    by (cases jf; simp)+
  with assms(2) show ?thesis unfolding finish(1) by (rule finish_keeps_lease)
next
  case (finish_no_handler j up jf exc t')
  have "job_inv (ws_db s)" using assms(2) by (simp add: lease_inv_def)
  from sqlrepo.terminal_finishes(2) [OF this, where now = "ws_now s" and job = j and w = w
      and up = up] finish_no_handler(3)
  have "job_inv t'" "\<forall>k. k \<noteq> j_id j \<longrightarrow> sql_get j_id k t' = sql_get j_id k (ws_db s)"
    by (cases jf; simp)+
  with assms(2) show ?thesis unfolding finish_no_handler(1) by (rule finish_keeps_lease)
next
  case (other t')
  then show ?thesis
    using assms(2) other_step_frames [OF other(2)] leased_frames by (auto simp: lease_inv_def)
qed

text \<open>A worker that has just started on a table.\<close>

definition worker_start :: "epoch \<Rightarrow> job list \<Rightarrow> worker_state" where
  "worker_start t0 db = \<lparr>ws_now = t0, ws_renewed = t0, ws_db = db, ws_inflight = []\<rparr>"

lemma worker_start_inv: "0 \<le> stale \<Longrightarrow> job_inv db \<Longrightarrow> lease_inv w stale c (worker_start t0 db)"
  by (simp add: lease_inv_def worker_start_def leased_def)

interpretation lease: inv_machine "worker_start t0 []" "worker_step w stale c"
  "\<lambda>s. 0 \<le> stale \<longrightarrow> lease_inv w stale c s" for w stale c t0
  by unfold_locales (auto intro: worker_start_inv worker_step_inv)

subsection \<open>Properties\<close>

text \<open>C2: the lease protects running jobs. As long as heartbeats keep up with the staleness
  window, whatever the other workers, the enqueue sites and the users do, the row of a job that
  this worker is running is locked by this worker or gone, no worker can claim it, no job runs
  twice in the pool, and the pool never exceeds its size.\<close>

theorem lease_safety:
  assumes "0 \<le> stale" and "job_inv db0"
    and "(worker_step w stale c)\<^sup>*\<^sup>* (worker_start t0 db0) s" and "j \<in> set (ws_inflight s)"
  shows "(\<forall>r\<in>set (ws_db s). j_id r = j_id j \<longrightarrow> held_by w r) \<and>
     (\<forall>w' x t'. claim w' (ws_now s) stale (ws_db s) = (Some x, t') \<longrightarrow> j_id x \<noteq> j_id j) \<and>
     (\<forall>x\<in>set (ws_inflight s). j_id x = j_id j \<longrightarrow> x = j) \<and> length (ws_inflight s) \<le> c"
proof -
  have inv: "lease_inv w stale c s"
    using lease.steps_inv [OF assms(3)] worker_start_inv assms(1,2) by blast
  then have l: "leased w (ws_renewed s) (job_ids (ws_inflight s)) (ws_db s)"
    "ws_now s \<le> ws_renewed s + stale" by (auto simp: lease_inv_def)
  have "j_id x \<noteq> j_id j" if "claim w' (ws_now s) stale (ws_db s) = (Some x, t')" for w' x t'
    using claim_frames [OF that l] assms(4) by (metis image_eqI)
  moreover have "\<forall>x\<in>set (ws_inflight s). j_id x = j_id j \<longrightarrow> x = j"
    using inv assms(4) by (auto simp: lease_inv_def distinct_map inj_on_def)
  ultimately show ?thesis
    using inv l assms(4) by (auto simp: lease_inv_def leased_def)
qed

text \<open>C5: \<open>run_job\<close> tells the truth. For a claimed job it always writes its log line; a
  failed repository write is re-raised and changed nothing; otherwise the logged outcome is the
  state of the row (completed: done; failed, no handler: failed; retrying: pending or gone), and
  \<open>superseded\<close> means that the worker no longer held the row and left every row alone. No run
  touches the row of another job.\<close>

theorem run_job_truthful:
  assumes "j_locked_by job = Some w" and "job_inv t"
    and "\<And>h. registry (j_kind job) = Some h \<Longrightarrow> job_inv (snd (h (j_payload job) t))"
  shows "\<exists>t1. finished_ok (\<lambda>t i. sql_get j_id i t) (j_id job) w t1
        (run_job (sql_repo up now) job registry t) \<and>
     (case registry (j_kind job) of None \<Rightarrow> t1 = t | Some h \<Rightarrow> t1 = snd (h (j_payload job) t)) \<and>
     job_inv (snd (snd (run_job (sql_repo up now) job registry t)))"
  using sqlrepo.run_job_finishes [where up = up and now = now and job = job and w = w
      and registry = registry and db = t, OF assms(1) _ assms(2)] assms(3) by blast

text \<open>One round of the claim loop leaves either a full pool or a table where, at the time
  of the last claim, nothing was claimable; it adds jobs at the end and keeps the invariant.\<close>

theorem fill_pool_correct:
  assumes "job_inv t" and "fill_pool w stale clock concurrency inflight t = (idle, inflight', t')"
    and "length inflight \<le> concurrency"
  shows "job_inv t' \<and> prefix inflight inflight' \<and> length inflight' \<le> concurrency \<and>
     (if idle then \<exists>m. claim_candidates (clock m) (clock m - stale) t' = []
      else length inflight' = concurrency)"
  using fill_slots_correct [OF assms(1) assms(2) [unfolded fill_pool_def]] assms(3)
  by (auto split: if_splits)

text \<open>The arguments the worker accepts: without an explicit interval it starts exactly when the
  window is positive, with one exactly when it lies strictly between zero and the window.\<close>

lemma check_worker_args_correct:
  "(check_worker_args True stale None = Inr ri \<longleftrightarrow> 0 < stale \<and> ri = stale / 3) \<and>
   (check_worker_args True stale (Some r) = Inr ri \<longleftrightarrow> 0 < r \<and> r < stale \<and> ri = r) \<and>
   check_worker_args False stale o' \<noteq> Inr ri"
  by (auto simp: check_worker_args_def Let_def)

subsection \<open>The theorems at concrete inputs\<close>

theorem lease_safety_witness:
  "\<exists>s. (worker_step ''w1'' 300 4)\<^sup>*\<^sup>* (worker_start 0 [ex_job]) s \<and> ws_now s = 200 \<and>
     ws_inflight s = [ex_running] \<and> held_by ''w1'' (hd (ws_db s)) \<and>
     fst (claim ''w2'' (ws_now s) 300 (ws_db s)) = None"
proof -
  let ?s0 = "worker_start 0 [ex_job]"
  let ?s1 = "?s0\<lparr>ws_db := [ex_running], ws_inflight := ws_inflight ?s0 @ [ex_running]\<rparr>"
  let ?s2 = "?s1\<lparr>ws_now := 200\<rparr>"
  have "worker_step ''w1'' 300 4 ?s0 ?s1"
    by (rule own_claim) (simp_all add: worker_start_def ex_claim)
  moreover have "worker_step ''w1'' 300 4 ?s1 ?s2"
    by (rule tick) (simp_all add: worker_start_def)
  ultimately have steps: "(worker_step ''w1'' 300 4)\<^sup>*\<^sup>* ?s0 ?s2" by simp
  have db: "ws_db ?s2 = [ex_running]" "ws_now ?s2 = 200" by simp_all
  have safe: "(\<forall>r\<in>set [ex_running]. j_id r = j_id ex_running \<longrightarrow> held_by ''w1'' r) \<and>
     (\<forall>w' x t'. claim w' 200 300 [ex_running] = (Some x, t') \<longrightarrow> j_id x \<noteq> j_id ex_running)"
    using lease_safety [OF _ ex_invs(1) steps, of ex_running] unfolding db by simp
  moreover have "fst (claim ''w2'' 200 300 [ex_running]) = None"
  proof (rule ccontr)
    assume "fst (claim ''w2'' 200 300 [ex_running]) \<noteq> None"
    then obtain x t' where c: "claim ''w2'' 200 300 [ex_running] = (Some x, t')"
      by (metis not_None_eq prod.collapse)
    then obtain y where "y \<in> set (claim_candidates 200 (200 - 300) [ex_running])" "x = lock_row ''w2'' 200 y"
      by (rule claim_SomeD)
    then have "j_id x = j_id ex_running" using claim_candidates_sub by fastforce
    with safe c show False by blast
  qed
  ultimately show ?thesis
    using steps by (intro exI [of _ ?s2]) (simp add: worker_start_def)
qed

theorem run_job_truthful_witness:
  "finished_ok (\<lambda>t i. sql_get j_id i t) ''a'' ''w1'' [ex_running]
     (run_job (sql_repo True 9) ex_running (\<lambda>k. Some (\<lambda>p t. (HOk, t))) [ex_running])"
proof -
  have "j_locked_by ex_running = Some ''w1''" "j_id ex_running = ''a''" by (simp_all add: ex_defs)
  then show ?thesis
    using run_job_truthful [of ex_running "''w1''" "[ex_running]" "\<lambda>k. Some (\<lambda>p t. (HOk, t))" True 9]
      ex_invs(2) by auto
qed

theorem fill_pool_correct_witness:
  "\<exists>idle fl t'. fill_pool ''w1'' 300 (\<lambda>n. 0) 4 [] [ex_job] = (idle, fl, t') \<and> job_inv t' \<and> length fl \<le> 4"
proof -
  obtain idle fl t' where f: "fill_pool ''w1'' 300 (\<lambda>n. 0) 4 [] [ex_job] = (idle, fl, t')"
    by (metis prod_cases3)
  from fill_pool_correct [OF ex_invs(1) f] f show ?thesis by auto
qed

end
