(* ===== verification/OAuth_Repo.thy ===== *)
theory OAuth_Repo
  imports Prelude
begin

section \<open>OAuth state\<close>

text \<open>
  Models \<open>repositories/oauth.py\<close> (class \<open>OAuthRepository\<close>) and
  \<open>repositories/sessions.py\<close> over their tables in \<open>models.py\<close>. One record holds the
  tables; every method is a function on it. \<open>INSERT\<close> on a taken primary key and a foreign
  key without its user raise, and the caller's state is then the rolled-back one. The clock is an
  argument: \<open>int(time.time())\<close> is the floor of it. JSON columns hold the value that was
  dumped; a NULL \<open>scopes\<close> column reads as the empty list, as \<open>_row_dict\<close> does. Log
  lines are not modelled.
\<close>

subsection \<open>Tables\<close>

record user_row =
  u_id :: string
  u_email :: string
  u_timezone :: string
  u_locale :: string

record session_row =
  ss_token :: string
  ss_user_id :: string
  ss_expires_at :: int

record access_row =
  at_token :: string
  at_client_id :: string
  at_user_id :: "string option"
  at_scopes :: "string list option"
  at_expires_at :: "int option"
  at_refresh_token :: "string option"

record refresh_row =
  rt_token :: string
  rt_client_id :: string
  rt_user_id :: "string option"
  rt_scopes :: "string list option"
  rt_expires_at :: "int option"
  rt_family_id :: string
  rt_consumed_at :: "int option"

record code_row =
  ac_code :: string
  ac_client_id :: string
  ac_user_id :: "string option"
  ac_redirect_uri :: string
  ac_explicit :: bool
  ac_scopes :: "string list option"
  ac_expires_at :: epoch
  ac_code_challenge :: "string option"

record pending_row =
  pa_pending_id :: string
  pa_client_json :: string
  pa_params_json :: string
  pa_expires_at :: epoch

record oauth_client_row =
  oc_client_id :: string
  oc_client_secret :: string
  oc_redirect_uris :: "string list"
  oc_created_at :: string

record oauth_db =
  od_users :: "user_row list"
  od_sessions :: "session_row list"
  od_registered :: "(string \<times> string) list"
  od_authorizations :: "(string \<times> string) list"
  od_clients :: "oauth_client_row list"
  od_access :: "access_row list"
  od_refresh :: "refresh_row list"
  od_codes :: "code_row list"
  od_pending :: "pending_row list"

record token_pair =
  tp_access_token :: string
  tp_refresh_token :: string
  tp_client_id :: string
  tp_user_id :: string
  tp_scopes :: "string list"
  tp_access_expires_at :: int
  tp_refresh_expires_at :: int
  tp_family_id :: string

datatype rotation_outcome = ROTATED | REUSED | EXPIRED | MISSING

datatype oauth_error = OAuthDb db_error | OAuthValueError string | OAuthValidation
  | TokenError string string

text \<open>\<open>_row_dict\<close>.\<close>

definition row_scopes :: "string list option \<Rightarrow> string list" where
  "row_scopes s = (case s of None \<Rightarrow> [] | Some l \<Rightarrow> l)"

subsection \<open>Inserting and deleting tokens\<close>

definition insert_access_token :: "token_pair \<Rightarrow> oauth_db \<Rightarrow> oauth_error + oauth_db" where
  "insert_access_token p db =
     (case sql_insert at_token
        \<lparr>at_token = tp_access_token p, at_client_id = tp_client_id p,
         at_user_id = Some (tp_user_id p), at_scopes = Some (tp_scopes p),
         at_expires_at = Some (tp_access_expires_at p),
         at_refresh_token = Some (tp_refresh_token p)\<rparr> (od_access db) of
        Inl e \<Rightarrow> Inl (OAuthDb e)
      | Inr t \<Rightarrow> Inr (db\<lparr>od_access := t\<rparr>))"

definition insert_refresh_token :: "token_pair \<Rightarrow> oauth_db \<Rightarrow> oauth_error + oauth_db" where
  "insert_refresh_token p db =
     (case sql_insert rt_token
        \<lparr>rt_token = tp_refresh_token p, rt_client_id = tp_client_id p,
         rt_user_id = Some (tp_user_id p), rt_scopes = Some (tp_scopes p),
         rt_expires_at = Some (tp_refresh_expires_at p), rt_family_id = tp_family_id p,
         rt_consumed_at = None\<rparr> (od_refresh db) of
        Inl e \<Rightarrow> Inl (OAuthDb e)
      | Inr t \<Rightarrow> Inr (db\<lparr>od_refresh := t\<rparr>))"

definition in_family :: "string \<Rightarrow> oauth_db \<Rightarrow> access_row \<Rightarrow> bool" where
  "in_family family_id db a =
     (\<exists>r\<in>set (od_refresh db). rt_family_id r = family_id \<and> at_refresh_token a = Some (rt_token r))"

definition delete_family :: "string \<Rightarrow> oauth_db \<Rightarrow> (nat \<times> nat) \<times> oauth_db" where
  "delete_family family_id db =
     ((sql_count (in_family family_id db) (od_access db),
       sql_count (\<lambda>r. rt_family_id r = family_id) (od_refresh db)),
      db\<lparr>od_access := sql_delete (in_family family_id db) (od_access db),
         od_refresh := sql_delete (\<lambda>r. rt_family_id r = family_id) (od_refresh db)\<rparr>)"

subsection \<open>Clients and consent\<close>

definition upsert_registered_client :: "string \<Rightarrow> string \<Rightarrow> oauth_db \<Rightarrow> oauth_db" where
  "upsert_registered_client client_id data db =
     (if client_id \<in> fst ` set (od_registered db)
      then db\<lparr>od_registered := sql_update (\<lambda>r. fst r = client_id) (\<lambda>r. (client_id, data)) (od_registered db)\<rparr>
      else db\<lparr>od_registered := od_registered db @ [(client_id, data)]\<rparr>)"

definition get_all_registered_clients :: "oauth_db \<Rightarrow> string list" where
  "get_all_registered_clients db = map snd (od_registered db)"

definition get_registered_client :: "string \<Rightarrow> oauth_db \<Rightarrow> string option" where
  "get_registered_client client_id db = map_option snd (sql_get fst client_id (od_registered db))"

definition record_client_authorization :: "string \<Rightarrow> string \<Rightarrow> oauth_db \<Rightarrow> oauth_error + oauth_db" where
  "record_client_authorization client_id user_id db =
     (if user_id \<notin> u_id ` set (od_users db) then Inl (OAuthDb IntegrityError)
      else Inr (db\<lparr>od_authorizations := sql_replace fst (client_id, user_id) (od_authorizations db)\<rparr>))"

definition save_oauth_client :: "oauth_client_row \<Rightarrow> oauth_db \<Rightarrow> oauth_db" where
  "save_oauth_client c db = db\<lparr>od_clients := sql_replace oc_client_id c (od_clients db)\<rparr>"

definition get_oauth_client :: "string \<Rightarrow> oauth_db \<Rightarrow> oauth_client_row option" where
  "get_oauth_client client_id db = sql_get oc_client_id client_id (od_clients db)"

subsection \<open>Token rows\<close>

definition upsert_access_token ::
  "string \<Rightarrow> string \<Rightarrow> string list option \<Rightarrow> int option \<Rightarrow> string option \<Rightarrow> string option
   \<Rightarrow> oauth_db \<Rightarrow> oauth_db" where
  "upsert_access_token tok client_id scopes expires_at refresh_token user_id db =
     db\<lparr>od_access := sql_replace at_token
        \<lparr>at_token = tok, at_client_id = client_id, at_user_id = user_id,
         at_scopes = Some (row_scopes scopes), at_expires_at = expires_at,
         at_refresh_token = refresh_token\<rparr> (od_access db)\<rparr>"

text \<open>\<open>family_id or token\<close>: a missing or empty family is the token itself.\<close>

definition upsert_refresh_token ::
  "string \<Rightarrow> string \<Rightarrow> string list option \<Rightarrow> int option \<Rightarrow> string option \<Rightarrow> string option
   \<Rightarrow> int option \<Rightarrow> oauth_db \<Rightarrow> oauth_db" where
  "upsert_refresh_token tok client_id scopes expires_at user_id family_id consumed_at db =
     db\<lparr>od_refresh := sql_replace rt_token
        \<lparr>rt_token = tok, rt_client_id = client_id, rt_user_id = user_id,
         rt_scopes = Some (row_scopes scopes), rt_expires_at = expires_at,
         rt_family_id = (case family_id of None \<Rightarrow> tok | Some f \<Rightarrow> if f = [] then tok else f),
         rt_consumed_at = consumed_at\<rparr> (od_refresh db)\<rparr>"

definition save_token_pair :: "token_pair \<Rightarrow> oauth_db \<Rightarrow> oauth_error + oauth_db" where
  "save_token_pair p db =
     (case insert_refresh_token p db of
        Inl e \<Rightarrow> Inl e
      | Inr db' \<Rightarrow> insert_access_token p db')"

text \<open>The claim of the old token: unconsumed and not expired (\<open>expires_at >= now\<close>).\<close>

definition rotatable :: "string \<Rightarrow> int \<Rightarrow> refresh_row \<Rightarrow> bool" where
  "rotatable tok now r \<longleftrightarrow> rt_token r = tok \<and> rt_consumed_at r = None \<and>
     (case rt_expires_at r of None \<Rightarrow> True | Some e \<Rightarrow> e \<ge> now)"

definition rotate_token_pair ::
  "string \<Rightarrow> token_pair \<Rightarrow> int \<Rightarrow> oauth_db \<Rightarrow> oauth_error + (rotation_outcome \<times> oauth_db)" where
  "rotate_token_pair old p now db =
     (case find (rotatable old now) (od_refresh db) of
        Some claimed \<Rightarrow>
          if rt_family_id claimed \<noteq> tp_family_id p
          then Inl (OAuthValueError ''Replacement refresh token has a different family_id'')
          else
            (let db1 = db\<lparr>od_refresh := sql_update (rotatable old now)
                            (\<lambda>r. r\<lparr>rt_consumed_at := Some now\<rparr>) (od_refresh db),
                          od_access := sql_delete (\<lambda>a. at_refresh_token a = Some old) (od_access db)\<rparr>
             in case insert_refresh_token p db1 of
                  Inl e \<Rightarrow> Inl e
                | Inr db2 \<Rightarrow>
                    (case insert_access_token p db2 of
                       Inl e \<Rightarrow> Inl e
                     | Inr db3 \<Rightarrow> Inr (ROTATED, db3)))
      | None \<Rightarrow>
          (case sql_get rt_token old (od_refresh db) of
             None \<Rightarrow> Inr (MISSING, db)
           | Some row \<Rightarrow>
               Inr (if rt_consumed_at row \<noteq> None then REUSED else EXPIRED,
                    snd (delete_family (rt_family_id row) db))))"

definition get_valid_access_tokens :: "epoch \<Rightarrow> oauth_db \<Rightarrow> access_row list" where
  "get_valid_access_tokens now db =
     filter (\<lambda>a. case at_expires_at a of None \<Rightarrow> True | Some e \<Rightarrow> e > \<lfloor>now\<rfloor>) (od_access db)"

definition get_valid_refresh_tokens :: "epoch \<Rightarrow> oauth_db \<Rightarrow> refresh_row list" where
  "get_valid_refresh_tokens now db =
     filter (\<lambda>r. rt_consumed_at r = None \<and>
                 (case rt_expires_at r of None \<Rightarrow> True | Some e \<Rightarrow> e > \<lfloor>now\<rfloor>)) (od_refresh db)"

definition get_access_token :: "string \<Rightarrow> oauth_db \<Rightarrow> access_row option" where
  "get_access_token tok db = sql_get at_token tok (od_access db)"

definition get_refresh_token :: "string \<Rightarrow> oauth_db \<Rightarrow> refresh_row option" where
  "get_refresh_token tok db = sql_get rt_token tok (od_refresh db)"

subsection \<open>Codes and pending authorizations\<close>

definition upsert_auth_code :: "code_row \<Rightarrow> oauth_db \<Rightarrow> oauth_db" where
  "upsert_auth_code c db =
     db\<lparr>od_codes := sql_replace ac_code (c\<lparr>ac_scopes := Some (row_scopes (ac_scopes c))\<rparr>) (od_codes db)\<rparr>"

definition get_auth_code :: "string \<Rightarrow> oauth_db \<Rightarrow> code_row option" where
  "get_auth_code code db = sql_get ac_code code (od_codes db)"

definition delete_auth_code :: "string \<Rightarrow> oauth_db \<Rightarrow> bool \<times> oauth_db" where
  "delete_auth_code code db =
     (sql_count (\<lambda>c. ac_code c = code) (od_codes db) > 0,
      db\<lparr>od_codes := sql_delete (\<lambda>c. ac_code c = code) (od_codes db)\<rparr>)"

definition oauth_upsert_pending :: "pending_row \<Rightarrow> oauth_db \<Rightarrow> oauth_db" where
  "oauth_upsert_pending p db = db\<lparr>od_pending := sql_replace pa_pending_id p (od_pending db)\<rparr>"

definition get_pending :: "string \<Rightarrow> epoch \<Rightarrow> oauth_db \<Rightarrow> (string \<times> string) option" where
  "get_pending pending_id now db =
     map_option (\<lambda>p. (pa_client_json p, pa_params_json p))
       (find (\<lambda>p. pa_pending_id p = pending_id \<and> pa_expires_at p > now) (od_pending db))"

definition delete_pending :: "string \<Rightarrow> oauth_db \<Rightarrow> oauth_db" where
  "delete_pending pending_id db =
     db\<lparr>od_pending := sql_delete (\<lambda>p. pa_pending_id p = pending_id) (od_pending db)\<rparr>"

subsection \<open>Revocation\<close>

definition delete_access_token :: "string \<Rightarrow> oauth_db \<Rightarrow> oauth_db" where
  "delete_access_token tok db = db\<lparr>od_access := sql_delete (\<lambda>a. at_token a = tok) (od_access db)\<rparr>"

definition delete_refresh_token :: "string \<Rightarrow> oauth_db \<Rightarrow> bool \<times> oauth_db" where
  "delete_refresh_token tok db =
     (sql_count (\<lambda>r. rt_token r = tok) (od_refresh db) > 0,
      db\<lparr>od_refresh := sql_delete (\<lambda>r. rt_token r = tok) (od_refresh db)\<rparr>)"

definition delete_access_tokens_by_refresh :: "string \<Rightarrow> oauth_db \<Rightarrow> oauth_db" where
  "delete_access_tokens_by_refresh tok db =
     db\<lparr>od_access := sql_delete (\<lambda>a. at_refresh_token a = Some tok) (od_access db)\<rparr>"

definition revoke_token_family :: "string \<Rightarrow> oauth_db \<Rightarrow> bool \<times> oauth_db" where
  "revoke_token_family family_id db =
     (let ((a, r), db') = delete_family family_id db in (a \<noteq> 0 \<or> r \<noteq> 0, db'))"

definition revoke_by_refresh_token :: "string \<Rightarrow> oauth_db \<Rightarrow> bool \<times> oauth_db" where
  "revoke_by_refresh_token tok db =
     (case sql_get rt_token tok (od_refresh db) of
        None \<Rightarrow> (False, db)
      | Some row \<Rightarrow> (let ((a, r), db') = delete_family (rt_family_id row) db in (a \<noteq> 0 \<or> r \<noteq> 0, db')))"

definition revoke_by_access_token :: "string \<Rightarrow> oauth_db \<Rightarrow> bool \<times> oauth_db" where
  "revoke_by_access_token tok db =
     (let only_this = (sql_count (\<lambda>a. at_token a = tok) (od_access db) \<noteq> 0, delete_access_token tok db)
      in case sql_get at_token tok (od_access db) of
           None \<Rightarrow> (False, db)
         | Some row \<Rightarrow>
             (case at_refresh_token row of
                None \<Rightarrow> only_this
              | Some rt \<Rightarrow>
                  (case sql_get rt_token rt (od_refresh db) of
                     None \<Rightarrow> only_this
                   | Some refresh \<Rightarrow>
                       (let ((a, r), db') = delete_family (rt_family_id refresh) db
                        in (a \<noteq> 0 \<or> r \<noteq> 0, db')))))"

definition delete_credentials_by_user :: "string \<Rightarrow> oauth_db \<Rightarrow> nat \<times> oauth_db" where
  "delete_credentials_by_user user_id db =
     (sql_count (\<lambda>c. ac_user_id c = Some user_id) (od_codes db)
      + sql_count (\<lambda>a. at_user_id a = Some user_id) (od_access db)
      + sql_count (\<lambda>r. rt_user_id r = Some user_id) (od_refresh db),
      db\<lparr>od_codes := sql_delete (\<lambda>c. ac_user_id c = Some user_id) (od_codes db),
         od_access := sql_delete (\<lambda>a. at_user_id a = Some user_id) (od_access db),
         od_refresh := sql_delete (\<lambda>r. rt_user_id r = Some user_id) (od_refresh db)\<rparr>)"

definition delete_expired_tokens :: "epoch \<Rightarrow> oauth_db \<Rightarrow> oauth_db" where
  "delete_expired_tokens now db =
     (let n = \<lfloor>now\<rfloor>; past = (\<lambda>e. case e of None \<Rightarrow> False | Some x \<Rightarrow> x \<le> n)
      in db\<lparr>od_access := sql_delete (\<lambda>a. past (at_expires_at a)) (od_access db),
            od_refresh := sql_delete (\<lambda>r. past (rt_expires_at r)) (od_refresh db),
            od_codes := sql_delete (\<lambda>c. ac_expires_at c \<le> of_int n) (od_codes db),
            od_pending := sql_delete (\<lambda>p. pa_expires_at p \<le> of_int n) (od_pending db)\<rparr>)"

subsection \<open>Browser sessions\<close>

definition session_create :: "string \<Rightarrow> string \<Rightarrow> epoch \<Rightarrow> oauth_db \<Rightarrow> oauth_error + oauth_db" where
  "session_create tok user_id now db =
     (if user_id \<notin> u_id ` set (od_users db) then Inl (OAuthDb IntegrityError)
      else case sql_insert ss_token \<lparr>ss_token = tok, ss_user_id = user_id,
             ss_expires_at = \<lfloor>now\<rfloor> + 30 * 24 * 3600\<rparr> (od_sessions db) of
             Inl e \<Rightarrow> Inl (OAuthDb e)
           | Inr t \<Rightarrow> Inr (db\<lparr>od_sessions := t\<rparr>))"

definition session_get_user :: "string \<Rightarrow> epoch \<Rightarrow> oauth_db \<Rightarrow> user_row option" where
  "session_get_user tok now db =
     (case filter (\<lambda>s. ss_token s = tok \<and> ss_expires_at s > \<lfloor>now\<rfloor>) (od_sessions db) of
        [] \<Rightarrow> None
      | s # _ \<Rightarrow> find (\<lambda>u. u_id u = ss_user_id s) (od_users db))"

definition session_delete :: "string \<Rightarrow> oauth_db \<Rightarrow> oauth_db" where
  "session_delete tok db = db\<lparr>od_sessions := sql_delete (\<lambda>s. ss_token s = tok) (od_sessions db)\<rparr>"

definition session_delete_all_for_user :: "string \<Rightarrow> oauth_db \<Rightarrow> nat \<times> oauth_db" where
  "session_delete_all_for_user user_id db =
     (sql_count (\<lambda>s. ss_user_id s = user_id) (od_sessions db),
      db\<lparr>od_sessions := sql_delete (\<lambda>s. ss_user_id s = user_id) (od_sessions db)\<rparr>)"

subsection \<open>The keyed tables provide the store interface\<close>

interpretation codes: keyed_store ac_code get_auth_code
  "\<lambda>c db. db\<lparr>od_codes := sql_replace ac_code c (od_codes db)\<rparr>" "\<lambda>k db. snd (delete_auth_code k db)"
  by unfold_locales
     (simp_all add: get_auth_code_def delete_auth_code_def sql_get_replace sql_get_delete_key)

interpretation access: keyed_store at_token get_access_token
  "\<lambda>a db. db\<lparr>od_access := sql_replace at_token a (od_access db)\<rparr>" delete_access_token
  by unfold_locales
     (simp_all add: get_access_token_def delete_access_token_def sql_get_replace sql_get_delete_key)

interpretation refresh: keyed_store rt_token get_refresh_token
  "\<lambda>r db. db\<lparr>od_refresh := sql_replace rt_token r (od_refresh db)\<rparr>" "\<lambda>k db. snd (delete_refresh_token k db)"
  by unfold_locales
     (simp_all add: get_refresh_token_def delete_refresh_token_def sql_get_replace sql_get_delete_key)

interpretation oauth_clients: keyed_store oc_client_id get_oauth_client save_oauth_client
  "\<lambda>k db. db\<lparr>od_clients := sql_delete (\<lambda>c. oc_client_id c = k) (od_clients db)\<rparr>"
  by unfold_locales
     (simp_all add: get_oauth_client_def save_oauth_client_def sql_get_replace sql_get_delete_key)

end
