(* ===== verification/Auth.thy ===== *)
theory Auth
  imports OAuth_Repo
begin

section \<open>The OAuth provider and credential resolution\<close>

text \<open>
  Models \<open>auth.py\<close> (class \<open>KajetOAuthProvider\<close>) and \<open>identity.py\<close>. Every repository
  call of a method is its own transaction, so a method returns its result or error together with
  the state the committed calls left. What the MCP SDK and fastmcp provide (serialisation of
  their models, the redirect construction, two default lifetimes) is the parameter \<open>mcp_sdk\<close>;
  of the SDK's models only the fields this code reads are kept. Random values of
  \<open>secrets\<close> are arguments. Security log events are not modelled.
\<close>

subsection \<open>The SDK\<close>

record client_info =
  ci_client_id :: "string option"
  ci_scope :: "string option"

record auth_params =
  ap_state :: "string option"
  ap_scopes :: "string list option"
  ap_code_challenge :: string
  ap_redirect_uri :: string
  ap_explicit :: bool

record mcp_sdk =
  sdk_dump_client :: "client_info \<Rightarrow> string"
  sdk_load_client :: "string \<Rightarrow> client_info option"
  sdk_dump_params :: "auth_params \<Rightarrow> string"
  sdk_load_params :: "string \<Rightarrow> auth_params option"
  sdk_redirect :: "string \<Rightarrow> string \<Rightarrow> string option \<Rightarrow> string"
  sdk_access_expiry :: int
  sdk_code_expiry :: int

record oauth_token =
  ot_access_token :: string
  ot_expires_in :: int
  ot_refresh_token :: string
  ot_scope :: string

definition PENDING_AUTHORIZATION_EXPIRY_SECONDS :: epoch where
  "PENDING_AUTHORIZATION_EXPIRY_SECONDS = 600"

definition REFRESH_TOKEN_EXPIRY_SECONDS :: int where
  "REFRESH_TOKEN_EXPIRY_SECONDS = 30 * 24 * 3600"

subsection \<open>Clients\<close>

definition get_client :: "mcp_sdk \<Rightarrow> string \<Rightarrow> oauth_db \<Rightarrow> oauth_error + client_info option" where
  "get_client sdk client_id db =
     (case get_registered_client client_id db of
        None \<Rightarrow> Inr None
      | Some data \<Rightarrow>
          (case sdk_load_client sdk data of
             None \<Rightarrow> Inl OAuthValidation
           | Some c \<Rightarrow> Inr (Some c)))"

text \<open>The list of offending scopes in the error message is left out: it is a set, in no fixed
  order.\<close>

definition register_client ::
  "mcp_sdk \<Rightarrow> string list option \<Rightarrow> client_info \<Rightarrow> oauth_db \<Rightarrow> (oauth_error + unit) \<times> oauth_db" where
  "register_client sdk valid_scopes client db =
     (if (case (ci_scope client, valid_scopes) of
            (Some sc, Some valid) \<Rightarrow> \<not> set (py_split_ws sc) \<subseteq> set valid
          | _ \<Rightarrow> False)
      then (Inl (OAuthValueError ''Requested scopes are not valid''), db)
      else case ci_client_id client of
             None \<Rightarrow> (Inl (OAuthValueError ''client_id is required for client registration''), db)
           | Some cid \<Rightarrow> (Inr (), upsert_registered_client cid (sdk_dump_client sdk client) db))"

subsection \<open>The login flow\<close>

definition authorize ::
  "mcp_sdk \<Rightarrow> string \<Rightarrow> client_info \<Rightarrow> auth_params \<Rightarrow> epoch \<Rightarrow> oauth_db \<Rightarrow> string \<times> oauth_db" where
  "authorize sdk pending_id client params now db =
     (''/login?pending='' @ pending_id,
      oauth_upsert_pending \<lparr>pa_pending_id = pending_id, pa_client_json = sdk_dump_client sdk client,
        pa_params_json = sdk_dump_params sdk params,
        pa_expires_at = now + PENDING_AUTHORIZATION_EXPIRY_SECONDS\<rparr> db)"

definition get_pending_client ::
  "mcp_sdk \<Rightarrow> string \<Rightarrow> epoch \<Rightarrow> oauth_db \<Rightarrow> oauth_error + client_info option" where
  "get_pending_client sdk pending_id now db =
     (case get_pending pending_id now db of
        None \<Rightarrow> Inr None
      | Some (cj, pj) \<Rightarrow>
          (case sdk_load_client sdk cj of None \<Rightarrow> Inl OAuthValidation | Some c \<Rightarrow> Inr (Some c)))"

definition granted_scopes :: "client_info \<Rightarrow> auth_params \<Rightarrow> string list" where
  "granted_scopes client params =
     (let scopes_list = row_scopes (ap_scopes params)
      in case ci_scope client of
           None \<Rightarrow> scopes_list
         | Some sc \<Rightarrow> if sc = [] then scopes_list
                      else filter (\<lambda>s. s \<in> set (py_split_ws sc)) scopes_list)"

definition complete_authorization ::
  "mcp_sdk \<Rightarrow> string \<Rightarrow> string \<Rightarrow> string option \<Rightarrow> epoch \<Rightarrow> oauth_db \<Rightarrow> (oauth_error + string) \<times> oauth_db" where
  "complete_authorization sdk secret pending_id user_id now db =
     (case get_pending pending_id now db of
        None \<Rightarrow> (Inl (OAuthValueError ''Invalid or expired authorization''), db)
      | Some (cj, pj) \<Rightarrow>
          (case (sdk_load_client sdk cj, sdk_load_params sdk pj) of
             (Some client, Some params) \<Rightarrow>
               (let db1 = delete_pending pending_id db
                in case ci_client_id client of
                     None \<Rightarrow> (Inl (OAuthValueError ''Stored OAuth client is missing client_id''), db1)
                   | Some cid \<Rightarrow>
                       (case (case user_id of
                                None \<Rightarrow> Inr db1
                              | Some u \<Rightarrow> if u = [] then Inr db1 else record_client_authorization cid u db1) of
                          Inl e \<Rightarrow> (Inl e, db1)
                        | Inr db2 \<Rightarrow>
                            (let code = ''kajet_'' @ secret
                             in (Inr (sdk_redirect sdk (ap_redirect_uri params) code (ap_state params)),
                                 upsert_auth_code
                                   \<lparr>ac_code = code, ac_client_id = cid, ac_user_id = user_id,
                                    ac_redirect_uri = ap_redirect_uri params,
                                    ac_explicit = ap_explicit params,
                                    ac_scopes = Some (granted_scopes client params),
                                    ac_expires_at = now + of_int (sdk_code_expiry sdk),
                                    ac_code_challenge = Some (ap_code_challenge params)\<rparr> db2))))
           | _ \<Rightarrow> (Inl OAuthValidation, db)))"

subsection \<open>Authorization codes\<close>

definition load_authorization_code ::
  "client_info \<Rightarrow> string \<Rightarrow> epoch \<Rightarrow> oauth_db \<Rightarrow> code_row option \<times> oauth_db" where
  "load_authorization_code client code now db =
     (case get_auth_code code db of
        None \<Rightarrow> (None, db)
      | Some row \<Rightarrow>
          if Some (ac_client_id row) \<noteq> ci_client_id client then (None, db)
          else if ac_expires_at row < now then (None, snd (delete_auth_code code db))
          else (Some (row\<lparr>ac_scopes := Some (row_scopes (ac_scopes row))\<rparr>), db))"

record token_secrets =
  sec_family :: string
  sec_access :: string
  sec_refresh :: string

definition new_token_pair ::
  "mcp_sdk \<Rightarrow> token_secrets \<Rightarrow> string \<Rightarrow> string list \<Rightarrow> string \<Rightarrow> string \<Rightarrow> int \<Rightarrow> int \<Rightarrow> token_pair" where
  "new_token_pair sdk sec client_id scopes user_id family_id refresh_expires_at now =
     \<lparr>tp_access_token = ''kajet_at_'' @ sec_access sec,
      tp_refresh_token = ''kajet_rt_'' @ sec_refresh sec,
      tp_client_id = client_id, tp_user_id = user_id, tp_scopes = scopes,
      tp_access_expires_at = now + sdk_access_expiry sdk,
      tp_refresh_expires_at = refresh_expires_at, tp_family_id = family_id\<rparr>"

definition token_response :: "mcp_sdk \<Rightarrow> token_pair \<Rightarrow> oauth_token" where
  "token_response sdk p =
     \<lparr>ot_access_token = tp_access_token p, ot_expires_in = sdk_access_expiry sdk,
      ot_refresh_token = tp_refresh_token p, ot_scope = join '' '' (tp_scopes p)\<rparr>"

definition issue_token_pair ::
  "mcp_sdk \<Rightarrow> token_secrets \<Rightarrow> string \<Rightarrow> string list \<Rightarrow> string \<Rightarrow> epoch \<Rightarrow> oauth_db
   \<Rightarrow> (oauth_error + oauth_token) \<times> oauth_db" where
  "issue_token_pair sdk sec client_id scopes user_id time db =
     (let now = \<lfloor>time\<rfloor>;
          p = new_token_pair sdk sec client_id scopes user_id (sec_family sec)
                (now + REFRESH_TOKEN_EXPIRY_SECONDS) now
      in case save_token_pair p db of
           Inl e \<Rightarrow> (Inl e, db)
         | Inr db' \<Rightarrow> (Inr (token_response sdk p), db'))"

definition exchange_authorization_code ::
  "mcp_sdk \<Rightarrow> token_secrets \<Rightarrow> client_info \<Rightarrow> code_row \<Rightarrow> epoch \<Rightarrow> oauth_db
   \<Rightarrow> (oauth_error + oauth_token) \<times> oauth_db" where
  "exchange_authorization_code sdk sec client code time db =
     (let (deleted, db1) = delete_auth_code (ac_code code) db
      in if \<not> deleted
         then (Inl (TokenError ''invalid_grant'' ''Authorization code not found or already used.''), db1)
         else case ci_client_id client of
                None \<Rightarrow> (Inl (TokenError ''invalid_client'' ''Client ID is required''), db1)
              | Some cid \<Rightarrow>
                  (case ac_user_id code of
                     None \<Rightarrow> (Inl (TokenError ''invalid_grant'' ''Authorization code is not bound to a user.''), db1)
                   | Some u \<Rightarrow> issue_token_pair sdk sec cid (row_scopes (ac_scopes code)) u time db1))"

subsection \<open>Tokens\<close>

definition token_expired :: "int option \<Rightarrow> epoch \<Rightarrow> bool" where
  "token_expired expires_at now = (case expires_at of None \<Rightarrow> False | Some e \<Rightarrow> of_int e < now)"

definition load_refresh_token ::
  "client_info \<Rightarrow> string \<Rightarrow> epoch \<Rightarrow> oauth_db \<Rightarrow> refresh_row option \<times> oauth_db" where
  "load_refresh_token client tok now db =
     (case get_refresh_token tok db of
        None \<Rightarrow> (None, db)
      | Some row \<Rightarrow>
          if Some (rt_client_id row) \<noteq> ci_client_id client then (None, db)
          else if rt_user_id row = None then (None, db)
          else if rt_consumed_at row \<noteq> None
          then (None, snd (revoke_token_family (rt_family_id row) db))
          else if token_expired (rt_expires_at row) now
          then (None, snd (revoke_by_refresh_token tok db))
          else (Some (row\<lparr>rt_scopes := Some (row_scopes (rt_scopes row))\<rparr>), db))"

definition exchange_refresh_token ::
  "mcp_sdk \<Rightarrow> token_secrets \<Rightarrow> client_info \<Rightarrow> refresh_row \<Rightarrow> string list \<Rightarrow> epoch \<Rightarrow> oauth_db
   \<Rightarrow> (oauth_error + oauth_token) \<times> oauth_db" where
  "exchange_refresh_token sdk sec client tok scopes time db =
     (if \<not> set scopes \<subseteq> set (row_scopes (rt_scopes tok))
      then (Inl (TokenError ''invalid_scope''
              ''Requested scopes exceed those authorized by the refresh token.''), db)
      else case ci_client_id client of
             None \<Rightarrow> (Inl (TokenError ''invalid_client'' ''Client ID is required''), db)
           | Some cid \<Rightarrow>
               (case rt_user_id tok of
                  None \<Rightarrow> (Inl (TokenError ''invalid_grant'' ''Refresh token is not bound to a user.''), db)
                | Some u \<Rightarrow>
                    (let now = \<lfloor>time\<rfloor>;
                         refresh_expires_at = (case rt_expires_at tok of
                             None \<Rightarrow> now + REFRESH_TOKEN_EXPIRY_SECONDS
                           | Some e \<Rightarrow> if e = 0 then now + REFRESH_TOKEN_EXPIRY_SECONDS else e);
                         p = new_token_pair sdk sec cid scopes u (rt_family_id tok) refresh_expires_at now
                     in case rotate_token_pair (rt_token tok) p now db of
                          Inl e \<Rightarrow> (Inl e, db)
                        | Inr (outcome, db') \<Rightarrow>
                            if outcome \<noteq> ROTATED
                            then (Inl (TokenError ''invalid_grant'' ''Refresh token not found or already used.''), db')
                            else (Inr (token_response sdk p), db'))))"

definition load_access_token :: "string \<Rightarrow> epoch \<Rightarrow> oauth_db \<Rightarrow> access_row option \<times> oauth_db" where
  "load_access_token tok now db =
     (case get_access_token tok db of
        None \<Rightarrow> (None, db)
      | Some row \<Rightarrow>
          if at_user_id row = None then (None, db)
          else if token_expired (at_expires_at row) now then (None, delete_access_token tok db)
          else (Some row, db))"

definition revoke_token :: "access_row + refresh_row \<Rightarrow> oauth_db \<Rightarrow> oauth_db" where
  "revoke_token tok db = (case tok of
      Inl a \<Rightarrow> snd (revoke_by_access_token (at_token a) db)
    | Inr r \<Rightarrow> snd (revoke_by_refresh_token (rt_token r) db))"

subsection \<open>Who a request is\<close>

definition resolve_bearer_user_id :: "string \<Rightarrow> epoch \<Rightarrow> oauth_db \<Rightarrow> string option" where
  "resolve_bearer_user_id tok now db =
     (if tok = [] then None
      else case get_access_token tok db of
             None \<Rightarrow> None
           | Some row \<Rightarrow> if token_expired (at_expires_at row) now then None else at_user_id row)"

definition bearer_token_from_headers :: "(string \<rightharpoonup> string) \<Rightarrow> string" where
  "bearer_token_from_headers headers =
     (let header = (case headers ''authorization'' of None \<Rightarrow> [] | Some h \<Rightarrow> h)
      in if \<not> prefix ''bearer '' (map py_lower header) then [] else py_strip (drop 7 header))"

definition session_token_from_cookies :: "(string \<rightharpoonup> string) \<Rightarrow> string" where
  "session_token_from_cookies cookies =
     (case cookies ''kajet_session'' of None \<Rightarrow> [] | Some c \<Rightarrow> c)"

definition resolve_session_user :: "string \<Rightarrow> epoch \<Rightarrow> oauth_db \<Rightarrow> user_row option" where
  "resolve_session_user tok now db = (if tok = [] then None else session_get_user tok now db)"

definition resolve_session_user_from_cookies ::
  "(string \<rightharpoonup> string) \<Rightarrow> epoch \<Rightarrow> oauth_db \<Rightarrow> user_row option" where
  "resolve_session_user_from_cookies cookies now db =
     resolve_session_user (session_token_from_cookies cookies) now db"

subsection \<open>The provider as a transition system\<close>

text \<open>Requests interleave: a code or refresh token that a request has loaded is exchanged later,
  in whatever state the tables are then. The state keeps what requests have loaded and every
  random value handed out so far; \<open>secrets\<close> never repeats a value.\<close>

record provider_state =
  ps_db :: oauth_db
  ps_loaded_codes :: "code_row set"
  ps_loaded_refresh :: "refresh_row set"
  ps_used :: "string set"

definition sec_values :: "token_secrets \<Rightarrow> string set" where
  "sec_values sec = {sec_family sec, ''kajet_at_'' @ sec_access sec, ''kajet_rt_'' @ sec_refresh sec}"

abbreviation spend :: "string set \<Rightarrow> provider_state \<Rightarrow> oauth_db \<Rightarrow> provider_state" where
  "spend vs s db \<equiv> s\<lparr>ps_db := db, ps_used := ps_used s \<union> vs\<rparr>"

definition fresh_secrets :: "token_secrets \<Rightarrow> provider_state \<Rightarrow> bool" where
  "fresh_secrets sec s \<longleftrightarrow> sec_values sec \<inter> ps_used s = {} \<and> card (sec_values sec) = 3"

inductive provider_step :: "mcp_sdk \<Rightarrow> provider_state \<Rightarrow> provider_state \<Rightarrow> bool" for sdk where
  p_register: "register_client sdk valid c (ps_db s) = (res, db) \<Longrightarrow>
     provider_step sdk s (s\<lparr>ps_db := db\<rparr>)"
| p_authorize: "authorize sdk pid c params now (ps_db s) = (res, db) \<Longrightarrow>
     provider_step sdk s (s\<lparr>ps_db := db\<rparr>)"
| p_complete: "complete_authorization sdk secret pid u now (ps_db s) = (res, db) \<Longrightarrow>
     ''kajet_'' @ secret \<notin> ps_used s \<Longrightarrow>
     provider_step sdk s (spend {''kajet_'' @ secret} s db)"
| p_load_code: "load_authorization_code c code now (ps_db s) = (res, db) \<Longrightarrow>
     provider_step sdk s (s\<lparr>ps_db := db, ps_loaded_codes := ps_loaded_codes s \<union> set_option res\<rparr>)"
| p_exchange_code: "exchange_authorization_code sdk sec c code now (ps_db s) = (res, db) \<Longrightarrow>
     code \<in> ps_loaded_codes s \<Longrightarrow> ci_client_id c = Some (ac_client_id code) \<Longrightarrow> fresh_secrets sec s \<Longrightarrow>
     provider_step sdk s (spend (sec_values sec) s db)"
| p_load_refresh: "load_refresh_token c tok now (ps_db s) = (res, db) \<Longrightarrow>
     provider_step sdk s (s\<lparr>ps_db := db, ps_loaded_refresh := ps_loaded_refresh s \<union> set_option res\<rparr>)"
| p_exchange_refresh: "exchange_refresh_token sdk sec c tok scopes now (ps_db s) = (res, db) \<Longrightarrow>
     tok \<in> ps_loaded_refresh s \<Longrightarrow> ci_client_id c = Some (rt_client_id tok) \<Longrightarrow> fresh_secrets sec s \<Longrightarrow>
     provider_step sdk s (spend (sec_values sec) s db)"
| p_load_access: "load_access_token tok now (ps_db s) = (res, db) \<Longrightarrow>
     provider_step sdk s (s\<lparr>ps_db := db\<rparr>)"
| p_revoke: "provider_step sdk s (s\<lparr>ps_db := revoke_token tok (ps_db s)\<rparr>)"
| p_sweep: "provider_step sdk s (s\<lparr>ps_db := delete_expired_tokens now (ps_db s)\<rparr>)"
| p_logout: "delete_credentials_by_user u (ps_db s) = (n, db) \<Longrightarrow>
     provider_step sdk s (s\<lparr>ps_db := db\<rparr>)"
| p_users: "provider_step sdk s (s\<lparr>ps_db := (ps_db s)\<lparr>od_users := us, od_sessions := ss\<rparr>\<rparr>)"

subsection \<open>The invariant of the token tables\<close>

abbreviation rt_live :: "refresh_row \<Rightarrow> bool" where
  "rt_live r \<equiv> rt_consumed_at r = None"

abbreviation rt_grant :: "refresh_row \<Rightarrow> string set" where
  "rt_grant r \<equiv> set (row_scopes (rt_scopes r))"

text \<open>Two tokens of one family have one owner and one client, at most one of them is live, and
  the live one grants no more than the other.\<close>

definition kin_ok :: "refresh_row \<Rightarrow> refresh_row \<Rightarrow> bool" where
  "kin_ok r s \<longleftrightarrow> (rt_family_id r = rt_family_id s \<longrightarrow>
     rt_user_id r = rt_user_id s \<and> rt_client_id r = rt_client_id s \<and>
     (rt_live r \<and> rt_live s \<longrightarrow> r = s) \<and> (rt_live s \<longrightarrow> rt_grant s \<subseteq> rt_grant r))"

definition family_ok :: "refresh_row list \<Rightarrow> bool" where
  "family_ok R \<longleftrightarrow> (\<forall>r\<in>set R. \<forall>s\<in>set R. kin_ok r s)"

text \<open>An access token has the owner, client and scopes of the refresh token it came with.\<close>

definition bound_ok :: "access_row list \<Rightarrow> refresh_row list \<Rightarrow> bool" where
  "bound_ok A R \<longleftrightarrow> (\<forall>a\<in>set A. \<forall>r\<in>set R. at_refresh_token a = Some (rt_token r) \<longrightarrow>
     at_user_id a = rt_user_id r \<and> at_client_id a = rt_client_id r \<and> at_scopes a = rt_scopes r)"

definition loaded_ok :: "refresh_row set \<Rightarrow> refresh_row list \<Rightarrow> bool" where
  "loaded_ok L R \<longleftrightarrow> (\<forall>l\<in>L. \<forall>r\<in>set R. rt_token l = rt_token r \<longrightarrow>
     rt_family_id l = rt_family_id r \<and> rt_user_id l = rt_user_id r \<and>
     rt_client_id l = rt_client_id r \<and> rt_grant l = rt_grant r)"

definition keys_ok :: "oauth_db \<Rightarrow> bool" where
  "keys_ok db \<longleftrightarrow> distinct (map at_token (od_access db)) \<and> distinct (map rt_token (od_refresh db)) \<and>
     distinct (map ac_code (od_codes db))"

definition all_used :: "string set \<Rightarrow> refresh_row set \<Rightarrow> oauth_db \<Rightarrow> bool" where
  "all_used U L db \<longleftrightarrow>
     at_token ` set (od_access db) \<subseteq> U \<and> rt_token ` set (od_refresh db) \<subseteq> U \<and>
     rt_family_id ` set (od_refresh db) \<subseteq> U \<and> ac_code ` set (od_codes db) \<subseteq> U \<and>
     (\<forall>a\<in>set (od_access db). \<forall>t. at_refresh_token a = Some t \<longrightarrow> t \<in> U) \<and> rt_token ` L \<subseteq> U"

definition prov_inv :: "provider_state \<Rightarrow> bool" where
  "prov_inv s \<longleftrightarrow> keys_ok (ps_db s) \<and> all_used (ps_used s) (ps_loaded_refresh s) (ps_db s) \<and>
     family_ok (od_refresh (ps_db s)) \<and> bound_ok (od_access (ps_db s)) (od_refresh (ps_db s)) \<and>
     loaded_ok (ps_loaded_refresh s) (od_refresh (ps_db s))"

lemma prov_inv_parts:
  assumes "prov_inv s"
  shows "keys_ok (ps_db s)" "all_used (ps_used s) (ps_loaded_refresh s) (ps_db s)"
    "family_ok (od_refresh (ps_db s))" "bound_ok (od_access (ps_db s)) (od_refresh (ps_db s))"
    "loaded_ok (ps_loaded_refresh s) (od_refresh (ps_db s))"
  using assms by (simp_all add: prov_inv_def)

lemma all_usedD:
  assumes "all_used U L db"
  shows "a \<in> set (od_access db) \<Longrightarrow> at_token a \<in> U"
    and "a \<in> set (od_access db) \<Longrightarrow> at_refresh_token a = Some t \<Longrightarrow> t \<in> U"
    and "r \<in> set (od_refresh db) \<Longrightarrow> rt_token r \<in> U"
    and "r \<in> set (od_refresh db) \<Longrightarrow> rt_family_id r \<in> U"
    and "c \<in> set (od_codes db) \<Longrightarrow> ac_code c \<in> U"
    and "l \<in> L \<Longrightarrow> rt_token l \<in> U"
  using assms by (auto simp: all_used_def)

text \<open>Deletions.\<close>

definition shrinks :: "oauth_db \<Rightarrow> oauth_db \<Rightarrow> bool" where
  "shrinks db db' \<longleftrightarrow> (\<exists>P Q S. od_access db' = filter P (od_access db) \<and>
     od_refresh db' = filter Q (od_refresh db) \<and> od_codes db' = filter S (od_codes db))"

lemma shrinksI:
  "od_access db' = filter P (od_access db) \<Longrightarrow> od_refresh db' = filter Q (od_refresh db) \<Longrightarrow>
     od_codes db' = filter S (od_codes db) \<Longrightarrow> shrinks db db'"
  by (auto simp: shrinks_def)

lemma shrinks_same:
  "od_access db' = od_access db \<Longrightarrow> od_refresh db' = od_refresh db \<Longrightarrow> od_codes db' = od_codes db
   \<Longrightarrow> shrinks db db'"
  by (rule shrinksI [where P = "\<lambda>_. True" and Q = "\<lambda>_. True" and S = "\<lambda>_. True"]) simp_all

lemma shrinks_refl [simp]: "shrinks db db"
  by (rule shrinks_same) simp_all

lemma shrinks_sub:
  assumes "shrinks db db'"
  shows "set (od_access db') \<subseteq> set (od_access db)" "set (od_refresh db') \<subseteq> set (od_refresh db)"
    "set (od_codes db') \<subseteq> set (od_codes db)"
  using assms by (auto simp: shrinks_def)

lemma shrinks_keys: "shrinks db db' \<Longrightarrow> keys_ok db \<Longrightarrow> keys_ok db'"
  by (auto simp: shrinks_def keys_ok_def distinct_map_filter)

lemma family_ok_sub: "family_ok R \<Longrightarrow> set R' \<subseteq> set R \<Longrightarrow> family_ok R'"
  unfolding family_ok_def by blast

lemma bound_ok_sub: "bound_ok A R \<Longrightarrow> set A' \<subseteq> set A \<Longrightarrow> set R' \<subseteq> set R \<Longrightarrow> bound_ok A' R'"
  unfolding bound_ok_def by blast

lemma loaded_ok_sub: "loaded_ok L R \<Longrightarrow> set R' \<subseteq> set R \<Longrightarrow> loaded_ok L R'"
  unfolding loaded_ok_def by blast

lemma all_used_sub:
  assumes "all_used U L db" and "U \<subseteq> U'" and "set (od_access db') \<subseteq> set (od_access db)"
    and "set (od_refresh db') \<subseteq> set (od_refresh db)" and "set (od_codes db') \<subseteq> set (od_codes db)"
  shows "all_used U' L db'"
  using assms unfolding all_used_def by (meson image_mono subset_iff subset_trans)

lemma shrinks_inv:
  assumes "shrinks (ps_db s) db'" and "prov_inv s"
  shows "prov_inv (s\<lparr>ps_db := db'\<rparr>)"
  unfolding prov_inv_def
  using assms(2) shrinks_keys [OF assms(1)] shrinks_sub [OF assms(1)]
  by (auto simp: prov_inv_def intro: family_ok_sub bound_ok_sub loaded_ok_sub all_used_sub)

lemma shrinks_delete_family: "shrinks db (snd (delete_family f db))"
  by (rule shrinksI [where S = "\<lambda>_. True"]) (simp_all add: delete_family_def sql_delete_def)

lemma shrinks_delete_access: "shrinks db (delete_access_token t db)"
  by (rule shrinksI [where S = "\<lambda>_. True" and Q = "\<lambda>_. True"])
     (simp_all add: delete_access_token_def sql_delete_def)

lemma shrinks_delete_code: "shrinks db (snd (delete_auth_code c db))"
  by (rule shrinksI [where P = "\<lambda>_. True" and Q = "\<lambda>_. True"])
     (simp_all add: delete_auth_code_def sql_delete_def)

lemma shrinks_revoke_family: "shrinks db (snd (revoke_token_family f db))"
  using shrinks_delete_family [of db f] by (auto simp: revoke_token_family_def split: prod.splits)

lemma shrinks_revoke_refresh: "shrinks db (snd (revoke_by_refresh_token t db))"
  using shrinks_delete_family [of db]
  by (auto simp: revoke_by_refresh_token_def split: prod.splits option.splits) (metis snd_conv)

lemma shrinks_revoke_access: "shrinks db (snd (revoke_by_access_token t db))"
  using shrinks_delete_family [of db] shrinks_delete_access [of db t]
  by (auto simp: revoke_by_access_token_def Let_def split: prod.splits option.splits) (metis snd_conv)

lemma shrinks_revoke: "shrinks db (revoke_token tok db)"
  by (cases tok) (simp_all add: revoke_token_def shrinks_revoke_access shrinks_revoke_refresh)

lemma shrinks_sweep: "shrinks db (delete_expired_tokens now db)"
  by (rule shrinksI) (simp_all add: delete_expired_tokens_def Let_def sql_delete_def)

lemma shrinks_logout: "shrinks db (snd (delete_credentials_by_user u db))"
  by (rule shrinksI) (simp_all add: delete_credentials_by_user_def sql_delete_def)

lemmas shrinks_intros = shrinks_delete_family shrinks_delete_access shrinks_delete_code
  shrinks_revoke_family shrinks_revoke_refresh shrinks_revoke_access shrinks_revoke shrinks_sweep
  shrinks_logout

lemma load_access_shrinks: "load_access_token tok now db = (res, db') \<Longrightarrow> shrinks db db'"
  by (auto simp: load_access_token_def shrinks_intros split: option.splits if_splits)

lemma load_code_shrinks: "load_authorization_code c code now db = (res, db') \<Longrightarrow> shrinks db db'"
  by (auto simp: load_authorization_code_def shrinks_intros split: option.splits if_splits)

lemma load_refresh_shrinks: "load_refresh_token c tok now db = (res, db') \<Longrightarrow> shrinks db db'"
  by (auto simp: load_refresh_token_def shrinks_intros split: option.splits if_splits)

text \<open>Issuing and rotating.\<close>

definition pair_refresh :: "token_pair \<Rightarrow> refresh_row" where
  "pair_refresh p = \<lparr>rt_token = tp_refresh_token p, rt_client_id = tp_client_id p,
     rt_user_id = Some (tp_user_id p), rt_scopes = Some (tp_scopes p),
     rt_expires_at = Some (tp_refresh_expires_at p), rt_family_id = tp_family_id p,
     rt_consumed_at = None\<rparr>"

definition pair_access :: "token_pair \<Rightarrow> access_row" where
  "pair_access p = \<lparr>at_token = tp_access_token p, at_client_id = tp_client_id p,
     at_user_id = Some (tp_user_id p), at_scopes = Some (tp_scopes p),
     at_expires_at = Some (tp_access_expires_at p), at_refresh_token = Some (tp_refresh_token p)\<rparr>"

lemma insert_refresh_token_Inr:
  "insert_refresh_token p db = Inr db' \<longleftrightarrow> tp_refresh_token p \<notin> rt_token ` set (od_refresh db) \<and>
     db' = db\<lparr>od_refresh := od_refresh db @ [pair_refresh p]\<rparr>"
  by (auto simp: insert_refresh_token_def sql_insert_def pair_refresh_def)

lemma insert_access_token_Inr:
  "insert_access_token p db = Inr db' \<longleftrightarrow> tp_access_token p \<notin> at_token ` set (od_access db) \<and>
     db' = db\<lparr>od_access := od_access db @ [pair_access p]\<rparr>"
  by (auto simp: insert_access_token_def sql_insert_def pair_access_def)

lemma save_token_pair_Inr:
  "save_token_pair p db = Inr db' \<longleftrightarrow> tp_refresh_token p \<notin> rt_token ` set (od_refresh db) \<and>
     tp_access_token p \<notin> at_token ` set (od_access db) \<and>
     db' = db\<lparr>od_refresh := od_refresh db @ [pair_refresh p], od_access := od_access db @ [pair_access p]\<rparr>"
proof (cases "tp_refresh_token p \<in> rt_token ` set (od_refresh db)")
  case True
  then show ?thesis
    by (auto simp: save_token_pair_def insert_refresh_token_def sql_insert_def)
next
  case False
  then have "insert_refresh_token p db = Inr (db\<lparr>od_refresh := od_refresh db @ [pair_refresh p]\<rparr>)"
    by (simp add: insert_refresh_token_Inr)
  with False show ?thesis
    by (simp add: save_token_pair_def insert_access_token_Inr)
qed

lemma rotatable_unique:
  assumes "distinct (map rt_token R)" and "find (rotatable old now) R = Some r"
  shows "r \<in> set R" "rotatable old now r" "\<And>x. x \<in> set R \<Longrightarrow> rt_token x = old \<Longrightarrow> x = r"
proof -
  show r: "r \<in> set R" "rotatable old now r" using assms(2) by (auto simp: find_Some_iff)
  show "\<And>x. x \<in> set R \<Longrightarrow> rt_token x = old \<Longrightarrow> x = r"
    using r assms(1) by (auto simp: rotatable_def distinct_map inj_on_def)
qed

lemma rotate_cases:
  assumes "rotate_token_pair old p now db = Inr (out, db')"
  obtains (rotated) r where "find (rotatable old now) (od_refresh db) = Some r"
      "rt_family_id r = tp_family_id p" "out = ROTATED"
      "tp_refresh_token p \<notin> rt_token ` set (od_refresh db)"
      "db' = db\<lparr>od_refresh := sql_update (rotatable old now) (\<lambda>r. r\<lparr>rt_consumed_at := Some now\<rparr>)
               (od_refresh db) @ [pair_refresh p],
             od_access := sql_delete (\<lambda>a. at_refresh_token a = Some old) (od_access db) @ [pair_access p]\<rparr>"
  | (missing) "sql_get rt_token old (od_refresh db) = None" "out = MISSING" "db' = db"
  | (revoked) row where "sql_get rt_token old (od_refresh db) = Some row"
      "find (rotatable old now) (od_refresh db) = None"
      "out = (if rt_consumed_at row \<noteq> None then REUSED else EXPIRED)"
      "db' = snd (delete_family (rt_family_id row) db)"
proof (cases "find (rotatable old now) (od_refresh db)")
  case None
  show ?thesis
  proof (cases "sql_get rt_token old (od_refresh db)")
    case None
    with \<open>find _ _ = None\<close> assms show ?thesis by (auto simp: rotate_token_pair_def intro: missing)
  next
    case (Some row)
    with None assms show ?thesis by (intro revoked) (auto simp: rotate_token_pair_def)
  qed
next
  case (Some r)
  let ?db1 = "db\<lparr>od_refresh := sql_update (rotatable old now) (\<lambda>r. r\<lparr>rt_consumed_at := Some now\<rparr>) (od_refresh db),
      od_access := sql_delete (\<lambda>a. at_refresh_token a = Some old) (od_access db)\<rparr>"
  obtain db2 where db2: "insert_refresh_token p ?db1 = Inr db2" "insert_access_token p db2 = Inr db'"
      "out = ROTATED" "rt_family_id r = tp_family_id p"
    using assms Some
    by (auto simp: rotate_token_pair_def Let_def split: sum.splits if_splits)
  have keys: "rt_token ` set (od_refresh ?db1) = rt_token ` set (od_refresh db)"
    using map_key_sql_update [of "rotatable old now" rt_token
        "\<lambda>r. r\<lparr>rt_consumed_at := Some now\<rparr>" "od_refresh db"]
    by (simp add: image_set [symmetric] del: set_map) (metis image_set)
  have d2: "tp_refresh_token p \<notin> rt_token ` set (od_refresh ?db1)"
    "db2 = ?db1\<lparr>od_refresh := od_refresh ?db1 @ [pair_refresh p]\<rparr>"
    using db2(1) unfolding insert_refresh_token_Inr by blast+
  then have "tp_refresh_token p \<notin> rt_token ` set (od_refresh db)" unfolding keys by simp
  moreover have "db' = db2\<lparr>od_access := od_access db2 @ [pair_access p]\<rparr>"
    using db2(2) unfolding insert_access_token_Inr by blast
  ultimately show ?thesis
    using Some db2(3,4) d2(2) by (intro rotated [of r]) simp_all
qed

lemma family_ok_issue:
  assumes "family_ok R" and "rt_family_id n \<notin> rt_family_id ` set R"
  shows "family_ok (R @ [n])"
proof -
  have "kin_ok r n \<and> kin_ok n r" if "r \<in> set R" for r
  proof -
    have "rt_family_id r \<noteq> rt_family_id n" using assms(2) that by (metis image_eqI)
    then show ?thesis by (simp add: kin_ok_def)
  qed
  moreover have "kin_ok n n" by (simp add: kin_ok_def)
  ultimately show ?thesis using assms(1) by (simp add: family_ok_def)
qed

lemma family_ok_rotate:
  assumes fam: "family_ok R" and r: "r \<in> set R" "rotatable old now r"
    and uniq: "\<And>x. x \<in> set R \<Longrightarrow> rt_token x = old \<Longrightarrow> x = r"
    and n: "rt_family_id n = rt_family_id r" "rt_user_id n = rt_user_id r"
      "rt_client_id n = rt_client_id r" "rt_grant n \<subseteq> rt_grant r" "rt_live n"
  shows "family_ok (sql_update (rotatable old now) (\<lambda>r. r\<lparr>rt_consumed_at := Some now\<rparr>) R @ [n])"
proof -
  define f where "f = (\<lambda>x. if rotatable old now x then x\<lparr>rt_consumed_at := Some now\<rparr> else x)"
  have R': "set (sql_update (rotatable old now) (\<lambda>r. r\<lparr>rt_consumed_at := Some now\<rparr>) R) = f ` set R"
    unfolding sql_update_def f_def by simp
  have k: "kin_ok x y" if "x \<in> set R" "y \<in> set R" for x y
    using fam that by (simp add: family_ok_def)
  have live_r: "rt_live r" using r(2) by (simp add: rotatable_def)
  have old: "kin_ok (f x) (f y)" if "x \<in> set R" "y \<in> set R" for x y
    using k [OF that] by (auto simp: kin_ok_def f_def)
  have dead: "\<not> rt_live (f x)" if "x \<in> set R" "rt_family_id x = rt_family_id r" for x
  proof (cases "rt_live x")
    case True
    then have "x = r" using k [OF that(1) r(1)] that(2) live_r by (simp add: kin_ok_def)
    with r(2) show ?thesis by (simp add: f_def)
  qed (simp add: f_def)
  have fields: "rt_family_id (f x) = rt_family_id x" "rt_user_id (f x) = rt_user_id x"
    "rt_client_id (f x) = rt_client_id x" "rt_scopes (f x) = rt_scopes x" for x
    by (simp_all add: f_def)
  have new: "kin_ok (f x) n \<and> kin_ok n (f x)" if "x \<in> set R" for x
  proof (cases "rt_family_id x = rt_family_id r")
    case False
    then show ?thesis using n(1) fields by (simp add: kin_ok_def)
  next
    case True
    have "rt_user_id x = rt_user_id r" "rt_client_id x = rt_client_id r" "rt_grant r \<subseteq> rt_grant x"
      using k [OF that r(1)] True live_r by (simp_all add: kin_ok_def)
    then show ?thesis
      using n dead [OF that True] fields by (auto simp: kin_ok_def)
  qed
  have "kin_ok n n" by (simp add: kin_ok_def)
  with old new show ?thesis unfolding family_ok_def set_append R' by auto
qed

text \<open>A pair with unused tokens is added to tables that satisfy everything but freshness.\<close>

lemma add_pair_inv:
  assumes inv: "keys_ok d" "all_used U L d" "bound_ok (od_access d) (od_refresh d)"
      "loaded_ok L (od_refresh d)" "family_ok (od_refresh d @ [pair_refresh p])"
    and fresh: "tp_refresh_token p \<notin> U" "tp_access_token p \<notin> U"
    and vs: "U \<subseteq> U'" "tp_refresh_token p \<in> U'" "tp_access_token p \<in> U'" "tp_family_id p \<in> U'"
    and s': "ps_db s' = d\<lparr>od_refresh := od_refresh d @ [pair_refresh p], od_access := od_access d @ [pair_access p]\<rparr>"
      "ps_used s' = U'" "ps_loaded_refresh s' = L"
  shows "prov_inv s'"
proof -
  have nt: "tp_access_token p \<notin> at_token ` set (od_access d)" "tp_refresh_token p \<notin> rt_token ` set (od_refresh d)"
    "tp_refresh_token p \<notin> rt_token ` L" "\<And>a. a \<in> set (od_access d) \<Longrightarrow> at_refresh_token a \<noteq> Some (tp_refresh_token p)"
    using inv(2) fresh by (auto simp: all_used_def)
  have "keys_ok (ps_db s')"
    using inv(1) nt s'(1) by (auto simp: keys_ok_def pair_refresh_def pair_access_def)
  moreover have "all_used U' L (ps_db s')"
    using all_used_sub [OF inv(2) vs(1), of d] vs s'(1)
    by (auto simp: all_used_def pair_refresh_def pair_access_def)
  moreover have "bound_ok (od_access (ps_db s')) (od_refresh (ps_db s'))"
  proof -
    have "at_refresh_token (pair_access p) \<noteq> Some (rt_token r)" if "r \<in> set (od_refresh d)" for r
      using nt(2) that by (auto simp: pair_access_def)
    moreover have "at_refresh_token a \<noteq> Some (rt_token (pair_refresh p))" if "a \<in> set (od_access d)" for a
      using nt(4) [OF that] by (simp add: pair_refresh_def)
    ultimately show ?thesis
      using inv(3) s'(1) by (auto simp: bound_ok_def pair_refresh_def pair_access_def)
  qed
  moreover have "loaded_ok L (od_refresh (ps_db s'))"
  proof -
    have "rt_token l \<noteq> rt_token (pair_refresh p)" if "l \<in> L" for l
      using nt(3) that by (metis image_eqI pair_refresh_def refresh_row.select_convs(1))
    then show ?thesis using inv(4) s'(1) by (auto simp: loaded_ok_def)
  qed
  ultimately show ?thesis
    using inv(5) s' by (simp add: prov_inv_def)
qed

lemma issue_inv:
  assumes "prov_inv s" and "save_token_pair p (ps_db s) = Inr db'"
    and "tp_family_id p \<notin> ps_used s" "tp_refresh_token p \<notin> ps_used s" "tp_access_token p \<notin> ps_used s"
    and "{tp_family_id p, tp_refresh_token p, tp_access_token p} \<subseteq> vs"
  shows "prov_inv (spend vs s db')"
proof -
  have "tp_family_id p \<notin> rt_family_id ` set (od_refresh (ps_db s))"
    using assms(1,3) by (auto simp: prov_inv_def all_used_def)
  then have "family_ok (od_refresh (ps_db s) @ [pair_refresh p])"
    using assms(1) by (intro family_ok_issue) (auto simp: prov_inv_def pair_refresh_def)
  then show ?thesis
    using assms unfolding save_token_pair_Inr
    by (intro add_pair_inv [where d = "ps_db s" and U = "ps_used s" and L = "ps_loaded_refresh s"
          and U' = "ps_used s \<union> vs" and p = p]) (auto simp: prov_inv_def)
qed

lemma bound_ok_same:
  assumes "bound_ok A R" and "set A' \<subseteq> set A"
    and "\<And>x. x \<in> set R' \<Longrightarrow> \<exists>y\<in>set R. rt_token x = rt_token y \<and> rt_family_id x = rt_family_id y \<and>
      rt_user_id x = rt_user_id y \<and> rt_client_id x = rt_client_id y \<and> rt_scopes x = rt_scopes y"
  shows "bound_ok A' R'"
  unfolding bound_ok_def
proof (intro ballI impI)
  fix a x assume a: "a \<in> set A'" and x: "x \<in> set R'" "at_refresh_token a = Some (rt_token x)"
  obtain y where y: "y \<in> set R" "rt_token x = rt_token y" "rt_user_id x = rt_user_id y"
    "rt_client_id x = rt_client_id y" "rt_scopes x = rt_scopes y"
    using assms(3) [OF x(1)] by blast
  have "a \<in> set A" using a assms(2) by blast
  with assms(1) x(2) y
  show "at_user_id a = rt_user_id x \<and> at_client_id a = rt_client_id x \<and> at_scopes a = rt_scopes x"
    by (simp add: bound_ok_def)
qed

lemma loaded_ok_same:
  assumes "loaded_ok L R"
    and "\<And>x. x \<in> set R' \<Longrightarrow> \<exists>y\<in>set R. rt_token x = rt_token y \<and> rt_family_id x = rt_family_id y \<and>
      rt_user_id x = rt_user_id y \<and> rt_client_id x = rt_client_id y \<and> rt_scopes x = rt_scopes y"
  shows "loaded_ok L R'"
  unfolding loaded_ok_def
proof (intro ballI impI)
  fix l x assume l: "l \<in> L" and x: "x \<in> set R'" "rt_token l = rt_token x"
  obtain y where "y \<in> set R" "rt_token x = rt_token y" "rt_family_id x = rt_family_id y"
    "rt_user_id x = rt_user_id y" "rt_client_id x = rt_client_id y" "rt_scopes x = rt_scopes y"
    using assms(2) [OF x(1)] by blast
  with assms(1) l x(2)
  show "rt_family_id l = rt_family_id x \<and> rt_user_id l = rt_user_id x \<and>
      rt_client_id l = rt_client_id x \<and> rt_grant l = rt_grant x"
    by (simp add: loaded_ok_def)
qed

lemma rotate_inv:
  assumes inv: "prov_inv s" and rot: "rotate_token_pair old p now (ps_db s) = Inr (out, db')"
    and fresh: "tp_refresh_token p \<notin> ps_used s" "tp_access_token p \<notin> ps_used s"
    and vs: "{tp_refresh_token p, tp_access_token p} \<subseteq> vs"
    and same: "\<And>r. r \<in> set (od_refresh (ps_db s)) \<Longrightarrow> rt_token r = old \<Longrightarrow>
       rt_user_id r = Some (tp_user_id p) \<and> rt_client_id r = tp_client_id p \<and> set (tp_scopes p) \<subseteq> rt_grant r"
  shows "prov_inv (spend vs s db')"
  using rot
proof (cases rule: rotate_cases)
  case (rotated r)
  let ?R = "od_refresh (ps_db s)"
  let ?up = "\<lambda>r. r\<lparr>rt_consumed_at := Some now\<rparr>"
  let ?R1 = "sql_update (rotatable old now) ?up ?R"
  let ?A1 = "sql_delete (\<lambda>a. at_refresh_token a = Some old) (od_access (ps_db s))"
  let ?db1 = "(ps_db s)\<lparr>od_refresh := ?R1, od_access := ?A1\<rparr>"
  have dist: "distinct (map rt_token ?R)" using inv by (simp add: prov_inv_def keys_ok_def)
  note u = rotatable_unique [OF dist rotated(1)]
  have ro: "rt_token r = old" using u(2) by (simp add: rotatable_def)
  have keys: "map rt_token ?R1 = map rt_token ?R" by (rule map_key_sql_update) simp
  have fams: "map rt_family_id ?R1 = map rt_family_id ?R" by (rule map_key_sql_update) simp
  have R1: "\<exists>y\<in>set ?R. rt_token x = rt_token y \<and> rt_family_id x = rt_family_id y \<and>
      rt_user_id x = rt_user_id y \<and> rt_client_id x = rt_client_id y \<and> rt_scopes x = rt_scopes y"
    if "x \<in> set ?R1" for x
    using sql_update_origin [OF that] by auto
  have A1: "set ?A1 \<subseteq> set (od_access (ps_db s))" by (auto simp: sql_simps)
  have "keys_ok ?db1"
    using inv keys by (simp add: prov_inv_def keys_ok_def distinct_sql_delete)
  moreover have "all_used (ps_used s) (ps_loaded_refresh s) ?db1"
  proof -
    have "rt_token ` set ?R1 = rt_token ` set ?R" "rt_family_id ` set ?R1 = rt_family_id ` set ?R"
      using arg_cong [OF keys, of set] arg_cong [OF fams, of set] by simp_all
    moreover have "at_token ` set ?A1 \<subseteq> ps_used s"
      "\<forall>a\<in>set ?A1. \<forall>t. at_refresh_token a = Some t \<longrightarrow> t \<in> ps_used s"
      using all_usedD(1,2) [OF prov_inv_parts(2) [OF inv]] by (auto simp: sql_simps)
    ultimately show ?thesis
      using prov_inv_parts(2) [OF inv] by (simp add: all_used_def)
  qed
  moreover have "bound_ok ?A1 ?R1"
    using prov_inv_parts(4) [OF inv] A1 R1 by (rule bound_ok_same)
  moreover have "loaded_ok (ps_loaded_refresh s) ?R1"
    using prov_inv_parts(5) [OF inv] R1 by (rule loaded_ok_same)
  moreover have "family_ok (?R1 @ [pair_refresh p])"
    using inv u same [OF u(1) ro] rotated(2)
    by (intro family_ok_rotate [of ?R r]) (auto simp: prov_inv_def pair_refresh_def row_scopes_def)
  moreover have "tp_family_id p \<in> ps_used s"
    using inv u(1) rotated(2) by (auto simp: prov_inv_def all_used_def)
  ultimately show ?thesis
    using fresh vs rotated(5)
    by (intro add_pair_inv [where d = ?db1 and U = "ps_used s" and L = "ps_loaded_refresh s"
          and U' = "ps_used s \<union> vs" and p = p]) auto
next
  case missing
  then show ?thesis
    using inv all_used_sub [of "ps_used s" "ps_loaded_refresh s" "ps_db s" "ps_used s \<union> vs" "ps_db s"]
    by (simp add: prov_inv_def)
next
  case (revoked row)
  then have "prov_inv (s\<lparr>ps_db := db'\<rparr>)"
    using shrinks_inv [OF _ inv] shrinks_delete_family by blast
  then show ?thesis
    using all_used_sub [of "ps_used s" "ps_loaded_refresh s" db' "ps_used s \<union> vs" db']
    by (simp add: prov_inv_def)
qed

lemma spend_inv:
  assumes "prov_inv (s\<lparr>ps_db := db\<rparr>)"
  shows "prov_inv (spend vs s db)"
  using assms all_used_sub [of "ps_used s" "ps_loaded_refresh s" db "ps_used s \<union> vs" db]
  by (simp add: prov_inv_def)

lemma exchange_code_inv:
  assumes "prov_inv s" and "exchange_authorization_code sdk sec c code now (ps_db s) = (res, db)"
    and "fresh_secrets sec s"
  shows "prov_inv (spend (sec_values sec) s db)"
proof -
  define db1 where "db1 = snd (delete_auth_code (ac_code code) (ps_db s))"
  have inv1: "prov_inv (s\<lparr>ps_db := db1\<rparr>)"
    using shrinks_inv [OF shrinks_delete_code assms(1)] by (simp add: db1_def)
  consider "db = db1" | u cid where "issue_token_pair sdk sec cid (row_scopes (ac_scopes code)) u now db1 = (res, db)"
    using assms(2) unfolding exchange_authorization_code_def db1_def
    by (auto split: prod.splits if_splits option.splits)
  then show ?thesis
  proof cases
    case 1
    then show ?thesis using spend_inv [OF inv1] by simp
  next
    case 2
    define p where "p = new_token_pair sdk sec cid (row_scopes (ac_scopes code)) u (sec_family sec)
      (\<lfloor>now\<rfloor> + REFRESH_TOKEN_EXPIRY_SECONDS) \<lfloor>now\<rfloor>"
    have p: "tp_family_id p = sec_family sec" "tp_refresh_token p = ''kajet_rt_'' @ sec_refresh sec"
      "tp_access_token p = ''kajet_at_'' @ sec_access sec" by (simp_all add: p_def new_token_pair_def)
    have "db = db1 \<or> save_token_pair p db1 = Inr db"
      using 2 by (auto simp: issue_token_pair_def p_def Let_def split: sum.splits)
    then show ?thesis
    proof
      assume "db = db1"
      then show ?thesis using spend_inv [OF inv1] by simp
    next
      assume sv: "save_token_pair p db1 = Inr db"
      have "prov_inv (spend (sec_values sec) (s\<lparr>ps_db := db1\<rparr>) db)"
        using inv1 by (rule issue_inv) (use sv p assms(3) in \<open>auto simp: fresh_secrets_def sec_values_def\<close>)
      then show ?thesis by simp
    qed
  qed
qed

text \<open>A refresh exchange that changes the tables or succeeds has rotated or revoked.\<close>

lemma exchange_refresh_rotates:
  assumes "exchange_refresh_token sdk sec c tok scopes now db = (res, db')"
    and "db' \<noteq> db \<or> res = Inr t"
  obtains u cid e out where "rt_user_id tok = Some u" "ci_client_id c = Some cid"
    "set scopes \<subseteq> rt_grant tok"
    "rotate_token_pair (rt_token tok)
       (new_token_pair sdk sec cid scopes u (rt_family_id tok) e \<lfloor>now\<rfloor>) \<lfloor>now\<rfloor> db = Inr (out, db')"
    "res = Inr t \<Longrightarrow> out = ROTATED \<and>
       t = token_response sdk (new_token_pair sdk sec cid scopes u (rt_family_id tok) e \<lfloor>now\<rfloor>)"
  using assms
  by (auto simp: exchange_refresh_token_def Let_def split: if_splits option.splits sum.splits prod.splits)

lemma exchange_refresh_inv:
  assumes "prov_inv s" and "exchange_refresh_token sdk sec c tok scopes now (ps_db s) = (res, db)"
    and "tok \<in> ps_loaded_refresh s" "ci_client_id c = Some (rt_client_id tok)" "fresh_secrets sec s"
  shows "prov_inv (spend (sec_values sec) s db)"
proof (cases "db = ps_db s")
  case True
  then show ?thesis using spend_inv [where s = s and db = "ps_db s"] assms(1) by simp
next
  case False
  then obtain u e out where u: "rt_user_id tok = Some u" "set scopes \<subseteq> rt_grant tok"
    "rotate_token_pair (rt_token tok)
       (new_token_pair sdk sec (rt_client_id tok) scopes u (rt_family_id tok) e \<lfloor>now\<rfloor>) \<lfloor>now\<rfloor> (ps_db s) = Inr (out, db)"
    using exchange_refresh_rotates [OF assms(2)] assms(4) by (metis option.inject)
  define p where "p = new_token_pair sdk sec (rt_client_id tok) scopes u (rt_family_id tok) e \<lfloor>now\<rfloor>"
  have l: "rt_user_id r = rt_user_id tok \<and> rt_client_id r = rt_client_id tok \<and> rt_grant r = rt_grant tok"
    if "r \<in> set (od_refresh (ps_db s))" "rt_token r = rt_token tok" for r
    using assms(1,3) that unfolding prov_inv_def loaded_ok_def by metis
  show ?thesis
    using assms(1) u(3) [folded p_def]
  proof (rule rotate_inv)
    show "tp_refresh_token p \<notin> ps_used s" "tp_access_token p \<notin> ps_used s"
      "{tp_refresh_token p, tp_access_token p} \<subseteq> sec_values sec"
      using assms(5) by (auto simp: p_def new_token_pair_def fresh_secrets_def sec_values_def)
    show "rt_user_id r = Some (tp_user_id p) \<and> rt_client_id r = tp_client_id p \<and> set (tp_scopes p) \<subseteq> rt_grant r"
      if "r \<in> set (od_refresh (ps_db s))" "rt_token r = rt_token tok" for r
      using l [OF that] u(1,2) by (simp add: p_def new_token_pair_def)
  qed
qed

lemma complete_authorization_effect:
  assumes "complete_authorization sdk secret pid u now db = (res, db')"
  shows "od_access db' = od_access db \<and> od_refresh db' = od_refresh db \<and>
    (distinct (map ac_code (od_codes db)) \<longrightarrow> distinct (map ac_code (od_codes db'))) \<and>
    (\<forall>c\<in>set (od_codes db'). c \<in> set (od_codes db) \<or> ac_code c = ''kajet_'' @ secret \<and> ac_user_id c = u)"
proof -
  have rec: "od_access d = od_access db1 \<and> od_refresh d = od_refresh db1 \<and> od_codes d = od_codes db1"
    if "record_client_authorization cid w db1 = Inr d" for cid w db1 d
    using that by (auto simp: record_client_authorization_def split: if_splits)
  show ?thesis
    using assms
    by (auto simp: complete_authorization_def Let_def delete_pending_def upsert_auth_code_def
          sql_replace_def sql_simps distinct_sql_delete
          split: option.splits prod.splits sum.splits if_splits dest!: rec)
qed

lemma complete_authorization_inv:
  assumes "prov_inv s" and "complete_authorization sdk secret pid u now (ps_db s) = (res, db)"
  shows "prov_inv (spend {''kajet_'' @ secret} s db)"
proof -
  note e = complete_authorization_effect [OF assms(2)]
  have "ac_code ` set (od_codes db) \<subseteq> ps_used s \<union> {''kajet_'' @ secret}"
    using e all_usedD(5) [OF prov_inv_parts(2) [OF assms(1)]] by auto
  then show ?thesis
    using e prov_inv_parts [OF assms(1)] by (auto simp: prov_inv_def keys_ok_def all_used_def)
qed

lemma load_refresh_inv:
  assumes "prov_inv s" and "load_refresh_token c tok now (ps_db s) = (res, db)"
  shows "prov_inv (s\<lparr>ps_db := db, ps_loaded_refresh := ps_loaded_refresh s \<union> set_option res\<rparr>)"
proof (cases res)
  case None
  then show ?thesis
    using shrinks_inv [OF load_refresh_shrinks [OF assms(2)] assms(1)] by simp
next
  case (Some l)
  then obtain r where r: "sql_get rt_token tok (od_refresh (ps_db s)) = Some r" "db = ps_db s"
    "l = r\<lparr>rt_scopes := Some (row_scopes (rt_scopes r))\<rparr>"
    using assms(2)
    by (auto simp: load_refresh_token_def get_refresh_token_def split: option.splits if_splits)
  then have rin: "r \<in> set (od_refresh (ps_db s))" using sql_get_SomeD by fastforce
  have dist: "distinct (map rt_token (od_refresh (ps_db s)))"
    using assms(1) by (simp add: prov_inv_def keys_ok_def)
  have "x = r" if "x \<in> set (od_refresh (ps_db s))" "rt_token x = rt_token r" for x
    using dist rin that by (auto simp: distinct_map inj_on_def)
  then have "loaded_ok {l} (od_refresh (ps_db s))"
    using r(3) by (auto simp: loaded_ok_def row_scopes_def)
  moreover have "rt_token l \<in> ps_used s"
    using assms(1) rin r(3) by (auto simp: prov_inv_def all_used_def)
  ultimately show ?thesis
    using assms(1) Some r(2) by (auto simp: prov_inv_def all_used_def loaded_ok_def)
qed

lemma provider_step_inv:
  assumes "provider_step sdk s s'" and "prov_inv s"
  shows "prov_inv s'"
  using assms(1)
proof (cases rule: provider_step.cases)
  case (p_register valid c res db)
  then have "shrinks (ps_db s) db"
    by (intro shrinks_same) (auto simp: register_client_def upsert_registered_client_def split: if_splits option.splits)
  then show ?thesis using p_register shrinks_inv assms(2) by simp
next
  case (p_authorize pid c params now res db)
  then have "shrinks (ps_db s) db"
    by (intro shrinks_same) (auto simp: authorize_def oauth_upsert_pending_def)
  then show ?thesis using p_authorize shrinks_inv assms(2) by simp
next
  case (p_complete secret pid u now res db)
  then show ?thesis using complete_authorization_inv [OF assms(2)] by simp
next
  case (p_load_code c code now res db)
  then have "prov_inv (s\<lparr>ps_db := db\<rparr>)" using shrinks_inv [OF load_code_shrinks assms(2)] by simp
  then show ?thesis using p_load_code by (simp add: prov_inv_def)
next
  case (p_exchange_code sec c code now res db)
  then show ?thesis using exchange_code_inv [OF assms(2)] by simp
next
  case (p_load_refresh c tok now res db)
  then show ?thesis using load_refresh_inv [OF assms(2)] by simp
next
  case (p_exchange_refresh sec c tok scopes now res db)
  then show ?thesis using exchange_refresh_inv [OF assms(2)] by simp
next
  case (p_load_access tok now res db)
  then show ?thesis using shrinks_inv [OF load_access_shrinks assms(2)] by simp
next
  case (p_revoke tok)
  then show ?thesis using shrinks_inv [OF shrinks_revoke assms(2)] by simp
next
  case (p_sweep now)
  then show ?thesis using shrinks_inv [OF shrinks_sweep assms(2)] by simp
next
  case (p_logout u n db)
  then show ?thesis using shrinks_inv [OF shrinks_logout assms(2)] by (metis snd_conv)
next
  case (p_users ss us)
  have "shrinks (ps_db s) ((ps_db s)\<lparr>od_users := us, od_sessions := ss\<rparr>)" by (intro shrinks_same) simp_all
  then show ?thesis using p_users shrinks_inv assms(2) by simp
qed

definition empty_db :: oauth_db where
  "empty_db = \<lparr>od_users = [], od_sessions = [], od_registered = [], od_authorizations = [],
     od_clients = [], od_access = [], od_refresh = [], od_codes = [], od_pending = []\<rparr>"

definition provider_start :: provider_state where
  "provider_start = \<lparr>ps_db = empty_db, ps_loaded_codes = {}, ps_loaded_refresh = {}, ps_used = {}\<rparr>"

lemma provider_start_inv: "prov_inv provider_start"
  by (simp add: provider_start_def empty_db_def prov_inv_def keys_ok_def all_used_def family_ok_def
        bound_ok_def loaded_ok_def)

interpretation provider: inv_machine provider_start "provider_step sdk" prov_inv for sdk
  by unfold_locales (rule provider_start_inv, rule provider_step_inv)

subsection \<open>Rows are never re-pointed\<close>

text \<open>A step may add access tokens and codes, but only under values never used before.\<close>

definition only_new :: "string set \<Rightarrow> oauth_db \<Rightarrow> oauth_db \<Rightarrow> bool" where
  "only_new U db db' \<longleftrightarrow>
     (\<forall>a\<in>set (od_access db'). a \<in> set (od_access db) \<or> at_token a \<notin> U) \<and>
     (\<forall>c\<in>set (od_codes db'). c \<in> set (od_codes db) \<or> ac_code c \<notin> U)"

lemma shrinks_only_new: "shrinks db db' \<Longrightarrow> only_new U db db'"
  using shrinks_sub [of db db'] by (auto simp: only_new_def)

lemma exchange_code_only_new:
  assumes "exchange_authorization_code sdk sec c code now db = (res, db')"
    and "''kajet_at_'' @ sec_access sec \<notin> U"
  shows "only_new U db db'"
proof -
  have sub: "set (od_access (snd (delete_auth_code (ac_code code) db))) = set (od_access db)"
    "set (od_codes (snd (delete_auth_code (ac_code code) db))) \<subseteq> set (od_codes db)"
    by (auto simp: delete_auth_code_def sql_simps)
  have "od_codes db' = od_codes d \<and> (od_access db' = od_access d \<or>
      (\<exists>a. at_token a = ''kajet_at_'' @ sec_access sec \<and> od_access db' = od_access d @ [a]))"
    if "issue_token_pair sdk sec cid sc u now d = (res, db')" for cid sc u d
    using that
    by (auto simp: issue_token_pair_def Let_def save_token_pair_Inr new_token_pair_def pair_access_def
        split: sum.splits)
  with assms sub show ?thesis
    by (fastforce simp: exchange_authorization_code_def only_new_def split: prod.splits if_splits option.splits)
qed

lemma exchange_refresh_only_new:
  assumes "exchange_refresh_token sdk sec c tok scopes now db = (res, db')"
    and "''kajet_at_'' @ sec_access sec \<notin> U"
  shows "only_new U db db'"
proof (cases "db' = db")
  case True
  then show ?thesis by (simp add: only_new_def)
next
  case False
  then obtain u cid e out where rot: "rotate_token_pair (rt_token tok)
       (new_token_pair sdk sec cid scopes u (rt_family_id tok) e \<lfloor>now\<rfloor>) \<lfloor>now\<rfloor> db = Inr (out, db')"
    using exchange_refresh_rotates [OF assms(1)] by metis
  define p where "p = new_token_pair sdk sec cid scopes u (rt_family_id tok) e \<lfloor>now\<rfloor>"
  have p: "tp_access_token p = ''kajet_at_'' @ sec_access sec"
    "rotate_token_pair (rt_token tok) p \<lfloor>now\<rfloor> db = Inr (out, db')"
    using rot by (simp_all add: p_def new_token_pair_def)
  from p(2) show ?thesis
  proof (cases rule: rotate_cases)
    case (rotated r)
    then show ?thesis
      using p(1) assms(2) by (auto simp: only_new_def sql_simps pair_access_def)
  next
    case missing
    with False show ?thesis by simp
  next
    case (revoked row)
    then show ?thesis using shrinks_only_new shrinks_delete_family by simp
  qed
qed

lemma complete_only_new:
  assumes "complete_authorization sdk secret pid u now db = (res, db')" and "''kajet_'' @ secret \<notin> U"
  shows "only_new U db db'"
  using complete_authorization_effect [OF assms(1)] assms(2) by (auto simp: only_new_def)

lemma provider_step_only_new:
  assumes "provider_step sdk s s'"
  shows "ps_used s \<subseteq> ps_used s' \<and> only_new (ps_used s) (ps_db s) (ps_db s')"
  using assms
proof (cases rule: provider_step.cases)
  case (p_register valid c res db)
  then have "shrinks (ps_db s) db"
    by (intro shrinks_same) (auto simp: register_client_def upsert_registered_client_def split: if_splits option.splits)
  then show ?thesis using p_register shrinks_only_new by simp
next
  case (p_authorize pid c params now res db)
  then have "shrinks (ps_db s) db"
    by (intro shrinks_same) (auto simp: authorize_def oauth_upsert_pending_def)
  then show ?thesis using p_authorize shrinks_only_new by simp
next
  case (p_complete secret pid u now res db)
  then show ?thesis using complete_only_new by auto
next
  case (p_load_code c code now res db)
  then show ?thesis using shrinks_only_new [OF load_code_shrinks] by simp
next
  case (p_exchange_code sec c code now res db)
  then show ?thesis
    using exchange_code_only_new [OF p_exchange_code(2)] by (auto simp: fresh_secrets_def sec_values_def)
next
  case (p_load_refresh c tok now res db)
  then show ?thesis using shrinks_only_new [OF load_refresh_shrinks] by simp
next
  case (p_exchange_refresh sec c tok scopes now res db)
  then show ?thesis
    using exchange_refresh_only_new [OF p_exchange_refresh(2)] by (auto simp: fresh_secrets_def sec_values_def)
next
  case (p_load_access tok now res db)
  then show ?thesis using shrinks_only_new [OF load_access_shrinks] by simp
next
  case (p_revoke tok)
  then show ?thesis using shrinks_only_new [OF shrinks_revoke] by simp
next
  case (p_sweep now)
  then show ?thesis using shrinks_only_new [OF shrinks_sweep] by simp
next
  case (p_logout u n db)
  then have "db = snd (delete_credentials_by_user u (ps_db s))" by simp
  then show ?thesis using shrinks_only_new [OF shrinks_logout] p_logout(1) by simp
next
  case (p_users ss us)
  have "shrinks (ps_db s) ((ps_db s)\<lparr>od_users := us, od_sessions := ss\<rparr>)" by (intro shrinks_same) simp_all
  then show ?thesis using p_users shrinks_only_new by simp
qed

lemma only_new_trans:
  "only_new U db db' \<Longrightarrow> U \<subseteq> U' \<Longrightarrow> only_new U' db' db'' \<Longrightarrow> only_new U db db''"
  unfolding only_new_def by blast

lemma provider_steps_only_new:
  "(provider_step sdk)\<^sup>*\<^sup>* s s' \<Longrightarrow> ps_used s \<subseteq> ps_used s' \<and> only_new (ps_used s) (ps_db s) (ps_db s')"
proof (induction rule: rtranclp_induct)
  case base
  then show ?case by (simp add: only_new_def)
next
  case (step y z)
  then show ?case
    using provider_step_only_new [OF step(2)] only_new_trans by blast
qed

subsection \<open>Properties\<close>

lemma reach_prov_inv: "(provider_step sdk)\<^sup>*\<^sup>* provider_start s \<Longrightarrow> prov_inv s"
  by (rule provider.reach_inv)

lemma get_access_Some:
  assumes "prov_inv s"
  shows "get_access_token tok (ps_db s) = Some a \<longleftrightarrow> a \<in> set (od_access (ps_db s)) \<and> at_token a = tok"
  using prov_inv_parts(1) [OF assms] unfolding get_access_token_def keys_ok_def
  by (intro sql_get_Some_iff) simp

lemma get_refresh_Some:
  assumes "prov_inv s"
  shows "sql_get rt_token tok (od_refresh (ps_db s)) = Some r \<longleftrightarrow>
     r \<in> set (od_refresh (ps_db s)) \<and> rt_token r = tok"
  using prov_inv_parts(1) [OF assms] unfolding keys_ok_def by (intro sql_get_Some_iff) simp


text \<open>C30: an authorization code is good for one exchange. Once an exchange has got past the
  deletion of the code, every later exchange of that code, by any request and in any state reached
  since, is refused with \<open>invalid_grant\<close> and changes nothing.\<close>

theorem code_single_use:
  assumes "(provider_step sdk)\<^sup>*\<^sup>* provider_start s"
    and "exchange_authorization_code sdk sec c code now (ps_db s) = (res, db)"
    and "res \<noteq> Inl (TokenError ''invalid_grant'' ''Authorization code not found or already used.'')"
    and "fresh_secrets sec s"
    and "(provider_step sdk)\<^sup>*\<^sup>* (spend (sec_values sec) s db) s'" and "ac_code code' = ac_code code"
  shows "exchange_authorization_code sdk sec' c' code' now' (ps_db s') =
     (Inl (TokenError ''invalid_grant'' ''Authorization code not found or already used.''), ps_db s')"
proof -
  let ?k = "ac_code code" and ?d = "snd (delete_auth_code (ac_code code) (ps_db s))"
  have "fst (delete_auth_code ?k (ps_db s))"
    using assms(2,3) by (auto simp: exchange_authorization_code_def split: prod.splits if_splits)
  then obtain row where "row \<in> set (od_codes (ps_db s))" "ac_code row = ?k"
    using sql_count_0 [of "\<lambda>c. ac_code c = ?k" "od_codes (ps_db s)"] by (auto simp: delete_auth_code_def)
  then have used: "?k \<in> ps_used s"
    using all_usedD(5) [OF prov_inv_parts(2) [OF reach_prov_inv [OF assms(1)]]] by metis
  have "od_codes db = od_codes ?d"
    using assms(2)
    by (auto simp: exchange_authorization_code_def issue_token_pair_def Let_def save_token_pair_Inr
        split: prod.splits if_splits option.splits sum.splits)
  then have "?k \<notin> ac_code ` set (od_codes db)"
    by (auto simp: delete_auth_code_def sql_simps)
  moreover have "\<forall>c\<in>set (od_codes (ps_db s')). c \<in> set (od_codes db) \<or> ac_code c \<notin> ps_used s \<union> sec_values sec"
    using provider_steps_only_new [OF assms(5)] by (simp add: only_new_def)
  ultimately have gone: "\<forall>c\<in>set (od_codes (ps_db s')). ac_code c \<noteq> ?k"
    using used by (metis UnI1 image_eqI)
  then have "sql_count (\<lambda>c. ac_code c = ?k) (od_codes (ps_db s')) = 0"
    "sql_delete (\<lambda>c. ac_code c = ?k) (od_codes (ps_db s')) = od_codes (ps_db s')"
    by (simp_all add: sql_count_0 sql_delete_def filter_id_conv)
  then show ?thesis
    using assms(6) by (simp add: exchange_authorization_code_def delete_auth_code_def)
qed

text \<open>C31: reuse detection. Presenting a refresh token that was already consumed revokes its whole
  family: no refresh token of the family is left, no access token issued with one of them is left,
  and everything else stays. The same holds when the reuse is only noticed by the rotation.\<close>

theorem refresh_reuse_revokes:
  assumes "(provider_step sdk)\<^sup>*\<^sup>* provider_start s"
    and "r \<in> set (od_refresh (ps_db s))" and "rt_consumed_at r = Some t0" and "rt_user_id r \<noteq> None"
    and "ci_client_id c = Some (rt_client_id r)"
  shows "\<exists>db. load_refresh_token c (rt_token r) now (ps_db s) = (None, db) \<and>
     rotate_token_pair (rt_token r) p n (ps_db s) = Inr (REUSED, db) \<and>
     set (od_refresh db) = {q \<in> set (od_refresh (ps_db s)). rt_family_id q \<noteq> rt_family_id r} \<and>
     set (od_access db) = {a \<in> set (od_access (ps_db s)).
        \<forall>q\<in>set (od_refresh (ps_db s)). rt_family_id q = rt_family_id r \<longrightarrow>
           at_refresh_token a \<noteq> Some (rt_token q)}"
proof -
  let ?db = "snd (delete_family (rt_family_id r) (ps_db s))"
  have inv: "prov_inv s" using assms(1) by (rule reach_prov_inv)
  have get: "sql_get rt_token (rt_token r) (od_refresh (ps_db s)) = Some r"
    using get_refresh_Some [OF inv] assms(2) by blast
  have "load_refresh_token c (rt_token r) now (ps_db s) = (None, ?db)"
    using assms(3-5) get
    by (auto simp: load_refresh_token_def get_refresh_token_def revoke_token_family_def split: prod.splits)
  moreover have "find (rotatable (rt_token r) n) (od_refresh (ps_db s)) = None"
  proof -
    have "q = r" if "q \<in> set (od_refresh (ps_db s))" "rt_token q = rt_token r" for q
      using get get_refresh_Some [OF inv, of "rt_token r" q] that by simp
    then show ?thesis using assms(3) by (auto simp: find_None_iff rotatable_def)
  qed
  then have "rotate_token_pair (rt_token r) p n (ps_db s) = Inr (REUSED, ?db)"
    using get assms(3) by (simp add: rotate_token_pair_def)
  moreover have "set (od_refresh ?db) = {q \<in> set (od_refresh (ps_db s)). rt_family_id q \<noteq> rt_family_id r}"
    by (simp add: delete_family_def sql_simps)
  moreover have "set (od_access ?db) = {a \<in> set (od_access (ps_db s)).
        \<forall>q\<in>set (od_refresh (ps_db s)). rt_family_id q = rt_family_id r \<longrightarrow>
           at_refresh_token a \<noteq> Some (rt_token q)}"
    by (auto simp: delete_family_def sql_simps in_family_def)
  ultimately show ?thesis by blast
qed

text \<open>Identity travels with the token. If a bearer token resolves to a user now, then after
  any further requests, other users consenting to the same client included, it resolves to that
  user or to nobody, never to someone else.\<close>

theorem bearer_identity_stable:
  assumes "(provider_step sdk)\<^sup>*\<^sup>* provider_start s" and "(provider_step sdk)\<^sup>*\<^sup>* s s'"
    and "resolve_bearer_user_id tok now (ps_db s) = Some u"
    and "resolve_bearer_user_id tok now' (ps_db s') = Some v"
  shows "v = u"
proof -
  have inv: "prov_inv s" using assms(1) by (rule reach_prov_inv)
  have inv': "prov_inv s'" using provider.steps_inv [OF assms(2) inv] .
  obtain a where a: "get_access_token tok (ps_db s) = Some a" "at_user_id a = Some u"
    using assms(3) by (auto simp: resolve_bearer_user_id_def split: if_splits option.splits)
  obtain b where b: "get_access_token tok (ps_db s') = Some b" "at_user_id b = Some v"
    using assms(4) by (auto simp: resolve_bearer_user_id_def split: if_splits option.splits)
  have ain: "a \<in> set (od_access (ps_db s))" "at_token a = tok" using a(1) get_access_Some [OF inv] by auto
  have bin: "b \<in> set (od_access (ps_db s'))" "at_token b = tok" using b(1) get_access_Some [OF inv'] by auto
  have "tok \<in> ps_used s"
    using all_usedD(1) [OF prov_inv_parts(2) [OF inv] ain(1)] ain(2) by simp
  then have "b \<in> set (od_access (ps_db s))"
    using provider_steps_only_new [OF assms(2)] bin by (auto simp: only_new_def)
  then have "get_access_token tok (ps_db s) = Some b" using get_access_Some [OF inv] bin(2) by blast
  with a b show ?thesis by simp
qed

text \<open>Rotation. A refresh exchange that succeeds consumes the presented token, leaves the new
  refresh token as the only usable one of the family, for the same user and with no more scopes,
  removes the access tokens of the old one, and hands out an access token that resolves to that
  user until it expires.\<close>

theorem rotation_correct:
  assumes "(provider_step sdk)\<^sup>*\<^sup>* provider_start s" and "tok \<in> ps_loaded_refresh s"
    and "ci_client_id c = Some (rt_client_id tok)" and "fresh_secrets sec s"
    and "exchange_refresh_token sdk sec c tok scopes now (ps_db s) = (Inr t, db)"
  shows "\<exists>q\<in>set (od_refresh db). rt_token q = ot_refresh_token t \<and>
     rt_family_id q = rt_family_id tok \<and> rt_user_id q = rt_user_id tok \<and>
     set (row_scopes (rt_scopes q)) \<subseteq> set (row_scopes (rt_scopes tok)) \<and>
     (\<forall>x\<in>set (od_refresh db). rt_family_id x = rt_family_id tok \<and> rt_consumed_at x = None \<longrightarrow> x = q) \<and>
     (\<forall>a\<in>set (od_access db). at_refresh_token a \<noteq> Some (rt_token tok)) \<and>
     (\<forall>now'. now' \<le> of_int (\<lfloor>now\<rfloor> + sdk_access_expiry sdk) \<longrightarrow>
        resolve_bearer_user_id (ot_access_token t) now' db = rt_user_id tok)"
proof -
  have inv: "prov_inv s" using assms(1) by (rule reach_prov_inv)
  obtain u e where u: "rt_user_id tok = Some u" "set scopes \<subseteq> rt_grant tok"
    and rot: "rotate_token_pair (rt_token tok)
       (new_token_pair sdk sec (rt_client_id tok) scopes u (rt_family_id tok) e \<lfloor>now\<rfloor>) \<lfloor>now\<rfloor> (ps_db s) = Inr (ROTATED, db)"
    and t: "t = token_response sdk (new_token_pair sdk sec (rt_client_id tok) scopes u (rt_family_id tok) e \<lfloor>now\<rfloor>)"
    using exchange_refresh_rotates [OF assms(5), of t] assms(3) by (metis option.inject)
  define p where "p = new_token_pair sdk sec (rt_client_id tok) scopes u (rt_family_id tok) e \<lfloor>now\<rfloor>"
  have p: "tp_access_token p = ot_access_token t" "tp_refresh_token p = ot_refresh_token t"
    "tp_family_id p = rt_family_id tok" "tp_user_id p = u" "tp_scopes p = scopes"
    "tp_access_expires_at p = \<lfloor>now\<rfloor> + sdk_access_expiry sdk" "ot_access_token t \<noteq> []"
    by (simp_all add: t p_def token_response_def new_token_pair_def)
  let ?s' = "spend (sec_values sec) s db"
  have inv': "prov_inv ?s'" using exchange_refresh_inv [OF inv assms(5,2,3,4)] .
  from rot [folded p_def] obtain
    R: "od_refresh db = sql_update (rotatable (rt_token tok) \<lfloor>now\<rfloor>)
      (\<lambda>r. r\<lparr>rt_consumed_at := Some \<lfloor>now\<rfloor>\<rparr>) (od_refresh (ps_db s)) @ [pair_refresh p]"
    and A: "od_access db = sql_delete (\<lambda>a. at_refresh_token a = Some (rt_token tok)) (od_access (ps_db s)) @ [pair_access p]"
    and fresh: "tp_refresh_token p \<notin> rt_token ` set (od_refresh (ps_db s))"
    and old: "rt_token tok \<in> rt_token ` set (od_refresh (ps_db s))"
  proof (cases rule: rotate_cases)
    case (rotated r)
    then have "r \<in> set (od_refresh (ps_db s))" "rt_token r = rt_token tok"
      using rotatable_unique(1,2) [OF _ rotated(1)] prov_inv_parts(1) [OF inv]
      by (auto simp: keys_ok_def rotatable_def)
    then have "rt_token tok \<in> rt_token ` set (od_refresh (ps_db s))" by (metis image_eqI)
    with rotated show ?thesis by (intro that) simp_all
  qed (auto split: if_splits)
  let ?q = "pair_refresh p"
  have q: "?q \<in> set (od_refresh db)" using R by simp
  have "x = ?q" if "x \<in> set (od_refresh db)" "rt_family_id x = rt_family_id tok" "rt_live x" for x
  proof -
    have "kin_ok x ?q" using prov_inv_parts(3) [OF inv'] that(1) q by (simp add: family_ok_def)
    then show ?thesis using that p(3) by (simp add: kin_ok_def pair_refresh_def)
  qed
  moreover have "\<forall>a\<in>set (od_access db). at_refresh_token a \<noteq> Some (rt_token tok)"
  proof -
    have "rt_token tok \<noteq> tp_refresh_token p" using fresh old by metis
    then show ?thesis unfolding A by (auto simp: sql_simps pair_access_def)
  qed
  moreover have "resolve_bearer_user_id (ot_access_token t) now' db = rt_user_id tok"
    if "now' \<le> of_int (\<lfloor>now\<rfloor> + sdk_access_expiry sdk)" for now'
  proof -
    have "get_access_token (ot_access_token t) (ps_db ?s') = Some (pair_access p)"
      unfolding get_access_Some [OF inv'] using A p(1) by (simp add: pair_access_def)
    then show ?thesis
      using that p u(1) by (simp add: resolve_bearer_user_id_def pair_access_def token_expired_def)
  qed
  moreover have "rt_token ?q = ot_refresh_token t" "rt_family_id ?q = rt_family_id tok"
    "rt_user_id ?q = rt_user_id tok" "rt_grant ?q \<subseteq> rt_grant tok"
    using p u by (simp_all add: pair_refresh_def row_scopes_def)
  ultimately show ?thesis using q by blast
qed

text \<open>Revoking a user's credentials cuts off that user and nobody else: afterwards no bearer
  token resolves to the user, no refresh token or code of the user is left, and every token of
  another user resolves as before.\<close>

theorem credentials_revoked:
  assumes "delete_credentials_by_user u db = (n, db')"
  shows "resolve_bearer_user_id tok now db' \<noteq> Some u \<and>
     (\<forall>r\<in>set (od_refresh db'). rt_user_id r \<noteq> Some u) \<and> (\<forall>c\<in>set (od_codes db'). ac_user_id c \<noteq> Some u) \<and>
     (\<forall>v. v \<noteq> u \<and> resolve_bearer_user_id tok now db = Some v \<longrightarrow>
        resolve_bearer_user_id tok now db' = Some v) \<and>
     n = length (od_codes db) - length (od_codes db') + (length (od_access db) - length (od_access db'))
         + (length (od_refresh db) - length (od_refresh db'))"
proof -
  have "resolve_bearer_user_id tok now db' \<noteq> Some u"
    using assms
    by (auto simp: delete_credentials_by_user_def resolve_bearer_user_id_def get_access_token_def sql_simps
        split: option.splits if_splits dest!: sql_get_SomeD)
  moreover have "resolve_bearer_user_id tok now db' = Some v"
    if "v \<noteq> u" "resolve_bearer_user_id tok now db = Some v" for v
  proof -
    from that(2) obtain a where "sql_get at_token tok (od_access db) = Some a" "at_user_id a = Some v"
      "\<not> token_expired (at_expires_at a) now" "tok \<noteq> []"
      by (auto simp: resolve_bearer_user_id_def get_access_token_def split: option.splits if_splits)
    moreover from this that(1) have
      "sql_get at_token tok (sql_delete (\<lambda>a. at_user_id a = Some u) (od_access db)) = Some a"
      by (intro sql_get_delete_keep) simp_all
    ultimately show ?thesis using assms
      by (auto simp: delete_credentials_by_user_def resolve_bearer_user_id_def get_access_token_def)
  qed
  ultimately show ?thesis
    using assms by (auto simp: delete_credentials_by_user_def sql_simps sql_count_deleted)
qed

text \<open>Expiry at the boundary. The sweep removes no token that authentication still accepts,
  with one exception: a token that expires at exactly this second, which \<open>token_expired\<close> calls
  valid and the sweep deletes.\<close>

theorem sweep_keeps_valid_tokens:
  assumes "get_access_token tok db = Some a" and "\<not> token_expired (at_expires_at a) now"
  shows "(get_access_token tok (delete_expired_tokens now db) = Some a \<and>
       resolve_bearer_user_id tok now (delete_expired_tokens now db) = resolve_bearer_user_id tok now db) \<or>
     at_expires_at a = Some \<lfloor>now\<rfloor> \<and> of_int \<lfloor>now\<rfloor> = now"
proof (cases "at_expires_at a = Some \<lfloor>now\<rfloor> \<and> of_int \<lfloor>now\<rfloor> = now")
  case False
  have "\<not> (case at_expires_at a of None \<Rightarrow> False | Some x \<Rightarrow> x \<le> \<lfloor>now\<rfloor>)"
  proof (cases "at_expires_at a")
    case (Some e)
    then have "now \<le> of_int e" using assms(2) by (simp add: token_expired_def)
    moreover have "of_int \<lfloor>now\<rfloor> \<le> now" by simp
    ultimately have "\<lfloor>now\<rfloor> \<le> e" by linarith
    then show ?thesis
      using Some False \<open>now \<le> of_int e\<close> \<open>of_int \<lfloor>now\<rfloor> \<le> now\<close>
      by (metis dual_order.antisym option.simps(5))
  qed simp
  then have "get_access_token tok (delete_expired_tokens now db) = Some a"
    using assms(1) by (simp add: get_access_token_def delete_expired_tokens_def Let_def sql_get_delete_keep)
  then show ?thesis using assms(1) by (simp add: resolve_bearer_user_id_def)
qed simp

subsection \<open>The theorems at a concrete run\<close>

text \<open>A user logs in through one client, exchanges the code, and refreshes once.\<close>

definition ex_client :: client_info where
  "ex_client = \<lparr>ci_client_id = Some ''c1'', ci_scope = None\<rparr>"

definition ex_params :: auth_params where
  "ex_params = \<lparr>ap_state = None, ap_scopes = Some [''read''], ap_code_challenge = ''x'',
     ap_redirect_uri = ''cb'', ap_explicit = True\<rparr>"

definition ex_sdk :: mcp_sdk where
  "ex_sdk = \<lparr>sdk_dump_client = (\<lambda>c. ''client''), sdk_load_client = (\<lambda>d. Some ex_client),
     sdk_dump_params = (\<lambda>p. ''params''), sdk_load_params = (\<lambda>d. Some ex_params),
     sdk_redirect = (\<lambda>u code st. u @ code), sdk_access_expiry = 3600, sdk_code_expiry = 300\<rparr>"

definition ex_sec1 :: token_secrets where
  "ex_sec1 = \<lparr>sec_family = ''f'', sec_access = ''a1'', sec_refresh = ''r1''\<rparr>"

definition ex_sec2 :: token_secrets where
  "ex_sec2 = \<lparr>sec_family = ''g'', sec_access = ''a2'', sec_refresh = ''r2''\<rparr>"

definition ex_code :: code_row where
  "ex_code = \<lparr>ac_code = ''kajet_k'', ac_client_id = ''c1'', ac_user_id = Some ''u1'', ac_redirect_uri = ''cb'',
     ac_explicit = True, ac_scopes = Some [''read''], ac_expires_at = 300, ac_code_challenge = Some ''x''\<rparr>"

definition ex_rt :: "string \<Rightarrow> int option \<Rightarrow> refresh_row" where
  "ex_rt t consumed = \<lparr>rt_token = t, rt_client_id = ''c1'', rt_user_id = Some ''u1'', rt_scopes = Some [''read''],
     rt_expires_at = Some 2592000, rt_family_id = ''f'', rt_consumed_at = consumed\<rparr>"

definition ex_at :: "string \<Rightarrow> int \<Rightarrow> string \<Rightarrow> access_row" where
  "ex_at t e rt = \<lparr>at_token = t, at_client_id = ''c1'', at_user_id = Some ''u1'', at_scopes = Some [''read''],
     at_expires_at = Some e, at_refresh_token = Some rt\<rparr>"

definition ex_users :: "user_row list" where
  "ex_users = [\<lparr>u_id = ''u1'', u_email = ''e'', u_timezone = ''UTC'', u_locale = ''en''\<rparr>]"

definition ex_db :: "code_row list \<Rightarrow> refresh_row list \<Rightarrow> access_row list \<Rightarrow> oauth_db" where
  "ex_db codes rts ats = empty_db\<lparr>od_users := ex_users, od_authorizations := [(''c1'', ''u1'')],
     od_codes := codes, od_refresh := rts, od_access := ats\<rparr>"

definition ex_db1 :: oauth_db where
  "ex_db1 = ex_db [] [ex_rt ''kajet_rt_r1'' None] [ex_at ''kajet_at_a1'' 3600 ''kajet_rt_r1'']"

definition ex_db2 :: oauth_db where
  "ex_db2 = ex_db [] [ex_rt ''kajet_rt_r1'' (Some 10), ex_rt ''kajet_rt_r2'' None]
     [ex_at ''kajet_at_a2'' 3610 ''kajet_rt_r2'']"

lemmas ex_auth_defs = ex_client_def ex_params_def ex_sdk_def ex_sec1_def ex_sec2_def ex_code_def ex_rt_def
  ex_at_def ex_users_def ex_db_def ex_db1_def ex_db2_def empty_db_def

definition ex_state0 :: provider_state where
  "ex_state0 = \<lparr>ps_db = ex_db [ex_code] [] [], ps_loaded_codes = {ex_code}, ps_loaded_refresh = {},
     ps_used = {''kajet_k''}\<rparr>"

definition ex_state1 :: provider_state where
  "ex_state1 = \<lparr>ps_db = ex_db1, ps_loaded_codes = {ex_code},
     ps_loaded_refresh = {ex_rt ''kajet_rt_r1'' None}, ps_used = {''kajet_k''} \<union> sec_values ex_sec1\<rparr>"

definition ex_state2 :: provider_state where
  "ex_state2 = ex_state1\<lparr>ps_db := ex_db2, ps_used := ps_used ex_state1 \<union> sec_values ex_sec2\<rparr>"

lemma ex_complete:
  "complete_authorization ex_sdk ''k'' ''p'' (Some ''u1'') 0
     (empty_db\<lparr>od_users := ex_users, od_pending := [\<lparr>pa_pending_id = ''p'', pa_client_json = ''client'',
        pa_params_json = ''params'', pa_expires_at = 600\<rparr>]\<rparr>) = (Inr ''cbkajet_k'', ex_db [ex_code] [] [])"
  by (simp add: complete_authorization_def get_pending_def delete_pending_def record_client_authorization_def
      upsert_auth_code_def sql_replace_def sql_delete_def granted_scopes_def row_scopes_def Let_def ex_auth_defs)

lemma ex_exchange_code:
  "exchange_authorization_code ex_sdk ex_sec1 ex_client ex_code 0 (ex_db [ex_code] [] []) =
     (Inr \<lparr>ot_access_token = ''kajet_at_a1'', ot_expires_in = 3600, ot_refresh_token = ''kajet_rt_r1'',
           ot_scope = ''read''\<rparr>, ex_db1)"
  by (simp add: exchange_authorization_code_def delete_auth_code_def sql_count_def sql_delete_def
      issue_token_pair_def new_token_pair_def save_token_pair_def insert_refresh_token_def
      insert_access_token_def sql_insert_def token_response_def row_scopes_def Let_def
      REFRESH_TOKEN_EXPIRY_SECONDS_def ex_auth_defs)

lemma ex_exchange_refresh:
  "exchange_refresh_token ex_sdk ex_sec2 ex_client (ex_rt ''kajet_rt_r1'' None) [''read''] 10 ex_db1 =
     (Inr \<lparr>ot_access_token = ''kajet_at_a2'', ot_expires_in = 3600, ot_refresh_token = ''kajet_rt_r2'',
           ot_scope = ''read''\<rparr>, ex_db2)"
  by (simp add: exchange_refresh_token_def rotate_token_pair_def rotatable_def new_token_pair_def
      insert_refresh_token_def insert_access_token_def sql_insert_def sql_delete_def
      token_response_def row_scopes_def Let_def ex_auth_defs)

lemma ex_fresh: "fresh_secrets ex_sec1 ex_state0" "fresh_secrets ex_sec2 ex_state1"
  by (simp_all add: fresh_secrets_def sec_values_def ex_state0_def ex_state1_def ex_sec1_def ex_sec2_def)

lemma ex_reach0: "(provider_step ex_sdk)\<^sup>*\<^sup>* provider_start ex_state0"
proof -
  let ?s1 = "provider_start\<lparr>ps_db := (ps_db provider_start)\<lparr>od_users := ex_users, od_sessions := []\<rparr>\<rparr>"
  let ?d2 = "empty_db\<lparr>od_users := ex_users, od_pending := [\<lparr>pa_pending_id = ''p'',
      pa_client_json = ''client'', pa_params_json = ''params'', pa_expires_at = 600\<rparr>]\<rparr>"
  let ?s3 = "spend {''kajet_k''} (?s1\<lparr>ps_db := ?d2\<rparr>) (ex_db [ex_code] [] [])"
  have "provider_step ex_sdk provider_start ?s1" by (rule p_users)
  moreover have "provider_step ex_sdk ?s1 (?s1\<lparr>ps_db := ?d2\<rparr>)"
  proof (rule p_authorize)
    show "authorize ex_sdk ''p'' ex_client ex_params 0 (ps_db ?s1) = (''/login?pending=p'', ?d2)"
      by (simp add: authorize_def oauth_upsert_pending_def sql_replace_def sql_delete_def
          provider_start_def PENDING_AUTHORIZATION_EXPIRY_SECONDS_def empty_db_def ex_sdk_def)
  qed
  moreover have "provider_step ex_sdk (?s1\<lparr>ps_db := ?d2\<rparr>) ?s3"
    using p_complete [where sdk = ex_sdk and secret = "''k''" and s = "?s1\<lparr>ps_db := ?d2\<rparr>"] ex_complete
    by (simp add: provider_start_def)
  moreover have "provider_step ex_sdk ?s3 ex_state0"
  proof -
    have "load_authorization_code ex_client ''kajet_k'' 0 (ps_db ?s3) = (Some ex_code, ps_db ?s3)"
      by (simp add: load_authorization_code_def get_auth_code_def sql_get_def row_scopes_def ex_auth_defs)
    from p_load_code [OF this] show ?thesis by (simp add: provider_start_def ex_state0_def)
  qed
  ultimately show ?thesis by (meson converse_rtranclp_into_rtranclp rtranclp.rtrancl_refl)
qed

lemma ex_step1: "provider_step ex_sdk (spend (sec_values ex_sec1) ex_state0 ex_db1) ex_state1"
proof -
  let ?s = "spend (sec_values ex_sec1) ex_state0 ex_db1"
  have "load_refresh_token ex_client ''kajet_rt_r1'' 0 (ps_db ?s) = (Some (ex_rt ''kajet_rt_r1'' None), ps_db ?s)"
    by (simp add: load_refresh_token_def get_refresh_token_def sql_get_def token_expired_def row_scopes_def
        ex_auth_defs)
  from p_load_refresh [OF this] show ?thesis by (simp add: ex_state0_def ex_state1_def)
qed

lemma ex_reach1: "(provider_step ex_sdk)\<^sup>*\<^sup>* provider_start ex_state1"
proof -
  have "provider_step ex_sdk ex_state0 (spend (sec_values ex_sec1) ex_state0 ex_db1)"
    using ex_fresh(1)
    by (intro p_exchange_code [where c = ex_client and code = ex_code and now = 0])
       (simp_all add: ex_state0_def ex_exchange_code, simp_all add: ex_auth_defs)
  with ex_reach0 ex_step1 show ?thesis by (meson rtranclp.rtrancl_into_rtrancl)
qed

lemma ex_step2: "provider_step ex_sdk ex_state1 ex_state2"
proof -
  have "provider_step ex_sdk ex_state1 (spend (sec_values ex_sec2) ex_state1 ex_db2)"
    using ex_fresh(2)
    by (intro p_exchange_refresh [where c = ex_client and tok = "ex_rt ''kajet_rt_r1'' None" and now = 10
          and scopes = "[''read'']"])
       (simp_all add: ex_state1_def ex_exchange_refresh, simp_all add: ex_auth_defs)
  then show ?thesis by (simp add: ex_state2_def)
qed

lemma ex_reach2: "(provider_step ex_sdk)\<^sup>*\<^sup>* provider_start ex_state2"
  using ex_reach1 ex_step2 by (rule rtranclp.rtrancl_into_rtrancl)

lemma ex_rows:
  "ex_rt ''kajet_rt_r1'' (Some 10) \<in> set (od_refresh (ps_db ex_state2))"
  "ex_rt ''kajet_rt_r2'' None \<in> set (od_refresh (ps_db ex_state2))"
  "ex_at ''kajet_at_a2'' 3610 ''kajet_rt_r2'' \<in> set (od_access (ps_db ex_state2))"
  by (simp_all add: ex_state2_def ex_db2_def ex_db_def)


theorem code_single_use_witness:
  "exchange_authorization_code ex_sdk ex_sec2 ex_client ex_code 20 (ps_db ex_state1) =
     (Inl (TokenError ''invalid_grant'' ''Authorization code not found or already used.''), ps_db ex_state1)"
proof (rule code_single_use [OF ex_reach0 _ _ ex_fresh(1)])
  show "exchange_authorization_code ex_sdk ex_sec1 ex_client ex_code 0 (ps_db ex_state0) =
     (Inr \<lparr>ot_access_token = ''kajet_at_a1'', ot_expires_in = 3600, ot_refresh_token = ''kajet_rt_r1'',
           ot_scope = ''read''\<rparr>, ex_db1)"
    using ex_exchange_code by (simp add: ex_state0_def)
  show "(provider_step ex_sdk)\<^sup>*\<^sup>* (spend (sec_values ex_sec1) ex_state0 ex_db1) ex_state1"
    using ex_step1 by (rule r_into_rtranclp)
qed simp_all

theorem refresh_reuse_revokes_witness:
  "\<exists>db. load_refresh_token ex_client ''kajet_rt_r1'' 20 (ps_db ex_state2) = (None, db) \<and>
     set (od_refresh db) = {} \<and> set (od_access db) = {}"
proof -
  obtain db where db: "load_refresh_token ex_client (rt_token (ex_rt ''kajet_rt_r1'' (Some 10))) 20 (ps_db ex_state2) = (None, db)"
    "set (od_refresh db) = {q \<in> set (od_refresh (ps_db ex_state2)). rt_family_id q \<noteq> rt_family_id (ex_rt ''kajet_rt_r1'' (Some 10))}"
    "set (od_access db) = {a \<in> set (od_access (ps_db ex_state2)).
        \<forall>q\<in>set (od_refresh (ps_db ex_state2)). rt_family_id q = rt_family_id (ex_rt ''kajet_rt_r1'' (Some 10)) \<longrightarrow>
           at_refresh_token a \<noteq> Some (rt_token q)}"
    using refresh_reuse_revokes [OF ex_reach2 ex_rows(1), of 10 ex_client 20
        "new_token_pair ex_sdk ex_sec2 ''c1'' [] ''u1'' ''f'' 0 0" 0]
    by (auto simp: ex_rt_def ex_client_def)
  have "set (od_refresh db) = {}" "set (od_access db) = {}"
    unfolding db by (auto simp: ex_state2_def ex_auth_defs)
  with db(1) show ?thesis by (auto simp: ex_rt_def)
qed

theorem bearer_identity_stable_witness:
  "resolve_bearer_user_id ''kajet_at_a1'' 5 (ps_db ex_state1) = Some ''u1'' \<and>
   resolve_bearer_user_id ''kajet_at_a1'' 6 (ps_db ex_state1) = Some ''u1''"
proof -
  have r: "resolve_bearer_user_id ''kajet_at_a1'' 5 (ps_db ex_state1) = Some ''u1''"
    by (simp add: ex_state1_def resolve_bearer_user_id_def get_access_token_def sql_get_def token_expired_def ex_auth_defs)
  obtain v where v: "resolve_bearer_user_id ''kajet_at_a1'' 6 (ps_db ex_state1) = Some v"
    by (simp add: ex_state1_def resolve_bearer_user_id_def get_access_token_def sql_get_def token_expired_def ex_auth_defs)
  from bearer_identity_stable [OF ex_reach1 _ r v] r v show ?thesis by simp
qed

theorem rotation_correct_witness:
  "resolve_bearer_user_id ''kajet_at_a2'' 100 ex_db2 = Some ''u1''"
proof -
  have "exchange_refresh_token ex_sdk ex_sec2 ex_client (ex_rt ''kajet_rt_r1'' None) [''read''] 10 (ps_db ex_state1) =
     (Inr \<lparr>ot_access_token = ''kajet_at_a2'', ot_expires_in = 3600, ot_refresh_token = ''kajet_rt_r2'',
           ot_scope = ''read''\<rparr>, ex_db2)"
    using ex_exchange_refresh by (simp add: ex_state1_def)
  from rotation_correct [OF ex_reach1 _ _ ex_fresh(2) this] show ?thesis
    by (auto simp: ex_state1_def ex_client_def ex_rt_def ex_sdk_def)
qed

theorem credentials_revoked_witness:
  "\<exists>n db. delete_credentials_by_user ''u1'' ex_db2 = (n, db) \<and> n = 3 \<and>
     resolve_bearer_user_id ''kajet_at_a2'' 100 db \<noteq> Some ''u1''"
proof -
  obtain n db where d: "delete_credentials_by_user ''u1'' ex_db2 = (n, db)" by fastforce
  have "n = 3" using d
    by (simp add: delete_credentials_by_user_def sql_count_def ex_auth_defs)
  with credentials_revoked [OF d] d show ?thesis by blast
qed

theorem sweep_keeps_valid_tokens_witness:
  "get_access_token ''kajet_at_a2'' (delete_expired_tokens 100 ex_db2) =
     Some (ex_at ''kajet_at_a2'' 3610 ''kajet_rt_r2'')"
  using sweep_keeps_valid_tokens [of "''kajet_at_a2''" ex_db2 "ex_at ''kajet_at_a2'' 3610 ''kajet_rt_r2''" 100]
  by (simp add: get_access_token_def sql_get_def token_expired_def ex_auth_defs)

end
