(* ===== verification/Periods.thy ===== *)
theory Periods
  imports Prelude
begin

section \<open>Calendar periods\<close>

text \<open>
  Models \<open>periods.py\<close> and the parts of Python's \<open>datetime.date\<close> it uses: the proleptic
  Gregorian calendar with years 1 to 9999, ordinals, ISO weeks, \<open>isoformat\<close> and
  \<open>fromisoformat\<close>, and \<open>int()\<close> and zero-padded formatting of integers. A \<open>Period\<close> is
  built by \<open>mk_period\<close>, which is \<open>Period.__post_init__\<close>: a value with a key that is not
  canonical does not exist. \<open>today_in\<close> (time zones) is not modelled.
\<close>

datatype py_error = PyValueError | PyOverflowError

subsection \<open>Decimal text\<close>

definition digit_val :: "char \<Rightarrow> int" where
  "digit_val c = int (code_point c) - 48"

definition digit_char :: "nat \<Rightarrow> char" where
  "digit_char n = char_of (48 + n)"

text \<open>\<open>int(s)\<close>: surrounding space, a sign, digits with single underscores between them.\<close>

fun int_body :: "int \<Rightarrow> bool \<Rightarrow> string \<Rightarrow> int option" where
  "int_body acc prev [] = (if prev then Some acc else None)"
| "int_body acc prev (c # cs) =
     (if py_isdigit_ascii c then int_body (acc * 10 + digit_val c) True cs
      else if c = CHR ''_'' \<and> prev \<and> cs \<noteq> [] then int_body acc False cs
      else None)"

definition py_int :: "string \<Rightarrow> int option" where
  "py_int s = (case py_strip s of
      [] \<Rightarrow> None
    | c # cs \<Rightarrow> if c = CHR ''-'' then map_option uminus (int_body 0 False cs)
                else if c = CHR ''+'' then int_body 0 False cs
                else int_body 0 False (c # cs))"

fun dec :: "nat \<Rightarrow> string" where
  "dec n = (if n < 10 then [digit_char n] else dec (n div 10) @ [digit_char (n mod 10)])"

declare dec.simps [simp del]

text \<open>\<open>f"{n:0wd}"\<close> for a non-negative integer.\<close>

definition pad :: "nat \<Rightarrow> nat \<Rightarrow> string" where
  "pad w n = replicate (w - length (dec n)) (CHR ''0'') @ dec n"

subsection \<open>Gregorian dates\<close>

record date =
  d_year :: int
  d_month :: int
  d_day :: int

definition is_leap :: "int \<Rightarrow> bool" where
  "is_leap y \<longleftrightarrow> 4 dvd y \<and> (\<not> 100 dvd y \<or> 400 dvd y)"

definition days_in_month :: "int \<Rightarrow> int \<Rightarrow> int" where
  "days_in_month y m = (if m = 2 then (if is_leap y then 29 else 28)
     else if m \<in> {4, 6, 9, 11} then 30 else 31)"

definition days_before_year :: "int \<Rightarrow> int" where
  "days_before_year y = (let p = y - 1 in p * 365 + p div 4 - p div 100 + p div 400)"

definition days_before_month :: "int \<Rightarrow> int \<Rightarrow> int" where
  "days_before_month y m = sum_list (map (\<lambda>k. days_in_month y (int k)) [1..<nat m])"

text \<open>The constructor \<open>date(y, m, d)\<close>.\<close>

definition date_ok :: "int \<Rightarrow> int \<Rightarrow> int \<Rightarrow> bool" where
  "date_ok y m d \<longleftrightarrow> 1 \<le> y \<and> y \<le> 9999 \<and> 1 \<le> m \<and> m \<le> 12 \<and> 1 \<le> d \<and> d \<le> days_in_month y m"

definition mk_date :: "int \<Rightarrow> int \<Rightarrow> int \<Rightarrow> py_error + date" where
  "mk_date y m d = (if date_ok y m d then Inr \<lparr>d_year = y, d_month = m, d_day = d\<rparr> else Inl PyValueError)"

abbreviation valid_date :: "date \<Rightarrow> bool" where
  "valid_date d \<equiv> date_ok (d_year d) (d_month d) (d_day d)"

definition ymd_ordinal :: "int \<Rightarrow> int \<Rightarrow> int \<Rightarrow> int" where
  "ymd_ordinal y m d = days_before_year y + days_before_month y m + d"

definition toordinal :: "date \<Rightarrow> int" where
  "toordinal d = ymd_ordinal (d_year d) (d_month d) (d_day d)"

lemma div_Suc_int:
  fixes p k :: int
  assumes "0 < k"
  shows "(p + 1) div k = p div k + (if k dvd p + 1 then 1 else 0)"
proof (cases "p mod k = k - 1")
  case True
  then obtain q where q: "q = p div k" "p = q * k + (k - 1)"
    by (metis div_mult_mod_eq)
  then have "p + 1 = (q + 1) * k" by (simp add: distrib_right)
  then have "(p + 1) div k = q + 1" "k dvd p + 1" using assms by simp_all
  then show ?thesis using q(1) by simp
next
  case False
  then have lt: "0 \<le> p mod k + 1" "p mod k + 1 < k"
    using assms pos_mod_bound [of k p] pos_mod_sign [of k p] by linarith+
  have eq: "p + 1 = k * (p div k) + (p mod k + 1)" using mult_div_mod_eq [of k p] by simp
  have "(p + 1) div k = p div k" "(p + 1) mod k = p mod k + 1"
    using int_div_pos_eq [OF eq lt] int_mod_pos_eq [OF eq lt] by blast+
  moreover have "p mod k + 1 \<noteq> 0" using assms pos_mod_sign [of k p] by linarith
  ultimately show ?thesis by (simp add: dvd_eq_mod_eq_0)
qed

lemma leap_arith:
  "(c \<longrightarrow> b) \<Longrightarrow> (b \<longrightarrow> a) \<Longrightarrow>
     (if a then 1 else 0) - (if b then 1 else 0) + (if c then 1 else 0) =
     (if a \<and> (\<not> b \<or> c) then 1 else 0 :: int)"
  by (cases a; cases b; cases c) simp_all

lemma year_arith:
  fixes y :: int
  shows "u = y * 365 + a' - b' + c' \<Longrightarrow> v = (y - 1) * 365 + a - b + c \<Longrightarrow>
     a' = a + i \<Longrightarrow> b' = b + j \<Longrightarrow> c' = c + k \<Longrightarrow> i - j + k = l \<Longrightarrow> u = v + 365 + l"
  by simp

lemma days_before_year_next:
  "days_before_year (y + 1) = days_before_year y + (if is_leap y then 366 else 365)"
proof -
  have d: "400 dvd y \<Longrightarrow> 100 dvd y" "100 dvd y \<Longrightarrow> 4 dvd y"
    by (erule dvd_trans [rotated], simp)+
  have e: "y div 4 = (y - 1) div 4 + (if 4 dvd y then 1 else 0)"
    "y div 100 = (y - 1) div 100 + (if 100 dvd y then 1 else 0)"
    "y div 400 = (y - 1) div 400 + (if 400 dvd y then 1 else 0)"
    by (rule div_Suc_int [where p = "y - 1", unfolded diff_add_cancel, OF zero_less_numeral])+
  have leap: "(if 4 dvd y then 1 else 0) - (if 100 dvd y then 1 else 0) + (if 400 dvd y then 1 else 0) =
      (if is_leap y then 1 else 0 :: int)"
    unfolding is_leap_def using d by (intro leap_arith) blast+
  have D: "days_before_year (y + 1) = y * 365 + y div 4 - y div 100 + y div 400"
    "days_before_year y = (y - 1) * 365 + (y - 1) div 4 - (y - 1) div 100 + (y - 1) div 400"
    by (simp_all add: days_before_year_def Let_def)
  show ?thesis
    unfolding year_arith [OF D e leap] by (cases "is_leap y") simp_all
qed

text \<open>The year of an ordinal: from a lower estimate upwards.\<close>

function year_from :: "int \<Rightarrow> int \<Rightarrow> int" where
  "year_from y n = (if n \<le> days_before_year (y + 1) then y else year_from (y + 1) n)"
  by pat_completeness auto
termination
proof (relation "measure (\<lambda>(y, n). nat (n - days_before_year (y + 1)))")
  fix y n :: int
  assume "\<not> n \<le> days_before_year (y + 1)"
  moreover have "days_before_year (y + 1) < days_before_year (y + 1 + 1)"
    using days_before_year_next [of "y + 1"] by (simp split: if_splits)
  ultimately show "((y + 1, n), y, n) \<in> measure (\<lambda>(y, n). nat (n - days_before_year (y + 1)))"
    by simp
qed simp

declare year_from.simps [simp del]

fun month_from :: "int \<Rightarrow> int \<Rightarrow> nat \<Rightarrow> nat \<Rightarrow> int" where
  "month_from y r m 0 = int m"
| "month_from y r m (Suc k) =
     (if r \<le> days_before_month y (int m + 1) then int m else month_from y r (Suc m) k)"

definition ord_year :: "int \<Rightarrow> int" where
  "ord_year n = year_from ((n - 1) div 366 + 1) n"

definition ord_month :: "int \<Rightarrow> int" where
  "ord_month n = month_from (ord_year n) (n - days_before_year (ord_year n)) 1 11"

definition ord_date :: "int \<Rightarrow> date" where
  "ord_date n = (let y = ord_year n; m = ord_month n in
     \<lparr>d_year = y, d_month = m, d_day = n - days_before_year y - days_before_month y m\<rparr>)"

definition MAXORDINAL :: int where "MAXORDINAL = 3652059"

text \<open>\<open>d + timedelta(days=k)\<close>.\<close>

definition add_days :: "date \<Rightarrow> int \<Rightarrow> py_error + date" where
  "add_days d k = (let n = toordinal d + k in
     if 0 < n \<and> n \<le> MAXORDINAL then Inr (ord_date n) else Inl PyOverflowError)"

definition isoformat :: "date \<Rightarrow> string" where
  "isoformat d = pad 4 (nat (d_year d)) @ ''-'' @ pad 2 (nat (d_month d)) @ ''-'' @ pad 2 (nat (d_day d))"

subsection \<open>ISO weeks\<close>

definition iso_week1_monday :: "int \<Rightarrow> int" where
  "iso_week1_monday y = (let firstday = ymd_ordinal y 1 1; firstweekday = (firstday + 6) mod 7;
       w1m = firstday - firstweekday in if firstweekday > 3 then w1m + 7 else w1m)"

text \<open>\<open>d.isocalendar()\<close>: ISO year and week.\<close>

definition isocalendar :: "date \<Rightarrow> int \<times> int" where
  "isocalendar d = (let y = d_year d; today = toordinal d; w = (today - iso_week1_monday y) div 7
     in if w < 0 then (y - 1, (today - iso_week1_monday (y - 1)) div 7 + 1)
        else if w \<ge> 52 \<and> today \<ge> iso_week1_monday (y + 1) then (y + 1, 1)
        else (y, w + 1))"

definition iso_week_ok :: "int \<Rightarrow> int \<Rightarrow> bool" where
  "iso_week_ok y w \<longleftrightarrow> 0 < w \<and> (w < 53 \<or> w = 53 \<and>
     (ymd_ordinal y 1 1 mod 7 = 4 \<or> ymd_ordinal y 1 1 mod 7 = 3 \<and> is_leap y))"

definition fromisocalendar :: "int \<Rightarrow> int \<Rightarrow> int \<Rightarrow> py_error + date" where
  "fromisocalendar y w day =
     (if 1 \<le> y \<and> y \<le> 9999 \<and> iso_week_ok y w \<and> 0 < day \<and> day < 8
      then (let n = iso_week1_monday y + (w - 1) * 7 + (day - 1)
            in if 0 < n \<and> n \<le> MAXORDINAL then Inr (ord_date n) else Inl PyValueError)
      else Inl PyValueError)"

definition all_digits :: "string \<Rightarrow> bool" where
  "all_digits s \<longleftrightarrow> (\<forall>c\<in>set s. py_isdigit_ascii c)"

definition digits_int :: "string \<Rightarrow> int" where
  "digits_int s = foldl (\<lambda>acc c. acc * 10 + digit_val c) 0 s"

text \<open>\<open>date.fromisoformat\<close>: \<open>YYYY-MM-DD\<close>, \<open>YYYYMMDD\<close> and the ISO week forms.\<close>

definition fromisoformat :: "string \<Rightarrow> py_error + date" where
  "fromisoformat s =
     (if length s \<notin> {7, 8, 10} \<or> \<not> all_digits (take 4 s) then Inl PyValueError
      else
       (let y = digits_int (take 4 s);
            sep = (s ! 4 = CHR ''-'');
            rest = drop (if sep then 5 else 4) s
        in if rest \<noteq> [] \<and> hd rest = CHR ''W''
           then (let ww = take 2 (tl rest); more = drop 2 (tl rest)
                 in if length ww \<noteq> 2 \<or> \<not> all_digits ww then Inl PyValueError
                    else if more = [] then fromisocalendar y (digits_int ww) 1
                    else if (hd more = CHR ''-'') \<noteq> sep then Inl PyValueError
                    else (let dd = (if sep then tl more else more)
                          in if length dd \<noteq> 1 \<or> \<not> all_digits dd then Inl PyValueError
                             else fromisocalendar y (digits_int ww) (digits_int dd)))
           else (let mm = take 2 rest; more = drop 2 rest
                 in if length mm \<noteq> 2 \<or> \<not> all_digits mm \<or> more = [] \<or> (hd more = CHR ''-'') \<noteq> sep
                    then Inl PyValueError
                    else (let dd = (if sep then tl more else more)
                          in if length dd \<noteq> 2 \<or> \<not> all_digits dd then Inl PyValueError
                             else mk_date y (digits_int mm) (digits_int dd)))))"

subsection \<open>Periods\<close>

datatype period_kind = Day | Week | Month | Year

record period =
  p_kind :: period_kind
  p_key :: string

definition parse_key :: "period_kind \<Rightarrow> string \<Rightarrow> py_error + date" where
  "parse_key kind key = (case kind of
      Day \<Rightarrow> fromisoformat key
    | Week \<Rightarrow>
        if length key \<noteq> 8 \<or> take 2 (drop 4 key) \<noteq> ''-W'' then Inl PyValueError
        else (case (py_int (take 4 key), py_int (drop 6 key)) of
                (Some y, Some w) \<Rightarrow> fromisocalendar y w 1
              | _ \<Rightarrow> Inl PyValueError)
    | Month \<Rightarrow>
        if length key \<noteq> 7 \<or> key ! 4 \<noteq> CHR ''-'' then Inl PyValueError
        else (case (py_int (take 4 key), py_int (drop 5 key)) of
                (Some y, Some m) \<Rightarrow> mk_date y m 1
              | _ \<Rightarrow> Inl PyValueError)
    | Year \<Rightarrow> (case py_int key of Some y \<Rightarrow> mk_date y 1 1 | None \<Rightarrow> Inl PyValueError))"

definition week_key :: "int \<Rightarrow> int \<Rightarrow> string" where
  "week_key y w = pad 4 (nat y) @ ''-W'' @ pad 2 (nat w)"

definition month_key :: "int \<Rightarrow> int \<Rightarrow> string" where
  "month_key y m = pad 4 (nat y) @ ''-'' @ pad 2 (nat m)"

definition format_key :: "period_kind \<Rightarrow> date \<Rightarrow> string" where
  "format_key kind d = (case kind of
      Day \<Rightarrow> isoformat d
    | Week \<Rightarrow> (let (y, w) = isocalendar d in week_key y w)
    | Month \<Rightarrow> month_key (d_year d) (d_month d)
    | Year \<Rightarrow> pad 4 (nat (d_year d)))"

definition mk_period :: "period_kind \<Rightarrow> string \<Rightarrow> py_error + period" where
  "mk_period kind key = (case parse_key kind key of
      Inl e \<Rightarrow> Inl PyValueError
    | Inr d \<Rightarrow> if format_key kind d \<noteq> key then Inl PyValueError
               else Inr \<lparr>p_kind = kind, p_key = key\<rparr>)"

definition containing :: "date \<Rightarrow> period_kind \<Rightarrow> py_error + period" where
  "containing d kind = (case kind of
      Day \<Rightarrow> mk_period Day (isoformat d)
    | Week \<Rightarrow> (let (y, w) = isocalendar d in mk_period Week (week_key y w))
    | Month \<Rightarrow> mk_period Month (month_key (d_year d) (d_month d))
    | Year \<Rightarrow> mk_period Year (pad 4 (nat (d_year d))))"

definition p_start :: "period \<Rightarrow> py_error + date" where
  "p_start p = parse_key (p_kind p) (p_key p)"

definition shift_containing :: "period \<Rightarrow> int \<Rightarrow> py_error + period" where
  "shift_containing p k = (case p_start p of
      Inl e \<Rightarrow> Inl e
    | Inr d \<Rightarrow> (case add_days d k of Inl e \<Rightarrow> Inl e | Inr d' \<Rightarrow> containing d' (p_kind p)))"

definition p_next :: "period \<Rightarrow> py_error + period" where
  "p_next p = (case p_kind p of
      Day \<Rightarrow> shift_containing p 1
    | Week \<Rightarrow> shift_containing p 7
    | Month \<Rightarrow> (case p_start p of Inl e \<Rightarrow> Inl e | Inr d \<Rightarrow>
        (if d_month d = 12 then mk_period Month (month_key (d_year d + 1) 1)
         else mk_period Month (month_key (d_year d) (d_month d + 1))))
    | Year \<Rightarrow> (case p_start p of Inl e \<Rightarrow> Inl e | Inr d \<Rightarrow>
        mk_period Year (pad 4 (nat (d_year d + 1)))))"

definition p_prev :: "period \<Rightarrow> py_error + period" where
  "p_prev p = (case p_kind p of
      Day \<Rightarrow> shift_containing p (- 1)
    | Week \<Rightarrow> shift_containing p (- 7)
    | Month \<Rightarrow> (case p_start p of Inl e \<Rightarrow> Inl e | Inr d \<Rightarrow>
        (if d_month d = 1 then mk_period Month (month_key (d_year d - 1) 12)
         else mk_period Month (month_key (d_year d) (d_month d - 1))))
    | Year \<Rightarrow> (case p_start p of Inl e \<Rightarrow> Inl e | Inr d \<Rightarrow>
        mk_period Year (pad 4 (nat (d_year d - 1)))))"

definition p_contains :: "period \<Rightarrow> period \<Rightarrow> py_error + bool" where
  "p_contains p q = (case p_kind p of
      Day \<Rightarrow> Inr (p_kind q = Day \<and> p = q)
    | Week \<Rightarrow>
        if p_kind q = Week then Inr (p = q)
        else if p_kind q \<noteq> Day then Inr False
        else (case p_start q of Inl e \<Rightarrow> Inl e | Inr d \<Rightarrow>
               (case containing d Week of Inl e \<Rightarrow> Inl e | Inr w \<Rightarrow> Inr (p = w)))
    | Month \<Rightarrow>
        if p_kind q = Week then Inl PyValueError
        else if p_kind q = Month then Inr (p = q)
        else Inr (p_kind q = Day \<and> p_key p = take 7 (p_key q))
    | Year \<Rightarrow> if p_kind q = Year then Inr (p = q) else Inr (p_key p = take 4 (p_key q)))"

definition parse_period_key :: "string \<Rightarrow> py_error + period" where
  "parse_period_key key =
     (if length key = 10 then mk_period Day key
      else if length key = 8 \<and> take 2 (drop 4 key) = ''-W'' then mk_period Week key
      else if length key = 7 then mk_period Month key
      else if length key = 4 then mk_period Year key
      else Inl PyValueError)"

definition month_of_week :: "period \<Rightarrow> py_error + period" where
  "month_of_week w =
     (if p_kind w \<noteq> Week then Inl PyValueError
      else case p_start w of Inl e \<Rightarrow> Inl e | Inr d \<Rightarrow>
        (case add_days d 3 of Inl e \<Rightarrow> Inl e | Inr d' \<Rightarrow> containing d' Month))"

subsection \<open>The calendar is a bijection\<close>

lemma days_before_month_next:
  assumes "1 \<le> m"
  shows "days_before_month y (m + 1) = days_before_month y m + days_in_month y m"
proof -
  have "[1..<nat (m + 1)] = [1..<nat m] @ [nat m]"
    using assms by (simp add: nat_add_distrib)
  then show ?thesis using assms by (simp add: days_before_month_def)
qed

lemma days_in_month_pos: "28 \<le> days_in_month y m" "days_in_month y m \<le> 31"
  by (simp_all add: days_in_month_def)

lemma days_before_month_1 [simp]: "days_before_month y 1 = 0"
  by (simp add: days_before_month_def)

lemma days_before_month_13: "days_before_month y 13 = (if is_leap y then 366 else 365)"
  by (simp add: days_before_month_def days_in_month_def upt_rec)

lemma days_before_month_mono:
  assumes "1 \<le> m" "m \<le> m'"
  shows "days_before_month y m \<le> days_before_month y m'"
proof -
  have "days_before_month y m \<le> days_before_month y (m + int k)" for k
  proof (induction k)
    case (Suc k)
    then show ?case
      using days_before_month_next [of "m + int k" y] days_in_month_pos(1) [of y "m + int k"] assms(1)
      by (simp add: algebra_simps)
  qed simp
  from this [of "nat (m' - m)"] show ?thesis using assms by simp
qed

lemma year_from_correct:
  "days_before_year y < n \<Longrightarrow>
     days_before_year (year_from y n) < n \<and> n \<le> days_before_year (year_from y n + 1)"
proof (induction y n rule: year_from.induct)
  case (1 y n)
  then show ?case by (cases "n \<le> days_before_year (y + 1)") (simp_all add: year_from.simps [of y n])
qed

lemma days_before_year_bound: "1 \<le> y \<Longrightarrow> days_before_year y \<le> (y - 1) * 366"
proof -
  assume "1 \<le> y"
  then have "(y - 1) div 400 \<le> (y - 1) div 100" "(y - 1) div 4 \<le> (y - 1) div 1"
    by (intro zdiv_mono2; simp)+
  then show ?thesis by (simp add: days_before_year_def Let_def)
qed

lemma ord_year_correct:
  assumes "1 \<le> n"
  shows "days_before_year (ord_year n) < n \<and> n \<le> days_before_year (ord_year n + 1)"
proof -
  let ?y = "(n - 1) div 366 + 1"
  have "1 \<le> ?y" using assms by (simp add: pos_imp_zdiv_nonneg_iff)
  then have "days_before_year ?y \<le> (n - 1) div 366 * 366"
    using days_before_year_bound [of ?y] by simp
  also have "\<dots> \<le> n - 1" by (simp add: minus_mod_eq_div_mult [symmetric])
  finally have "days_before_year ?y < n" by simp
  then show ?thesis unfolding ord_year_def by (rule year_from_correct)
qed

lemma days_before_year_mono: "y \<le> y' \<Longrightarrow> days_before_year y \<le> days_before_year y'"
proof -
  assume "y \<le> y'"
  have "days_before_year y \<le> days_before_year (y + int k)" for k
  proof (induction k)
    case (Suc k)
    then show ?case
      using days_before_year_next [of "y + int k"] by (simp add: algebra_simps split: if_splits)
  qed simp
  from this [of "nat (y' - y)"] show ?thesis using \<open>y \<le> y'\<close> by simp
qed

lemma year_unique:
  assumes "days_before_year y < n" "n \<le> days_before_year (y + 1)"
    and "days_before_year z < n" "n \<le> days_before_year (z + 1)"
  shows "y = z"
proof (rule ccontr)
  assume "y \<noteq> z"
  then consider "y + 1 \<le> z" | "z + 1 \<le> y" by linarith
  then show False
    using days_before_year_mono [of "y + 1" z] days_before_year_mono [of "z + 1" y] assms
    by cases linarith+
qed

lemma ord_year_pos: "1 \<le> n \<Longrightarrow> 1 \<le> ord_year n"
proof (rule ccontr)
  assume n: "1 \<le> n" "\<not> 1 \<le> ord_year n"
  then have "days_before_year (ord_year n + 1) \<le> days_before_year 1"
    by (intro days_before_year_mono) simp
  then show False using ord_year_correct [OF n(1)] n(1) by (simp add: days_before_year_def)
qed

lemma month_from_correct:
  assumes "days_before_month y (int m) < r" "r \<le> days_before_month y (int m + int k + 1)" "1 \<le> m"
  shows "int m \<le> month_from y r m k \<and> month_from y r m k \<le> int m + int k \<and>
     days_before_month y (month_from y r m k) < r \<and> r \<le> days_before_month y (month_from y r m k + 1)"
  using assms
proof (induction k arbitrary: m)
  case 0
  then show ?case by simp
next
  case (Suc k)
  show ?case
  proof (cases "r \<le> days_before_month y (int m + 1)")
    case True
    then show ?thesis using Suc.prems by simp
  next
    case False
    then have "int (Suc m) \<le> month_from y r (Suc m) k \<and> month_from y r (Suc m) k \<le> int (Suc m) + int k \<and>
        days_before_month y (month_from y r (Suc m) k) < r \<and>
        r \<le> days_before_month y (month_from y r (Suc m) k + 1)"
      using Suc.prems by (intro Suc.IH) (simp_all add: algebra_simps)
    then show ?thesis using False by simp
  qed
qed

lemma month_unique:
  assumes "days_before_month y m < r" "r \<le> days_before_month y (m + 1)" "1 \<le> m"
    and "days_before_month y k < r" "r \<le> days_before_month y (k + 1)" "1 \<le> k"
  shows "m = k"
proof (rule ccontr)
  assume "m \<noteq> k"
  then consider "m + 1 \<le> k" | "k + 1 \<le> m" by linarith
  then show False
    using days_before_month_mono [of "m + 1" k y] days_before_month_mono [of "k + 1" m y] assms
    by cases linarith+
qed

lemma ord_month_correct:
  assumes "1 \<le> n"
  defines "r \<equiv> n - days_before_year (ord_year n)"
  shows "1 \<le> ord_month n" "ord_month n \<le> 12" "days_before_month (ord_year n) (ord_month n) < r"
    "r \<le> days_before_month (ord_year n) (ord_month n + 1)"
proof -
  have "0 < r" "r \<le> days_before_month (ord_year n) 13"
    using ord_year_correct [OF assms(1)] days_before_year_next [of "ord_year n"]
    by (simp_all add: r_def days_before_month_13)
  then show "1 \<le> ord_month n" "ord_month n \<le> 12" "days_before_month (ord_year n) (ord_month n) < r"
    "r \<le> days_before_month (ord_year n) (ord_month n + 1)"
    using month_from_correct [of "ord_year n" 1 r 11] unfolding ord_month_def r_def by simp_all
qed

lemma toordinal_ord_date [simp]: "toordinal (ord_date n) = n"
  by (simp add: toordinal_def ord_date_def ymd_ordinal_def Let_def)

lemma ord_date_ymd:
  assumes "1 \<le> y" "1 \<le> m" "m \<le> 12" "1 \<le> d" "d \<le> days_in_month y m"
  shows "ord_date (ymd_ordinal y m d) = \<lparr>d_year = y, d_month = m, d_day = d\<rparr>" "1 \<le> ymd_ordinal y m d"
proof -
  let ?n = "ymd_ordinal y m d"
  have nn: "0 \<le> days_before_year y" using days_before_year_mono [of 1 y] assms(1) by (simp add: days_before_year_def)
  have mm: "0 \<le> days_before_month y m" using days_before_month_mono [of 1 m y] assms(2) by simp
  show n1: "1 \<le> ?n" using nn mm assms(4) by (simp add: ymd_ordinal_def)
  have r: "days_before_month y m < ?n - days_before_year y" "?n - days_before_year y \<le> days_before_month y (m + 1)"
    using assms(4,5) days_before_month_next [OF assms(2), of y] by (simp_all add: ymd_ordinal_def)
  have "days_before_month y (m + 1) \<le> days_before_month y 13"
    using assms(2,3) by (intro days_before_month_mono) simp_all
  then have "days_before_year y < ?n" "?n \<le> days_before_year (y + 1)"
    using r mm days_before_year_next [of y] by (simp_all add: days_before_month_13 split: if_splits)
  then have y: "ord_year ?n = y" using year_unique ord_year_correct [OF n1] by blast
  have "ord_month ?n = m"
    using month_unique [of y "ord_month ?n" "?n - days_before_year y" m] ord_month_correct [OF n1] r assms(2)
    unfolding y by blast
  then show "ord_date ?n = \<lparr>d_year = y, d_month = m, d_day = d\<rparr>"
    using y by (simp add: ord_date_def Let_def ymd_ordinal_def)
qed

lemma ord_date_toordinal: "valid_date d \<Longrightarrow> ord_date (toordinal d) = d"
  using ord_date_ymd(1) [of "d_year d" "d_month d" "d_day d"] by (simp add: toordinal_def date_ok_def)

lemma toordinal_range:
  assumes "valid_date d"
  shows "1 \<le> toordinal d" "toordinal d \<le> MAXORDINAL"
proof -
  let ?y = "d_year d" and ?m = "d_month d"
  show "1 \<le> toordinal d"
    using ord_date_ymd(2) [of ?y ?m "d_day d"] assms by (simp add: toordinal_def date_ok_def)
  have "days_before_month ?y (?m + 1) \<le> days_before_month ?y 13"
    using assms by (intro days_before_month_mono) (simp_all add: date_ok_def)
  then have "toordinal d \<le> days_before_year (?y + 1)"
    using assms days_before_month_next [of ?m ?y] days_before_year_next [of ?y]
    by (simp add: toordinal_def ymd_ordinal_def date_ok_def days_before_month_13)
  also have "\<dots> \<le> days_before_year 10000"
    using assms by (intro days_before_year_mono) (simp add: date_ok_def)
  finally show "toordinal d \<le> MAXORDINAL" by (simp add: days_before_year_def MAXORDINAL_def)
qed

lemma ord_date_valid:
  assumes "1 \<le> n" "n \<le> MAXORDINAL"
  shows "valid_date (ord_date n)"
proof -
  note m = ord_month_correct [OF assms(1)]
  have "ord_year n \<le> 9999"
  proof (rule ccontr)
    assume "\<not> ord_year n \<le> 9999"
    then have "days_before_year 10000 \<le> days_before_year (ord_year n)" by (intro days_before_year_mono) simp
    then show False using ord_year_correct [OF assms(1)] assms(2) by (simp add: days_before_year_def MAXORDINAL_def)
  qed
  then show ?thesis
    using m ord_year_pos [OF assms(1)] days_before_month_next [OF m(1), of "ord_year n"]
    by (simp add: ord_date_def date_ok_def Let_def)
qed

subsection \<open>ISO weeks partition the days\<close>

definition monday :: "int \<Rightarrow> int" where
  "monday n = n - (n - 1) mod 7"

lemma jan1: "ymd_ordinal y 1 1 = days_before_year y + 1"
  by (simp add: ymd_ordinal_def)

lemma jan1_next: "ymd_ordinal (y + 1) 1 1 = ymd_ordinal y 1 1 + (if is_leap y then 366 else 365)"
  by (simp add: jan1 days_before_year_next)

lemma monday_near:
  fixes j :: int
  shows "(if (j + 6) mod 7 > 3 then j - (j + 6) mod 7 + 7 else j - (j + 6) mod 7) = 1 + 7 * ((j + 2) div 7)"
proof -
  define q r where "q = (j + 6) div 7" and "r = (j + 6) mod 7"
  have j: "j + 6 = 7 * q + r" and r: "0 \<le> r" "r < 7"
    using mult_div_mod_eq [of 7 "j + 6"] by (simp_all add: q_def r_def)
  have "(j + 2) div 7 = (if r > 3 then q else q - 1)"
  proof (cases "r > 3")
    case True
    have "j + 2 = 7 * q + (r - 4)" using j by simp
    from int_div_pos_eq [OF this] True r show ?thesis by simp
  next
    case False
    have "j + 2 = 7 * (q - 1) + (r + 3)" using j by simp
    from int_div_pos_eq [OF this] False r show ?thesis by simp
  qed
  then show ?thesis using j unfolding r_def [symmetric] by simp
qed

lemma week1_monday_eq: "iso_week1_monday y = 1 + 7 * ((ymd_ordinal y 1 1 + 2) div 7)"
  unfolding iso_week1_monday_def Let_def by (rule monday_near)

lemma div7_shift: "((j :: int) + 365 + 2) div 7 = (j + 2) div 7 + 52 + (if j mod 7 = 4 then 1 else 0)"
  "(j + 366 + 2) div 7 = (j + 2) div 7 + 52 + (if j mod 7 = 4 \<or> j mod 7 = 3 then 1 else 0)"
proof -
  have d: "7 dvd j + 3 \<longleftrightarrow> j mod 7 = 4" "7 dvd j + 4 \<longleftrightarrow> j mod 7 = 3" by presburger+
  have n: "j + 2 + 1 = j + 3" "j + 3 + 1 = j + 4" by simp_all
  have s: "(j + 3) div 7 = (j + 2) div 7 + (if j mod 7 = 4 then 1 else 0)"
    "(j + 4) div 7 = (j + 3) div 7 + (if j mod 7 = 3 then 1 else 0)"
    using div_Suc_int [of 7 "j + 2", unfolded n] div_Suc_int [of 7 "j + 3", unfolded n]
    unfolding d by (simp_all only: zero_less_numeral simp_thms)
  have n2: "j + 365 + 2 = j + 3 + 52 * 7" "j + 366 + 2 = j + 4 + 52 * 7" by simp_all
  have e: "(j + 365 + 2) div 7 = 52 + (j + 3) div 7" "(j + 366 + 2) div 7 = 52 + (j + 4) div 7"
    unfolding n2 by (rule div_mult_self1, simp)+
  show "(j + 365 + 2) div 7 = (j + 2) div 7 + 52 + (if j mod 7 = 4 then 1 else 0)"
    unfolding e(1) s(1) by simp
  show "(j + 366 + 2) div 7 = (j + 2) div 7 + 52 + (if j mod 7 = 4 \<or> j mod 7 = 3 then 1 else 0)"
    unfolding e(2) s(2) s(1) by simp
qed

lemma week1_monday:
  "ymd_ordinal y 1 1 - 3 \<le> iso_week1_monday y" "iso_week1_monday y \<le> ymd_ordinal y 1 1 + 3"
  "iso_week1_monday (y + 1) = iso_week1_monday y + (if iso_week_ok y 53 then 371 else 364)"
proof -
  define j where "j = ymd_ordinal y 1 1"
  define q r where "q = (j + 2) div 7" and "r = (j + 2) mod 7"
  have j: "j + 2 = 7 * q + r" and r: "0 \<le> r" "r < 7"
    using mult_div_mod_eq [of 7 "j + 2"] by (simp_all add: q_def r_def)
  then show "ymd_ordinal y 1 1 - 3 \<le> iso_week1_monday y" "iso_week1_monday y \<le> ymd_ordinal y 1 1 + 3"
    unfolding week1_monday_eq j_def [symmetric] q_def [symmetric] by simp_all
  have w: "iso_week_ok y 53 \<longleftrightarrow> j mod 7 = 4 \<or> j mod 7 = 3 \<and> is_leap y"
    by (simp add: iso_week_ok_def j_def)
  have "iso_week1_monday (y + 1) = 1 + 7 * ((j + (if is_leap y then 366 else 365) + 2) div 7)"
    unfolding week1_monday_eq jan1_next j_def ..
  also have "\<dots> = 1 + 7 * ((j + 2) div 7) + (if iso_week_ok y 53 then 371 else 364)"
    unfolding w using div7_shift [of j] by (cases "is_leap y") simp_all
  finally show "iso_week1_monday (y + 1) = iso_week1_monday y + (if iso_week_ok y 53 then 371 else 364)"
    unfolding week1_monday_eq j_def .
qed

lemma week1_monday_mono: "y \<le> z \<Longrightarrow> iso_week1_monday y \<le> iso_week1_monday z"
proof -
  assume "y \<le> z"
  have "iso_week1_monday y \<le> iso_week1_monday (y + int k)" for k
  proof (induction k)
    case (Suc k)
    then show ?case using week1_monday(3) [of "y + int k"] by (simp add: algebra_simps split: if_splits)
  qed simp
  from this [of "nat (z - y)"] show ?thesis using \<open>y \<le> z\<close> by simp
qed

lemma iso_year_unique:
  assumes "iso_week1_monday y \<le> n" "n < iso_week1_monday (y + 1)"
    and "iso_week1_monday z \<le> n" "n < iso_week1_monday (z + 1)"
  shows "y = z"
proof (rule ccontr)
  assume "y \<noteq> z"
  then consider "y + 1 \<le> z" | "z + 1 \<le> y" by linarith
  then show False
    using week1_monday_mono [of "y + 1" z] week1_monday_mono [of "z + 1" y] assms by cases linarith+
qed

lemma valid_year_range:
  assumes "valid_date d"
  shows "ymd_ordinal (d_year d) 1 1 \<le> toordinal d" "toordinal d < ymd_ordinal (d_year d + 1) 1 1"
proof -
  let ?y = "d_year d" and ?m = "d_month d"
  have "0 \<le> days_before_month ?y ?m" "days_before_month ?y (?m + 1) \<le> days_before_month ?y 13"
    using assms days_before_month_mono [of 1 ?m ?y] days_before_month_mono [of "?m + 1" 13 ?y]
    by (simp_all add: date_ok_def)
  then show "ymd_ordinal ?y 1 1 \<le> toordinal d" "toordinal d < ymd_ordinal (?y + 1) 1 1"
    using assms days_before_month_next [of ?m ?y]
    by (auto simp: toordinal_def ymd_ordinal_def date_ok_def days_before_month_13 days_before_year_next)
qed

lemma div7_bounds: "(m :: int) div 7 * 7 \<le> m" "m < (m div 7 + 1) * 7"
  using div_mult_mod_eq [of m 7] pos_mod_bound [of 7 m] pos_mod_sign [of 7 m] by (simp_all add: distrib_right)

lemma if_if_cases:
  assumes "(if A then p else if B then q else r) = x"
  obtains (a) "A" "p = x" | (b) "\<not> A" "B" "q = x" | (c) "\<not> A" "\<not> B" "r = x"
  using assms by (cases A; cases B) simp_all

lemma isocalendar_year:
  assumes "valid_date d" and "isocalendar d = (z, w)"
  shows "iso_week1_monday z \<le> toordinal d" "toordinal d < iso_week1_monday (z + 1)"
    "w = (toordinal d - iso_week1_monday z) div 7 + 1"
proof -
  let ?y = "d_year d" and ?n = "toordinal d"
  let ?w = "(?n - iso_week1_monday ?y) div 7"
  note yr = valid_year_range [OF assms(1)]
  have prev: "iso_week1_monday (?y - 1) \<le> ?n"
    using week1_monday(2) [of "?y - 1"] jan1_next [of "?y - 1"] yr(1) by (simp split: if_splits)
  have nxt: "ymd_ordinal (?y + 1) 1 1 \<le> iso_week1_monday (?y + 1) + 3" using week1_monday(1) [of "?y + 1"] by simp
  have neg: "?w < 0 \<longleftrightarrow> ?n < iso_week1_monday ?y"
    using pos_imp_zdiv_neg_iff [of 7 "?n - iso_week1_monday ?y"] by simp
  have "iso_week1_monday z \<le> ?n \<and> ?n < iso_week1_monday (z + 1) \<and>
      w = (?n - iso_week1_monday z) div 7 + 1"
    using assms(2) [unfolded isocalendar_def Let_def]
  proof (cases rule: if_if_cases)
    case a
    then have z: "z = ?y - 1" "w = (?n - iso_week1_monday (?y - 1)) div 7 + 1" by blast+
    show ?thesis using a(1) neg prev unfolding z by simp
  next
    case b
    then have "0 \<le> ?n - iso_week1_monday z" "?n - iso_week1_monday z < 3" using yr(2) nxt by simp_all
    then show ?thesis
      using b week1_monday(3) [of "?y + 1"] by (simp add: div_pos_pos_trivial split: if_splits)
  next
    case c
    have "?n < iso_week1_monday (?y + 1)"
    proof (cases "?n < iso_week1_monday (?y + 1)")
      case False
      with c(2) have w: "?w < 52" by linarith
      have "?n - iso_week1_monday ?y < (?w + 1) * 7" by (rule div7_bounds)
      also have "\<dots> \<le> 52 * 7" using w by (intro mult_right_mono) simp_all
      finally have "?n - iso_week1_monday ?y < 52 * 7" .
      then show ?thesis using week1_monday(3) [of ?y] by (simp split: if_splits)
    qed
    moreover have "z = ?y" "w = ?w + 1" using c(3) by blast+
    ultimately show ?thesis using c(1) neg by simp
  qed
  then show "iso_week1_monday z \<le> ?n" "?n < iso_week1_monday (z + 1)"
    "w = (?n - iso_week1_monday z) div 7 + 1" by simp_all
qed

lemma isocalendar_eq:
  assumes "valid_date d" and "iso_week1_monday z \<le> toordinal d" "toordinal d < iso_week1_monday (z + 1)"
  shows "isocalendar d = (z, (toordinal d - iso_week1_monday z) div 7 + 1)"
proof -
  obtain z' w where i: "isocalendar d = (z', w)" by fastforce
  note c = isocalendar_year [OF assms(1) i]
  with assms(2,3) have "z' = z" using iso_year_unique by blast
  with i c(3) show ?thesis by simp
qed

lemma monday_week:
  assumes "iso_week1_monday z \<le> n" "n < iso_week1_monday (z + 1)"
  defines "w \<equiv> (n - iso_week1_monday z) div 7 + 1"
  shows "iso_week1_monday z + (w - 1) * 7 = monday n" "iso_week_ok z w"
    "iso_week1_monday z \<le> monday n" "monday n < iso_week1_monday (z + 1)"
    "(monday n - iso_week1_monday z) div 7 + 1 = w"
proof -
  define a where "a = iso_week1_monday z"
  define k where "k = (ymd_ordinal z 1 1 + 2) div 7"
  have a: "a = 1 + 7 * k" by (simp add: a_def k_def week1_monday_eq)
  have "(n - a) div 7 = ((n - 1) + (- k) * 7) div 7" by (simp add: a algebra_simps)
  also have "\<dots> = - k + (n - 1) div 7" by (rule div_mult_self1) simp
  finally have "a + (n - a) div 7 * 7 = 1 + (n - 1) div 7 * 7" by (simp add: a)
  also have "\<dots> = monday n" unfolding monday_def by (simp add: minus_mod_eq_div_mult [symmetric])
  finally show m: "iso_week1_monday z + (w - 1) * 7 = monday n" by (simp add: w_def a_def)
  have le: "0 \<le> (n - a) div 7" using assms(1) by (simp add: a_def pos_imp_zdiv_nonneg_iff)
  have "n - a < (if iso_week_ok z 53 then 371 else 364)"
    using assms(2) week1_monday(3) [of z] by (simp add: a_def)
  then have lt: "(n - a) div 7 < (if iso_week_ok z 53 then 53 else 52)"
    using div7_bounds(1) [of "n - a"] by (cases "iso_week_ok z 53") simp_all
  show ok: "iso_week_ok z w"
    using le lt unfolding w_def a_def [symmetric] iso_week_ok_def by (auto split: if_splits)
  show "iso_week1_monday z \<le> monday n" using m le by (simp add: w_def a_def)
  have "monday n \<le> n" by (simp add: monday_def)
  with assms(2) show "monday n < iso_week1_monday (z + 1)" by simp
  show "(monday n - iso_week1_monday z) div 7 + 1 = w" using m by (simp flip: m)
qed

lemma monday_pos:
  "1 \<le> n \<Longrightarrow> 1 \<le> monday n" "monday n \<le> n" "n < monday n + 7" "monday (monday n) = monday n"
proof -
  have m: "0 \<le> (n - 1) mod 7" "(n - 1) mod 7 < 7" by simp_all
  show "monday n \<le> n" "n < monday n + 7" using m by (simp_all add: monday_def)
  show "1 \<le> monday n" if "1 \<le> n"
    using zmod_le_nonneg_dividend [of "n - 1" 7] that by (simp add: monday_def)
  have "monday n - 1 = (n - 1) div 7 * 7"
    unfolding monday_def by (simp add: minus_mod_eq_div_mult [symmetric])
  then show "monday (monday n) = monday n" by (simp add: monday_def [of "monday n"])
qed

lemma iso_year_bounds:
  assumes "valid_date d" and "isocalendar d = (z, w)"
  shows "1 \<le> z" "z \<le> 9999"
proof -
  note c = isocalendar_year [OF assms]
  have w1: "iso_week1_monday 1 = 1" and wmax: "MAXORDINAL < iso_week1_monday 10000"
    by (simp_all add: iso_week1_monday_def jan1 days_before_year_def MAXORDINAL_def)
  show "1 \<le> z"
  proof (rule ccontr)
    assume "\<not> 1 \<le> z"
    then have "iso_week1_monday (z + 1) \<le> iso_week1_monday 1" by (intro week1_monday_mono) simp
    then show False using c(2) w1 toordinal_range(1) [OF assms(1)] by simp
  qed
  show "z \<le> 9999"
  proof (rule ccontr)
    assume "\<not> z \<le> 9999"
    then have "iso_week1_monday 10000 \<le> iso_week1_monday z" by (intro week1_monday_mono) simp
    then show False using c(1) wmax toordinal_range(2) [OF assms(1)] by simp
  qed
qed

subsection \<open>Keys are canonical\<close>

lemma digit_char_val: "n < 10 \<Longrightarrow> digit_val (digit_char n) = int n" "n < 10 \<Longrightarrow> py_isdigit_ascii (digit_char n)"
  by (simp_all add: digit_val_def digit_char_def py_isdigit_ascii_def Let_def)

lemma digits_int_snoc: "digits_int (s @ [c]) = digits_int s * 10 + digit_val c"
  by (simp add: digits_int_def)

lemma dec_digits: "all_digits (dec n)" "dec n \<noteq> []" "digits_int (dec n) = int n"
proof (induction n rule: dec.induct)
  case (1 n)
  { case 1 show ?case using "1.IH"(1) by (cases "n < 10") (auto simp: dec.simps [of n] all_digits_def digit_char_val) }
  { case 2 show ?case by (simp add: dec.simps [of n]) }
  { case 3 show ?case
      using "1.IH"(3)
      by (cases "n < 10") (simp_all add: dec.simps [of n] digits_int_snoc digit_char_val digits_int_def zdiv_int zmod_int) }
qed

lemma length_dec: "n < 10 ^ w \<Longrightarrow> 0 < w \<Longrightarrow> length (dec n) \<le> w"
proof (induction w arbitrary: n)
  case 0
  then show ?case by simp
next
  case (Suc w)
  show ?case
  proof (cases "n < 10")
    case True
    then show ?thesis by (simp add: dec.simps [of n])
  next
    case False
    then have w: "0 < w" using Suc.prems by (cases w) simp_all
    have "n div 10 < 10 ^ w" using Suc.prems by (simp add: less_mult_imp_div_less mult.commute)
    then have "length (dec (n div 10)) \<le> w" using Suc.IH w by simp
    then show ?thesis using False by (simp add: dec.simps [of n])
  qed
qed

lemma digits_int_zeros: "digits_int (replicate k (CHR ''0'') @ s) = digits_int s"
  by (induction k) (simp_all add: digits_int_def digit_val_def)

lemma pad_facts:
  "all_digits (pad w n)" "pad w n \<noteq> []" "digits_int (pad w n) = int n"
  "n < 10 ^ w \<Longrightarrow> 0 < w \<Longrightarrow> length (pad w n) = w"
  using dec_digits [of n] length_dec [of n w]
  by (auto simp: pad_def digits_int_zeros all_digits_def py_isdigit_ascii_def)

lemma int_body_digits:
  "all_digits s \<Longrightarrow> s \<noteq> [] \<or> b \<Longrightarrow> int_body acc b s = Some (foldl (\<lambda>acc c. acc * 10 + digit_val c) acc s)"
  by (induction s arbitrary: acc b) (auto simp: all_digits_def)

lemma digit_not_space: "py_isdigit_ascii c \<Longrightarrow> \<not> py_isspace c"
  by (auto simp: py_isdigit_ascii_def py_isspace_def Let_def)

lemma py_int_digits:
  assumes "all_digits s" "s \<noteq> []"
  shows "py_int s = Some (digits_int s)"
proof -
  have "py_strip s = s"
    using assms by (intro strip_by_id) (auto simp: all_digits_def dest: digit_not_space)
  moreover obtain c cs where s: "s = c # cs" using assms(2) by (cases s) auto
  moreover have "c \<noteq> CHR ''-''" "c \<noteq> CHR ''+''"
    using assms(1) s by (auto simp: all_digits_def py_isdigit_ascii_def)
  ultimately show ?thesis
    using int_body_digits [OF assms(1), of False 0] by (simp add: py_int_def digits_int_def)
qed

lemma pad2: "0 \<le> m \<Longrightarrow> m < 100 \<Longrightarrow> length (pad 2 (nat m)) = 2 \<and> digits_int (pad 2 (nat m)) = m"
  and pad4: "0 \<le> y \<Longrightarrow> y < 10000 \<Longrightarrow> length (pad 4 (nat y)) = 4 \<and> digits_int (pad 4 (nat y)) = y"
  using pad_facts(3) [of 2 "nat m"] pad_facts(4) [of "nat m" 2]
    pad_facts(3) [of 4 "nat y"] pad_facts(4) [of "nat y" 4] by (simp_all add: nat_less_iff)

lemma isoformat_roundtrip:
  assumes "valid_date d"
  shows "fromisoformat (isoformat d) = Inr d" "length (isoformat d) = 10"
proof -
  let ?Y = "pad 4 (nat (d_year d))" and ?M = "pad 2 (nat (d_month d))" and ?D = "pad 2 (nat (d_day d))"
  have "d_day d < 100" using assms days_in_month_pos(2) [of "d_year d" "d_month d"] by (simp add: date_ok_def)
  then have l: "length ?Y = 4" "length ?M = 2" "length ?D = 2" "digits_int ?Y = d_year d"
    "digits_int ?M = d_month d" "digits_int ?D = d_day d"
    using assms pad4 [of "d_year d"] pad2 [of "d_month d"] pad2 [of "d_day d"] by (simp_all add: date_ok_def)
  have s: "isoformat d = ?Y @ CHR ''-'' # ?M @ CHR ''-'' # ?D" by (simp add: isoformat_def)
  show "length (isoformat d) = 10" using l by (simp add: s)
  have dig: "all_digits ?Y" "all_digits ?M" "all_digits ?D" by (rule pad_facts(1))+
  obtain m1 m2 where m: "?M = [m1, m2]" using l(2) by (auto simp: length_Suc_conv numeral_2_eq_2)
  have "m1 \<noteq> CHR ''W''" using dig(2) m by (auto simp: all_digits_def py_isdigit_ascii_def)
  then show "fromisoformat (isoformat d) = Inr d"
    using l dig assms m unfolding s fromisoformat_def Let_def
    by (simp add: nth_append mk_date_def)
qed

text \<open>The first day of the period of a kind that contains a date.\<close>

definition floor_date :: "period_kind \<Rightarrow> date \<Rightarrow> date" where
  "floor_date kind d = (case kind of
      Day \<Rightarrow> d
    | Week \<Rightarrow> ord_date (monday (toordinal d))
    | Month \<Rightarrow> d\<lparr>d_day := 1\<rparr>
    | Year \<Rightarrow> d\<lparr>d_month := 1, d_day := 1\<rparr>)"

lemma floor_date_valid: "valid_date d \<Longrightarrow> valid_date (floor_date kind d)"
  using toordinal_range [of d] monday_pos [of "toordinal d"] days_in_month_pos(1) [of "d_year d"]
    ord_date_valid [of "monday (toordinal d)"]
  by (cases kind) (auto simp: floor_date_def date_ok_def intro: order_trans [of 1 28])

lemma iso_monday:
  assumes "valid_date d" and "isocalendar d = (z, w)"
  shows "isocalendar (ord_date (monday (toordinal d))) = (z, w)"
    "fromisocalendar z w 1 = Inr (ord_date (monday (toordinal d)))"
    "0 < w" "w \<le> 53"
proof -
  let ?n = "toordinal d"
  note c = isocalendar_year [OF assms] and y = iso_year_bounds [OF assms]
  note m = monday_week [OF c(1,2), folded c(3)]
  note r = toordinal_range [OF assms(1)]
  have mr: "1 \<le> monday ?n" "monday ?n \<le> MAXORDINAL" using monday_pos [of ?n] r by simp_all
  show "isocalendar (ord_date (monday ?n)) = (z, w)"
    using isocalendar_eq [OF ord_date_valid [OF mr], of z] m(3-5) by simp
  show "fromisocalendar z w 1 = Inr (ord_date (monday ?n))"
    using y m(1,2) mr by (simp add: fromisocalendar_def Let_def)
  show "0 < w" "w \<le> 53" using m(2) by (auto simp: iso_week_ok_def)
qed

lemma week_key_facts:
  assumes "valid_date d" and "isocalendar d = (z, w)"
  shows "length (week_key z w) = 8" "take 2 (drop 4 (week_key z w)) = ''-W''"
    "parse_key Week (week_key z w) = Inr (ord_date (monday (toordinal d)))" "take 4 (week_key z w) = pad 4 (nat z)"
proof -
  note y = iso_year_bounds [OF assms] and m = iso_monday [OF assms]
  have l: "length (pad 4 (nat z)) = 4" "digits_int (pad 4 (nat z)) = z"
    "length (pad 2 (nat w)) = 2" "digits_int (pad 2 (nat w)) = w"
    using y m(3,4) pad4 [of z] pad2 [of w] by simp_all
  show len: "length (week_key z w) = 8" and w: "take 2 (drop 4 (week_key z w)) = ''-W''"
    and "take 4 (week_key z w) = pad 4 (nat z)"
    using l by (simp_all add: week_key_def)
  show "parse_key Week (week_key z w) = Inr (ord_date (monday (toordinal d)))"
    using len w l m(2) py_int_digits [OF pad_facts(1,2), of 4 "nat z"] py_int_digits [OF pad_facts(1,2), of 2 "nat w"]
    by (simp add: parse_key_def) (simp add: week_key_def)
qed

lemma month_key_facts:
  assumes "1 \<le> y" "y \<le> 9999" "1 \<le> m" "m \<le> 12"
  shows "length (month_key y m) = 7" "take 4 (month_key y m) = pad 4 (nat y)"
    "parse_key Month (month_key y m) = Inr \<lparr>d_year = y, d_month = m, d_day = 1\<rparr>"
proof -
  have l: "length (pad 4 (nat y)) = 4" "digits_int (pad 4 (nat y)) = y"
    "length (pad 2 (nat m)) = 2" "digits_int (pad 2 (nat m)) = m"
    using assms pad4 [of y] pad2 [of m] by simp_all
  show len: "length (month_key y m) = 7" and "take 4 (month_key y m) = pad 4 (nat y)"
    using l by (simp_all add: month_key_def)
  show "parse_key Month (month_key y m) = Inr \<lparr>d_year = y, d_month = m, d_day = 1\<rparr>"
    using len l assms days_in_month_pos(1) [of y m]
      py_int_digits [OF pad_facts(1,2), of 4 "nat y"] py_int_digits [OF pad_facts(1,2), of 2 "nat m"]
    by (simp add: parse_key_def month_key_def nth_append mk_date_def date_ok_def)
qed

lemma year_key_facts:
  assumes "1 \<le> y" "y \<le> 9999"
  shows "length (pad 4 (nat y)) = 4" "parse_key Year (pad 4 (nat y)) = Inr \<lparr>d_year = y, d_month = 1, d_day = 1\<rparr>"
  using assms pad4 [of y] py_int_digits [OF pad_facts(1,2), of 4 "nat y"] days_in_month_pos(1) [of y 1]
  by (simp_all add: parse_key_def mk_date_def date_ok_def)

text \<open>Formatting a date and parsing the key gives the first day of its period.\<close>

lemma parse_format:
  assumes "valid_date d"
  shows "parse_key kind (format_key kind d) = Inr (floor_date kind d)"
    "format_key kind (floor_date kind d) = format_key kind d"
proof -
  obtain z w where i: "isocalendar d = (z, w)" by fastforce
  have ym: "1 \<le> d_year d" "d_year d \<le> 9999" "1 \<le> d_month d" "d_month d \<le> 12"
    using assms by (simp_all add: date_ok_def)
  show "parse_key kind (format_key kind d) = Inr (floor_date kind d)"
    using isoformat_roundtrip(1) [OF assms] week_key_facts(3) [OF assms i] month_key_facts(3) [OF ym]
      year_key_facts(2) [OF ym(1,2)] i
    by (cases kind) (simp_all add: format_key_def floor_date_def parse_key_def [of Day])
  show "format_key kind (floor_date kind d) = format_key kind d"
    using i iso_monday(1) [OF assms i] by (cases kind) (simp_all add: format_key_def floor_date_def)
qed

lemma containing_eq:
  assumes "valid_date d"
  shows "containing d kind = Inr \<lparr>p_kind = kind, p_key = format_key kind d\<rparr>"
proof -
  have "containing d kind = mk_period kind (format_key kind d)"
    by (cases kind) (simp_all add: containing_def format_key_def split: prod.splits)
  also have "\<dots> = Inr \<lparr>p_kind = kind, p_key = format_key kind d\<rparr>"
    using parse_format [OF assms, of kind] by (simp add: mk_period_def)
  finally show ?thesis .
qed

lemma parse_key_valid: "parse_key kind key = Inr d \<Longrightarrow> valid_date d"
proof -
  have mk: "mk_date y m e = Inr d \<Longrightarrow> valid_date d" for y m e
    by (auto simp: mk_date_def split: if_splits)
  have iso: "fromisocalendar y w e = Inr d \<Longrightarrow> valid_date d" for y w e
    using ord_date_valid [of "iso_week1_monday y + (w - 1) * 7 + (e - 1)"]
    by (auto simp: fromisocalendar_def Let_def split: if_splits)
  show "parse_key kind key = Inr d \<Longrightarrow> valid_date d"
    by (cases kind)
       (auto simp: parse_key_def fromisoformat_def Let_def dest: mk iso split: if_splits option.splits prod.splits)
qed

text \<open>A period is the set of days of its kind that share its first day.\<close>

lemma period_start:
  assumes "mk_period kind key = Inr p"
  obtains d where "p_start p = Inr d" "valid_date d" "p_kind p = kind" "p_key p = format_key kind d"
    "floor_date kind d = d"
proof -
  from assms obtain d where d: "parse_key kind key = Inr d" "format_key kind d = key" "p = \<lparr>p_kind = kind, p_key = key\<rparr>"
    by (auto simp: mk_period_def split: sum.splits if_splits)
  have v: "valid_date d" using parse_key_valid [OF d(1)] .
  have "floor_date kind d = d" using parse_format(1) [OF v, of kind] d by simp
  with d v show ?thesis by (intro that) (simp_all add: p_start_def)
qed

subsection \<open>Properties\<close>

text \<open>The number of days of the period that starts at \<open>s\<close>.\<close>

definition period_days :: "period_kind \<Rightarrow> date \<Rightarrow> int" where
  "period_days kind s = (case kind of Day \<Rightarrow> 1 | Week \<Rightarrow> 7
     | Month \<Rightarrow> days_in_month (d_year s) (d_month s)
     | Year \<Rightarrow> (if is_leap (d_year s) then 366 else 365))"

lemma toordinal_inj: "valid_date d \<Longrightarrow> valid_date e \<Longrightarrow> toordinal d = toordinal e \<Longrightarrow> d = e"
  using ord_date_toordinal by metis

lemma monday_unique: "monday s = s \<Longrightarrow> s \<le> n \<Longrightarrow> n < s + 7 \<Longrightarrow> monday n = s"
proof -
  assume s: "monday s = s" "s \<le> n" "n < s + 7"
  then have "(s - 1) mod 7 = 0" by (simp add: monday_def)
  then obtain k where "s - 1 = 7 * k" by blast
  then have "n - 1 = 7 * k + (n - s)" by simp
  from int_mod_pos_eq [OF this] s(2,3) show ?thesis by (simp add: monday_def)
qed

lemma month_range:
  assumes "valid_date d" "valid_date s" "d_day s = 1"
  shows "d_year d = d_year s \<and> d_month d = d_month s \<longleftrightarrow>
     toordinal s \<le> toordinal d \<and> toordinal d < toordinal s + days_in_month (d_year s) (d_month s)"
proof
  assume "d_year d = d_year s \<and> d_month d = d_month s"
  then show "toordinal s \<le> toordinal d \<and> toordinal d < toordinal s + days_in_month (d_year s) (d_month s)"
    using assms by (simp add: toordinal_def ymd_ordinal_def date_ok_def)
next
  assume r: "toordinal s \<le> toordinal d \<and> toordinal d < toordinal s + days_in_month (d_year s) (d_month s)"
  define k where "k = toordinal d - toordinal s + 1"
  have "toordinal d = ymd_ordinal (d_year s) (d_month s) k"
    using assms(3) by (simp add: k_def toordinal_def [of s] ymd_ordinal_def)
  then have "d = \<lparr>d_year = d_year s, d_month = d_month s, d_day = k\<rparr>"
    using ord_date_ymd(1) [of "d_year s" "d_month s" k] ord_date_toordinal [OF assms(1)] r assms(2)
    by (simp add: k_def date_ok_def)
  then show "d_year d = d_year s \<and> d_month d = d_month s" by (metis date.select_convs(1,2))
qed

lemma year_range:
  assumes "valid_date d" "valid_date s" "d_day s = 1" "d_month s = 1"
  shows "d_year d = d_year s \<longleftrightarrow>
     toordinal s \<le> toordinal d \<and> toordinal d < toordinal s + (if is_leap (d_year s) then 366 else 365)"
proof -
  have s: "toordinal s = days_before_year (d_year s) + 1"
    using assms(3,4) by (simp add: toordinal_def ymd_ordinal_def)
  have d: "days_before_year (d_year d) < toordinal d" "toordinal d \<le> days_before_year (d_year d + 1)"
    using valid_year_range [OF assms(1)] by (simp_all add: jan1)
  show ?thesis
  proof
    assume "d_year d = d_year s"
    then show "toordinal s \<le> toordinal d \<and> toordinal d < toordinal s + (if is_leap (d_year s) then 366 else 365)"
      using d s days_before_year_next [of "d_year s"] by simp
  next
    assume "toordinal s \<le> toordinal d \<and> toordinal d < toordinal s + (if is_leap (d_year s) then 366 else 365)"
    then have "days_before_year (d_year s) < toordinal d" "toordinal d \<le> days_before_year (d_year s + 1)"
      using s days_before_year_next [of "d_year s"] by simp_all
    then show "d_year d = d_year s" using year_unique d by blast
  qed
qed

lemma floor_range:
  assumes "valid_date d" "valid_date s" "floor_date kind s = s"
  shows "floor_date kind d = s \<longleftrightarrow> toordinal s \<le> toordinal d \<and> toordinal d < toordinal s + period_days kind s"
proof (cases kind)
  case Day
  then show ?thesis
    using toordinal_inj [OF assms(1,2)] by (auto simp: floor_date_def period_days_def)
next
  case Week
  have m: "monday (toordinal s) = toordinal s"
    using assms(3) Week by (metis floor_date_def period_kind.simps(14) toordinal_ord_date)
  have "floor_date kind d = s \<longleftrightarrow> monday (toordinal d) = toordinal s"
    using Week ord_date_toordinal [OF assms(2)] by (auto simp: floor_date_def)
  also have "\<dots> \<longleftrightarrow> toordinal s \<le> toordinal d \<and> toordinal d < toordinal s + 7"
    using monday_unique [OF m] monday_pos(2,3) [of "toordinal d"] by metis
  finally show ?thesis using Week by (simp add: period_days_def)
next
  case Month
  then have s1: "d_day s = 1" using assms(3) by (metis date.select_convs(3) date.surjective date.update_convs(3) floor_date_def period_kind.simps(15))
  have "floor_date kind d = s \<longleftrightarrow> d_year d = d_year s \<and> d_month d = d_month s"
    using Month s1 by (cases d; cases s) (auto simp: floor_date_def)
  then show ?thesis using month_range [OF assms(1,2) s1] Month by (simp add: period_days_def)
next
  case Year
  then have "s\<lparr>d_month := 1, d_day := 1\<rparr> = s" using assms(3) by (simp add: floor_date_def)
  then have s1: "d_day s = 1" "d_month s = 1" by (cases s; simp)+
  have "floor_date kind d = s \<longleftrightarrow> d_year d = d_year s"
    using Year s1 by (cases d; cases s) (auto simp: floor_date_def)
  then show ?thesis using year_range [OF assms(1,2) s1] Year by (simp add: period_days_def)
qed

lemma containing_floor:
  assumes "valid_date d" "mk_period kind key = Inr p" "p_start p = Inr s"
  shows "containing d kind = Inr p \<longleftrightarrow> floor_date kind d = s"
proof -
  obtain s' where s': "p_start p = Inr s'" "valid_date s'" "p_kind p = kind" "p_key p = format_key kind s'" "floor_date kind s' = s'"
    using period_start [OF assms(2)] by blast
  then have s: "s' = s" using assms(3) by simp
  have "containing d kind = Inr p \<longleftrightarrow> format_key kind d = format_key kind s"
    using containing_eq [OF assms(1), of kind] s' s by (cases p) auto
  also have "\<dots> \<longleftrightarrow> floor_date kind d = s"
    using parse_format [OF assms(1), of kind] parse_format [OF s'(2), of kind] s'(5) s by (metis sum.inject(2))
  finally show ?thesis .
qed

text \<open>C32: periods of one kind partition the calendar. A date lies in a period exactly when it is
  not before the first day of the period and before the first day plus the period's length
  (1 day, 7 days, the days of the month, 365 or 366).\<close>

theorem containing_iff_range:
  assumes "valid_date d" and "mk_period kind key = Inr p" and "p_start p = Inr s"
  shows "containing d kind = Inr p \<longleftrightarrow>
     toordinal s \<le> toordinal d \<and> toordinal d < toordinal s + period_days kind s"
proof -
  obtain s' where "p_start p = Inr s'" "valid_date s'" "floor_date kind s' = s'"
    using period_start [OF assms(2)] by blast
  then have "valid_date s" "floor_date kind s = s" using assms(3) by simp_all
  then show ?thesis
    using containing_floor [OF assms] floor_range [OF assms(1), of s kind] by simp
qed

text \<open>Keys are canonical. The key of any period that can be constructed parses back, by
  \<open>parse_period_key\<close>, to that very period, of the same kind.\<close>

theorem period_key_roundtrip:
  assumes "mk_period kind key = Inr p"
  shows "parse_period_key (p_key p) = Inr p \<and> p_key p = key \<and> p_kind p = kind"
proof -
  obtain d where d: "valid_date d" "p_kind p = kind" "p_key p = format_key kind d"
    using period_start [OF assms] by blast
  have p: "p = \<lparr>p_kind = kind, p_key = key\<rparr>" using assms by (auto simp: mk_period_def split: sum.splits if_splits)
  obtain z w where i: "isocalendar d = (z, w)" by fastforce
  have ym: "1 \<le> d_year d" "d_year d \<le> 9999" "1 \<le> d_month d" "d_month d \<le> 12"
    using d(1) by (simp_all add: date_ok_def)
  have "parse_period_key (format_key kind d) = mk_period kind (format_key kind d)"
    using isoformat_roundtrip(2) [OF d(1)] week_key_facts(1,2) [OF d(1) i] month_key_facts(1) [OF ym]
      year_key_facts(1) [OF ym(1,2)] i
    by (cases kind) (simp_all add: format_key_def parse_period_key_def)
  then show ?thesis using assms d(3) p by simp
qed

lemma day_succ_valid:
  assumes "valid_date s" "0 < toordinal s + k" "toordinal s + k \<le> MAXORDINAL"
  shows "add_days s k = Inr (ord_date (toordinal s + k))" "valid_date (ord_date (toordinal s + k))"
  using assms ord_date_valid [of "toordinal s + k"] by (simp_all add: add_days_def Let_def)

lemma mk_period_format:
  assumes "valid_date d" "floor_date kind d = d"
  shows "mk_period kind (format_key kind d) = Inr \<lparr>p_kind = kind, p_key = format_key kind d\<rparr>"
    "p_start \<lparr>p_kind = kind, p_key = format_key kind d\<rparr> = Inr d"
  using parse_format [OF assms(1), of kind] assms(2) by (simp_all add: mk_period_def p_start_def)

text \<open>The neighbours of a period, in terms of its first day.\<close>

definition period_at :: "period_kind \<Rightarrow> date \<Rightarrow> period" where
  "period_at kind d = \<lparr>p_kind = kind, p_key = format_key kind d\<rparr>"

lemma shift_eq:
  assumes "valid_date s" "floor_date kind s = s" "0 < toordinal s + k" "toordinal s + k \<le> MAXORDINAL"
  shows "shift_containing (period_at kind s) k = Inr (period_at kind (ord_date (toordinal s + k)))"
  using day_succ_valid [OF assms(1,3,4)] mk_period_format(2) [OF assms(1,2)] containing_eq
  by (simp add: shift_containing_def period_at_def)

lemma shift_overflow:
  assumes "valid_date s" "floor_date kind s = s" "MAXORDINAL < toordinal s + k"
  shows "shift_containing (period_at kind s) k = Inl PyOverflowError"
  using mk_period_format(2) [OF assms(1,2)] assms(3)
  by (simp add: shift_containing_def period_at_def add_days_def Let_def)

lemma week_shift: "monday (monday n + 7) = monday n + 7" "monday (monday n - 7) = monday n - 7"
proof -
  have "(monday n - 1) mod 7 = 0" using monday_pos(4) [of n] by (simp add: monday_def)
  then obtain k where k: "monday n - 1 = 7 * k" by blast
  have "monday n + 7 - 1 = 7 * (k + 1)" "monday n - 7 - 1 = 7 * (k - 1)" using k by simp_all
  then show "monday (monday n + 7) = monday n + 7" "monday (monday n - 7) = monday n - 7"
    unfolding monday_def [of "monday n + 7"] monday_def [of "monday n - 7"] by simp_all
qed

text \<open>The first day of the following period.\<close>

definition next_start :: "period_kind \<Rightarrow> date \<Rightarrow> date" where
  "next_start kind s = ord_date (toordinal s + period_days kind s)"

lemma month_succ:
  assumes "valid_date s" "d_day s = 1"
  shows "toordinal s + days_in_month (d_year s) (d_month s) =
     (if d_month s = 12 then ymd_ordinal (d_year s + 1) 1 1 else ymd_ordinal (d_year s) (d_month s + 1) 1)"
proof (cases "d_month s = 12")
  case True
  have "days_before_month (d_year s) 13 = days_before_month (d_year s) 12 + days_in_month (d_year s) 12"
    using days_before_month_next [of 12 "d_year s"] by simp
  then show ?thesis
    using True assms(2) days_before_year_next [of "d_year s"] days_before_month_13 [of "d_year s"]
    by (simp add: toordinal_def ymd_ordinal_def)
next
  case False
  then show ?thesis
    using assms days_before_month_next [of "d_month s" "d_year s"]
    by (simp add: toordinal_def ymd_ordinal_def date_ok_def)
qed

lemma next_start_cases:
  assumes "valid_date s" "floor_date kind s = s" "toordinal s + period_days kind s \<le> MAXORDINAL"
  shows "valid_date (next_start kind s)" "toordinal (next_start kind s) = toordinal s + period_days kind s"
    "floor_date kind (next_start kind s) = next_start kind s"
    "kind = Month \<Longrightarrow> next_start kind s = (if d_month s = 12 then \<lparr>d_year = d_year s + 1, d_month = 1, d_day = 1\<rparr>
        else \<lparr>d_year = d_year s, d_month = d_month s + 1, d_day = 1\<rparr>)"
    "kind = Year \<Longrightarrow> next_start kind s = \<lparr>d_year = d_year s + 1, d_month = 1, d_day = 1\<rparr>"
proof -
  have pos: "0 < period_days kind s"
    using days_in_month_pos(1) [of "d_year s" "d_month s"] by (cases kind) (simp_all add: period_days_def)
  show v: "valid_date (next_start kind s)"
    using ord_date_valid toordinal_range(1) [OF assms(1)] pos assms(3) by (simp add: next_start_def)
  show "toordinal (next_start kind s) = toordinal s + period_days kind s"
    by (simp add: next_start_def)
  have y1: "1 \<le> d_year s" "1 \<le> d_month s" "d_month s \<le> 12" using assms(1) by (simp_all add: date_ok_def)
  show m: "next_start kind s = (if d_month s = 12 then \<lparr>d_year = d_year s + 1, d_month = 1, d_day = 1\<rparr>
        else \<lparr>d_year = d_year s, d_month = d_month s + 1, d_day = 1\<rparr>)" if "kind = Month"
  proof -
    have "d_day s = 1" using assms(2) that by (cases s) (simp add: floor_date_def)
    then show ?thesis
      using that month_succ [OF assms(1)] y1 days_in_month_pos(1) [of "d_year s + 1" 1]
        days_in_month_pos(1) [of "d_year s" "d_month s + 1"]
      by (simp add: next_start_def period_days_def ord_date_ymd(1))
  qed
  show y: "next_start kind s = \<lparr>d_year = d_year s + 1, d_month = 1, d_day = 1\<rparr>" if "kind = Year"
  proof -
    have "s = \<lparr>d_year = d_year s, d_month = 1, d_day = 1\<rparr>"
      using assms(2) that by (cases s) (simp add: floor_date_def)
    then have "toordinal s = ymd_ordinal (d_year s) 1 1" by (metis toordinal_def date.select_convs(1-3))
    then show ?thesis
      using that jan1_next [of "d_year s"] y1 days_in_month_pos(1) [of "d_year s + 1" 1]
        ord_date_ymd(1) [of "d_year s + 1" 1 1]
      by (simp add: next_start_def period_days_def split: if_splits)
  qed
  show "floor_date kind (next_start kind s) = next_start kind s"
  proof (cases kind)
    case Week
    have "monday (toordinal s) = toordinal s"
      using assms(2) Week by (metis floor_date_def period_kind.simps(14) toordinal_ord_date)
    then show ?thesis
      using Week week_shift(1) [of "toordinal s"] by (simp add: floor_date_def next_start_def period_days_def)
  qed (use m y in \<open>simp_all add: floor_date_def\<close>)
qed

lemma next_eq:
  assumes "valid_date s" "floor_date kind s = s" "toordinal s + period_days kind s \<le> MAXORDINAL"
  shows "p_next (period_at kind s) = Inr (period_at kind (next_start kind s))"
proof -
  note n = next_start_cases [OF assms]
  have start: "p_start (period_at kind s) = Inr s"
    using mk_period_format(2) [OF assms(1,2)] by (simp add: period_at_def)
  have k: "p_kind (period_at kind s) = kind" by (simp add: period_at_def)
  have ord: "0 < toordinal s" using toordinal_range(1) [OF assms(1)] by simp
  show ?thesis
  proof (cases kind)
    case Day
    then show ?thesis
      using shift_eq [OF assms(1,2), of 1] ord assms(3) k
      by (simp add: p_next_def next_start_def period_days_def)
  next
    case Week
    then show ?thesis
      using shift_eq [OF assms(1,2), of 7] ord assms(3) k
      by (simp add: p_next_def next_start_def period_days_def)
  next
    case Month
    then show ?thesis
      using start k n(4) mk_period_format(1) [OF n(1,3)]
      by (auto simp: p_next_def period_at_def format_key_def split: if_splits)
  next
    case Year
    then show ?thesis
      using start k n(5) mk_period_format(1) [OF n(1,3)]
      by (auto simp: p_next_def period_at_def format_key_def)
  qed
qed

lemma prev_eq:
  assumes "valid_date s" "floor_date kind s = s" "toordinal s + period_days kind s \<le> MAXORDINAL"
  shows "p_prev (period_at kind (next_start kind s)) = Inr (period_at kind s)"
proof -
  note n = next_start_cases [OF assms]
  have start: "p_start (period_at kind (next_start kind s)) = Inr (next_start kind s)"
    using mk_period_format(2) [OF n(1,3)] by (simp add: period_at_def)
  have k: "p_kind (period_at kind (next_start kind s)) = kind" by (simp add: period_at_def)
  have ord: "0 < toordinal s" "toordinal s \<le> MAXORDINAL" using toordinal_range [OF assms(1)] by simp_all
  show ?thesis
  proof (cases kind)
    case Day
    then show ?thesis
      using shift_eq [OF n(1,3), of "- 1"] ord n(2) k ord_date_toordinal [OF assms(1)]
      by (simp add: p_prev_def period_days_def)
  next
    case Week
    then show ?thesis
      using shift_eq [OF n(1,3), of "- 7"] ord n(2) k ord_date_toordinal [OF assms(1)]
      by (simp add: p_prev_def period_days_def)
  next
    case Month
    have s: "s = \<lparr>d_year = d_year s, d_month = d_month s, d_day = 1\<rparr>"
      using assms(2) Month by (cases s) (simp add: floor_date_def)
    show ?thesis
      using Month start k n(4) mk_period_format(1) [OF assms(1,2)] assms(1)
      by (auto simp: p_prev_def period_at_def format_key_def date_ok_def split: if_splits)
  next
    case Year
    then show ?thesis
      using start k n(5) mk_period_format(1) [OF assms(1,2)]
      by (auto simp: p_prev_def period_at_def format_key_def)
  qed
qed

lemma ymd_in_range:
  assumes "1 \<le> y" "y \<le> 9999" "1 \<le> m" "m \<le> 12"
  shows "ymd_ordinal y m 1 \<le> MAXORDINAL"
  using toordinal_range(2) [of "\<lparr>d_year = y, d_month = m, d_day = 1\<rparr>"] assms days_in_month_pos(1) [of y m]
  by (simp add: toordinal_def date_ok_def)

lemma year_10000_raises: "mk_period Year (pad 4 10000) = Inl PyValueError" "mk_period Month (month_key 10000 1) = Inl PyValueError"
proof -
  show "mk_period Year (pad 4 10000) = Inl PyValueError"
    using py_int_digits [OF pad_facts(1,2), of 4 10000] pad_facts(3) [of 4 10000]
    by (simp add: mk_period_def parse_key_def mk_date_def date_ok_def)
  have "length (pad 4 10000) = 5" by (simp add: pad_def dec.simps)
  then show "mk_period Month (month_key 10000 1) = Inl PyValueError"
    using pad_facts(4) [of 1 2] by (simp add: mk_period_def parse_key_def month_key_def)
qed

lemma next_end:
  assumes "valid_date s" "floor_date kind s = s" "MAXORDINAL < toordinal s + period_days kind s"
  shows "\<exists>e. p_next (period_at kind s) = Inl e"
proof -
  have start: "p_start (period_at kind s) = Inr s"
    using mk_period_format(2) [OF assms(1,2)] by (simp add: period_at_def)
  have k: "p_kind (period_at kind s) = kind" by (simp add: period_at_def)
  have y1: "1 \<le> d_year s" "d_year s \<le> 9999" "1 \<le> d_month s" "d_month s \<le> 12"
    using assms(1) by (simp_all add: date_ok_def)
  show ?thesis
  proof (cases kind)
    case Day
    then show ?thesis
      using shift_overflow [OF assms(1,2), of 1] assms(3) k by (simp add: p_next_def period_days_def)
  next
    case Week
    then show ?thesis
      using shift_overflow [OF assms(1,2), of 7] assms(3) k by (simp add: p_next_def period_days_def)
  next
    case Month
    then have "d_day s = 1" using assms(2) by (cases s) (simp add: floor_date_def)
    then have m: "MAXORDINAL < (if d_month s = 12 then ymd_ordinal (d_year s + 1) 1 1
        else ymd_ordinal (d_year s) (d_month s + 1) 1)"
      using month_succ [OF assms(1)] assms(3) Month by (simp add: period_days_def)
    then have "d_month s = 12"
      using y1 ymd_in_range [of "d_year s" "d_month s + 1"] by (simp split: if_splits)
    moreover have "d_year s = 9999"
      using m \<open>d_month s = 12\<close> y1 ymd_in_range [of "d_year s + 1" 1] by (cases "d_year s = 9999") simp_all
    ultimately have "d_month s = 12 \<and> d_year s = 9999" ..
    then show ?thesis
      using Month start k year_10000_raises(2) by (simp add: p_next_def)
  next
    case Year
    then have "s = \<lparr>d_year = d_year s, d_month = 1, d_day = 1\<rparr>"
      using assms(2) by (cases s) (simp add: floor_date_def)
    then have "toordinal s = ymd_ordinal (d_year s) 1 1" by (metis toordinal_def date.select_convs(1-3))
    then have "MAXORDINAL < ymd_ordinal (d_year s + 1) 1 1"
      using jan1_next [of "d_year s"] assms(3) Year by (simp add: period_days_def)
    then have "d_year s = 9999"
      using y1 ymd_in_range [of "d_year s + 1" 1] by (cases "d_year s = 9999") simp_all
    then show ?thesis
      using Year start k year_10000_raises(1) by (simp add: p_next_def)
  qed
qed

text \<open>Stepping. As long as the calendar lasts, the next period starts on the day after the
  last day of this one, and stepping back from it returns here; at the end of the calendar the
  step raises.\<close>

theorem next_prev_inverse:
  assumes "mk_period kind key = Inr p" and "p_start p = Inr s"
  shows "if toordinal s + period_days kind s \<le> MAXORDINAL
     then \<exists>q s'. p_next p = Inr q \<and> p_start q = Inr s' \<and>
       toordinal s' = toordinal s + period_days kind s \<and> p_prev q = Inr p
     else \<exists>e. p_next p = Inl e"
proof -
  obtain s' where "p_start p = Inr s'" "valid_date s'" "p_kind p = kind" "p_key p = format_key kind s'" "floor_date kind s' = s'"
    using period_start [OF assms(1)] by blast
  then have s: "valid_date s" "floor_date kind s = s" "p = period_at kind s"
    using assms(2) by (simp_all add: period_at_def)
  show ?thesis
  proof (cases "toordinal s + period_days kind s \<le> MAXORDINAL")
    case True
    note n = next_start_cases [OF s(1,2) True]
    show ?thesis
      using next_eq [OF s(1,2) True] prev_eq [OF s(1,2) True] n(2) mk_period_format(2) [OF n(1,3)] s(3) True
      by (auto simp: period_at_def)
  next
    case False
    then show ?thesis using next_end [OF s(1,2)] s(3) by simp
  qed
qed

text \<open>Containment of a day. For every kind, a period contains a day in the sense of
  \<open>contains\<close> exactly when it is the period of its kind that contains the date.\<close>

theorem contains_day_correct:
  assumes "mk_period kind key = Inr p" and "mk_period Day dkey = Inr q" and "p_start q = Inr d"
  shows "p_contains p q = Inr (containing d kind = Inr p)"
proof -
  obtain s where s: "p_start p = Inr s" "valid_date s" "p_kind p = kind" "p_key p = format_key kind s"
    using period_start [OF assms(1)] by blast
  obtain d' where "p_start q = Inr d'" "valid_date d'" "p_kind q = Day" "p_key q = format_key Day d'"
    using period_start [OF assms(2)] by blast
  then have d: "valid_date d" "p_kind q = Day" "p_key q = isoformat d"
    using assms(3) by (simp_all add: format_key_def)
  have k: "containing d kind = Inr p \<longleftrightarrow> format_key kind d = p_key p" for kind'
    using containing_eq [OF d(1), of kind] s(3) by (cases p) auto
  have len: "length (pad 4 (nat (d_year d))) = 4" "length (pad 2 (nat (d_month d))) = 2"
    using d(1) pad4 [of "d_year d"] pad2 [of "d_month d"] by (simp_all add: date_ok_def)
  have pre: "take 7 (isoformat d) = month_key (d_year d) (d_month d)" "take 4 (isoformat d) = pad 4 (nat (d_year d))"
    using len by (simp_all add: isoformat_def month_key_def)
  show ?thesis
  proof (cases kind)
    case Day
    then show ?thesis using k d s(3) by (cases p; cases q) (auto simp: p_contains_def format_key_def)
  next
    case Week
    then show ?thesis
      using s(3) d assms(3) containing_eq [OF d(1), of Week] by (auto simp: p_contains_def)
  next
    case Month
    then show ?thesis using k s(3) d pre by (auto simp: p_contains_def format_key_def)
  next
    case Year
    then show ?thesis using k s(3) d pre by (auto simp: p_contains_def format_key_def)
  qed
qed

subsection \<open>The theorems at concrete periods\<close>

definition ex_week :: period where
  "ex_week = \<lparr>p_kind = Week, p_key = ''2026-W53''\<rparr>"

definition ex_monday :: date where
  "ex_monday = \<lparr>d_year = 2026, d_month = 12, d_day = 28\<rparr>"

lemma ex_valid: "valid_date ex_monday" "valid_date \<lparr>d_year = 2027, d_month = 1, d_day = 3\<rparr>"
  by (simp_all add: ex_monday_def date_ok_def days_in_month_def)

lemma ex_week_start: "p_start ex_week = Inr ex_monday"
  by (simp add: ex_week_def ex_monday_def) code_simp

lemma ex_week_format: "format_key Week ex_monday = ''2026-W53''"
    "format_key Week \<lparr>d_year = 2027, d_month = 1, d_day = 3\<rparr> = ''2026-W53''"
proof -
  have w: "iso_week1_monday 2026 = 739614" "iso_week1_monday (2026 + 1) = 739985"
    by (simp_all add: iso_week1_monday_def jan1 days_before_year_def)
  have t: "toordinal ex_monday = 739978" "toordinal \<lparr>d_year = 2027, d_month = 1, d_day = 3\<rparr> = 739984"
    by (simp_all add: ex_monday_def) code_simp+
  have "isocalendar ex_monday = (2026, 53)" "isocalendar \<lparr>d_year = 2027, d_month = 1, d_day = 3\<rparr> = (2026, 53)"
    using isocalendar_eq [OF ex_valid(1), of 2026] isocalendar_eq [OF ex_valid(2), of 2026] w t by simp_all
  then show "format_key Week ex_monday = ''2026-W53''"
    "format_key Week \<lparr>d_year = 2027, d_month = 1, d_day = 3\<rparr> = ''2026-W53''"
    by (simp_all add: format_key_def week_key_def pad_def dec.simps digit_char_def) code_simp+
qed

lemma ex_week_ok: "mk_period Week ''2026-W53'' = Inr ex_week"
  using ex_week_start ex_week_format(1) by (simp add: ex_week_def p_start_def mk_period_def)

theorem containing_iff_range_witness:
  "containing \<lparr>d_year = 2027, d_month = 1, d_day = 3\<rparr> Week = Inr ex_week"
proof -
  have "toordinal ex_monday = 739978" "toordinal \<lparr>d_year = 2027, d_month = 1, d_day = 3\<rparr> = 739984"
    by (simp_all add: ex_monday_def) code_simp+
  then show ?thesis
    using containing_iff_range [OF ex_valid(2) ex_week_ok ex_week_start] by (simp add: period_days_def)
qed

theorem period_key_roundtrip_witness: "parse_period_key ''2026-W53'' = Inr ex_week"
  using period_key_roundtrip [OF ex_week_ok] by metis

theorem next_prev_inverse_witness:
  "\<exists>q. p_next ex_week = Inr q \<and> p_prev q = Inr ex_week"
proof -
  have "toordinal ex_monday + period_days Week ex_monday \<le> MAXORDINAL"
    by (simp add: ex_monday_def) code_simp
  then show ?thesis using next_prev_inverse [OF ex_week_ok ex_week_start] by auto
qed

theorem contains_day_correct_witness:
  "\<exists>q. mk_period Day ''2027-01-03'' = Inr q \<and> p_contains ex_week q = Inr True"
proof -
  let ?q = "\<lparr>p_kind = Day, p_key = ''2027-01-03''\<rparr>"
  have "format_key Day \<lparr>d_year = 2027, d_month = 1, d_day = 3\<rparr> = ''2027-01-03''"
    by (simp add: format_key_def isoformat_def pad_def dec.simps digit_char_def) code_simp
  then have q: "mk_period Day ''2027-01-03'' = Inr ?q" "p_start ?q = Inr \<lparr>d_year = 2027, d_month = 1, d_day = 3\<rparr>"
    using mk_period_format [OF ex_valid(2), of Day] by (simp_all add: floor_date_def)
  have "containing \<lparr>d_year = 2027, d_month = 1, d_day = 3\<rparr> Week = Inr ex_week"
    using containing_eq [OF ex_valid(2), of Week] ex_week_format(2) by (simp add: ex_week_def)
  with contains_day_correct [OF ex_week_ok q] q show ?thesis by simp
qed

end
