(* ===== verification/Paths.thy ===== *)
theory Paths
  imports Periods
begin

section \<open>Workspace paths and folders\<close>

text \<open>
  Models the path half of \<open>workspace.py\<close>: file names made from titles, folder
  normalization, the location of a note's file and the pruning of empty directories. The
  operations of \<open>pathlib\<close> are those on POSIX pure paths; the file tree of a workspace is
  the list of its directories and files, each the list of its segments below the workspace
  root. Symbolic links are not modelled (\<open>resolve\<close> is the identity), nor are I/O errors.
\<close>

subsection \<open>File names\<close>

definition windows_forbidden :: "char \<Rightarrow> bool" where
  "windows_forbidden c \<longleftrightarrow> code_point c < 32 \<or> code_point c \<in> {34, 42, 47, 58, 60, 62, 63, 92, 124}"

definition ascii_upper :: "char \<Rightarrow> char" where
  "ascii_upper c = (let n = code_point c in if 97 \<le> n \<and> n \<le> 122 then char_of (n - 32) else c)"

definition windows_reserved :: "string \<Rightarrow> bool" where
  "windows_reserved s = (let u = map ascii_upper s in
     u \<in> {''CON'', ''PRN'', ''AUX'', ''NUL''} \<or>
     length u = 4 \<and> take 3 u \<in> {''COM'', ''LPT''} \<and> 49 \<le> code_point (u ! 3) \<and> code_point (u ! 3) \<le> 57)"

text \<open>\<open>re.sub(r" +", " ", s)\<close>.\<close>

fun squeeze_spaces :: "string \<Rightarrow> string" where
  "squeeze_spaces [] = []"
| "squeeze_spaces [c] = [c]"
| "squeeze_spaces (c # d # s) =
     (if c = CHR '' '' \<and> d = CHR '' '' then squeeze_spaces (d # s) else c # squeeze_spaces (d # s))"

definition dot_or_space :: "char \<Rightarrow> bool" where
  "dot_or_space c \<longleftrightarrow> c = CHR ''.'' \<or> c = CHR '' ''"

definition title_to_windows_filename :: "string \<Rightarrow> string" where
  "title_to_windows_filename title =
     (let r1 = map (\<lambda>c. if windows_forbidden c then CHR '' '' else c) title;
          r2 = squeeze_spaces r1;
          r3 = rstrip_by dot_or_space (py_strip r2);
          r4 = (if windows_reserved r3 then CHR ''_'' # r3 else r3);
          r5 = (if r4 = [] then ''untitled'' else r4)
      in take 200 r5)"

subsection \<open>Folders\<close>

datatype path_error = FolderValueError | InvalidFolderError

definition path_segments :: "string \<Rightarrow> string list" where
  "path_segments path = filter (\<lambda>s. s \<noteq> []) (split_on (CHR ''/'') path)"

definition normalize_folder :: "string \<Rightarrow> path_error + string" where
  "normalize_folder folder =
     (let parts = path_segments (py_strip folder)
      in if ''..'' \<in> set parts then Inl FolderValueError
         else Inr (join ''/'' (map title_to_windows_filename parts)))"

definition folder_scope :: "string option \<Rightarrow> path_error + string option" where
  "folder_scope folder = (case folder of
      None \<Rightarrow> Inr None
    | Some f \<Rightarrow> (case normalize_folder f of
        Inl e \<Rightarrow> Inl InvalidFolderError
      | Inr n \<Rightarrow> Inr (if n = [] then None else Some n)))"

subsection \<open>Pure paths\<close>

text \<open>\<open>pathlib.PurePosixPath\<close>: a root (empty, one slash, or exactly two) and the parts;
  empty and \<open>.\<close> segments are dropped, \<open>..\<close> is kept.\<close>

record pure_path =
  pp_root :: string
  pp_parts :: "string list"

definition path_part :: "string \<Rightarrow> bool" where
  "path_part s \<longleftrightarrow> s \<noteq> [] \<and> s \<noteq> ''.''"

definition py_path :: "string \<Rightarrow> pure_path" where
  "py_path s =
     \<lparr>pp_root = (if prefix ''//'' s \<and> \<not> prefix ''///'' s then ''//'' else if prefix ''/'' s then ''/'' else []),
      pp_parts = filter path_part (split_on (CHR ''/'') s)\<rparr>"

definition path_str :: "pure_path \<Rightarrow> string" where
  "path_str p = (let s = pp_root p @ join ''/'' (pp_parts p) in if s = [] then ''.'' else s)"

definition path_join :: "pure_path \<Rightarrow> string \<Rightarrow> pure_path" where
  "path_join p s = (let q = py_path s in
     if pp_root q \<noteq> [] then q else p\<lparr>pp_parts := pp_parts p @ pp_parts q\<rparr>)"

definition path_parent :: "pure_path \<Rightarrow> pure_path" where
  "path_parent p = p\<lparr>pp_parts := butlast (pp_parts p)\<rparr>"

text \<open>\<open>p.relative_to(base).parts\<close>; \<^const>\<open>None\<close> is the \<open>ValueError\<close>.\<close>

definition relative_parts :: "pure_path \<Rightarrow> pure_path \<Rightarrow> string list option" where
  "relative_parts base p =
     (if pp_root base = pp_root p \<and> prefix (pp_parts base) (pp_parts p)
      then Some (drop (length (pp_parts base)) (pp_parts p)) else None)"

definition workspace_path :: "string \<Rightarrow> string \<Rightarrow> string \<Rightarrow> string" where
  "workspace_path name base user_id = path_str (path_join (path_join (py_path base) user_id) name)"

definition note_filepath :: "string \<Rightarrow> string \<Rightarrow> string \<Rightarrow> string" where
  "note_filepath ws_path folder title =
     path_str (foldl path_join (py_path ws_path)
       (path_segments folder @ [title_to_windows_filename title @ ''.md'']))"

definition relative_folder :: "string \<Rightarrow> pure_path \<Rightarrow> string option" where
  "relative_folder ws directory = map_option (join ''/'') (relative_parts (py_path ws) directory)"

definition note_folder :: "string \<Rightarrow> string \<Rightarrow> string option" where
  "note_folder ws_path path = relative_folder ws_path (path_parent (py_path path))"

text \<open>The name check of \<open>create_workspace\<close>: \<open>re.match\<close> with \<open>$\<close>, which also matches before
  a final newline.\<close>

definition ws_name_start :: "char \<Rightarrow> bool" where
  "ws_name_start c = (let n = code_point c in
     48 \<le> n \<and> n \<le> 57 \<or> 65 \<le> n \<and> n \<le> 90 \<or> 97 \<le> n \<and> n \<le> 122)"

definition ws_name_char :: "char \<Rightarrow> bool" where
  "ws_name_char c \<longleftrightarrow> ws_name_start c \<or> c = CHR ''_'' \<or> c = CHR ''-''"

definition ws_name_body :: "string \<Rightarrow> bool" where
  "ws_name_body s \<longleftrightarrow> s \<noteq> [] \<and> ws_name_start (hd s) \<and> (\<forall>c\<in>set (tl s). ws_name_char c) \<and> length s \<le> 50"

definition workspace_name_matches :: "string \<Rightarrow> bool" where
  "workspace_name_matches name \<longleftrightarrow>
     ws_name_body name \<or> name \<noteq> [] \<and> last name = CHR 0x0A \<and> ws_name_body (butlast name)"

datatype create_error = InvalidName | WorkspaceExists

text \<open>\<open>create_workspace\<close>: \<open>exists\<close> tells which paths exist; the new path is returned.\<close>

definition create_workspace :: "(string \<Rightarrow> bool) \<Rightarrow> string \<Rightarrow> string \<Rightarrow> string \<Rightarrow> create_error + string" where
  "create_workspace exists name base user_id =
     (if \<not> workspace_name_matches name then Inl InvalidName
      else let p = workspace_path name base user_id
           in if exists p then Inl WorkspaceExists else Inr p)"

subsection \<open>The file tree\<close>

record file_tree =
  ft_dirs :: "string list list"
  ft_files :: "string list list"

definition ft_entries :: "file_tree \<Rightarrow> string list list" where
  "ft_entries t = ft_dirs t @ ft_files t"

definition child_of :: "string list \<Rightarrow> string list \<Rightarrow> bool" where
  "child_of p q \<longleftrightarrow> q \<noteq> [] \<and> butlast q = p"

definition is_empty_dir :: "file_tree \<Rightarrow> string list \<Rightarrow> bool" where
  "is_empty_dir t p \<longleftrightarrow> p \<in> set (ft_dirs t) \<and> (\<forall>q\<in>set (ft_entries t). \<not> child_of p q)"

definition ft_rmdir :: "string list \<Rightarrow> file_tree \<Rightarrow> file_tree" where
  "ft_rmdir p t = t\<lparr>ft_dirs := filter (\<lambda>q. q \<noteq> p) (ft_dirs t)\<rparr>"

definition hidden_path :: "string list \<Rightarrow> bool" where
  "hidden_path p \<longleftrightarrow> (\<exists>s\<in>set p. prefix ''.'' s)"

definition list_workspace_folders :: "file_tree \<Rightarrow> string list" where
  "list_workspace_folders t =
     (if [] \<notin> set (ft_dirs t) then [[]]
      else sort ([] # map (join ''/'') (filter (\<lambda>p. p \<noteq> [] \<and> \<not> hidden_path p) (ft_dirs t))))"

text \<open>The loop of \<open>prune_empty_parents\<close>. An absolute \<open>current\<close> leads out of the tree, where
  nothing is an empty directory of it.\<close>

lemma length_join_filter: "length (join ''/'' (filter P xs)) \<le> length (join ''/'' xs)"
proof (induction xs)
  case (Cons x xs)
  have c: "length (join ''/'' (y # ys)) = length y + (if ys = [] then 0 else Suc (length (join ''/'' ys)))"
    for y :: string and ys by (cases ys) simp_all
  show ?case using Cons by (auto simp: c)
qed simp

lemma parent_shorter:
  assumes "pp_root (py_path s) = []" "CHR ''/'' \<in> set s"
  shows "length (path_str (path_parent (py_path s))) < length s"
proof -
  let ?ps = "pp_parts (py_path s)"
  have ps: "?ps = filter path_part (split_on (CHR ''/'') s)" by (simp add: py_path_def)
  have two: "2 \<le> length s"
    using assms by (cases s rule: remdups_adj.cases) (auto simp: py_path_def split: if_splits)
  show ?thesis
  proof (cases "butlast ?ps = []")
    case True
    then show ?thesis using two assms(1) by (simp add: path_str_def path_parent_def)
  next
    case False
    then have ne: "?ps \<noteq> []" by auto
    have "last ?ps \<in> set ?ps" using ne by simp
    then have "0 < length (last ?ps)" unfolding ps by (auto simp: path_part_def)
    moreover have "length (join ''/'' ?ps) = length (join ''/'' (butlast ?ps)) + 1 + length (last ?ps)"
      using ne False join_append [of "butlast ?ps" "[last ?ps]" "''/''"] by simp
    moreover have "length (join ''/'' ?ps) \<le> length s"
      using length_join_filter [of path_part "split_on (CHR ''/'') s"] by (simp add: ps)
    ultimately have "Suc (length (join ''/'' (butlast ?ps))) < length s" by linarith
    then show ?thesis using two assms(1) by (simp add: path_str_def path_parent_def Let_def)
  qed
qed

function prune_empty_parents :: "file_tree \<Rightarrow> string \<Rightarrow> string list \<times> file_tree" where
  "prune_empty_parents t current =
     (if current = [] then ([], t)
      else let target = py_path current
           in if pp_root target \<noteq> [] \<or> \<not> is_empty_dir t (pp_parts target) then ([], t)
              else let (removed, t') = prune_empty_parents (ft_rmdir (pp_parts target) t)
                         (if CHR ''/'' \<in> set current then path_str (path_parent target) else [])
                   in (current # removed, t'))"
  by pat_completeness auto
termination
  by (relation "measure (\<lambda>(t, current). length current)") (auto simp: parent_shorter)

declare prune_empty_parents.simps [simp del]

text \<open>The loops that remove the empty directories of a list, one after the other.\<close>

fun remove_empty_dirs :: "(string list \<Rightarrow> bool) \<Rightarrow> string list list \<Rightarrow> file_tree \<Rightarrow> string list \<times> file_tree" where
  "remove_empty_dirs skip [] t = ([], t)"
| "remove_empty_dirs skip (p # ps) t =
     (if \<not> skip p \<and> is_empty_dir t p
      then let (removed, t') = remove_empty_dirs skip ps (ft_rmdir p t) in (join ''/'' p # removed, t')
      else remove_empty_dirs skip ps t)"

text \<open>\<open>walk\<close> is the order in which \<open>os.walk(root, topdown=False)\<close> visits the directories.\<close>

definition prune_all_empty_dirs :: "string list list \<Rightarrow> file_tree \<Rightarrow> string list \<times> file_tree" where
  "prune_all_empty_dirs walk t =
     (if [] \<notin> set (ft_dirs t) then ([], t)
      else remove_empty_dirs (\<lambda>p. p = [] \<or> hidden_path p) walk t)"

text \<open>\<open>found\<close> is what \<open>sub.rglob("*")\<close> enumerates, sorted by depth, deepest first; a reverse
  sort in Python keeps the order of equals.\<close>

definition remove_empty_tree :: "string list list \<Rightarrow> file_tree \<Rightarrow> string \<Rightarrow> string list \<times> file_tree" where
  "remove_empty_tree found t folder =
     (let sub = path_segments folder;
          dirs = rev (sort_key length (rev (filter (\<lambda>p. p \<in> set (ft_dirs t)) found)));
          (removed, t1) =
            (if folder \<noteq> [] \<and> sub \<in> set (ft_dirs t) then remove_empty_dirs (\<lambda>_. False) (dirs @ [sub]) t
             else ([], t));
          (more, t2) = prune_empty_parents t1 (if CHR ''/'' \<in> set folder then fst (rpartition (CHR ''/'') folder) else [])
      in (removed @ more, t2))"

subsection \<open>Properties of file names\<close>

lemma squeeze_hd: "s \<noteq> [] \<Longrightarrow> squeeze_spaces s \<noteq> [] \<and> hd (squeeze_spaces s) = hd s"
  by (induction s rule: squeeze_spaces.induct) auto

lemma squeeze_set: "set (squeeze_spaces s) \<subseteq> set s"
  by (induction s rule: squeeze_spaces.induct) auto

lemma double_space_Cons: "sublist ''  '' (c # s) \<longleftrightarrow> c = CHR '' '' \<and> s \<noteq> [] \<and> hd s = CHR '' '' \<or> sublist ''  '' s"
  by (cases s) (auto simp: sublist_Cons_right)

lemma squeeze_no_double: "\<not> sublist ''  '' (squeeze_spaces s)"
  by (induction s rule: squeeze_spaces.induct)
     (use squeeze_hd in \<open>auto simp: double_space_Cons\<close>)

lemma squeeze_id: "\<not> sublist ''  '' s \<Longrightarrow> squeeze_spaces s = s"
  by (induction s rule: squeeze_spaces.induct) (auto simp: double_space_Cons)

lemma lstrip_by_suffix: "suffix (lstrip_by P s) s"
  by (simp add: lstrip_by_def suffix_dropWhile)

lemma strip_by_sublist: "sublist (strip_by P s) s"
  unfolding strip_by_def
  by (meson lstrip_by_suffix prefix_imp_sublist rstrip_by_prefix sublist_order.order_trans suffix_imp_sublist)

text \<open>What the middle stages of \<open>title_to_windows_filename\<close> produce before the final cut.\<close>

definition clean_title :: "string \<Rightarrow> string" where
  "clean_title title = rstrip_by dot_or_space
     (py_strip (squeeze_spaces (map (\<lambda>c. if windows_forbidden c then CHR '' '' else c) title)))"

definition uncut_filename :: "string \<Rightarrow> string" where
  "uncut_filename title = (let r = clean_title title in
     if windows_reserved r then CHR ''_'' # r else if r = [] then ''untitled'' else r)"

lemma reserved_Nil [simp]: "\<not> windows_reserved []"
  by (simp add: windows_reserved_def)

lemma filename_uncut: "title_to_windows_filename t = take 200 (uncut_filename t)"
  by (auto simp: title_to_windows_filename_def uncut_filename_def clean_title_def Let_def)

lemma space_not_forbidden [simp]: "\<not> windows_forbidden CHR '' ''" "\<not> windows_forbidden CHR ''_''"
  by (simp_all add: windows_forbidden_def)

lemma clean_title_facts:
  "\<forall>c\<in>set (clean_title t). \<not> windows_forbidden c"
  "\<not> sublist ''  '' (clean_title t)"
  "clean_title t \<noteq> [] \<Longrightarrow> \<not> py_isspace (hd (clean_title t))"
  "clean_title t \<noteq> [] \<Longrightarrow> \<not> dot_or_space (last (clean_title t))"
proof -
  let ?r1 = "map (\<lambda>c. if windows_forbidden c then CHR '' '' else c) t"
  let ?s = "py_strip (squeeze_spaces ?r1)"
  have "set (clean_title t) \<subseteq> set ?r1"
    unfolding clean_title_def by (meson set_rstrip_by set_strip_by squeeze_set subset_trans)
  then show "\<forall>c\<in>set (clean_title t). \<not> windows_forbidden c" by auto
  have "sublist (clean_title t) (squeeze_spaces ?r1)"
    unfolding clean_title_def
    by (meson prefix_imp_sublist rstrip_by_prefix strip_by_sublist sublist_order.order_trans)
  then show "\<not> sublist ''  '' (clean_title t)"
    using squeeze_no_double sublist_order.order_trans by blast
  show "\<not> dot_or_space (last (clean_title t))" if "clean_title t \<noteq> []"
    using that unfolding clean_title_def by (rule rstrip_by_last)
  show "\<not> py_isspace (hd (clean_title t))" if "clean_title t \<noteq> []"
  proof -
    have "?s \<noteq> []" "hd (clean_title t) = hd ?s"
      using that rstrip_by_hd [of dot_or_space ?s] unfolding clean_title_def by auto
    then show ?thesis using strip_by_hd by metis
  qed
qed

lemma reserved_hd: "windows_reserved s \<Longrightarrow> s \<noteq> [] \<and> hd s \<noteq> CHR ''_''"
  by (cases s) (auto simp: windows_reserved_def ascii_upper_def Let_def)

lemma reserved_length: "windows_reserved s \<Longrightarrow> length s \<le> 4"
  by (auto simp: windows_reserved_def Let_def dest!: arg_cong [where f = length])

lemma dot_space_cases:
  "\<not> py_isspace CHR ''_''" "\<not> py_isspace CHR ''u''" "\<not> dot_or_space CHR ''d''" "\<not> dot_or_space CHR ''_''"
  "py_isspace CHR '' ''" "\<not> py_isspace CHR ''.''"
  by (simp_all add: py_isspace_def dot_or_space_def)

lemma untitled_facts:
  "\<forall>c\<in>set ''untitled''. \<not> windows_forbidden c" "\<not> sublist ''  '' ''untitled''" "\<not> windows_reserved ''untitled''"
  by (simp_all add: windows_forbidden_def double_space_Cons windows_reserved_def)

lemma uncut_facts:
  "uncut_filename t \<noteq> []"
  "\<forall>c\<in>set (uncut_filename t). \<not> windows_forbidden c"
  "\<not> sublist ''  '' (uncut_filename t)"
  "\<not> py_isspace (hd (uncut_filename t))"
  "\<not> dot_or_space (last (uncut_filename t))"
  "\<not> windows_reserved (uncut_filename t)"
proof -
  consider (res) "windows_reserved (clean_title t)" "uncut_filename t = CHR ''_'' # clean_title t"
    | (emp) "uncut_filename t = ''untitled''"
    | (plain) "\<not> windows_reserved (clean_title t)" "clean_title t \<noteq> []" "uncut_filename t = clean_title t"
    by (cases "windows_reserved (clean_title t)"; cases "clean_title t = []")
       (simp_all add: uncut_filename_def)
  then have "uncut_filename t \<noteq> [] \<and> (\<forall>c\<in>set (uncut_filename t). \<not> windows_forbidden c) \<and>
    \<not> sublist ''  '' (uncut_filename t) \<and> \<not> py_isspace (hd (uncut_filename t)) \<and>
    \<not> dot_or_space (last (uncut_filename t)) \<and> \<not> windows_reserved (uncut_filename t)"
  proof cases
    case res
    then have "clean_title t \<noteq> []" by auto
    moreover have "\<not> windows_reserved (CHR ''_'' # clean_title t)"
      using reserved_hd by fastforce
    ultimately show ?thesis
      using res(2) clean_title_facts [of t] by (auto simp: double_space_Cons dot_space_cases)
  next
    case emp
    then show ?thesis using untitled_facts by (simp add: dot_space_cases)
  next
    case plain
    then show ?thesis using clean_title_facts [of t] by simp
  qed
  then show "uncut_filename t \<noteq> []"
    "\<forall>c\<in>set (uncut_filename t). \<not> windows_forbidden c"
    "\<not> sublist ''  '' (uncut_filename t)"
    "\<not> py_isspace (hd (uncut_filename t))"
    "\<not> dot_or_space (last (uncut_filename t))"
    "\<not> windows_reserved (uncut_filename t)" by blast+
qed

text \<open>The facts about a finished file name that every client uses.\<close>

lemma filename_facts:
  fixes t defines "r \<equiv> title_to_windows_filename t"
  shows "r \<noteq> []" "length r \<le> 200" "\<forall>c\<in>set r. \<not> windows_forbidden c" "\<not> sublist ''  '' r"
    "\<not> py_isspace (hd r)" "\<not> windows_reserved r" "length r < 200 \<Longrightarrow> \<not> dot_or_space (last r)"
proof -
  let ?u = "uncut_filename t"
  have r: "r = take 200 ?u" by (simp add: r_def filename_uncut)
  show "r \<noteq> []" "length r \<le> 200" using uncut_facts(1) by (simp_all add: r)
  show "\<forall>c\<in>set r. \<not> windows_forbidden c" using uncut_facts(2) by (auto simp: r dest: in_set_takeD)
  show "\<not> sublist ''  '' r"
    using uncut_facts(3) [of t] unfolding r
    by (meson prefix_imp_sublist sublist_order.order_trans take_is_prefix)
  show "\<not> py_isspace (hd r)" using uncut_facts(4) by (simp add: r hd_take)
  have short: "r = ?u" if "length r < 200" using that by (simp add: r)
  show "\<not> dot_or_space (last r)" if "length r < 200"
    using short [OF that] uncut_facts(5) by simp
  show "\<not> windows_reserved r"
  proof (cases "length r < 200")
    case True
    then show ?thesis using short uncut_facts(6) by simp
  next
    case False
    then show ?thesis using reserved_length [of r] by force
  qed
qed

lemma filename_no_slash: "CHR ''/'' \<notin> set (title_to_windows_filename t)"
  using filename_facts(3) [of t] by (auto simp: windows_forbidden_def)

lemma filename_not_dots: "title_to_windows_filename t \<noteq> ''.''" "title_to_windows_filename t \<noteq> ''..''"
  using filename_facts(7) [of t] by (auto simp: dot_or_space_def)

text \<open>A second application changes a file name exactly when the cut at 200 characters, or a
  dot behind an exotic space, left something at the end that the first pass strips.\<close>

lemma clean_filename:
  fixes t defines "r \<equiv> title_to_windows_filename t"
  shows "clean_title r = rstrip_by dot_or_space (rstrip_by py_isspace r)"
proof -
  have "map (\<lambda>c. if windows_forbidden c then CHR '' '' else c) r = r"
    using filename_facts(3) [of t] by (simp add: r_def map_idI)
  moreover have "squeeze_spaces r = r"
    using filename_facts(4) [of t] by (simp add: r_def squeeze_id)
  moreover have "lstrip_by py_isspace r = r"
    using filename_facts(5) [of t] by (simp add: r_def lstrip_by_id)
  ultimately show ?thesis by (simp add: clean_title_def strip_by_def)
qed

lemma rstrip_by_shorter: "s \<noteq> [] \<Longrightarrow> P (last s) \<Longrightarrow> length (rstrip_by P s) < length s"
  by (cases s rule: rev_cases) (auto simp: rstrip_by_snoc le_imp_less_Suc)

lemma filename_stable:
  fixes t defines "r \<equiv> title_to_windows_filename t"
  shows "title_to_windows_filename r = r \<longleftrightarrow> \<not> dot_or_space (last r) \<and> \<not> py_isspace (last r)"
proof
  assume "\<not> dot_or_space (last r) \<and> \<not> py_isspace (last r)"
  then have "clean_title r = r"
    using clean_filename [of t] by (simp add: r_def rstrip_by_id)
  then show "title_to_windows_filename r = r"
    using filename_facts(1,2,6) [of t] unfolding filename_uncut [of r] by (simp add: uncut_filename_def r_def)
next
  assume eq: "title_to_windows_filename r = r"
  show "\<not> dot_or_space (last r) \<and> \<not> py_isspace (last r)"
  proof (rule ccontr)
    assume bad: "\<not> ?thesis"
    let ?c = "clean_title r"
    have c: "?c = rstrip_by dot_or_space (rstrip_by py_isspace r)"
      using clean_filename [of t] by (simp add: r_def)
    have r: "r \<noteq> []" "length r \<le> 200" using filename_facts(1,2) [of t] by (simp_all add: r_def)
    have short: "length ?c < length r"
    proof (cases "py_isspace (last r)")
      case True
      have "length ?c \<le> length (py_rstrip r)" by (simp add: c)
      also have "\<dots> < length r" using rstrip_by_shorter [of r py_isspace] r(1) True by simp
      finally show ?thesis .
    next
      case False
      then show ?thesis using bad c r(1) by (simp add: rstrip_by_id rstrip_by_shorter)
    qed
    have pre: "prefix ?c r"
      using c rstrip_by_prefix prefix_order.order_trans by metis
    have u: "uncut_filename r = r"
      using eq short r filename_uncut [of r]
      by (auto simp: uncut_filename_def Let_def split: if_splits)
    consider "windows_reserved ?c" "r = CHR ''_'' # ?c" | "r = ''untitled''" | "r = ?c"
      using u by (auto simp: uncut_filename_def Let_def split: if_splits)
    then show False
    proof cases
      case 1
      then have "?c \<noteq> []" "hd ?c \<noteq> CHR ''_''" using reserved_hd by blast+
      with 1 pre show False by (cases ?c) auto
    next
      case 2
      with bad show False by (simp add: dot_or_space_def py_isspace_def)
    next
      case 3
      with short show False by simp
    qed
  qed
qed

subsection \<open>Properties of folders and note locations\<close>

definition plain_segment :: "string \<Rightarrow> bool" where
  "plain_segment s \<longleftrightarrow> s \<noteq> [] \<and> s \<noteq> ''.'' \<and> CHR ''/'' \<notin> set s"

lemma path_segments_join:
  assumes "\<forall>s\<in>set segs. s \<noteq> [] \<and> CHR ''/'' \<notin> set s"
  shows "path_segments (join ''/'' segs) = segs"
proof (cases "segs = []")
  case True
  then show ?thesis by (simp add: path_segments_def)
next
  case False
  then have "split_on (CHR ''/'') (join ''/'' segs) = segs"
    using assms by (simp add: split_on_join)
  then show ?thesis using assms by (simp add: path_segments_def)
qed

lemma filename_plain: "plain_segment (title_to_windows_filename t)"
  using filename_facts(1) filename_no_slash filename_not_dots by (simp add: plain_segment_def)

lemma normalize_folder_Inr:
  assumes "normalize_folder raw = Inr f"
  shows "path_segments f = map title_to_windows_filename (path_segments (py_strip raw))"
    "f = join ''/'' (path_segments f)"
proof -
  let ?ps = "map title_to_windows_filename (path_segments (py_strip raw))"
  have f: "f = join ''/'' ?ps"
    using assms by (simp add: normalize_folder_def Let_def split: if_splits)
  moreover have "\<forall>s\<in>set ?ps. s \<noteq> [] \<and> CHR ''/'' \<notin> set s"
    using filename_plain by (auto simp: plain_segment_def)
  ultimately show "path_segments f = ?ps" using path_segments_join by blast
  then show "f = join ''/'' (path_segments f)" using f by simp
qed

lemma py_path_seg:
  assumes "plain_segment s"
  shows "py_path s = \<lparr>pp_root = [], pp_parts = [s]\<rparr>"
proof -
  have "\<not> prefix ''/'' s" "\<not> prefix ''//'' s"
    using assms by (auto simp: plain_segment_def prefix_def)
  then show ?thesis using assms by (simp add: py_path_def plain_segment_def path_part_def split_on_free)
qed

lemma path_join_segs:
  assumes "\<forall>s\<in>set segs. plain_segment s"
  shows "foldl path_join p segs = p\<lparr>pp_parts := pp_parts p @ segs\<rparr>"
  using assms by (induction segs arbitrary: p) (simp_all add: path_join_def py_path_seg)

definition wf_path :: "pure_path \<Rightarrow> bool" where
  "wf_path p \<longleftrightarrow> pp_root p \<in> {[], ''/'', ''//''} \<and> (\<forall>s\<in>set (pp_parts p). plain_segment s)"

lemma wf_py_path: "wf_path (py_path s)"
  by (auto simp: wf_path_def py_path_def plain_segment_def path_part_def dest: split_on_no_sep)

lemma split_on_slash_Cons: "split_on c (c # s) = [] # split_on c s"
  by simp

lemma join_not_slash:
  assumes "\<forall>s\<in>set ps. plain_segment s"
  shows "\<not> prefix ''/'' (join ''/'' ps)"
proof (cases ps)
  case (Cons x xs)
  then obtain c x' where "x = c # x'" "c \<noteq> CHR ''/''"
    using assms by (cases x) (auto simp: plain_segment_def)
  then show ?thesis using Cons by (cases xs) auto
qed simp

lemma py_path_str:
  assumes "wf_path p"
  shows "py_path (path_str p) = p"
proof -
  let ?j = "join ''/'' (pp_parts p)"
  have ps: "\<forall>s\<in>set (pp_parts p). plain_segment s" and rt: "pp_root p \<in> {[], ''/'', ''//''}"
    using assms by (simp_all add: wf_path_def)
  have flt: "filter path_part (split_on (CHR ''/'') ?j) = pp_parts p"
  proof (cases "pp_parts p = []")
    case True
    then show ?thesis by (simp add: path_part_def)
  next
    case False
    then show ?thesis
      using ps by (simp add: split_on_join plain_segment_def path_part_def filter_id_conv)
  qed
  have ns: "\<not> prefix ''/'' ?j" using join_not_slash [OF ps] .
  have ns2: "\<not> prefix ''//'' ?j" using ns by (auto simp: prefix_def)
  consider "pp_root p = []" "?j = []" | "pp_root p = []" "?j \<noteq> []" | "pp_root p = ''/''" | "pp_root p = ''//''"
    using rt by auto
  then show ?thesis
  proof cases
    case 1
    have "pp_parts p = []" using 1(2) flt by (simp add: path_part_def)
    then show ?thesis using 1 by (cases p) (simp add: path_str_def py_path_def path_part_def)
  next
    case 2
    then show ?thesis using flt ns ns2 by (cases p) (simp add: path_str_def py_path_def)
  next
    case 3
    then show ?thesis using flt ns by (cases p) (simp add: path_str_def py_path_def path_part_def)
  next
    case 4
    then show ?thesis using flt ns by (cases p) (simp add: path_str_def py_path_def path_part_def)
  qed
qed

lemma filename_md_plain: "plain_segment (title_to_windows_filename t @ ''.md'')"
  using filename_plain [of t] by (simp add: plain_segment_def)

lemma note_path_eq:
  assumes "normalize_folder raw = Inr f"
  shows "py_path (note_filepath ws f t) =
    (py_path ws)\<lparr>pp_parts := pp_parts (py_path ws) @ path_segments f @ [title_to_windows_filename t @ ''.md'']\<rparr>"
proof -
  let ?segs = "path_segments f @ [title_to_windows_filename t @ ''.md'']"
  have "\<forall>s\<in>set ?segs. plain_segment s"
    using normalize_folder_Inr(1) [OF assms] filename_plain filename_md_plain by auto
  then have j: "foldl path_join (py_path ws) ?segs = (py_path ws)\<lparr>pp_parts := pp_parts (py_path ws) @ ?segs\<rparr>"
    and wf: "wf_path ((py_path ws)\<lparr>pp_parts := pp_parts (py_path ws) @ ?segs\<rparr>)"
    using path_join_segs [of ?segs "py_path ws"] wf_py_path [of ws] by (auto simp: wf_path_def simp del: foldl_append)
  show ?thesis
    unfolding note_filepath_def j by (rule py_path_str [OF wf])
qed

text \<open>C34: file names. Whatever the title, the file name is not empty, has at most 200
  characters, none of them forbidden on Windows or a path separator, does not start with a space,
  is not a reserved device name and is neither of the two dot entries.\<close>

theorem filename_valid:
  "title_to_windows_filename t \<noteq> [] \<and> length (title_to_windows_filename t) \<le> 200 \<and>
   set (title_to_windows_filename t) \<inter> {c. windows_forbidden c \<or> c = CHR ''/''} = {} \<and>
   \<not> py_isspace (hd (title_to_windows_filename t)) \<and>
   \<not> windows_reserved (title_to_windows_filename t) \<and>
   title_to_windows_filename t \<noteq> ''.'' \<and> title_to_windows_filename t \<noteq> ''..''"
  using filename_facts [of t] filename_no_slash [of t] filename_not_dots [of t] by blast

text \<open>C33: a note stays inside its workspace. For a folder that passed normalization the note's
  file lies at the workspace path followed by the folder's segments and the file name, none of
  which is empty, a dot entry or contains a separator; and the folder is recovered from the
  path.\<close>

theorem note_location:
  assumes "normalize_folder raw = Inr f"
  shows "py_path (note_filepath ws f t) =
      (py_path ws)\<lparr>pp_parts := pp_parts (py_path ws) @ path_segments f @ [title_to_windows_filename t @ ''.md'']\<rparr>
    \<and> (\<forall>s\<in>set (path_segments f). s \<noteq> [] \<and> s \<noteq> ''.'' \<and> s \<noteq> ''..'' \<and> CHR ''/'' \<notin> set s)
    \<and> note_folder ws (note_filepath ws f t) = Some f"
proof (intro conjI)
  show eq: "py_path (note_filepath ws f t) =
      (py_path ws)\<lparr>pp_parts := pp_parts (py_path ws) @ path_segments f @ [title_to_windows_filename t @ ''.md'']\<rparr>"
    by (rule note_path_eq [OF assms])
  show "\<forall>s\<in>set (path_segments f). s \<noteq> [] \<and> s \<noteq> ''.'' \<and> s \<noteq> ''..'' \<and> CHR ''/'' \<notin> set s"
    using normalize_folder_Inr(1) [OF assms] filename_facts(1) filename_not_dots filename_no_slash by auto
  have "butlast (pp_parts (py_path ws) @ path_segments f @ [title_to_windows_filename t @ ''.md'']) =
      pp_parts (py_path ws) @ path_segments f"
    by (metis append_assoc butlast_snoc)
  then show "note_folder ws (note_filepath ws f t) = Some f"
    using normalize_folder_Inr(2) [OF assms]
    by (simp add: note_folder_def relative_folder_def relative_parts_def path_parent_def eq)
qed

lemma rstrip_by_append: "rstrip_by P t \<noteq> [] \<Longrightarrow> rstrip_by P (s @ t) = s @ rstrip_by P t"
  by (induction t rule: rev_induct) (auto simp: rstrip_by_snoc simp flip: append_assoc)

lemma rstrip_by_ne: "s \<noteq> [] \<Longrightarrow> \<not> P (hd s) \<Longrightarrow> rstrip_by P s \<noteq> []"
  unfolding rstrip_by_def by (metis (no_types) dropWhile_eq_Nil_conv hd_in_set rev_is_Nil_conv set_rev)

lemma rstrip_by_idem: "rstrip_by P (rstrip_by P s) = rstrip_by P s"
  using rstrip_by_id rstrip_by_last by metis

text \<open>Stripping a finished file name first makes no difference to the next pass.\<close>

lemma filename_rstrip:
  fixes t defines "r \<equiv> title_to_windows_filename t"
  shows "title_to_windows_filename (py_rstrip r) = title_to_windows_filename r"
proof -
  let ?r = "py_rstrip r"
  have pre: "prefix ?r r" by (rule rstrip_by_prefix)
  have "map (\<lambda>c. if windows_forbidden c then CHR '' '' else c) ?r = ?r"
    using filename_facts(3) [of t] set_rstrip_by [of py_isspace r] by (auto simp: r_def intro!: map_idI)
  moreover have "squeeze_spaces ?r = ?r"
    using filename_facts(4) [of t] pre unfolding r_def
    by (meson prefix_imp_sublist squeeze_id sublist_order.order_trans)
  moreover have "lstrip_by py_isspace ?r = ?r"
    using filename_facts(1,5) [of t] rstrip_by_hd [of py_isspace r] rstrip_by_ne [of r py_isspace]
    by (simp add: r_def lstrip_by_id)
  ultimately have "clean_title ?r = clean_title r"
    using clean_filename [of t] unfolding clean_title_def strip_by_def by (simp add: r_def rstrip_by_idem)
  then show ?thesis by (simp add: filename_uncut uncut_filename_def)
qed

definition stable_segment :: "string \<Rightarrow> bool" where
  "stable_segment s \<longleftrightarrow> \<not> dot_or_space (last s) \<and> \<not> py_isspace (last s)"

lemma strip_normalized:
  assumes "normalize_folder raw = Inr f" "f \<noteq> []"
  shows "path_segments (py_strip f) = butlast (path_segments f) @ [py_rstrip (last (path_segments f))]"
    "path_segments f \<noteq> []"
proof -
  let ?segs = "path_segments f"
  have f: "f = join ''/'' ?segs" by (rule normalize_folder_Inr(2) [OF assms(1)])
  then show ne: "?segs \<noteq> []" using assms(2) by (metis join.simps(1))
  have seg: "s \<noteq> [] \<and> CHR ''/'' \<notin> set s \<and> \<not> py_isspace (hd s)" if "s \<in> set ?segs" for s
    using that normalize_folder_Inr(1) [OF assms(1)] filename_facts(1,5) filename_no_slash by auto
  have "hd f = hd (hd ?segs)"
    using ne seg f by (cases ?segs rule: remdups_adj.cases) simp_all
  then have "py_strip f = py_rstrip f"
    using seg ne by (simp add: strip_by_def lstrip_by_id)
  also have "\<dots> = join ''/'' (butlast ?segs @ [py_rstrip (last ?segs)])"
  proof (cases "butlast ?segs = []")
    case True
    then have "?segs = [last ?segs]" using ne by (metis append_Nil append_butlast_last_id)
    then show ?thesis using f True by (metis append_Nil join.simps(2))
  next
    case False
    have "f = (join ''/'' (butlast ?segs) @ ''/'') @ last ?segs"
      using f ne False join_append [of "butlast ?segs" "[last ?segs]" "''/''"] by simp
    then have "py_rstrip f = (join ''/'' (butlast ?segs) @ ''/'') @ py_rstrip (last ?segs)"
      using rstrip_by_append rstrip_by_ne seg ne by (metis last_in_set)
    then show ?thesis
      using False join_append [of "butlast ?segs" "[py_rstrip (last ?segs)]" "''/''"] by simp
  qed
  finally have j: "py_strip f = join ''/'' (butlast ?segs @ [py_rstrip (last ?segs)])" .
  have l: "last ?segs \<in> set ?segs" using ne by simp
  have "py_rstrip (last ?segs) \<noteq> [] \<and> CHR ''/'' \<notin> set (py_rstrip (last ?segs))"
    using seg [OF l] set_rstrip_by [of py_isspace "last ?segs"] rstrip_by_ne [of "last ?segs" py_isspace] by blast
  then have "\<forall>s\<in>set (butlast ?segs @ [py_rstrip (last ?segs)]). s \<noteq> [] \<and> CHR ''/'' \<notin> set s"
    using seg by (simp add: in_set_butlastD)
  then show "path_segments (py_strip f) = butlast ?segs @ [py_rstrip (last ?segs)]"
    unfolding j by (rule path_segments_join)
qed

text \<open>Normalization repeated. A folder that was normalized once normalizes to itself exactly
  when no segment ends in a dot or a space, which only the cut at 200 characters (or a dot that
  followed an exotic space) can leave.\<close>

theorem normalize_folder_again:
  assumes "normalize_folder raw = Inr f"
  shows "normalize_folder f = Inr f \<longleftrightarrow> (\<forall>s\<in>set (path_segments f). stable_segment s)"
proof (cases "f = []")
  case True
  then show ?thesis by (simp add: normalize_folder_def path_segments_def)
next
  case False
  let ?segs = "path_segments f" and ?segs' = "path_segments (py_strip f)"
  note strip = strip_normalized [OF assms False]
  have fn: "title_to_windows_filename s = s \<longleftrightarrow> stable_segment s" if "s \<in> set ?segs" for s
    using that normalize_folder_Inr(1) [OF assms] filename_stable by (auto simp: stable_segment_def)
  have tt: "map title_to_windows_filename ?segs' = map title_to_windows_filename ?segs"
  proof -
    obtain t where "last ?segs = title_to_windows_filename t"
      using strip(2) normalize_folder_Inr(1) [OF assms] by (metis last_map map_is_Nil_conv)
    then have "title_to_windows_filename (py_rstrip (last ?segs)) = title_to_windows_filename (last ?segs)"
      using filename_rstrip by simp
    moreover have "map title_to_windows_filename (butlast ?segs @ [last ?segs]) = map title_to_windows_filename ?segs"
      using strip(2) by simp
    ultimately show ?thesis unfolding strip(1) by simp
  qed
  show ?thesis
  proof
    assume "normalize_folder f = Inr f"
    from normalize_folder_Inr(1) [OF this] tt have "map title_to_windows_filename ?segs = ?segs" by simp
    then show "\<forall>s\<in>set ?segs. stable_segment s" using fn by (metis map_eq_conv list.map_ident)
  next
    assume st: "\<forall>s\<in>set ?segs. stable_segment s"
    then have "py_rstrip (last ?segs) = last ?segs"
      using strip(2) by (auto simp: stable_segment_def intro: rstrip_by_id)
    then have same: "?segs' = ?segs" using strip by simp
    have "''..'' \<notin> set ?segs"
      using normalize_folder_Inr(1) [OF assms] by (simp add: image_iff) (metis filename_not_dots(2))
    moreover have "map title_to_windows_filename ?segs = ?segs"
      using st fn by (simp add: map_idI)
    ultimately show "normalize_folder f = Inr f"
      using same normalize_folder_Inr(2) [OF assms] by (simp add: normalize_folder_def)
  qed
qed

subsection \<open>Properties of pruning\<close>

definition wf_tree :: "file_tree \<Rightarrow> bool" where
  "wf_tree t \<longleftrightarrow> distinct (ft_dirs t) \<and> set (ft_dirs t) \<inter> set (ft_files t) = {} \<and>
     (\<forall>e\<in>set (ft_entries t). \<forall>p. strict_prefix p e \<longrightarrow> p \<in> set (ft_dirs t))"

text \<open>A bottom-up order: no directory comes before one that lies below it.\<close>

definition bottom_up :: "string list list \<Rightarrow> bool" where
  "bottom_up ps \<longleftrightarrow> sorted_wrt (\<lambda>p q. \<not> strict_prefix p q) ps"

text \<open>The directories that must stay: the skipped ones and the ancestors of files and of
  skipped directories.\<close>

definition must_stay :: "(string list \<Rightarrow> bool) \<Rightarrow> file_tree \<Rightarrow> string list \<Rightarrow> bool" where
  "must_stay skip t p \<longleftrightarrow> skip p \<or> (\<exists>e. prefix p e \<and> (e \<in> set (ft_files t) \<or> e \<in> set (ft_dirs t) \<and> skip e))"

lemma child_prefix: "child_of p q \<Longrightarrow> strict_prefix p q"
  by (cases q rule: rev_cases) (auto simp: child_of_def strict_prefix_def)

lemma child_towards:
  assumes "strict_prefix p e"
  shows "\<exists>q. child_of p q \<and> prefix q e"
proof -
  obtain x xs where "e = p @ x # xs" using assms by (metis strict_prefixE')
  then have "child_of p (p @ [x])" "prefix (p @ [x]) e" by (simp_all add: child_of_def)
  then show ?thesis by blast
qed

lemma remove_empty_dirs_files: "ft_files (snd (remove_empty_dirs skip ps t)) = ft_files t"
  by (induction skip ps t rule: remove_empty_dirs.induct) (auto simp: ft_rmdir_def split: prod.splits)

lemma empty_iff_not_must_stay:
  assumes wf: "wf_tree t0" and files: "ft_files t = ft_files t0"
    and p: "p \<in> set (ft_dirs t0)" "\<not> skip p" "p \<in> set (ft_dirs t)"
    and below: "\<And>q. q \<in> set (ft_dirs t0) \<Longrightarrow> strict_prefix p q \<Longrightarrow>
      q \<in> set (ft_dirs t) \<longleftrightarrow> must_stay skip t0 q"
    and sub: "set (ft_dirs t) \<subseteq> set (ft_dirs t0)"
  shows "is_empty_dir t p \<longleftrightarrow> \<not> must_stay skip t0 p"
proof
  assume emp: "is_empty_dir t p"
  show "\<not> must_stay skip t0 p"
  proof
    assume "must_stay skip t0 p"
    then obtain e where e: "prefix p e" "e \<in> set (ft_files t0) \<or> e \<in> set (ft_dirs t0) \<and> skip e"
      using p(2) by (auto simp: must_stay_def)
    have "p \<noteq> e" using e(2) p(1,2) wf by (auto simp: wf_tree_def)
    then obtain q where q: "child_of p q" "prefix q e"
      using child_towards [of p e] e(1) by (auto simp: strict_prefix_def)
    have "q \<in> set (ft_entries t)"
    proof (cases "q = e")
      case True
      have "must_stay skip t0 e" if "skip e" using that by (simp add: must_stay_def)
      with True e(2) below [of q] child_prefix [OF q(1)] files show ?thesis
        by (auto simp: ft_entries_def)
    next
      case False
      then have "q \<in> set (ft_dirs t0)"
        using e(2) q(2) wf unfolding wf_tree_def ft_entries_def by (simp add: strict_prefix_def) blast
      moreover have "must_stay skip t0 q" using e(2) q(2) by (auto simp: must_stay_def)
      ultimately show ?thesis using below child_prefix [OF q(1)] by (simp add: ft_entries_def)
    qed
    with emp q(1) show False by (simp add: is_empty_dir_def)
  qed
next
  assume no: "\<not> must_stay skip t0 p"
  have "\<not> child_of p q" if "q \<in> set (ft_entries t)" for q
  proof
    assume c: "child_of p q"
    then have pq: "strict_prefix p q" by (rule child_prefix)
    have "q \<notin> set (ft_files t0)"
      using no pq by (auto simp: must_stay_def strict_prefix_def)
    then have "q \<in> set (ft_dirs t)" using that files by (simp add: ft_entries_def)
    then have "must_stay skip t0 q" using below [OF _ pq] sub by blast
    then have "must_stay skip t0 p"
    proof (unfold must_stay_def, elim disjE exE conjE)
      assume "skip q"
      then show "skip p \<or> (\<exists>e. prefix p e \<and> (e \<in> set (ft_files t0) \<or> e \<in> set (ft_dirs t0) \<and> skip e))"
        using pq \<open>q \<in> set (ft_dirs t)\<close> sub by (auto simp: strict_prefix_def)
    qed (use pq prefix_order.order_trans in \<open>auto simp: strict_prefix_def\<close>)
    with no show False by simp
  qed
  with p(3) show "is_empty_dir t p" by (simp add: is_empty_dir_def)
qed

lemma remove_empty_dirs_exact:
  assumes "wf_tree t0" "ft_files t = ft_files t0" "set (ft_dirs t) \<subseteq> set (ft_dirs t0)"
    and "bottom_up ps" "distinct ps" "set ps \<subseteq> set (ft_dirs t)"
    and "\<And>q p. q \<in> set (ft_dirs t0) \<Longrightarrow> p \<in> set ps \<Longrightarrow> strict_prefix p q \<Longrightarrow>
      q \<in> set ps \<or> (q \<in> set (ft_dirs t) \<longleftrightarrow> must_stay skip t0 q)"
  shows "set (ft_dirs (snd (remove_empty_dirs skip ps t))) =
    {d \<in> set (ft_dirs t). d \<notin> set ps \<or> must_stay skip t0 d}"
  using assms
proof (induction ps arbitrary: t)
  case Nil
  then show ?case by simp
next
  case (Cons p ps)
  have notin: "p \<notin> set ps" using Cons.prems(5) by simp
  have above: "q \<notin> set (p # ps)" if "strict_prefix p q" for q
    using that Cons.prems(4) by (auto simp: bottom_up_def)
  have p: "p \<in> set (ft_dirs t0)" "p \<in> set (ft_dirs t)" using Cons.prems(3,6) by auto
  have emp: "is_empty_dir t p \<longleftrightarrow> \<not> must_stay skip t0 p" if "\<not> skip p"
  proof (rule empty_iff_not_must_stay [where skip = skip, OF Cons.prems(1,2) p(1) that p(2)])
    show "q \<in> set (ft_dirs t) \<longleftrightarrow> must_stay skip t0 q" if "q \<in> set (ft_dirs t0)" "strict_prefix p q" for q
      using Cons.prems(7) [OF that(1) list.set_intros(1) that(2)] above [OF that(2)] by simp
  qed (rule Cons.prems(3))
  show ?case
  proof (cases "\<not> skip p \<and> is_empty_dir t p")
    case True
    let ?t = "ft_rmdir p t"
    have dirs: "set (ft_dirs ?t) = set (ft_dirs t) - {p}" "ft_files ?t = ft_files t0"
      using Cons.prems(2) by (auto simp: ft_rmdir_def)
    have gone: "\<not> must_stay skip t0 p" using True emp by simp
    have "set (ft_dirs (snd (remove_empty_dirs skip ps ?t))) =
        {d \<in> set (ft_dirs ?t). d \<notin> set ps \<or> must_stay skip t0 d}"
    proof (rule Cons.IH [OF Cons.prems(1) dirs(2)])
      show "set (ft_dirs ?t) \<subseteq> set (ft_dirs t0)" using dirs(1) Cons.prems(3) by blast
      show "bottom_up ps" "distinct ps" using Cons.prems(4,5) by (simp_all add: bottom_up_def)
      show "set ps \<subseteq> set (ft_dirs ?t)" using dirs(1) Cons.prems(6) notin by auto
      show "q \<in> set ps \<or> (q \<in> set (ft_dirs ?t) \<longleftrightarrow> must_stay skip t0 q)"
        if "q \<in> set (ft_dirs t0)" "r \<in> set ps" "strict_prefix r q" for q r
        using Cons.prems(7) [OF that(1) _ that(3)] that(2) gone dirs(1) by auto
    qed
    moreover have "snd (remove_empty_dirs skip (p # ps) t) = snd (remove_empty_dirs skip ps ?t)"
      using True by (simp split: prod.splits)
    ultimately show ?thesis using dirs(1) gone notin by auto
  next
    case False
    have stay: "must_stay skip t0 p"
      using False emp by (cases "skip p") (simp_all add: must_stay_def [of skip t0 p])
    have "set (ft_dirs (snd (remove_empty_dirs skip ps t))) =
        {d \<in> set (ft_dirs t). d \<notin> set ps \<or> must_stay skip t0 d}"
    proof (rule Cons.IH [OF Cons.prems(1-3)])
      show "bottom_up ps" "distinct ps" "set ps \<subseteq> set (ft_dirs t)"
        using Cons.prems(4-6) by (simp_all add: bottom_up_def)
      show "q \<in> set ps \<or> (q \<in> set (ft_dirs t) \<longleftrightarrow> must_stay skip t0 q)"
        if "q \<in> set (ft_dirs t0)" "r \<in> set ps" "strict_prefix r q" for q r
        using Cons.prems(7) [OF that(1) _ that(3)] that(2) stay p(2) by auto
    qed
    then show ?thesis using False stay by auto
  qed
qed

text \<open>Pruning a workspace. In whatever order the bottom-up walk visits siblings, exactly those
  directories remain that are the root, hidden, or above a file or a hidden directory; every file
  stays.\<close>

theorem prune_all_exact:
  assumes "wf_tree t" and "[] \<in> set (ft_dirs t)"
    and "bottom_up walk" and "distinct walk" and "set walk = set (ft_dirs t)"
  shows "ft_files (snd (prune_all_empty_dirs walk t)) = ft_files t \<and>
    set (ft_dirs (snd (prune_all_empty_dirs walk t))) =
      {d \<in> set (ft_dirs t). d = [] \<or> hidden_path d \<or>
        (\<exists>e. prefix d e \<and> (e \<in> set (ft_files t) \<or> e \<in> set (ft_dirs t) \<and> hidden_path e))}"
proof -
  let ?skip = "\<lambda>p. p = [] \<or> hidden_path p"
  have "set (ft_dirs (snd (remove_empty_dirs ?skip walk t))) =
      {d \<in> set (ft_dirs t). d \<notin> set walk \<or> must_stay ?skip t d}"
    using assms(1,3,4,5) by (intro remove_empty_dirs_exact) auto
  also have "\<dots> = {d \<in> set (ft_dirs t). d = [] \<or> hidden_path d \<or>
        (\<exists>e. prefix d e \<and> (e \<in> set (ft_files t) \<or> e \<in> set (ft_dirs t) \<and> hidden_path e))}"
    using assms(5) by (auto simp: must_stay_def)
  finally show ?thesis
    using assms(2) remove_empty_dirs_files [of ?skip walk t] by (simp add: prune_all_empty_dirs_def)
qed

text \<open>One step of \<open>prune_empty_parents\<close> on a folder given by plain segments.\<close>

lemma py_path_join:
  assumes "\<forall>s\<in>set segs. plain_segment s"
  shows "py_path (join ''/'' segs) = \<lparr>pp_root = [], pp_parts = segs\<rparr>"
proof (cases "segs = []")
  case True
  then show ?thesis by (simp add: py_path_def path_part_def)
next
  case False
  let ?p = "\<lparr>pp_root = [], pp_parts = segs\<rparr>"
  have "wf_path ?p" using assms by (simp add: wf_path_def)
  moreover have "join ''/'' segs \<noteq> []"
    using False assms join_eq_Nil [of segs "''/''"] by (auto simp: plain_segment_def)
  ultimately show ?thesis using py_path_str [of ?p] by (simp add: path_str_def)
qed

lemma slash_in_join:
  assumes "\<forall>s\<in>set segs. plain_segment s"
  shows "CHR ''/'' \<in> set (join ''/'' segs) \<longleftrightarrow> 1 < length segs"
  using assms by (cases segs rule: remdups_adj.cases) (auto simp: plain_segment_def)

lemma prune_parents_step:
  assumes "\<forall>s\<in>set segs. plain_segment s" "segs \<noteq> []"
  shows "prune_empty_parents t (join ''/'' segs) =
    (if is_empty_dir t segs
     then let (removed, t') = prune_empty_parents (ft_rmdir segs t) (join ''/'' (butlast segs))
          in (join ''/'' segs # removed, t')
     else ([], t))"
proof -
  have pl: "\<forall>s\<in>set (butlast segs). plain_segment s" using assms(1) by (auto dest: in_set_butlastD)
  have ne: "join ''/'' segs \<noteq> []"
    using assms join_eq_Nil [of segs "''/''"] by (auto simp: plain_segment_def)
  have "(if CHR ''/'' \<in> set (join ''/'' segs) then path_str \<lparr>pp_root = [], pp_parts = butlast segs\<rparr> else []) =
      join ''/'' (butlast segs)"
  proof (cases "1 < length segs")
    case True
    then have "butlast segs \<noteq> []" by (cases segs rule: rev_cases) auto
    then have "join ''/'' (butlast segs) \<noteq> []"
      using pl join_eq_Nil [of "butlast segs" "''/''"] by (auto simp: plain_segment_def)
    then show ?thesis using True slash_in_join [OF assms(1)] by (simp add: path_str_def)
  next
    case False
    then show ?thesis using assms(2) slash_in_join [OF assms(1)] by (cases segs rule: rev_cases) auto
  qed
  then show ?thesis
    using ne py_path_join [OF assms(1)]
    by (cases "CHR ''/'' \<in> set (join ''/'' segs)"; subst prune_empty_parents.simps; simp add: path_parent_def)
qed

text \<open>Pruning upwards. For a folder below the workspace root, \<open>prune_empty_parents\<close> removes
  exactly the folder and those of its ancestors below which there is nothing but the chain down
  to the folder itself; the root, every file and every other directory stay.\<close>

theorem prune_parents_exact:
  assumes "wf_tree t" and "\<forall>s\<in>set segs. plain_segment s" and "segs \<in> set (ft_dirs t)"
  shows "ft_files (snd (prune_empty_parents t (join ''/'' segs))) = ft_files t \<and>
    set (ft_dirs (snd (prune_empty_parents t (join ''/'' segs)))) =
      {d \<in> set (ft_dirs t). \<not> (d \<noteq> [] \<and> prefix d segs \<and>
        (\<forall>e\<in>set (ft_entries t). prefix d e \<longrightarrow> prefix e segs))}"
  using assms
proof (induction segs arbitrary: t rule: rev_induct)
  case Nil
  have "prune_empty_parents t [] = ([], t)" by (simp add: prune_empty_parents.simps)
  then show ?case by simp
next
  case (snoc x segs)
  let ?s = "segs @ [x]"
  note step = prune_parents_step [OF snoc.prems(2), of t]
  show ?case
  proof (cases "is_empty_dir t ?s")
    case False
    then obtain q where q: "q \<in> set (ft_entries t)" "child_of ?s q"
      using snoc.prems(3) by (auto simp: is_empty_dir_def)
    have "strict_prefix ?s q" by (rule child_prefix [OF q(2)])
    then have "\<not> prefix q ?s" "prefix d q" if "prefix d ?s" for d
      using that by (meson prefix_order.leD prefix_order.less_imp_le prefix_order.order_trans)+
    with q(1) have "\<not> (\<forall>e\<in>set (ft_entries t). prefix d e \<longrightarrow> prefix e ?s)" if "prefix d ?s" for d
      using that by blast
    then show ?thesis using step False by auto
  next
    case True
    let ?t = "ft_rmdir ?s t"
    have dirs: "set (ft_dirs ?t) = set (ft_dirs t) - {?s}" "ft_files ?t = ft_files t"
      by (auto simp: ft_rmdir_def)
    have leaf: "\<not> strict_prefix ?s e" if "e \<in> set (ft_entries t)" for e
    proof
      assume "strict_prefix ?s e"
      then obtain q where q: "child_of ?s q" "prefix q e" using child_towards by blast
      then have "q \<in> set (ft_entries t)"
        using that snoc.prems(1) unfolding wf_tree_def ft_entries_def strict_prefix_def by auto
      with True q(1) show False by (simp add: is_empty_dir_def)
    qed
    have ent: "set (ft_entries ?t) = set (ft_entries t) - {?s}"
      using dirs snoc.prems(1,3) by (auto simp: ft_entries_def wf_tree_def)
    have wf: "wf_tree ?t"
      using snoc.prems(1) leaf unfolding wf_tree_def ent dirs
      by (auto simp: ft_rmdir_def)
    have "strict_prefix segs ?s" by (simp add: strict_prefix_def)
    then have "segs \<in> set (ft_dirs t)"
      using snoc.prems(1,3) unfolding wf_tree_def ft_entries_def by simp blast
    then have "segs \<in> set (ft_dirs ?t)" using dirs(1) by simp
    from snoc.IH [OF wf _ this] snoc.prems(2)
    have IH: "ft_files (snd (prune_empty_parents ?t (join ''/'' segs))) = ft_files t"
      "set (ft_dirs (snd (prune_empty_parents ?t (join ''/'' segs)))) =
        {d \<in> set (ft_dirs t) - {?s}. \<not> (d \<noteq> [] \<and> prefix d segs \<and>
          (\<forall>e\<in>set (ft_entries t) - {?s}. prefix d e \<longrightarrow> prefix e segs))}"
      using dirs ent by simp_all
    have chain: "d \<noteq> ?s \<and> \<not> (d \<noteq> [] \<and> prefix d segs \<and> (\<forall>e\<in>set (ft_entries t) - {?s}. prefix d e \<longrightarrow> prefix e segs))
        \<longleftrightarrow> \<not> (d \<noteq> [] \<and> prefix d ?s \<and> (\<forall>e\<in>set (ft_entries t). prefix d e \<longrightarrow> prefix e ?s))" for d
      using leaf by (auto simp: strict_prefix_def)
    have "snd (prune_empty_parents t (join ''/'' ?s)) = snd (prune_empty_parents ?t (join ''/'' segs))"
      using step True by (simp split: prod.splits)
    then show ?thesis using IH chain by auto
  qed
qed

subsection \<open>Workspace names\<close>

lemma ws_name_body_plain: "ws_name_body n \<Longrightarrow> plain_segment n \<and> CHR ''/'' \<notin> set n"
proof -
  assume b: "ws_name_body n"
  then obtain c cs where n: "n = c # cs" "ws_name_start c" "\<forall>c\<in>set cs. ws_name_char c"
    by (cases n) (auto simp: ws_name_body_def)
  have "\<not> ws_name_start CHR ''/''" "\<not> ws_name_char CHR ''/''" "\<not> ws_name_start CHR ''.''"
    by (simp_all add: ws_name_char_def ws_name_start_def)
  then show ?thesis using n by (auto simp: plain_segment_def)
qed

lemma ws_name_plain: "workspace_name_matches n \<Longrightarrow> plain_segment n \<and> n \<noteq> ''..''"
proof -
  assume "workspace_name_matches n"
  then consider "ws_name_body n" | "n = butlast n @ [CHR 0x0A]" "ws_name_body (butlast n)"
    unfolding workspace_name_matches_def by (metis append_butlast_last_id)
  then show ?thesis
  proof cases
    case 1
    then have "hd n \<noteq> CHR ''.''" by (auto simp: ws_name_body_def ws_name_start_def)
    then show ?thesis using ws_name_body_plain [OF 1] by auto
  next
    case 2
    let ?b = "butlast n"
    have "plain_segment (?b @ [CHR 0x0A])" "?b @ [CHR 0x0A] \<noteq> ''..''"
      using ws_name_body_plain [OF 2(2)] by (auto simp: plain_segment_def)
    then show ?thesis using 2(1) by simp
  qed
qed

text \<open>Workspace names. A workspace is created one segment below its owner's directory, which
  is one segment below the base directory, and only where nothing exists yet; its name starts
  with a letter or digit and has at most 50 letters, digits, hyphens and underscores, except that
  the pattern also lets one newline follow.\<close>

theorem create_workspace_confined:
  assumes "create_workspace exists name base user_id = Inr p" and "plain_segment user_id"
  shows "py_path p = (py_path base)\<lparr>pp_parts := pp_parts (py_path base) @ [user_id, name]\<rparr> \<and>
    \<not> exists p \<and> name \<noteq> ''..'' \<and>
    (\<exists>n. (name = n \<or> name = n @ [CHR 0x0A]) \<and> n \<noteq> [] \<and> length n \<le> 50 \<and> (\<forall>c\<in>set n. ws_name_char c))"
proof -
  have m: "workspace_name_matches name" and p: "p = workspace_path name base user_id" and ex: "\<not> exists p"
    using assms(1) by (auto simp: create_workspace_def Let_def split: if_splits)
  have pl: "plain_segment name" "name \<noteq> ''..''" using ws_name_plain [OF m] by simp_all
  let ?p = "(py_path base)\<lparr>pp_parts := pp_parts (py_path base) @ [user_id, name]\<rparr>"
  have "path_join (path_join (py_path base) user_id) name = ?p"
    using path_join_segs [of "[user_id, name]" "py_path base"] pl assms(2) by simp
  moreover have "wf_path ?p"
    using wf_py_path [of base] pl assms(2) by (auto simp: wf_path_def)
  ultimately have "py_path p = ?p" by (simp add: p workspace_path_def py_path_str)
  moreover have body: "n \<noteq> [] \<and> length n \<le> 50 \<and> (\<forall>c\<in>set n. ws_name_char c)" if "ws_name_body n" for n
    using that by (cases n) (auto simp: ws_name_body_def ws_name_char_def)
  moreover have "\<exists>n. (name = n \<or> name = n @ [CHR 0x0A]) \<and> ws_name_body n"
    using m unfolding workspace_name_matches_def by (metis append_butlast_last_id)
  ultimately show ?thesis using ex pl(2) by blast
qed

subsection \<open>Examples\<close>

theorem note_location_witness:
  "normalize_folder '' Journal/ 2026.. '' = Inr ''Journal/2026'' \<and>
   note_folder ''/srv/ws'' (note_filepath ''/srv/ws'' ''Journal/2026'' ''a/b: c'') = Some ''Journal/2026''"
proof -
  have "normalize_folder '' Journal/ 2026.. '' = Inr ''Journal/2026''" by code_simp
  with note_location [OF this, of "''/srv/ws''" "''a/b: c''"] show ?thesis by blast
qed

lemma ex_cut_folder:
  "normalize_folder (replicate 199 CHR ''a'' @ '' b'') = Inr (replicate 199 CHR ''a'' @ '' '')"
proof -
  let ?r = "replicate 199 CHR ''a'' @ '' b''"
  have chars: "set ?r = {CHR ''a'', CHR '' '', CHR ''b''}" by auto
  have ends: "?r \<noteq> []" "hd ?r = CHR ''a''" "last ?r = CHR ''b''" by (simp_all add: hd_append)
  have strip: "py_strip ?r = ?r"
    by (rule strip_by_id) (simp add: ends py_isspace_def)
  have "\<not> sublist ''  '' (replicate n CHR ''a'' @ '' b'')" for n
    by (induction n) (auto simp: double_space_Cons)
  then have "squeeze_spaces ?r = ?r" by (simp add: squeeze_id)
  moreover have "map (\<lambda>c. if windows_forbidden c then CHR '' '' else c) ?r = ?r"
  proof (rule map_idI)
    fix c
    assume "c \<in> set ?r"
    then have "c = CHR ''a'' \<or> c = CHR '' '' \<or> c = CHR ''b''" unfolding chars by simp
    then show "(if windows_forbidden c then CHR '' '' else c) = c" by (auto simp: windows_forbidden_def)
  qed
  moreover have "rstrip_by dot_or_space ?r = ?r"
    by (rule rstrip_by_id) (simp add: ends dot_or_space_def)
  ultimately have "clean_title ?r = ?r" using strip by (simp add: clean_title_def)
  moreover have "\<not> windows_reserved ?r" using reserved_length [of ?r] by auto
  ultimately have "title_to_windows_filename ?r = replicate 199 CHR ''a'' @ '' ''"
    using ends(1) by (simp add: filename_uncut uncut_filename_def)
  moreover have "CHR ''/'' \<notin> set ?r" using chars by auto
  then have "path_segments ?r = [?r]" using ends(1) unfolding path_segments_def by (simp add: split_on_free)
  moreover have "?r \<noteq> ''..''" using ends(2) by auto
  ultimately show ?thesis unfolding normalize_folder_def strip by simp
qed

theorem normalize_folder_again_witness:
  "normalize_folder (replicate 199 CHR ''a'' @ '' b'') = Inr (replicate 199 CHR ''a'' @ '' '') \<and>
   normalize_folder (replicate 199 CHR ''a'' @ '' '') \<noteq> Inr (replicate 199 CHR ''a'' @ '' '')"
proof -
  let ?f = "replicate 199 CHR ''a'' @ '' ''"
  have "CHR ''/'' \<notin> set ?f" "?f \<noteq> []" by simp_all
  then have "path_segments ?f = [?f]" unfolding path_segments_def by (simp add: split_on_free)
  moreover have "\<not> stable_segment ?f" by (simp add: stable_segment_def dot_or_space_def)
  ultimately show ?thesis
    using normalize_folder_again [OF ex_cut_folder] ex_cut_folder by simp
qed

definition ex_tree :: file_tree where
  "ex_tree = \<lparr>ft_dirs = [[], [''a''], [''a'', ''b''], [''c''], [''.git''], [''d''], [''d'', ''e'']],
     ft_files = [[''c'', ''x.md''], [''.git'', ''HEAD'']]\<rparr>"

definition ex_walk :: "string list list" where
  "ex_walk = [[''a'', ''b''], [''a''], [''c''], [''.git''], [''d'', ''e''], [''d''], []]"

lemma ex_tree_wf: "wf_tree ex_tree"
proof -
  have "\<forall>e\<in>set (ft_entries ex_tree). set (butlast (prefixes e)) \<subseteq> set (ft_dirs ex_tree)" by code_simp
  moreover have "set (butlast (prefixes e)) = {p. strict_prefix p e}" for e :: "string list"
    by (cases e rule: rev_cases) (auto simp: strict_prefix_def prefixes_snoc)
  moreover have "distinct (ft_dirs ex_tree)" "set (ft_dirs ex_tree) \<inter> set (ft_files ex_tree) = {}" by code_simp+
  ultimately show ?thesis unfolding wf_tree_def by auto
qed

theorem prune_all_exact_witness:
  "set (ft_dirs (snd (prune_all_empty_dirs ex_walk ex_tree))) = {[], [''c''], [''.git'']}"
proof -
  have "bottom_up ex_walk" unfolding bottom_up_def by code_simp
  moreover have "distinct ex_walk" "[] \<in> set (ft_dirs ex_tree)" by code_simp+
  moreover have "set ex_walk = set (ft_dirs ex_tree)" by (auto simp: ex_walk_def ex_tree_def)
  ultimately have "set (ft_dirs (snd (prune_all_empty_dirs ex_walk ex_tree))) =
      {d \<in> set (ft_dirs ex_tree). d = [] \<or> hidden_path d \<or>
        (\<exists>e. prefix d e \<and> (e \<in> set (ft_files ex_tree) \<or> e \<in> set (ft_dirs ex_tree) \<and> hidden_path e))}"
    using prune_all_exact [OF ex_tree_wf] by blast
  also have "\<dots> = set (filter (\<lambda>d. d = [] \<or> hidden_path d \<or> (\<exists>e\<in>set (ft_files ex_tree). prefix d e) \<or>
        (\<exists>e\<in>set (ft_dirs ex_tree). prefix d e \<and> hidden_path e)) (ft_dirs ex_tree))"
    by auto
  also have "\<dots> = {[], [''c''], [''.git'']}" by code_simp
  finally show ?thesis .
qed

theorem prune_parents_exact_witness:
  "set (ft_dirs (snd (prune_empty_parents ex_tree ''a/b''))) = {[], [''c''], [''.git''], [''d''], [''d'', ''e'']}"
proof -
  have "[''a'', ''b''] \<in> set (ft_dirs ex_tree)" "\<forall>s\<in>set [''a'', ''b'']. plain_segment s"
    by (simp_all add: ex_tree_def plain_segment_def)
  with prune_parents_exact [OF ex_tree_wf, of "[''a'', ''b'']"]
  have "set (ft_dirs (snd (prune_empty_parents ex_tree ''a/b''))) =
      set (filter (\<lambda>d. \<not> (d \<noteq> [] \<and> prefix d [''a'', ''b''] \<and>
        (\<forall>e\<in>set (ft_entries ex_tree). prefix d e \<longrightarrow> prefix e [''a'', ''b'']))) (ft_dirs ex_tree))"
    by simp
  also have "\<dots> = {[], [''c''], [''.git''], [''d''], [''d'', ''e'']}" by code_simp
  finally show ?thesis .
qed

theorem create_workspace_confined_witness:
  "create_workspace (\<lambda>_. False) (''notes'' @ [CHR 0x0A]) ''/srv'' ''u1'' = Inr (''/srv/u1/notes'' @ [CHR 0x0A]) \<and>
   pp_parts (py_path (''/srv/u1/notes'' @ [CHR 0x0A])) = [''srv'', ''u1'', ''notes'' @ [CHR 0x0A]]"
proof -
  have c: "create_workspace (\<lambda>_. False) (''notes'' @ [CHR 0x0A]) ''/srv'' ''u1'' = Inr (''/srv/u1/notes'' @ [CHR 0x0A])"
    by code_simp
  have "plain_segment ''u1''" by (simp add: plain_segment_def)
  from create_workspace_confined [OF c this] c show ?thesis
    by (simp add: py_path_def path_part_def)
qed

end
