(* ===== verification/Frontmatter.thy ===== *)
theory Frontmatter
  imports Paths
begin

section \<open>Note frontmatter\<close>

text \<open>
  Models the metadata half of \<open>workspace.py\<close>: the \<open>NoteFrontmatter\<close> value and its
  validation, the lenient reading of a file's YAML mapping, the mapping written back, and the
  rules for the two temporal fields in an update. A parsed YAML value is a \<open>yaml\<close>; a Python
  \<open>dict\<close> is an association list in insertion order. The YAML text format belongs to the
  \<open>frontmatter\<close> package: \<open>loads\<close> and \<open>dumps\<close> are parameters where a file's text is read or
  written. Log lines are not modelled.
\<close>

datatype yaml = YNone | YBool bool | YInt int | YFloat rat | YStr string | YDate date | YDatetime string
  | YList "yaml list" | YMap "(yaml \<times> yaml) list"

type_synonym metadata = "(yaml \<times> yaml) list"

datatype meta_error = TemporalMetadataError | ExtrasReservedKeyError | MetaValueError

definition RESERVED_FRONTMATTER_KEYS :: "string list" where
  "RESERVED_FRONTMATTER_KEYS =
     [''id'', ''title'', ''tags'', ''created_at'', ''updated_at'', ''occurred_at'', ''period'']"

record note_frontmatter =
  nf_id :: yaml
  nf_title :: yaml
  nf_tags :: "yaml list"
  nf_created_at :: yaml
  nf_updated_at :: yaml
  nf_occurred_at :: "string option"
  nf_period :: "string option"
  nf_extras :: metadata
  nf_temporal_dropped :: "string list"

subsection \<open>Dictionaries\<close>

text \<open>\<open>d.get(k, default)\<close>, \<open>d.pop(k, default)\<close> on the remaining dict, and \<open>{**a, **b}\<close>.\<close>

definition dict_get :: "string \<Rightarrow> yaml \<Rightarrow> metadata \<Rightarrow> yaml" where
  "dict_get k dflt d = (case map_of d (YStr k) of None \<Rightarrow> dflt | Some v \<Rightarrow> v)"

definition dict_del :: "string \<Rightarrow> metadata \<Rightarrow> metadata" where
  "dict_del k d = filter (\<lambda>(k', v). k' \<noteq> YStr k) d"

definition dict_merge :: "metadata \<Rightarrow> metadata \<Rightarrow> metadata" where
  "dict_merge a b = map (\<lambda>(k, v). (k, case map_of b k of None \<Rightarrow> v | Some w \<Rightarrow> w)) a
     @ filter (\<lambda>(k, v). k \<notin> fst ` set a) b"

definition opt_yaml :: "string option \<Rightarrow> yaml" where
  "opt_yaml v = (case v of None \<Rightarrow> YNone | Some s \<Rightarrow> YStr s)"

subsection \<open>The temporal fields\<close>

definition parse_occurred_at :: "yaml \<Rightarrow> meta_error + string option" where
  "parse_occurred_at value = (case value of
      YNone \<Rightarrow> Inr None
    | YStr s \<Rightarrow> (case fromisoformat s of
        Inl e \<Rightarrow> Inl TemporalMetadataError
      | Inr d \<Rightarrow> if isoformat d \<noteq> s then Inl TemporalMetadataError else Inr (Some (isoformat d)))
    | YDate d \<Rightarrow> Inr (Some (isoformat d))
    | _ \<Rightarrow> Inl TemporalMetadataError)"

text \<open>\<open>str(n)\<close> of an integer.\<close>

definition py_str_int :: "int \<Rightarrow> string" where
  "py_str_int n = (if n < 0 then CHR ''-'' # dec (nat (- n)) else dec (nat n))"

definition period_of_text :: "string \<Rightarrow> meta_error + string option" where
  "period_of_text s = (case parse_period_key s of
      Inl e \<Rightarrow> Inl TemporalMetadataError
    | Inr p \<Rightarrow> Inr (Some (p_key p)))"

definition parse_period :: "yaml \<Rightarrow> meta_error + string option" where
  "parse_period value = (case value of
      YNone \<Rightarrow> Inr None
    | YStr s \<Rightarrow> period_of_text s
    | YInt n \<Rightarrow> period_of_text (py_str_int n)
    | _ \<Rightarrow> Inl TemporalMetadataError)"

definition normalize_temporal_metadata :: "yaml \<Rightarrow> yaml \<Rightarrow> meta_error + (string option \<times> string option)" where
  "normalize_temporal_metadata occurred_at period =
     (case parse_occurred_at occurred_at of
        Inl e \<Rightarrow> Inl e
      | Inr occ \<Rightarrow> (case parse_period period of
          Inl e \<Rightarrow> Inl e
        | Inr per \<Rightarrow> if occ \<noteq> None \<and> per \<noteq> None then Inl TemporalMetadataError else Inr (occ, per)))"

text \<open>\<open>NoteFrontmatter.__post_init__\<close>: the value, or what its construction raises.\<close>

definition mk_frontmatter :: "note_frontmatter \<Rightarrow> meta_error + note_frontmatter" where
  "mk_frontmatter m =
     (if \<exists>k\<in>set RESERVED_FRONTMATTER_KEYS. YStr k \<in> fst ` set (nf_extras m) then Inl ExtrasReservedKeyError
      else (case normalize_temporal_metadata (opt_yaml (nf_occurred_at m)) (opt_yaml (nf_period m)) of
          Inl e \<Rightarrow> Inl e
        | Inr (occ, per) \<Rightarrow>
            if (occ, per) \<noteq> (nf_occurred_at m, nf_period m) then Inl MetaValueError else Inr m))"

definition merged_extras :: "note_frontmatter \<Rightarrow> metadata option \<Rightarrow> bool \<Rightarrow> metadata" where
  "merged_extras m extras replace_existing = (case extras of
      None \<Rightarrow> nf_extras m
    | Some e \<Rightarrow> if replace_existing then e else dict_merge (nf_extras m) e)"

definition temporal_or :: "note_frontmatter \<Rightarrow> string option \<Rightarrow> string option \<Rightarrow> string option \<times> string option" where
  "temporal_or m db_occurred_at db_period =
     (if ''occurred_at'' \<notin> set (nf_temporal_dropped m) then nf_occurred_at m else db_occurred_at,
      if ''period'' \<notin> set (nf_temporal_dropped m) then nf_period m else db_period)"

subsection \<open>Reading\<close>

definition parse_temporal_soft :: "(yaml \<Rightarrow> meta_error + string option) \<Rightarrow> yaml \<Rightarrow> meta_error + (string option \<times> bool)" where
  "parse_temporal_soft parser value = (case parser value of
      Inr v \<Rightarrow> Inr (v, False)
    | Inl TemporalMetadataError \<Rightarrow> Inr (None, True)
    | Inl e \<Rightarrow> Inl e)"

definition parse_frontmatter :: "metadata \<Rightarrow> string \<Rightarrow> meta_error + (note_frontmatter \<times> string)" where
  "parse_frontmatter metadata content =
     (let tags = dict_get ''tags'' (YList []) metadata;
          md1 = dict_del ''tags'' metadata
      in case parse_temporal_soft parse_occurred_at (dict_get ''occurred_at'' YNone md1) of
           Inl e \<Rightarrow> Inl e
         | Inr (occurred_at, occurred_at_dropped) \<Rightarrow>
     (let md2 = dict_del ''occurred_at'' md1
      in case parse_temporal_soft parse_period (dict_get ''period'' YNone md2) of
           Inl e \<Rightarrow> Inl e
         | Inr (period, period_dropped) \<Rightarrow>
     (let md3 = dict_del ''period'' md2;
          nid = dict_get ''id'' YNone md3; md4 = dict_del ''id'' md3;
          title = dict_get ''title'' YNone md4; md5 = dict_del ''title'' md4;
          created_at = dict_get ''created_at'' YNone md5; md6 = dict_del ''created_at'' md5;
          updated_at = dict_get ''updated_at'' YNone md6; md7 = dict_del ''updated_at'' md6;
          tags_list = (case tags of YList ts \<Rightarrow> ts | _ \<Rightarrow> []);
          dropped = (if occurred_at_dropped then [''occurred_at''] else []) @
                    (if period_dropped then [''period''] else []);
          m = \<lparr>nf_id = nid, nf_title = title, nf_tags = tags_list, nf_created_at = created_at,
               nf_updated_at = updated_at, nf_occurred_at = occurred_at, nf_period = period,
               nf_extras = md7, nf_temporal_dropped = dropped\<rparr>
      in case mk_frontmatter m of
           Inr meta \<Rightarrow> Inr (meta, content)
         | Inl TemporalMetadataError \<Rightarrow>
             (case mk_frontmatter (m\<lparr>nf_occurred_at := None, nf_period := None,
                  nf_temporal_dropped := [''occurred_at'', ''period'']\<rparr>) of
                Inr meta \<Rightarrow> Inr (meta, content)
              | Inl e \<Rightarrow> Inl e)
         | Inl e \<Rightarrow> Inl e)))"

text \<open>\<open>io.TextIOWrapper(..., newline=None)\<close>: universal newlines.\<close>

fun universal_newlines :: "string \<Rightarrow> string" where
  "universal_newlines [] = []"
| "universal_newlines (c # s) =
     (if c = CHR 0x0D then
        (case s of [] \<Rightarrow> [CHR 0x0A]
         | d # s' \<Rightarrow> if d = CHR 0x0A then CHR 0x0A # universal_newlines s' else CHR 0x0A # universal_newlines s)
      else c # universal_newlines s)"

definition read_note_file_raw ::
  "(string \<Rightarrow> metadata \<times> string) \<Rightarrow> string \<Rightarrow> meta_error + (note_frontmatter \<times> string \<times> string)" where
  "read_note_file_raw loads raw =
     (let (md, content) = loads (universal_newlines raw)
      in case parse_frontmatter md content of
           Inl e \<Rightarrow> Inl e
         | Inr (meta, content) \<Rightarrow> Inr (meta, content, raw))"

subsection \<open>Writing\<close>

text \<open>The mapping \<open>write_note_file\<close> hands to the serializer.\<close>

definition note_metadata :: "note_frontmatter \<Rightarrow> metadata" where
  "note_metadata m = dict_merge
     [(YStr ''id'', nf_id m), (YStr ''title'', nf_title m), (YStr ''tags'', YList (nf_tags m)),
      (YStr ''created_at'', nf_created_at m), (YStr ''updated_at'', nf_updated_at m),
      (YStr ''occurred_at'', opt_yaml (nf_occurred_at m)), (YStr ''period'', opt_yaml (nf_period m))]
     (nf_extras m)"

definition written_text :: "(metadata \<Rightarrow> string \<Rightarrow> string) \<Rightarrow> note_frontmatter \<Rightarrow> string \<Rightarrow> string" where
  "written_text dumps meta body = dumps (note_metadata meta) body"

subsection \<open>Updates\<close>

definition temporal_drop_warnings :: "string list \<Rightarrow> (string \<times> string) list" where
  "temporal_drop_warnings dropped = map (\<lambda>f. (''temporal_value_ignored'', f)) (sort (remdups dropped))"

definition temporal_kwargs :: "string option \<Rightarrow> string option \<Rightarrow> (string \<times> string) list" where
  "temporal_kwargs occurred_at period =
     (case occurred_at of None \<Rightarrow> [] | Some v \<Rightarrow> [(''occurred_at'', v)]) @
     (case period of None \<Rightarrow> [] | Some v \<Rightarrow> [(''period'', v)])"

text \<open>A keyword argument that was passed is \<^const>\<open>Some\<close>.\<close>

definition resolve_temporal_fields ::
  "yaml option \<Rightarrow> yaml option \<Rightarrow> bool \<Rightarrow> string option \<times> string option \<Rightarrow> meta_error + (string option \<times> string option)" where
  "resolve_temporal_fields occurred_at period clear fallback =
     (if clear \<and> (occurred_at \<noteq> None \<or> period \<noteq> None) then Inl TemporalMetadataError
      else if clear then Inr (None, None)
      else (case (occurred_at, period) of
          (Some o', Some p) \<Rightarrow> normalize_temporal_metadata o' p
        | (Some o', None) \<Rightarrow> normalize_temporal_metadata o' YNone
        | (None, Some p) \<Rightarrow> normalize_temporal_metadata YNone p
        | (None, None) \<Rightarrow> Inr fallback))"

text \<open>The temporal decision of \<open>NoteEditService.update\<close>: the fields resolved against the row, and,
  when nothing was passed, the file's own values, with the row as fallback for dropped ones.\<close>

definition update_temporal ::
  "note_frontmatter \<Rightarrow> string option \<times> string option \<Rightarrow> yaml option \<Rightarrow> yaml option \<Rightarrow> bool
   \<Rightarrow> meta_error + (string option \<times> string option)" where
  "update_temporal existing row occurred_at period clear =
     (case resolve_temporal_fields occurred_at period clear row of
        Inl e \<Rightarrow> Inl e
      | Inr (occ, per) \<Rightarrow>
          if \<not> clear \<and> occurred_at = None \<and> period = None then Inr (temporal_or existing occ per)
          else Inr (occ, per))"

subsection \<open>Lemmas\<close>

lemma dict_get_del [simp]:
  "dict_get k dflt (dict_del k' d) = (if k = k' then dflt else dict_get k dflt d)"
proof -
  have "map_of (dict_del k' d) (YStr k) = (if k = k' then None else map_of d (YStr k))"
    unfolding dict_del_def by (induction d) auto
  then show ?thesis by (simp add: dict_get_def)
qed

lemma keys_dict_del: "fst ` set (dict_del k d) = fst ` set d - {YStr k}"
  by (force simp: dict_del_def)

definition extra_entries :: "metadata \<Rightarrow> metadata" where
  "extra_entries md = filter (\<lambda>(k, v). k \<notin> YStr ` set RESERVED_FRONTMATTER_KEYS) md"

lemma dict_del_all:
  "dict_del ''updated_at'' (dict_del ''created_at'' (dict_del ''title'' (dict_del ''id''
     (dict_del ''period'' (dict_del ''occurred_at'' (dict_del ''tags'' md)))))) = extra_entries md"
  by (auto simp: dict_del_def extra_entries_def RESERVED_FRONTMATTER_KEYS_def split_def intro!: filter_cong)

lemma extra_entries_not_reserved:
  "\<not> (\<exists>k\<in>set RESERVED_FRONTMATTER_KEYS. YStr k \<in> fst ` set (extra_entries md))"
  by (auto simp: extra_entries_def)

text \<open>Both temporal parsers fail with the one error the readers catch, and return text that
  parses to itself.\<close>

definition temporal_ok :: "string option \<Rightarrow> string option \<Rightarrow> bool" where
  "temporal_ok occ per \<longleftrightarrow>
     normalize_temporal_metadata (opt_yaml occ) (opt_yaml per) = Inr (occ, per)"

lemma parse_occurred_at_Inl: "parse_occurred_at v = Inl e \<Longrightarrow> e = TemporalMetadataError"
  by (auto simp: parse_occurred_at_def split: yaml.splits sum.splits if_splits)

lemma period_of_text_Inl: "period_of_text s = Inl e \<Longrightarrow> e = TemporalMetadataError"
  by (auto simp: period_of_text_def split: sum.splits)

lemma parse_period_Inl: "parse_period v = Inl e \<Longrightarrow> e = TemporalMetadataError"
  by (auto simp: parse_period_def dest: period_of_text_Inl split: yaml.splits)

lemma parse_period_key_key: "parse_period_key s = Inr p \<Longrightarrow> p_key p = s"
  by (auto simp: parse_period_key_def mk_period_def split: if_splits sum.splits)

lemma period_of_text_Inr: "period_of_text s = Inr v \<Longrightarrow> v = Some s"
  by (auto simp: period_of_text_def dest: parse_period_key_key split: sum.splits)

lemma parse_period_canonical: "parse_period v = Inr w \<Longrightarrow> parse_period (opt_yaml w) = Inr w"
proof (cases w)
  case None
  then show ?thesis by (simp add: parse_period_def opt_yaml_def)
next
  case (Some k)
  assume "parse_period v = Inr w"
  then obtain s where "period_of_text s = Inr w"
    using Some by (cases v) (auto simp: parse_period_def)
  then show ?thesis using period_of_text_Inr [of s w] by (simp add: parse_period_def opt_yaml_def)
qed

lemma parse_occurred_at_canonical:
  assumes "parse_occurred_at v = Inr w" "\<And>d. v = YDate d \<Longrightarrow> valid_date d"
  shows "parse_occurred_at (opt_yaml w) = Inr w"
proof (cases v)
  case YNone
  then show ?thesis using assms(1) by (auto simp: parse_occurred_at_def opt_yaml_def)
next
  case (YStr s)
  then obtain d where "fromisoformat s = Inr d" "isoformat d = s" "w = Some s"
    using assms(1) by (auto simp: parse_occurred_at_def split: sum.splits if_splits)
  then show ?thesis by (simp add: parse_occurred_at_def opt_yaml_def)
next
  case (YDate d)
  then show ?thesis
    using assms isoformat_roundtrip(1) [of d] by (auto simp: parse_occurred_at_def opt_yaml_def)
qed (use assms(1) in \<open>simp_all add: parse_occurred_at_def\<close>)

lemma mk_frontmatter_ok:
  assumes "nf_extras m = extra_entries md"
  shows "mk_frontmatter m = (if temporal_ok (nf_occurred_at m) (nf_period m) then Inr m
    else case normalize_temporal_metadata (opt_yaml (nf_occurred_at m)) (opt_yaml (nf_period m)) of
      Inl e \<Rightarrow> Inl e | Inr _ \<Rightarrow> Inl MetaValueError)"
  using extra_entries_not_reserved [of md] assms
  by (auto simp: mk_frontmatter_def temporal_ok_def split: sum.splits)

lemma temporal_ok_None [simp]: "temporal_ok None None"
  by (simp add: temporal_ok_def normalize_temporal_metadata_def opt_yaml_def parse_occurred_at_def parse_period_def)

lemma normalize_canonical:
  assumes "parse_occurred_at (opt_yaml occ) = Inr occ" "parse_period (opt_yaml per) = Inr per"
  shows "normalize_temporal_metadata (opt_yaml occ) (opt_yaml per) =
    (if occ \<noteq> None \<and> per \<noteq> None then Inl TemporalMetadataError else Inr (occ, per))"
  using assms by (simp add: normalize_temporal_metadata_def)

lemma temporal_okD:
  assumes "temporal_ok occ per"
  shows "parse_occurred_at (opt_yaml occ) = Inr occ" "parse_period (opt_yaml per) = Inr per"
    "occ = None \<or> per = None"
  using assms by (auto simp: temporal_ok_def normalize_temporal_metadata_def split: sum.splits if_splits)

lemma normalize_temporal_ok:
  assumes "normalize_temporal_metadata o' p' = Inr (occ, per)" "\<And>d. o' = YDate d \<Longrightarrow> valid_date d"
  shows "temporal_ok occ per"
proof -
  have "parse_occurred_at o' = Inr occ" "parse_period p' = Inr per" and x: "occ = None \<or> per = None"
    using assms(1) by (auto simp: normalize_temporal_metadata_def split: sum.splits if_splits)
  then have "parse_occurred_at (opt_yaml occ) = Inr occ" "parse_period (opt_yaml per) = Inr per"
    using assms(2) parse_occurred_at_canonical parse_period_canonical by blast+
  with x show ?thesis by (auto simp: temporal_ok_def normalize_canonical)
qed

text \<open>What a reader makes of the two temporal values of a file.\<close>

definition read_temporal :: "yaml \<Rightarrow> yaml \<Rightarrow> string option \<times> string option \<times> string list" where
  "read_temporal o' p' = (case (parse_occurred_at o', parse_period p') of
      (Inr (Some _), Inr (Some _)) \<Rightarrow> (None, None, [''occurred_at'', ''period''])
    | (Inr occ, Inr per) \<Rightarrow> (occ, per, [])
    | (Inr occ, Inl _) \<Rightarrow> (occ, None, [''period''])
    | (Inl _, Inr per) \<Rightarrow> (None, per, [''occurred_at''])
    | (Inl _, Inl _) \<Rightarrow> (None, None, [''occurred_at'', ''period'']))"

definition read_meta :: "metadata \<Rightarrow> note_frontmatter" where
  "read_meta md = (let (occ, per, dropped) = read_temporal (dict_get ''occurred_at'' YNone md) (dict_get ''period'' YNone md)
     in \<lparr>nf_id = dict_get ''id'' YNone md, nf_title = dict_get ''title'' YNone md,
         nf_tags = (case dict_get ''tags'' (YList []) md of YList ts \<Rightarrow> ts | _ \<Rightarrow> []),
         nf_created_at = dict_get ''created_at'' YNone md, nf_updated_at = dict_get ''updated_at'' YNone md,
         nf_occurred_at = occ, nf_period = per, nf_extras = extra_entries md, nf_temporal_dropped = dropped\<rparr>)"

lemma parse_temporal_soft_eq:
  "parse_temporal_soft parse_occurred_at v =
     Inr (case parse_occurred_at v of Inr w \<Rightarrow> (w, False) | Inl _ \<Rightarrow> (None, True))"
  "parse_temporal_soft parse_period v =
     Inr (case parse_period v of Inr w \<Rightarrow> (w, False) | Inl _ \<Rightarrow> (None, True))"
  using parse_occurred_at_Inl [of v] parse_period_Inl [of v]
  by (auto simp: parse_temporal_soft_def split: sum.splits)

lemma parse_frontmatter_eq:
  assumes dates: "\<And>d. dict_get ''occurred_at'' YNone md = YDate d \<Longrightarrow> valid_date d"
  shows "parse_frontmatter md content = Inr (read_meta md, content)"
    "temporal_ok (nf_occurred_at (read_meta md)) (nf_period (read_meta md))"
proof -
  let ?o = "dict_get ''occurred_at'' YNone md" and ?p = "dict_get ''period'' YNone md"
  let ?occ = "case parse_occurred_at ?o of Inr w \<Rightarrow> w | Inl _ \<Rightarrow> None"
  let ?per = "case parse_period ?p of Inr w \<Rightarrow> w | Inl _ \<Rightarrow> None"
  have c: "parse_occurred_at (opt_yaml ?occ) = Inr ?occ" "parse_period (opt_yaml ?per) = Inr ?per"
    using parse_occurred_at_canonical [OF _ dates] parse_period_canonical [of ?p]
    by (auto simp: opt_yaml_def parse_occurred_at_def [of YNone] parse_period_def [of YNone] split: sum.splits)
  note n = normalize_canonical [OF c]
  show "temporal_ok (nf_occurred_at (read_meta md)) (nf_period (read_meta md))"
    using n by (auto simp: read_meta_def read_temporal_def temporal_ok_def split: sum.splits option.splits)
      (simp_all add: normalize_temporal_metadata_def opt_yaml_def parse_occurred_at_def parse_period_def)
  show "parse_frontmatter md content = Inr (read_meta md, content)"
  proof (cases "?occ \<noteq> None \<and> ?per \<noteq> None")
    case True
    then obtain a b where ab: "parse_occurred_at ?o = Inr (Some a)" "parse_period ?p = Inr (Some b)"
      by (auto split: sum.splits)
    then have "normalize_temporal_metadata (opt_yaml (Some a)) (opt_yaml (Some b)) = Inl TemporalMetadataError"
      using n by simp
    then show ?thesis
      using ab unfolding parse_frontmatter_def
      by (simp add: parse_temporal_soft_eq dict_del_all mk_frontmatter_ok [where md = md] temporal_ok_def [of "Some a"]
          read_meta_def read_temporal_def)
  next
    case False
    then have "temporal_ok ?occ ?per" using n by (auto simp: temporal_ok_def)
    then show ?thesis
      using False unfolding parse_frontmatter_def
      by (auto simp: parse_temporal_soft_eq dict_del_all mk_frontmatter_ok [where md = md]
          read_meta_def read_temporal_def split: sum.splits option.splits)
  qed
qed

subsection \<open>Properties\<close>

text \<open>Reading is total and lenient. Whatever mapping a file carries, a note is read: every key
  that is not reserved is kept in its place, the value is one that construction accepts, at most
  one temporal field is set, a well-formed value is kept unless both fields have one, and the
  fields that had to be given up are recorded as dropped.\<close>

theorem parse_frontmatter_lenient:
  assumes "\<And>d. dict_get ''occurred_at'' YNone md = YDate d \<Longrightarrow> valid_date d"
  shows "\<exists>m. parse_frontmatter md content = Inr (m, content) \<and> mk_frontmatter m = Inr m \<and>
    nf_extras m = filter (\<lambda>(k, v). k \<notin> YStr ` set RESERVED_FRONTMATTER_KEYS) md \<and>
    (nf_occurred_at m = None \<or> nf_period m = None) \<and>
    (nf_occurred_at m, nf_period m, nf_temporal_dropped m) =
      (case (parse_occurred_at (dict_get ''occurred_at'' YNone md), parse_period (dict_get ''period'' YNone md)) of
        (Inr (Some _), Inr (Some _)) \<Rightarrow> (None, None, [''occurred_at'', ''period''])
      | (Inr occ, Inr per) \<Rightarrow> (occ, per, [])
      | (Inr occ, Inl _) \<Rightarrow> (occ, None, [''period''])
      | (Inl _, Inr per) \<Rightarrow> (None, per, [''occurred_at''])
      | (Inl _, Inl _) \<Rightarrow> (None, None, [''occurred_at'', ''period'']))"
proof (intro exI conjI)
  let ?m = "read_meta md"
  have ok: "temporal_ok (nf_occurred_at ?m) (nf_period ?m)"
    and ex: "nf_extras ?m = extra_entries md"
    using parse_frontmatter_eq(2) [OF assms] by (simp_all add: read_meta_def split: prod.splits)
  show "parse_frontmatter md content = Inr (?m, content)" by (rule parse_frontmatter_eq(1) [OF assms])
  show "mk_frontmatter ?m = Inr ?m" using mk_frontmatter_ok [OF ex] ok by simp
  show "nf_occurred_at ?m = None \<or> nf_period ?m = None" by (rule temporal_okD(3) [OF ok])
  show "nf_extras ?m = filter (\<lambda>(k, v). k \<notin> YStr ` set RESERVED_FRONTMATTER_KEYS) md"
    unfolding ex extra_entries_def ..
qed (unfold read_temporal_def [symmetric], simp add: read_meta_def split: prod.splits)

lemma dict_merge_disjoint:
  assumes "fst ` set a \<inter> fst ` set b = {}"
  shows "dict_merge a b = a @ b"
proof -
  have "map (\<lambda>(k, v). (k, case map_of b k of None \<Rightarrow> v | Some w \<Rightarrow> w)) a = a"
  proof (rule map_idI)
    fix kv
    assume "kv \<in> set a"
    then have "map_of b (fst kv) = None" using assms by (force simp: map_of_eq_None_iff)
    then show "(\<lambda>(k, v). (k, case map_of b k of None \<Rightarrow> v | Some w \<Rightarrow> w)) kv = kv" by (cases kv) simp
  qed
  moreover have "filter (\<lambda>(k, v). k \<notin> fst ` set a) b = b"
    using assms by (force intro: filter_True)
  ultimately show ?thesis by (simp add: dict_merge_def)
qed

lemma read_written_metadata:
  assumes "mk_frontmatter m = Inr m"
  shows "parse_frontmatter (note_metadata m) body = Inr (m\<lparr>nf_temporal_dropped := []\<rparr>, body)"
proof -
  let ?base = "[(YStr ''id'', nf_id m), (YStr ''title'', nf_title m), (YStr ''tags'', YList (nf_tags m)),
      (YStr ''created_at'', nf_created_at m), (YStr ''updated_at'', nf_updated_at m),
      (YStr ''occurred_at'', opt_yaml (nf_occurred_at m)), (YStr ''period'', opt_yaml (nf_period m))]"
  have res: "\<forall>k\<in>set RESERVED_FRONTMATTER_KEYS. YStr k \<notin> fst ` set (nf_extras m)"
    and ok: "temporal_ok (nf_occurred_at m) (nf_period m)"
    using assms by (auto simp: mk_frontmatter_def temporal_ok_def split: if_splits sum.splits)
  have md: "note_metadata m = ?base @ nf_extras m"
    unfolding note_metadata_def using res
    by (intro dict_merge_disjoint) (auto simp: RESERVED_FRONTMATTER_KEYS_def)
  have "extra_entries (nf_extras m) = nf_extras m"
    using res unfolding extra_entries_def by (force intro: filter_True)
  then have ex: "extra_entries (note_metadata m) = nf_extras m"
    by (simp add: md extra_entries_def RESERVED_FRONTMATTER_KEYS_def)
  have get: "dict_get ''id'' YNone (note_metadata m) = nf_id m"
    "dict_get ''title'' YNone (note_metadata m) = nf_title m"
    "dict_get ''tags'' (YList []) (note_metadata m) = YList (nf_tags m)"
    "dict_get ''created_at'' YNone (note_metadata m) = nf_created_at m"
    "dict_get ''updated_at'' YNone (note_metadata m) = nf_updated_at m"
    "dict_get ''occurred_at'' YNone (note_metadata m) = opt_yaml (nf_occurred_at m)"
    "dict_get ''period'' YNone (note_metadata m) = opt_yaml (nf_period m)"
    by (simp_all add: md dict_get_def)
  have "parse_frontmatter (note_metadata m) body = Inr (read_meta (note_metadata m), body)"
    by (rule parse_frontmatter_eq(1)) (auto simp: get opt_yaml_def split: option.splits)
  moreover have "read_temporal (opt_yaml (nf_occurred_at m)) (opt_yaml (nf_period m)) =
      (nf_occurred_at m, nf_period m, [])"
    using temporal_okD [OF ok] by (auto simp: read_temporal_def split: option.splits)
  then have "read_meta (note_metadata m) = m\<lparr>nf_temporal_dropped := []\<rparr>"
    by (intro note_frontmatter.equality) (simp_all add: read_meta_def get ex)
  ultimately show ?thesis by simp
qed


text \<open>C37: an update keeps the temporal fields sound. From a file as it was read and a row with
  sound values, the fields an update computes are sound again, except in one case: nothing was
  passed, exactly one field of the file was dropped, and the row's value for it stands against the
  value of the file for the other field. Then construction of the new frontmatter raises.\<close>

theorem update_temporal_sound:
  assumes "parse_frontmatter md content = Inr (m, content)" and "temporal_ok row_occ row_per"
    and "\<And>d. dict_get ''occurred_at'' YNone md = YDate d \<or> o' = Some (YDate d) \<Longrightarrow> valid_date d"
    and "update_temporal m (row_occ, row_per) o' p' clear = Inr (occ, per)"
  shows "temporal_ok occ per \<longleftrightarrow> \<not> (o' = None \<and> p' = None \<and> \<not> clear \<and>
    (nf_temporal_dropped m = [''period''] \<and> nf_occurred_at m \<noteq> None \<and> row_per \<noteq> None \<or>
     nf_temporal_dropped m = [''occurred_at''] \<and> nf_period m \<noteq> None \<and> row_occ \<noteq> None))"
proof (cases "o' = None \<and> p' = None \<and> \<not> clear")
  case False
  have "temporal_ok occ per"
  proof (cases clear)
    case True
    then show ?thesis using assms(4) by (auto simp: update_temporal_def resolve_temporal_fields_def split: if_splits)
  next
    case False
    then obtain a b where "normalize_temporal_metadata a b = Inr (occ, per)" "a = YNone \<or> o' = Some a"
      using assms(4) \<open>\<not> (o' = None \<and> p' = None \<and> \<not> clear)\<close>
      by (auto simp: update_temporal_def resolve_temporal_fields_def split: option.splits sum.splits)
    then show ?thesis using normalize_temporal_ok assms(3) by blast
  qed
  with False show ?thesis by blast
next
  case True
  have m: "m = read_meta md"
    using assms(1,3) parse_frontmatter_eq(1) [of md content] by auto
  have ok: "temporal_ok (nf_occurred_at m) (nf_period m)"
    using parse_frontmatter_eq(2) [of md] assms(3) by (simp add: m)
  have eq: "(occ, per) = temporal_or m row_occ row_per"
    using assms(4) True by (simp add: update_temporal_def resolve_temporal_fields_def)
  have dr: "nf_temporal_dropped m \<in> {[], [''period''], [''occurred_at''], [''occurred_at'', ''period'']}"
    "''occurred_at'' \<in> set (nf_temporal_dropped m) \<Longrightarrow> nf_occurred_at m = None"
    "''period'' \<in> set (nf_temporal_dropped m) \<Longrightarrow> nf_period m = None"
    by (auto simp: m read_meta_def read_temporal_def split: sum.splits option.splits)
  note c = normalize_canonical [OF temporal_okD(1) [OF ok] temporal_okD(2) [OF assms(2)]]
    normalize_canonical [OF temporal_okD(1) [OF assms(2)] temporal_okD(2) [OF ok]]
  consider "nf_temporal_dropped m = []" | "nf_temporal_dropped m = [''period'']"
    | "nf_temporal_dropped m = [''occurred_at'']" | "nf_temporal_dropped m = [''occurred_at'', ''period'']"
    using dr(1) by blast
  then show ?thesis
  proof cases
    case 1
    then show ?thesis using eq ok by (simp add: temporal_or_def)
  next
    case 2
    then show ?thesis using eq c(1) True by (auto simp: temporal_or_def temporal_ok_def)
  next
    case 3
    then show ?thesis using eq c(2) True by (auto simp: temporal_or_def temporal_ok_def)
  next
    case 4
    then show ?thesis using eq assms(2) by (simp add: temporal_or_def)
  qed
qed

subsection \<open>Examples\<close>

definition ex_md :: metadata where
  "ex_md = [(YStr ''title'', YStr ''Plan''), (YStr ''mood'', YInt 3), (YStr ''occurred_at'', YStr ''2026-01-02''),
     (YStr ''period'', YStr ''soon'')]"

definition ex_meta :: note_frontmatter where
  "ex_meta = \<lparr>nf_id = YNone, nf_title = YStr ''Plan'', nf_tags = [], nf_created_at = YNone, nf_updated_at = YNone,
     nf_occurred_at = Some ''2026-01-02'', nf_period = None, nf_extras = [(YStr ''mood'', YInt 3)],
     nf_temporal_dropped = [''period'']\<rparr>"

lemma ex_parse: "parse_frontmatter ex_md ''x'' = Inr (ex_meta, ''x'')"
  by code_simp

lemma ex_no_date: "dict_get ''occurred_at'' YNone ex_md \<noteq> YDate d"
  by (simp add: ex_md_def dict_get_def)

theorem parse_frontmatter_lenient_witness:
  "nf_extras ex_meta = [(YStr ''mood'', YInt 3)] \<and> mk_frontmatter ex_meta = Inr ex_meta"
proof -
  have "nf_extras ex_meta = [(YStr ''mood'', YInt 3)]" by (simp add: ex_meta_def)
  then show ?thesis
    using parse_frontmatter_lenient [of ex_md "''x''"] ex_no_date ex_parse by auto
qed


theorem update_temporal_sound_witness:
  "update_temporal ex_meta (None, Some ''2026-W01'') None None False = Inr (Some ''2026-01-02'', Some ''2026-W01'') \<and>
   \<not> temporal_ok (Some ''2026-01-02'') (Some ''2026-W01'')"
proof -
  have row: "temporal_ok None (Some ''2026-W01'')" unfolding temporal_ok_def by code_simp
  have u: "update_temporal ex_meta (None, Some ''2026-W01'') None None False = Inr (Some ''2026-01-02'', Some ''2026-W01'')"
    by code_simp
  have "nf_temporal_dropped ex_meta = [''period''] \<and> nf_occurred_at ex_meta \<noteq> None" by (simp add: ex_meta_def)
  then show ?thesis
    using update_temporal_sound [OF ex_parse row _ u] ex_no_date u by simp
qed

end
