(* ===== verification/Markdown_Tokens.thy ===== *)
theory Markdown_Tokens
  imports Periods
begin

section \<open>Markdown token streams\<close>

text \<open>
  Models \<open>markdown/_tokens.py\<close>. The CommonMark parser is the \<open>markdown_it\<close> package, a parameter
  \<open>md_parse\<close> from the text to its tokens; of a token the sources read the type, the tag, the
  nesting level, the source lines, the content, the metadata and the children. \<open>headings_wf\<close> says
  what the clients rely on of the line numbers the parser reports.
\<close>

datatype token = Token (tk_type: string) (tk_tag: string) (tk_level: nat) (tk_map: "(nat \<times> nat) option")
  (tk_content: string) (tk_meta: "(string \<times> string option) list") (tk_children: "token list")

record heading =
  h_level :: nat
  h_text :: string
  h_open_line :: nat
  h_body_line :: nat

text \<open>\<^const>\<open>None\<close> is the \<open>IndexError\<close> of \<open>tokens[i + 1]\<close> at the end of the stream.\<close>

fun iter_headings :: "bool \<Rightarrow> token list \<Rightarrow> heading list option" where
  "iter_headings top_level_only [] = Some []"
| "iter_headings top_level_only (tok # rest) =
     (case tk_map tok of
        None \<Rightarrow> iter_headings top_level_only rest
      | Some (l0, l1) \<Rightarrow>
          if tk_type tok \<noteq> ''heading_open'' \<or> top_level_only \<and> tk_level tok \<noteq> 0
          then iter_headings top_level_only rest
          else (case rest of
              [] \<Rightarrow> None
            | inline # _ \<Rightarrow> map_option ((#) \<lparr>h_level = nat (digit_val (tk_tag tok ! 1)),
                h_text = py_strip (tk_content inline), h_open_line = l0, h_body_line = l1\<rparr>)
                (iter_headings top_level_only rest)))"

text \<open>The ends of the matches of \<open>\\r\\n?|\\n\<close>.\<close>

fun newline_ends :: "nat \<Rightarrow> string \<Rightarrow> nat list" where
  "newline_ends i [] = []"
| "newline_ends i (c # s) =
     (if c = CHR 0x0D then
        (case s of [] \<Rightarrow> [Suc i]
         | d # s' \<Rightarrow> if d = CHR 0x0A then Suc (Suc i) # newline_ends (Suc (Suc i)) s'
                      else Suc i # newline_ends (Suc i) s)
      else if c = CHR 0x0A then Suc i # newline_ends (Suc i) s
      else newline_ends (Suc i) s)"

definition line_offsets :: "string \<Rightarrow> nat list" where
  "line_offsets text = (let offsets = 0 # newline_ends 0 text
     in if last offsets \<noteq> length text then offsets @ [length text] else offsets)"

fun walk_tokens :: "token list \<Rightarrow> token list" and walk_token :: "token \<Rightarrow> token list" where
  "walk_tokens [] = []"
| "walk_tokens (t # ts) = walk_token t @ walk_tokens ts"
| "walk_token (Token ty tag lv mp ct mt ch) = Token ty tag lv mp ct mt ch # walk_tokens ch"

definition extract_meta :: "(string \<Rightarrow> token list) \<Rightarrow> string \<Rightarrow> string \<Rightarrow> (string \<times> string option) list list" where
  "extract_meta md_parse body token_type =
     map tk_meta (filter (\<lambda>t. tk_type t = token_type) (walk_tokens (md_parse body)))"

subsection \<open>Line offsets\<close>

lemma newline_ends_bounds:
  "sorted_wrt (<) (newline_ends i s) \<and> (\<forall>x\<in>set (newline_ends i s). i < x \<and> x \<le> i + length s)"
proof (induction i s rule: newline_ends.induct)
  case (1 i)
  then show ?case by simp
next
  case (2 i c s)
  show ?case
  proof (cases "c = CHR 0x0D")
    case True
    then show ?thesis using 2 by (cases s) (fastforce split: if_splits)+
  next
    case False
    then show ?thesis using 2 by (fastforce split: if_splits)
  qed
qed

lemma sorted_le_last: "sorted_wrt (<) (xs :: nat list) \<Longrightarrow> x \<in> set xs \<Longrightarrow> x \<le> last xs"
  by (induction xs) (auto intro: less_imp_le)

lemma line_offsets_sorted: "sorted_wrt (<) (line_offsets text)" "\<forall>x\<in>set (line_offsets text). x \<le> length text"
  "hd (line_offsets text) = 0" "last (line_offsets text) = length text" "line_offsets text \<noteq> []"
proof -
  let ?o = "0 # newline_ends 0 text"
  have offs: "sorted_wrt (<) ?o" "\<forall>x\<in>set ?o. x \<le> length text"
    using newline_ends_bounds [of 0 "text"] by auto
  have "last ?o \<in> set ?o" by (rule last_in_set) simp
  then have lt: "\<forall>x\<in>set ?o. x < length text" if "last ?o \<noteq> length text"
    using that offs sorted_le_last [OF offs(1)] by (metis le_neq_implies_less order_le_less_trans)
  show "sorted_wrt (<) (line_offsets text)"
    using offs(1) lt unfolding line_offsets_def Let_def by (auto simp: sorted_wrt_append)
  show "\<forall>x\<in>set (line_offsets text). x \<le> length text"
    using offs(2) unfolding line_offsets_def Let_def by auto
  show "hd (line_offsets text) = 0" "line_offsets text \<noteq> []"
    unfolding line_offsets_def Let_def by auto
  show "last (line_offsets text) = length text"
    unfolding line_offsets_def Let_def by simp
qed

text \<open>The lines the parser reports for headings: each heading ends after it starts and not after
  the next one starts.\<close>

definition headings_wf :: "heading list \<Rightarrow> bool" where
  "headings_wf hs \<longleftrightarrow> (\<forall>h\<in>set hs. h_open_line h < h_body_line h) \<and>
     sorted_wrt (\<lambda>a b. h_body_line a \<le> h_open_line b) hs"

end
