(* ===== verification/Note_Edit.thy ===== *)
theory Note_Edit
  imports Markdown_Tokens
begin

section \<open>Editing a note's body\<close>

text \<open>
  Models \<open>markdown/note_edit.py\<close> and \<open>markdown/outline.py\<close>: the sections of a document, the seven
  edit modes with their parameter checks, and the outline. \<open>md_parse\<close> is the CommonMark parser.
  Errors carry the message text where the source computes one; \<open>None\<close> of \<open>str.find\<close> is -1.
\<close>

datatype edit_error =
    HeadingNotFoundError string
  | HeadingAmbiguousError nat
  | AnchorNotFoundError
  | AnchorAmbiguousError string
  | ReplaceAllNotAllowed
  | ForeignParameter string
  | MissingParameter string
  | TokenIndexError

datatype edit_mode = Overwrite | Append | Prepend | ReplaceSection | ReplaceText | InsertAfter | DeleteText

record edit_spec =
  es_mode :: edit_mode
  es_content :: "string option"
  es_old_str :: "string option"
  es_new_str :: "string option"
  es_target_heading :: "string option"
  es_replace_all :: bool

record edit_result =
  er_body :: string
  er_replaced :: "nat option"

record section_span =
  s_level :: nat
  s_heading_text :: string
  s_heading_start :: nat
  s_heading_end :: nat
  s_body_start :: nat
  s_body_end :: nat
  s_heading_line :: nat

abbreviation nl :: char where "nl \<equiv> CHR 0x0A"

subsection \<open>Sections\<close>

definition line_offset :: "string \<Rightarrow> nat \<Rightarrow> nat" where
  "line_offset markdown line =
     (if line < length (line_offsets markdown) then line_offsets markdown ! line else length markdown)"

text \<open>The end of a section's body: the start of the next heading of the same or a higher level.\<close>

definition body_end_of :: "string \<Rightarrow> heading \<Rightarrow> heading list \<Rightarrow> nat" where
  "body_end_of markdown h later = (case find (\<lambda>g. h_level g \<le> h_level h) later of
      None \<Rightarrow> length markdown
    | Some g \<Rightarrow> line_offset markdown (h_open_line g))"

fun sections_of :: "string \<Rightarrow> heading list \<Rightarrow> section_span list" where
  "sections_of markdown [] = []"
| "sections_of markdown (h # later) =
     \<lparr>s_level = h_level h, s_heading_text = h_text h,
      s_heading_start = line_offset markdown (h_open_line h),
      s_heading_end = line_offset markdown (h_body_line h),
      s_body_start = line_offset markdown (h_body_line h),
      s_body_end = body_end_of markdown h later,
      s_heading_line = h_open_line h\<rparr> # sections_of markdown later"

definition parse_sections :: "(string \<Rightarrow> token list) \<Rightarrow> string \<Rightarrow> edit_error + section_span list" where
  "parse_sections md_parse markdown = (case iter_headings True (md_parse markdown) of
      None \<Rightarrow> Inl TokenIndexError
    | Some hs \<Rightarrow> Inr (sections_of markdown hs))"

definition strip_hashes :: "string \<Rightarrow> string" where
  "strip_hashes s = py_strip (lstrip_by (\<lambda>c. c = CHR ''#'') s)"

definition find_section_by_heading :: "section_span list \<Rightarrow> string \<Rightarrow> edit_error + section_span" where
  "find_section_by_heading sections heading =
     (case filter (\<lambda>s. py_strip (s_heading_text s) = strip_hashes heading) sections of
        [] \<Rightarrow> Inl (HeadingNotFoundError (join '', '' (map s_heading_text sections)))
      | [s] \<Rightarrow> Inr s
      | ms \<Rightarrow> Inl (HeadingAmbiguousError (length ms)))"

subsection \<open>Anchors\<close>

lemma find_from_Some_ge: "find_from body needle start = Some i \<Longrightarrow> start \<le> i \<and> i \<le> length body"
  by (auto simp: find_from_def split: if_splits dest!: find_sub_Some)

text \<open>The loop of \<open>_find_all\<close> from \<open>start\<close>.\<close>

function find_all_from :: "string \<Rightarrow> string \<Rightarrow> nat \<Rightarrow> nat list" where
  "find_all_from body needle start = (case find_from body needle start of
      None \<Rightarrow> []
    | Some i \<Rightarrow> i # find_all_from body needle (i + max (length needle) 1))"
  by pat_completeness auto
termination
  by (relation "measure (\<lambda>(body, needle, start). Suc (length body) - start)")
     (auto dest!: find_from_Some_ge)

declare find_all_from.simps [simp del]

definition find_all :: "string \<Rightarrow> string \<Rightarrow> nat list" where
  "find_all body needle = find_all_from body needle 0"

definition ambiguous_line :: "string \<Rightarrow> string \<Rightarrow> nat \<Rightarrow> string" where
  "ambiguous_line body needle pos =
     (let before = take pos body;
          line = length (filter (\<lambda>c. c = nl) before) + 1;
          col_start = (if nl \<in> set before then pos - length (takeWhile (\<lambda>c. c \<noteq> nl) (rev before)) else 0);
          column = length (drop col_start before) + 1;
          ctx_start = pos - 20;
          ctx_end = min (length body) (pos + length needle + 20);
          context = concat (map (\<lambda>c. if c = nl then [CHR 0x5C, CHR ''n''] else [c]) (drop ctx_start (take ctx_end body)))
      in ''  line '' @ dec line @ '', col '' @ dec column @ '': ...'' @ context @ ''...'')"

definition format_ambiguous :: "string \<Rightarrow> string \<Rightarrow> nat list \<Rightarrow> string" where
  "format_ambiguous body needle positions =
     join [nl] ((''old_str is ambiguous: '' @ dec (length positions) @ '' matches:'')
                # map (ambiguous_line body needle) positions)"

definition ensure_nl :: "string \<Rightarrow> string" where
  "ensure_nl s = (if s \<noteq> [] \<and> last s = nl then s else s @ [nl])"

definition locate_unique :: "string \<Rightarrow> string \<Rightarrow> edit_error + nat" where
  "locate_unique body needle = (case find_all body needle of
      [] \<Rightarrow> Inl AnchorNotFoundError
    | [p] \<Rightarrow> Inr p
    | ps \<Rightarrow> Inl (AnchorAmbiguousError (format_ambiguous body needle ps)))"

definition replace_text_all :: "string \<Rightarrow> string \<Rightarrow> string \<Rightarrow> edit_error + (string \<times> nat)" where
  "replace_text_all body old new = (case find_all body old of
      [] \<Rightarrow> Inl AnchorNotFoundError
    | ps \<Rightarrow> Inr (py_replace old new body, length ps))"

subsection \<open>The transforms\<close>

definition splice_block :: "string \<Rightarrow> string \<Rightarrow> string \<Rightarrow> string" where
  "splice_block pre inserted remainder =
     (let r = ensure_nl (ensure_nl pre @ inserted)
      in (if remainder \<noteq> [] then r @ [nl] else r) @ remainder)"

definition append_content :: "(string \<Rightarrow> token list) \<Rightarrow> string \<Rightarrow> string \<Rightarrow> string option \<Rightarrow> edit_error + string" where
  "append_content md_parse body txt heading = (case heading of
      None \<Rightarrow> Inr (splice_block body txt [])
    | Some h \<Rightarrow> (case parse_sections md_parse body of Inl e \<Rightarrow> Inl e | Inr ss \<Rightarrow>
        (case find_section_by_heading ss h of Inl e \<Rightarrow> Inl e | Inr s \<Rightarrow>
           let section_body = drop (s_body_start s) (take (s_body_end s) body);
               content_end = s_body_start s + length (py_rstrip section_body)
           in Inr (splice_block (take content_end body) txt (drop (s_body_end s) body)))))"

definition prepend_content :: "(string \<Rightarrow> token list) \<Rightarrow> string \<Rightarrow> string \<Rightarrow> string option \<Rightarrow> edit_error + string" where
  "prepend_content md_parse body txt heading = (case heading of
      None \<Rightarrow>
        let r = ensure_nl txt; trimmed = lstrip_by (\<lambda>c. c = nl) body
        in Inr (if trimmed \<noteq> [] then ensure_nl (r @ trimmed) else r)
    | Some h \<Rightarrow> (case parse_sections md_parse body of Inl e \<Rightarrow> Inl e | Inr ss \<Rightarrow>
        (case find_section_by_heading ss h of Inl e \<Rightarrow> Inl e | Inr s \<Rightarrow>
           let pos = s_heading_end s
           in Inr (ensure_nl (ensure_nl (take pos body) @ txt) @ drop pos body))))"

definition without_heading :: "string \<Rightarrow> string \<Rightarrow> string" where
  "without_heading heading txt = (case find_from txt [nl] 0 of
      None \<Rightarrow> txt
    | Some i \<Rightarrow>
        let first_line = py_lstrip (take i txt)
        in if prefix ''#'' first_line \<and> strip_hashes first_line = strip_hashes heading
           then drop (Suc i) txt else txt)"

definition replace_section :: "(string \<Rightarrow> token list) \<Rightarrow> string \<Rightarrow> string \<Rightarrow> string \<Rightarrow> edit_error + string" where
  "replace_section md_parse body heading txt = (case parse_sections md_parse body of Inl e \<Rightarrow> Inl e | Inr ss \<Rightarrow>
     (case find_section_by_heading ss heading of Inl e \<Rightarrow> Inl e | Inr s \<Rightarrow>
        Inr (splice_block (take (s_heading_end s) body) (without_heading heading txt) (drop (s_body_end s) body))))"

definition replace_text :: "string \<Rightarrow> string \<Rightarrow> string \<Rightarrow> edit_error + string" where
  "replace_text body old new = (case locate_unique body old of
      Inl e \<Rightarrow> Inl e
    | Inr pos \<Rightarrow> Inr (take pos body @ new @ drop (pos + length old) body))"

definition ends_nl :: "string \<Rightarrow> bool" where
  "ends_nl s \<longleftrightarrow> s \<noteq> [] \<and> last s = nl"

definition insert_after :: "string \<Rightarrow> string \<Rightarrow> string \<Rightarrow> edit_error + string" where
  "insert_after body anchor txt = (case locate_unique body anchor of
      Inl e \<Rightarrow> Inl e
    | Inr p \<Rightarrow>
        let pos = p + length anchor;
            r1 = take pos body;
            r2 = (if \<not> ends_nl r1 \<and> \<not> prefix [nl] txt then r1 @ [nl] else r1);
            r3 = r2 @ txt;
            r4 = (if \<not> ends_nl r3 \<and> \<not> prefix [nl] (drop pos body) then r3 @ [nl] else r3)
        in Inr (r4 @ drop pos body))"

subsection \<open>Dispatch\<close>

definition accepts :: "edit_mode \<Rightarrow> string list" where
  "accepts mode = (case mode of
      Overwrite \<Rightarrow> [''content'']
    | Append \<Rightarrow> [''content'', ''target_heading'']
    | Prepend \<Rightarrow> [''content'', ''target_heading'']
    | ReplaceSection \<Rightarrow> [''content'', ''target_heading'']
    | ReplaceText \<Rightarrow> [''old_str'', ''new_str'']
    | InsertAfter \<Rightarrow> [''old_str'', ''new_str'']
    | DeleteText \<Rightarrow> [''old_str''])"

definition reject_foreign :: "edit_mode \<Rightarrow> (string \<times> string option) list \<Rightarrow> edit_error option" where
  "reject_foreign mode params =
     map_option (\<lambda>(name, v). ForeignParameter name)
       (find (\<lambda>(name, v). v \<noteq> None \<and> name \<notin> set (accepts mode)) params)"

definition require :: "string \<Rightarrow> string option \<Rightarrow> edit_error + string" where
  "require name v = (case v of None \<Rightarrow> Inl (MissingParameter name)
     | Some s \<Rightarrow> if s = [] then Inl (MissingParameter name) else Inr s)"

definition text_edit :: "string \<Rightarrow> string \<Rightarrow> string \<Rightarrow> bool \<Rightarrow> edit_error + edit_result" where
  "text_edit body anchor replacement all =
     (if all then (case replace_text_all body anchor replacement of
          Inl e \<Rightarrow> Inl e | Inr (b, n) \<Rightarrow> Inr \<lparr>er_body = b, er_replaced = Some n\<rparr>)
      else (case replace_text body anchor replacement of
          Inl e \<Rightarrow> Inl e | Inr b \<Rightarrow> Inr \<lparr>er_body = b, er_replaced = None\<rparr>))"

definition body_result :: "edit_error + string \<Rightarrow> edit_error + edit_result" where
  "body_result r = (case r of Inl e \<Rightarrow> Inl e | Inr b \<Rightarrow> Inr \<lparr>er_body = b, er_replaced = None\<rparr>)"

definition apply_edit :: "(string \<Rightarrow> token list) \<Rightarrow> string \<Rightarrow> edit_spec \<Rightarrow> edit_error + edit_result" where
  "apply_edit md_parse body spec =
     (if es_replace_all spec \<and> es_mode spec \<notin> {ReplaceText, DeleteText} then Inl ReplaceAllNotAllowed
      else (case reject_foreign (es_mode spec)
              [(''content'', es_content spec), (''old_str'', es_old_str spec), (''new_str'', es_new_str spec),
               (''target_heading'', es_target_heading spec)] of
        Some e \<Rightarrow> Inl e
      | None \<Rightarrow> (case es_mode spec of
          Overwrite \<Rightarrow> Inr \<lparr>er_body = (case es_content spec of None \<Rightarrow> body | Some c \<Rightarrow> c), er_replaced = None\<rparr>
        | Append \<Rightarrow> (case require ''content'' (es_content spec) of Inl e \<Rightarrow> Inl e | Inr c \<Rightarrow>
            body_result (append_content md_parse body c (es_target_heading spec)))
        | Prepend \<Rightarrow> (case require ''content'' (es_content spec) of Inl e \<Rightarrow> Inl e | Inr c \<Rightarrow>
            body_result (prepend_content md_parse body c (es_target_heading spec)))
        | ReplaceSection \<Rightarrow> (case require ''target_heading'' (es_target_heading spec) of Inl e \<Rightarrow> Inl e | Inr h \<Rightarrow>
            (case require ''content'' (es_content spec) of Inl e \<Rightarrow> Inl e | Inr c \<Rightarrow>
              body_result (replace_section md_parse body h c)))
        | ReplaceText \<Rightarrow> (case require ''old_str'' (es_old_str spec) of Inl e \<Rightarrow> Inl e | Inr old \<Rightarrow>
            (case require ''new_str'' (es_new_str spec) of Inl e \<Rightarrow> Inl e | Inr new \<Rightarrow>
              text_edit body old new (es_replace_all spec)))
        | InsertAfter \<Rightarrow> (case require ''old_str'' (es_old_str spec) of Inl e \<Rightarrow> Inl e | Inr old \<Rightarrow>
            (case require ''new_str'' (es_new_str spec) of Inl e \<Rightarrow> Inl e | Inr new \<Rightarrow>
              body_result (insert_after body old new)))
        | DeleteText \<Rightarrow> (case require ''old_str'' (es_old_str spec) of Inl e \<Rightarrow> Inl e | Inr old \<Rightarrow>
            text_edit body old [] (es_replace_all spec)))))"

subsection \<open>Outline\<close>

record outline_section =
  o_level :: nat
  o_heading :: string
  o_target_heading :: string
  o_line_start :: nat
  o_line_end :: nat
  o_char_start :: nat
  o_char_end :: nat
  o_section_chars :: int
  o_section_lines :: int
  o_ambiguous :: bool

definition line_number :: "string \<Rightarrow> nat \<Rightarrow> nat" where
  "line_number s char_index = length (filter (\<lambda>c. c = nl) (take (min char_index (length s)) s)) + 1"

definition outline_entry :: "string \<Rightarrow> section_span list \<Rightarrow> section_span \<Rightarrow> outline_section" where
  "outline_entry markdown sections s =
     (let heading = py_strip (s_heading_text s);
          texts = map (\<lambda>s. py_strip (s_heading_text s)) sections;
          line_start = s_heading_line s + 1;
          line_end = line_number markdown (max (s_body_end s - 1) (s_heading_start s))
      in \<lparr>o_level = s_level s, o_heading = heading,
          o_target_heading = replicate (s_level s) (CHR ''#'') @ '' '' @ heading,
          o_line_start = line_start, o_line_end = line_end,
          o_char_start = s_heading_start s, o_char_end = s_body_end s,
          o_section_chars = int (s_body_end s) - int (s_heading_start s),
          o_section_lines = int line_end - int line_start + 1,
          o_ambiguous = (1 < length (filter (\<lambda>t. t = heading) texts))\<rparr>)"

definition build_outline :: "(string \<Rightarrow> token list) \<Rightarrow> string \<Rightarrow> edit_error + (outline_section list \<times> nat \<times> nat)" where
  "build_outline md_parse markdown = (case parse_sections md_parse markdown of Inl e \<Rightarrow> Inl e | Inr sections \<Rightarrow>
     let preamble_chars = (case sections of [] \<Rightarrow> length markdown | s # _ \<Rightarrow> s_heading_start s);
         preamble_text = rstrip_by (\<lambda>c. c = nl) (take preamble_chars markdown);
         preamble_lines = (if preamble_text \<noteq> [] then length (filter (\<lambda>c. c = nl) preamble_text) + 1 else 0)
     in Inr (map (outline_entry markdown sections) sections, preamble_chars, preamble_lines))"

subsection \<open>Occurrences and replacement\<close>

lemma find_from_Some:
  assumes "find_from body needle start = Some i"
  shows "start \<le> i" "i + length needle \<le> length body" "take (length needle) (drop i body) = needle"
    "find_sub needle (drop start body) = Some (i - start)"
proof -
  obtain k where k: "find_sub needle (drop start body) = Some k" "i = start + k" "start \<le> length body"
    using assms by (auto simp: find_from_def split: if_splits)
  then show "start \<le> i" "find_sub needle (drop start body) = Some (i - start)" by simp_all
  have "prefix needle (drop k (drop start body))" using find_sub_Some [OF k(1)] by simp
  then have pre: "prefix needle (drop i body)" using k(2) by (simp add: add.commute)
  then show "take (length needle) (drop i body) = needle" by (auto simp: prefix_def)
  have "i \<le> length body" using find_from_Some_ge [OF assms] by simp
  then show "i + length needle \<le> length body" using prefix_length_le [OF pre] by simp
qed

lemma replace_ne_None: "find_sub old s = None \<Longrightarrow> replace_ne old new s = s"
  by (induction s) (auto split: if_splits)

lemma replace_ne_Some:
  "old \<noteq> [] \<Longrightarrow> find_sub old s = Some k \<Longrightarrow>
     replace_ne old new s = take k s @ new @ replace_ne old new (drop (k + length old) s)"
proof (induction s arbitrary: k)
  case Nil
  then show ?case by simp
next
  case (Cons x xs)
  show ?case
  proof (cases "prefix old (x # xs)")
    case True
    then have "k = 0" using Cons.prems by simp
    moreover have "drop (length old) (x # xs) = drop (length old - 1) xs"
      using Cons.prems(1) by (cases old) simp_all
    ultimately show ?thesis using True by simp
  next
    case False
    then obtain j where "find_sub old xs = Some j" "k = Suc j" using Cons.prems by auto
    then show ?thesis using False Cons.IH [of j] Cons.prems by simp
  qed
qed

lemma find_sub_prefix_free:
  assumes "find_sub needle s = Some k" "needle \<noteq> []"
  shows "find_sub needle (take k s) = None"
  unfolding find_sub_None
proof (intro allI impI)
  fix i
  assume "i \<le> length (take k s)"
  show "\<not> prefix needle (drop i (take k s))"
  proof (cases "i < k")
    case True
    then have "\<not> prefix needle (drop i s)" using find_sub_Some [OF assms(1)] by simp
    moreover have "prefix (drop i (take k s)) (drop i s)"
      by (metis take_drop take_is_prefix drop_take)
    ultimately show ?thesis using prefix_order.order_trans by blast
  next
    case False
    then show ?thesis using assms(2) by simp
  qed
qed

text \<open>The text splits at the positions the search reports into pieces free of the anchor; the same
  pieces, joined by the replacement, are what the replacement of all occurrences yields.\<close>

lemma find_all_pieces:
  assumes "old \<noteq> []" "start \<le> length body"
  shows "\<exists>pieces. length pieces = Suc (length (find_all_from body old start)) \<and>
    drop start body = join old pieces \<and> replace_ne old new (drop start body) = join new pieces \<and>
    (\<forall>p\<in>set pieces. find_sub old p = None) \<and>
    (\<forall>i js. find_all_from body old start = i # js \<longrightarrow> i = start + length (hd pieces))"
  using assms
proof (induction body old start rule: find_all_from.induct)
  case (1 body old start)
  show ?case
  proof (cases "find_from body old start")
    case None
    then have "find_sub old (drop start body) = None" using "1.prems" by (simp add: find_from_def)
    then show ?thesis
      using None by (intro exI [of _ "[drop start body]"]) (simp add: find_all_from.simps replace_ne_None)
  next
    case (Some i)
    note f = find_from_Some [OF Some]
    have next_start: "i + max (length old) 1 = i + length old" using "1.prems"(1) by (cases old) simp_all
    obtain ps where ps: "length ps = Suc (length (find_all_from body old (i + length old)))"
      "drop (i + length old) body = join old ps" "replace_ne old new (drop (i + length old) body) = join new ps"
      "\<forall>p\<in>set ps. find_sub old p = None"
      using "1.IH" [OF Some "1.prems"(1)] f(2) unfolding next_start by blast
    let ?p = "take (i - start) (drop start body)"
    have "drop start body = ?p @ drop i body"
      using f(1) by (metis append_take_drop_id drop_drop le_add_diff_inverse2)
    also have "drop i body = old @ drop (i + length old) body"
      using f(3) by (metis append_take_drop_id drop_drop add.commute)
    finally have d: "drop start body = ?p @ old @ join old ps" using ps(2) by simp
    have "replace_ne old new (drop start body) = ?p @ new @ join new ps"
      using replace_ne_Some [OF "1.prems"(1) f(4), of new] ps(3) f(1) by (simp add: add.commute)
    moreover have "find_sub old ?p = None"
      using find_sub_prefix_free [OF f(4) "1.prems"(1)] .
    moreover have "join sep (?p # ps) = ?p @ sep @ join sep ps" for sep
      using ps(1) by (cases ps) simp_all
    moreover have "find_all_from body old start = i # find_all_from body old (i + length old)"
      using Some next_start by (simp add: find_all_from.simps [of body old start])
    moreover have "i = start + length ?p" using f(1,2) by simp
    ultimately show ?thesis
      using d ps by (intro exI [of _ "?p # ps"]) (simp del: length_take length_drop)
  qed
qed


subsection \<open>Sections are nested spans\<close>

lemma line_offset_le: "line_offset markdown l \<le> length markdown"
  using line_offsets_sorted(2) [of markdown] by (simp add: line_offset_def)

lemma line_offset_mono: "k \<le> l \<Longrightarrow> line_offset markdown k \<le> line_offset markdown l"
proof (cases "k = l")
  case False
  assume "k \<le> l"
  with False have "k < l" by simp
  show ?thesis
  proof (cases "l < length (line_offsets markdown)")
    case True
    then show ?thesis
      using sorted_wrt_nth_less [OF line_offsets_sorted(1) \<open>k < l\<close> True] \<open>k < l\<close> by (simp add: line_offset_def)
  next
    case False
    then show ?thesis using line_offset_le [of markdown k] by (simp add: line_offset_def [of markdown l])
  qed
qed simp

lemma headings_wf_Cons:
  "headings_wf (h # hs) \<longleftrightarrow> h_open_line h < h_body_line h \<and> (\<forall>g\<in>set hs. h_body_line h \<le> h_open_line g) \<and> headings_wf hs"
  by (auto simp: headings_wf_def)

lemma body_end_bounds:
  assumes "headings_wf (h # hs)"
  shows "line_offset m (h_body_line h) \<le> body_end_of m h hs" "body_end_of m h hs \<le> length m"
  using assms line_offset_mono line_offset_le
  by (auto simp: body_end_of_def headings_wf_Cons find_Some_iff split: option.splits)

lemma sections_of_starts:
  assumes "headings_wf hs" "\<forall>g\<in>set hs. l \<le> h_open_line g" "s \<in> set (sections_of m hs)"
  shows "line_offset m l \<le> s_heading_start s"
  using assms by (induction hs) (auto simp: headings_wf_Cons line_offset_mono)

lemma sections_of_spans:
  assumes "headings_wf hs" "s \<in> set (sections_of m hs)"
  shows "s_heading_start s \<le> s_heading_end s \<and> s_heading_end s = s_body_start s \<and>
    s_body_start s \<le> s_body_end s \<and> s_body_end s \<le> length m"
  using assms
proof (induction hs)
  case (Cons h hs)
  then show ?case
    using body_end_bounds [OF Cons.prems(1), of m] by (auto simp: headings_wf_Cons line_offset_mono)
qed simp

text \<open>A later section starts after the body of an earlier one or ends within it.\<close>

lemma later_section:
  assumes "headings_wf (h # hs)" "s \<in> set (sections_of m hs)"
  shows "body_end_of m h hs \<le> s_heading_start s \<or> s_body_end s \<le> body_end_of m h hs"
proof (cases "find (\<lambda>g. h_level g \<le> h_level h) hs")
  case None
  then show ?thesis using sections_of_spans [of hs s m] assms by (simp add: body_end_of_def headings_wf_Cons)
next
  case (Some g)
  then have be: "body_end_of m h hs = line_offset m (h_open_line g)" by (simp add: body_end_of_def)
  have "headings_wf hs" using assms(1) by (simp add: headings_wf_Cons)
  then show ?thesis
    unfolding be using Some assms(2)
  proof (induction hs)
    case (Cons k hs)
    have kwf: "headings_wf hs" "\<forall>g\<in>set hs. h_open_line k \<le> h_open_line g"
      using Cons.prems(1) by (fastforce simp: headings_wf_Cons)+
    show ?case
    proof (cases "h_level k \<le> h_level h")
      case True
      then have "g = k" using Cons.prems(2) by simp
      then show ?thesis using Cons.prems(3) sections_of_starts [OF kwf] by auto
    next
      case False
      then have g: "find (\<lambda>g. h_level g \<le> h_level h) hs = Some g" using Cons.prems(2) by simp
      then have gin: "g \<in> set hs" "h_level g \<le> h_level h" by (auto simp: find_Some_iff)
      show ?thesis
      proof (cases "s \<in> set (sections_of m hs)")
        case True
        then show ?thesis using Cons.IH [OF kwf(1) g] by simp
      next
        case s: False
        have "body_end_of m k hs \<le> line_offset m (h_open_line g)"
        proof -
          have sorted: "sorted_wrt (\<lambda>a b. h_open_line a \<le> h_open_line b) hs"
            using kwf(1) unfolding headings_wf_def
            by (auto elim!: sorted_wrt_mono_rel [rotated])
          obtain i where i: "i < length hs" "hs ! i = g" using gin(1) by (metis in_set_conv_nth)
          have "h_level g \<le> h_level k" using gin(2) False by simp
          then obtain j where j: "j \<le> i" "find (\<lambda>g. h_level g \<le> h_level k) hs = Some (hs ! j)"
            using i by (metis (mono_tags, lifting) find_Some_iff find_None_iff nth_mem not_le option.exhaust)
          have "h_open_line (hs ! j) \<le> h_open_line g"
            using sorted i j(1) by (metis le_neq_implies_less order_refl sorted_wrt_nth_less)
          then show ?thesis using j(2) by (simp add: body_end_of_def line_offset_mono)
        qed
        then show ?thesis using s Cons.prems(3) by auto
      qed
    qed
  qed simp
qed

text \<open>The sections of a document. Each has its heading before its body and lies inside the
  text; of two sections, the later starts where the earlier has ended, or lies in the earlier one's
  body.\<close>

theorem sections_nested:
  assumes "iter_headings True (md_parse m) = Some hs" and "headings_wf hs"
  shows "\<exists>ss. parse_sections md_parse m = Inr ss \<and> length ss = length hs \<and>
    (\<forall>s\<in>set ss. s_heading_start s \<le> s_heading_end s \<and> s_heading_end s = s_body_start s \<and>
       s_body_start s \<le> s_body_end s \<and> s_body_end s \<le> length m) \<and>
    sorted_wrt (\<lambda>s t. s_heading_end s \<le> s_heading_start t \<and>
       (s_body_end s \<le> s_heading_start t \<or> s_body_end t \<le> s_body_end s)) ss"
proof -
  have "length (sections_of m hs) = length hs" by (induction hs) simp_all
  moreover have "sorted_wrt (\<lambda>s t. s_heading_end s \<le> s_heading_start t \<and>
       (s_body_end s \<le> s_heading_start t \<or> s_body_end t \<le> s_body_end s)) (sections_of m hs)"
    using assms(2)
  proof (induction hs)
    case (Cons h hs)
    then have wf: "headings_wf hs" "\<forall>g\<in>set hs. h_body_line h \<le> h_open_line g" by (simp_all add: headings_wf_Cons)
    then show ?case using Cons.IH later_section [OF Cons.prems] sections_of_starts [OF wf] by auto
  qed simp
  moreover have "parse_sections md_parse m = Inr (sections_of m hs)" using assms(1) by (simp add: parse_sections_def)
  ultimately show ?thesis using sections_of_spans [OF assms(2)] by blast
qed

subsection \<open>Section edits keep the rest of the note\<close>

lemma ensure_nl_prefix: "prefix s (ensure_nl s)"
  by (simp add: ensure_nl_def)

lemma splice_block_frame:
  "prefix pre (splice_block pre ins rest)" "suffix rest (splice_block pre ins rest)"
proof -
  have "prefix pre (ensure_nl pre @ ins)" by (simp add: ensure_nl_prefix prefix_prefix)
  then have pre: "prefix pre (ensure_nl (ensure_nl pre @ ins))"
    using ensure_nl_prefix prefix_order.order_trans by blast
  show "prefix pre (splice_block pre ins rest)"
    unfolding splice_block_def Let_def using pre by (simp add: prefix_prefix)
  show "suffix rest (splice_block pre ins rest)"
    unfolding splice_block_def Let_def by (auto simp: suffix_def)
qed

lemma find_section_unique:
  assumes "find_section_by_heading ss h = Inr s"
  shows "s \<in> set ss" "filter (\<lambda>s. py_strip (s_heading_text s) = strip_hashes h) ss = [s]"
proof -
  show f: "filter (\<lambda>s. py_strip (s_heading_text s) = strip_hashes h) ss = [s]"
    using assms by (auto simp: find_section_by_heading_def split: list.splits)
  then show "s \<in> set ss" by (metis filter_is_subset list.set_intros(1) subsetD)
qed

lemma parse_sections_spans:
  assumes "parse_sections md_parse m = Inr ss" "\<And>hs. iter_headings True (md_parse m) = Some hs \<Longrightarrow> headings_wf hs"
    and "s \<in> set ss"
  shows "s_heading_end s = s_body_start s" "s_body_start s \<le> s_body_end s" "s_body_end s \<le> length m"
proof -
  obtain hs where "iter_headings True (md_parse m) = Some hs" "ss = sections_of m hs"
    using assms(1) by (auto simp: parse_sections_def split: option.splits)
  then show "s_heading_end s = s_body_start s" "s_body_start s \<le> s_body_end s" "s_body_end s \<le> length m"
    using sections_of_spans assms(2,3) by blast+
qed

text \<open>An edit of a section leaves the rest of the note alone. When an append, prepend or
  section replacement under a heading succeeds, exactly one section has that heading, everything up
  to the end of its heading line stays at the start of the note, and everything behind its body
  stays at the end.\<close>

theorem section_edit_frame:
  assumes "apply_edit md_parse body spec = Inr r" and "es_mode spec \<in> {Append, Prepend, ReplaceSection}"
    and "es_target_heading spec = Some h"
    and "\<And>hs. iter_headings True (md_parse body) = Some hs \<Longrightarrow> headings_wf hs"
  shows "\<exists>ss s. parse_sections md_parse body = Inr ss \<and>
    filter (\<lambda>s. py_strip (s_heading_text s) = strip_hashes h) ss = [s] \<and>
    prefix (take (s_heading_end s) body) (er_body r) \<and> suffix (drop (s_body_end s) body) (er_body r)"
proof -
  have br: "body_result x = Inr r \<Longrightarrow> x = Inr (er_body r)" for x
    by (auto simp: body_result_def split: sum.splits)
  consider "es_mode spec = Append" | "es_mode spec = Prepend" | "es_mode spec = ReplaceSection"
    using assms(2) by blast
  then obtain c where c: "append_content md_parse body c (Some h) = Inr (er_body r) \<or>
      prepend_content md_parse body c (Some h) = Inr (er_body r) \<or>
      replace_section md_parse body h c = Inr (er_body r)"
  proof cases
    case 1
    then show ?thesis using assms(1,3) br that
      by (simp add: apply_edit_def split: if_splits option.splits sum.splits) blast
  next
    case 2
    then show ?thesis using assms(1,3) br that
      by (simp add: apply_edit_def split: if_splits option.splits sum.splits) blast
  next
    case 3
    then show ?thesis using assms(1,3) br that
      by (simp add: apply_edit_def require_def [of _ "Some h"] split: if_splits option.splits sum.splits) blast
  qed
  then obtain ss s where ss: "parse_sections md_parse body = Inr ss" and s: "find_section_by_heading ss h = Inr s"
    by (auto simp: append_content_def prepend_content_def replace_section_def split: sum.splits)
  note sp = parse_sections_spans [OF ss assms(4) find_section_unique(1) [OF s]]
  have "prefix (take (s_heading_end s) body) (er_body r) \<and> suffix (drop (s_body_end s) body) (er_body r)"
    using c
  proof (elim disjE)
    assume a: "append_content md_parse body c (Some h) = Inr (er_body r)"
    let ?e = "s_body_start s + length (py_rstrip (drop (s_body_start s) (take (s_body_end s) body)))"
    have "er_body r = splice_block (take ?e body) c (drop (s_body_end s) body)"
      using a ss s by (simp add: append_content_def Let_def)
    moreover have "prefix (take (s_heading_end s) body) (take ?e body)"
      using sp(1) by (simp add: take_add)
    ultimately show ?thesis using splice_block_frame prefix_order.order_trans by metis
  next
    assume p: "prepend_content md_parse body c (Some h) = Inr (er_body r)"
    let ?b = "take (s_heading_end s) body"
    have r: "er_body r = ensure_nl (ensure_nl ?b @ c) @ drop (s_heading_end s) body"
      using p ss s by (simp add: prepend_content_def Let_def)
    obtain t u where "ensure_nl ?b = ?b @ t" "ensure_nl (ensure_nl ?b @ c) = (ensure_nl ?b @ c) @ u"
      using ensure_nl_prefix by (metis prefixE)
    then have "prefix ?b (er_body r)" by (simp add: r)
    moreover have "drop (s_heading_end s) body = take (s_body_end s - s_heading_end s) (drop (s_heading_end s) body) @ drop (s_body_end s) body"
      using sp(1,2) by (metis append_take_drop_id drop_drop le_add_diff_inverse2)
    then have "suffix (drop (s_body_end s) body) (er_body r)" unfolding r by (metis append_assoc suffixI)
    ultimately show ?thesis ..
  next
    assume "replace_section md_parse body h c = Inr (er_body r)"
    then have "er_body r = splice_block (take (s_heading_end s) body) (without_heading h c) (drop (s_body_end s) body)"
      using ss s by (simp add: replace_section_def)
    then show ?thesis by (simp add: splice_block_frame)
  qed
  then show ?thesis using ss find_section_unique(2) [OF s] by blast
qed

subsection \<open>The outline addresses sections\<close>

lemma strip_hashes_target: "strip_hashes (replicate n (CHR ''#'') @ '' '' @ t) = py_strip t"
proof -
  have "lstrip_by (\<lambda>c. c = CHR ''#'') (replicate n (CHR ''#'') @ '' '' @ t) = '' '' @ t"
    by (induction n) (simp_all add: lstrip_by_def)
  moreover have "py_strip ('' '' @ t) = py_strip t" by (simp add: strip_by_def lstrip_by_def py_isspace_def)
  ultimately show ?thesis by (simp add: strip_hashes_def)
qed

text \<open>Outline targets. The \<open>target_heading\<close> of an outline entry, given back to an edit, finds
  the very section of the entry, and fails as ambiguous exactly for the entries marked so.\<close>

theorem outline_targets_resolve:
  assumes "parse_sections md_parse m = Inr ss" and "i < length ss"
  shows "\<exists>os n k. build_outline md_parse m = Inr (os, n, k) \<and> length os = length ss \<and>
    (if o_ambiguous (os ! i)
     then \<exists>j. find_section_by_heading ss (o_target_heading (os ! i)) = Inl (HeadingAmbiguousError j)
     else find_section_by_heading ss (o_target_heading (os ! i)) = Inr (ss ! i))"
proof -
  let ?h = "py_strip (s_heading_text (ss ! i))"
  let ?ms = "filter (\<lambda>s. py_strip (s_heading_text s) = ?h) ss"
  let ?os = "map (outline_entry m ss) ss"
  have t: "strip_hashes (o_target_heading (?os ! i)) = ?h"
    using assms(2) strip_hashes_target [of "s_level (ss ! i)" ?h] by (simp add: outline_entry_def Let_def)
  have amb: "o_ambiguous (?os ! i) \<longleftrightarrow> 1 < length ?ms"
    using assms(2) by (simp add: outline_entry_def Let_def filter_map comp_def)
  have mem: "ss ! i \<in> set ?ms" using assms(2) by simp
  have "if o_ambiguous (?os ! i)
     then \<exists>j. find_section_by_heading ss (o_target_heading (?os ! i)) = Inl (HeadingAmbiguousError j)
     else find_section_by_heading ss (o_target_heading (?os ! i)) = Inr (ss ! i)"
    unfolding amb find_section_by_heading_def t using mem
    by (cases ?ms rule: remdups_adj.cases) auto
  moreover have "\<exists>n k. build_outline md_parse m = Inr (?os, n, k)"
    using assms(1) by (simp add: build_outline_def Let_def)
  ultimately show ?thesis by (metis length_map)
qed

subsection \<open>Examples\<close>

definition ex_note :: string where
  "ex_note = ''# A'' @ [nl] @ ''x'' @ [nl] @ ''## B'' @ [nl] @ ''y'' @ [nl]"

definition ex_md_parse :: "string \<Rightarrow> token list" where
  "ex_md_parse _ = [Token ''heading_open'' ''h1'' 0 (Some (0, 1)) [] [] [], Token ''inline'' [] 1 (Some (0, 1)) ''A'' [] [],
     Token ''heading_open'' ''h2'' 0 (Some (2, 3)) [] [] [], Token ''inline'' [] 1 (Some (2, 3)) ''B'' [] []]"

definition ex_headings :: "heading list" where
  "ex_headings = [\<lparr>h_level = 1, h_text = ''A'', h_open_line = 0, h_body_line = 1\<rparr>,
     \<lparr>h_level = 2, h_text = ''B'', h_open_line = 2, h_body_line = 3\<rparr>]"

lemma ex_iter: "iter_headings True (ex_md_parse ex_note) = Some ex_headings" "headings_wf ex_headings"
  by code_simp+

definition ex_sections :: "section_span list" where
  "ex_sections = sections_of ex_note ex_headings"

lemma ex_parse_sections: "parse_sections ex_md_parse ex_note = Inr ex_sections"
  by (simp add: parse_sections_def ex_iter ex_sections_def)


theorem sections_nested_witness:
  "length ex_sections = 2 \<and> s_body_end (ex_sections ! 1) \<le> s_body_end (ex_sections ! 0)"
proof -
  have "length ex_sections = 2" "\<not> s_body_end (ex_sections ! 0) \<le> s_heading_start (ex_sections ! 1)"
    unfolding ex_sections_def by code_simp+
  moreover obtain ss where "parse_sections ex_md_parse ex_note = Inr ss"
    "sorted_wrt (\<lambda>s t. s_heading_end s \<le> s_heading_start t \<and>
       (s_body_end s \<le> s_heading_start t \<or> s_body_end t \<le> s_body_end s)) ss"
    using sections_nested [of ex_md_parse ex_note] ex_iter by blast
  ultimately show ?thesis
    using ex_parse_sections sorted_wrt_nth_less [of _ ex_sections 0 1] by auto
qed

definition ex_spec :: edit_spec where
  "ex_spec = \<lparr>es_mode = ReplaceSection, es_content = Some ''z'', es_old_str = None, es_new_str = None,
     es_target_heading = Some ''## B'', es_replace_all = False\<rparr>"

theorem section_edit_frame_witness:
  "\<exists>r. apply_edit ex_md_parse ex_note ex_spec = Inr r \<and> prefix (''# A'' @ [nl] @ ''x'' @ [nl] @ ''## B'' @ [nl]) (er_body r)"
proof -
  obtain r where r: "apply_edit ex_md_parse ex_note ex_spec = Inr r"
    by (cases "apply_edit ex_md_parse ex_note ex_spec") (code_simp, blast)
  have "es_mode ex_spec \<in> {Append, Prepend, ReplaceSection}" "es_target_heading ex_spec = Some ''## B''"
    by (simp_all add: ex_spec_def)
  from section_edit_frame [OF r this] ex_iter
  obtain s where s: "filter (\<lambda>s. py_strip (s_heading_text s) = strip_hashes ''## B'') ex_sections = [s]"
    "prefix (take (s_heading_end s) ex_note) (er_body r)"
    by (auto simp: ex_parse_sections)
  have "take (s_heading_end (hd (filter (\<lambda>s. py_strip (s_heading_text s) = strip_hashes ''## B'') ex_sections))) ex_note
      = ''# A'' @ [nl] @ ''x'' @ [nl] @ ''## B'' @ [nl]"
    unfolding ex_sections_def by code_simp
  with s r show ?thesis by simp
qed

theorem outline_targets_resolve_witness:
  "find_section_by_heading ex_sections ''## B'' = Inr (ex_sections ! 1)"
proof -
  have "1 < length ex_sections" unfolding ex_sections_def by code_simp
  from outline_targets_resolve [OF ex_parse_sections this] obtain os n k where
    os: "build_outline ex_md_parse ex_note = Inr (os, n, k)"
    "if o_ambiguous (os ! 1)
     then \<exists>j. find_section_by_heading ex_sections (o_target_heading (os ! 1)) = Inl (HeadingAmbiguousError j)
     else find_section_by_heading ex_sections (o_target_heading (os ! 1)) = Inr (ex_sections ! 1)"
    by blast
  have "os = map (outline_entry ex_note ex_sections) ex_sections"
    using os(1) ex_parse_sections by (simp add: build_outline_def Let_def)
  then have "os ! 1 = outline_entry ex_note ex_sections (ex_sections ! 1)" using \<open>1 < length ex_sections\<close> by simp
  moreover have "o_target_heading (outline_entry ex_note ex_sections (ex_sections ! 1)) = ''## B''"
    "\<not> o_ambiguous (outline_entry ex_note ex_sections (ex_sections ! 1))"
    unfolding ex_sections_def by code_simp+
  ultimately show ?thesis using os(2) by simp
qed

end
