(* ===== verification/Chunking.thy ===== *)
theory Chunking
  imports Markdown_Tokens
begin

section \<open>Chunking a note for the search index\<close>

text \<open>
  Models \<open>markdown/chunking.py\<close>: sections with breadcrumbs, merging of small sections, and the
  splitting of long bodies. The loop that cuts an overlong piece does not end for a size limit of
  zero, so it is a \<open>partial_function\<close>: \<^const>\<open>None\<close> is the value of a run that does not return. A
  sum inside is an exception. \<open>md_parse\<close> is the CommonMark parser.
\<close>

datatype chunk_error = SizesValueError | SectionIndexError

record chunk =
  c_ordinal :: nat
  c_header_path :: "string list"
  c_content :: string
  c_char_start :: nat
  c_char_end :: nat

record csection =
  cs_header_path :: "string list"
  cs_content :: string
  cs_char_start :: nat
  cs_char_end :: nat

abbreviation newline :: char where "newline \<equiv> CHR 0x0A"

definition FENCE_MARKERS :: "string list" where
  "FENCE_MARKERS = [[CHR 0x60, CHR 0x60, CHR 0x60], ''~~~'']"

definition DEFAULT_TARGET :: int where "DEFAULT_TARGET = 1400"
definition DEFAULT_HARD_MAX :: int where "DEFAULT_HARD_MAX = 2000"
definition DEFAULT_MIN :: int where "DEFAULT_MIN = 200"

subsection \<open>Sections\<close>

definition label :: "nat \<Rightarrow> string \<Rightarrow> string" where
  "label level t = replicate level (CHR ''#'') @ '' '' @ t"

definition path_with_title :: "string option \<Rightarrow> string list \<Rightarrow> string list" where
  "path_with_title title labels = (case title of
      Some (c # t) \<Rightarrow> if labels \<noteq> [] \<and> prefix ''# '' (hd labels) then labels else label 1 (c # t) # labels
    | _ \<Rightarrow> labels)"

text \<open>\<open>offsets[i]\<close>, which raises outside the list.\<close>

definition offset_at :: "nat list \<Rightarrow> nat \<Rightarrow> nat option" where
  "offset_at offsets i = (if i < length offsets then Some (offsets ! i) else None)"

definition slice :: "nat \<Rightarrow> nat \<Rightarrow> 'a list \<Rightarrow> 'a list" where
  "slice a b s = drop a (take b s)"

definition push_heading :: "heading \<Rightarrow> (nat \<times> string) list \<Rightarrow> (nat \<times> string) list" where
  "push_heading h stack =
     rev (dropWhile (\<lambda>(lv, lbl). h_level h \<le> lv) (rev stack)) @ [(h_level h, label (h_level h) (h_text h))]"

fun heading_sections ::
  "string \<Rightarrow> string option \<Rightarrow> nat list \<Rightarrow> (nat \<times> string) list \<Rightarrow> heading list \<Rightarrow> csection list option" where
  "heading_sections src title offsets stack [] = Some []"
| "heading_sections src title offsets stack (h # hs) =
     (let stack' = push_heading h stack;
          body_end_line = (case hs of [] \<Rightarrow> length offsets - 1 | g # _ \<Rightarrow> h_open_line g)
      in case (offset_at offsets (h_body_line h), offset_at offsets body_end_line) of
           (Some cs, Some ce) \<Rightarrow>
             map_option ((#) \<lparr>cs_header_path = path_with_title title (map snd stack'), cs_content = slice cs ce src,
                              cs_char_start = cs, cs_char_end = ce\<rparr>)
               (heading_sections src title offsets stack' hs)
         | _ \<Rightarrow> None)"

definition preamble :: "string \<Rightarrow> string option \<Rightarrow> nat list \<Rightarrow> heading list \<Rightarrow> csection list option" where
  "preamble src title offsets hs =
     (let first_body_start = (case hs of [] \<Rightarrow> length offsets - 1 | h # _ \<Rightarrow> h_open_line h)
      in if first_body_start = 0 then Some []
         else (case (offset_at offsets 0, offset_at offsets first_body_start) of
             (Some cs, Some ce) \<Rightarrow>
               Some (if py_strip (slice cs ce src) \<noteq> []
                     then [\<lparr>cs_header_path = path_with_title title [], cs_content = slice cs ce src,
                            cs_char_start = cs, cs_char_end = ce\<rparr>] else [])
           | _ \<Rightarrow> None))"

definition build_sections :: "(string \<Rightarrow> token list) \<Rightarrow> string \<Rightarrow> string option \<Rightarrow> chunk_error + csection list" where
  "build_sections md_parse src title = (case iter_headings False (md_parse src) of
      None \<Rightarrow> Inl SectionIndexError
    | Some hs \<Rightarrow> (case (preamble src title (line_offsets src) hs, heading_sections src title (line_offsets src) [] hs) of
        (Some pre, Some ss) \<Rightarrow> Inr (pre @ ss)
      | _ \<Rightarrow> Inl SectionIndexError))"

fun common_prefix :: "'a list \<Rightarrow> 'a list \<Rightarrow> 'a list" where
  "common_prefix (x # xs) (y # ys) = (if x \<noteq> y then [] else x # common_prefix xs ys)"
| "common_prefix _ _ = []"

text \<open>The loop of \<open>_merge_small\<close>: \<open>merged\<close> is the list built so far.\<close>

definition merge_step :: "nat \<Rightarrow> nat \<Rightarrow> csection list \<Rightarrow> csection \<Rightarrow> csection list" where
  "merge_step target min_size merged sec =
     (if merged \<noteq> [] \<and> length (cs_content (last merged)) + length (cs_content sec) \<le> target \<and>
         (length (cs_content (last merged)) < min_size \<or> length (cs_content sec) < min_size)
      then let prev = last merged
           in butlast merged @ [prev\<lparr>
                cs_content := rstrip_by (\<lambda>c. c = newline) (cs_content prev) @ [newline, newline] @
                              lstrip_by (\<lambda>c. c = newline) (cs_content sec),
                cs_header_path := common_prefix (cs_header_path prev) (cs_header_path sec),
                cs_char_end := cs_char_end sec\<rparr>]
      else merged @ [sec])"

definition merge_small :: "nat \<Rightarrow> nat \<Rightarrow> csection list \<Rightarrow> csection list" where
  "merge_small target min_size sections = foldl (merge_step target min_size) [] sections"

subsection \<open>Blocks\<close>

text \<open>\<open>str.splitlines\<close> on code points below 256.\<close>

definition line_boundary :: "char \<Rightarrow> bool" where
  "line_boundary c = (let n = code_point c in 10 \<le> n \<and> n \<le> 13 \<or> 28 \<le> n \<and> n \<le> 30 \<or> n = 133)"

fun splitlines_from :: "string \<Rightarrow> string \<Rightarrow> string list" where
  "splitlines_from acc [] = (if acc = [] then [] else [acc])"
| "splitlines_from acc (c # s) =
     (if line_boundary c then
        acc # (case s of [] \<Rightarrow> []
               | d # s' \<Rightarrow> if c = CHR 0x0D \<and> d = newline then splitlines_from [] s' else splitlines_from [] s)
      else splitlines_from (acc @ [c]) s)"

definition py_splitlines :: "string \<Rightarrow> string list" where
  "py_splitlines s = splitlines_from [] s"

record block_state =
  bs_blocks :: "string list"
  bs_buf :: "string list"
  bs_fence :: "string option"

definition flush :: "block_state \<Rightarrow> block_state" where
  "flush st = (if bs_buf st \<noteq> [] then st\<lparr>bs_blocks := bs_blocks st @ [join [newline] (bs_buf st)], bs_buf := []\<rparr> else st)"

definition block_line :: "block_state \<Rightarrow> string \<Rightarrow> block_state" where
  "block_line st line =
     (let stripped = py_lstrip line
      in case bs_fence st of
           Some marker \<Rightarrow>
             let st' = st\<lparr>bs_buf := bs_buf st @ [line]\<rparr>
             in if prefix marker stripped then (flush st')\<lparr>bs_fence := None\<rparr> else st'
         | None \<Rightarrow>
             (case find (\<lambda>m. prefix m stripped) FENCE_MARKERS of
                Some m \<Rightarrow> (let st' = flush st in st'\<lparr>bs_fence := Some m, bs_buf := bs_buf st' @ [line]\<rparr>)
              | None \<Rightarrow> if py_strip line = [] then flush st else st\<lparr>bs_buf := bs_buf st @ [line]\<rparr>))"

definition blocks :: "string \<Rightarrow> string list" where
  "blocks body = bs_blocks (flush (foldl block_line \<lparr>bs_blocks = [], bs_buf = [], bs_fence = None\<rparr> (py_splitlines body)))"

text \<open>\<open>_SENTENCE_RE.split\<close>: cut at every run of white space behind a full stop, an exclamation
  mark or a question mark. \<open>prev\<close> tells whether the character before is one of these.\<close>

definition sentence_end :: "char \<Rightarrow> bool" where
  "sentence_end c \<longleftrightarrow> c = CHR ''.'' \<or> c = CHR ''!'' \<or> c = CHR ''?''"

function split_sentences_from :: "bool \<Rightarrow> string \<Rightarrow> string \<Rightarrow> string list" where
  "split_sentences_from prev acc [] = [acc]"
| "split_sentences_from prev acc (c # s) =
     (if prev \<and> py_isspace c then acc # split_sentences_from False [] (dropWhile py_isspace s)
      else split_sentences_from (sentence_end c) (acc @ [c]) s)"
  by pat_completeness auto
termination
  by (relation "measure (\<lambda>(prev, acc, s). length s)") (auto simp: le_imp_less_Suc length_dropWhile_le)

definition split_sentences :: "string \<Rightarrow> string list" where
  "split_sentences s = split_sentences_from False [] s"

subsection \<open>Splitting\<close>

text \<open>\<open>while len(cur) > hard_max\<close>.\<close>

partial_function (option) hard_cut :: "nat \<Rightarrow> string list \<Rightarrow> string \<Rightarrow> (string list \<times> string) option" where
  "hard_cut hard_max pieces cur =
     (if hard_max < length cur then hard_cut hard_max (pieces @ [take hard_max cur]) (drop hard_max cur)
      else Some (pieces, cur))"

fun pack_units :: "nat \<Rightarrow> string \<Rightarrow> string list \<Rightarrow> string list \<Rightarrow> string \<Rightarrow> (string list \<times> string) option" where
  "pack_units hard_max sep [] pieces cur = Some (pieces, cur)"
| "pack_units hard_max sep (u # us) pieces cur =
     (let candidate = (if cur = [] then u else cur @ sep @ u);
          (pieces1, cur1) = (if length candidate \<le> hard_max \<or> cur = [] then (pieces, candidate) else (pieces @ [cur], u))
      in case hard_cut hard_max pieces1 cur1 of
           None \<Rightarrow> None
         | Some (pieces2, cur2) \<Rightarrow> pack_units hard_max sep us pieces2 cur2)"

definition end_piece :: "string list \<times> string \<Rightarrow> string list" where
  "end_piece st = (case st of (pieces, cur) \<Rightarrow> if cur \<noteq> [] then pieces @ [cur] else pieces)"

definition split_oversized_block :: "string \<Rightarrow> nat \<Rightarrow> string list option" where
  "split_oversized_block block hard_max =
     (let is_fence = (\<exists>m\<in>set FENCE_MARKERS. prefix m (py_lstrip block));
          units = (if is_fence then py_splitlines block else split_sentences block);
          sep = (if is_fence then [newline] else '' '')
      in map_option end_piece (pack_units hard_max sep units [] []))"

fun pack_blocks :: "nat \<Rightarrow> string list \<Rightarrow> string list \<Rightarrow> string \<Rightarrow> (string list \<times> string) option" where
  "pack_blocks hard_max [] pieces cur = Some (pieces, cur)"
| "pack_blocks hard_max (b # bs) pieces cur =
     (if hard_max < length b then
        (case split_oversized_block b hard_max of
           None \<Rightarrow> None
         | Some ps \<Rightarrow> pack_blocks hard_max bs (end_piece (pieces, cur) @ ps) [])
      else let candidate = (if cur = [] then b else cur @ [newline, newline] @ b)
           in if length candidate \<le> hard_max then pack_blocks hard_max bs pieces candidate
              else pack_blocks hard_max bs (pieces @ [cur]) b)"

definition split_body :: "string \<Rightarrow> nat \<Rightarrow> string list option" where
  "split_body body hard_max =
     (if length body \<le> hard_max then Some [body]
      else map_option end_piece (pack_blocks hard_max (blocks body) [] []))"

subsection \<open>Chunks\<close>

definition section_chunks :: "nat \<Rightarrow> csection \<Rightarrow> nat \<Rightarrow> chunk list option" where
  "section_chunks hard_max sec ordinal =
     (let body = strip_by (\<lambda>c. c = newline) (cs_content sec)
      in if py_strip body = [] then Some []
         else map_option (\<lambda>pieces.
             let kept = filter (\<lambda>p. py_strip p \<noteq> []) pieces
             in map (\<lambda>(i, piece). \<lparr>c_ordinal = ordinal + i, c_header_path = cs_header_path sec, c_content = piece,
                  c_char_start = cs_char_start sec, c_char_end = cs_char_end sec\<rparr>) (enumerate 0 kept))
           (split_body body hard_max))"

fun chunk_sections :: "nat \<Rightarrow> csection list \<Rightarrow> nat \<Rightarrow> chunk list option" where
  "chunk_sections hard_max [] ordinal = Some []"
| "chunk_sections hard_max (sec # secs) ordinal =
     (case section_chunks hard_max sec ordinal of
        None \<Rightarrow> None
      | Some cs \<Rightarrow> map_option ((@) cs) (chunk_sections hard_max secs (ordinal + length cs)))"

definition chunk_markdown ::
  "(string \<Rightarrow> token list) \<Rightarrow> string \<Rightarrow> string option \<Rightarrow> int \<Rightarrow> int \<Rightarrow> int \<Rightarrow> (chunk_error + chunk list) option" where
  "chunk_markdown md_parse src title target hard_max min_size =
     (if \<not> (0 \<le> min_size \<and> min_size \<le> target \<and> target \<le> hard_max) then Some (Inl SizesValueError)
      else if py_strip src = [] then Some (Inr [])
      else (case build_sections md_parse src title of
          Inl e \<Rightarrow> Some (Inl e)
        | Inr sections \<Rightarrow>
            map_option Inr (chunk_sections (nat hard_max) (merge_small (nat target) (nat min_size) sections) 0)))"

definition embedded_text :: "chunk \<Rightarrow> string" where
  "embedded_text c = (if c_header_path c = [] then c_content c
     else join [newline] (c_header_path c) @ [newline, newline] @ c_content c)"

subsection \<open>Visible text\<close>

text \<open>The characters that are not white space, which chunking must neither lose nor reorder.\<close>

definition visible :: "string \<Rightarrow> string" where
  "visible s = filter (\<lambda>c. \<not> py_isspace c) s"

abbreviation visible_all :: "string list \<Rightarrow> string" where
  "visible_all ss \<equiv> concat (map visible ss)"

lemma visible_append [simp]: "visible (s @ t) = visible s @ visible t"
  by (simp add: visible_def)

lemma visible_Nil [simp]: "visible [] = []"
  by (simp add: visible_def)

lemma visible_Cons: "visible (c # s) = (if py_isspace c then visible s else c # visible s)"
  by (simp add: visible_def)

lemma visible_space: "\<forall>c\<in>set s. py_isspace c \<Longrightarrow> visible s = []"
  by (simp add: visible_def)

lemma visible_join: "\<forall>c\<in>set sep. py_isspace c \<Longrightarrow> visible (join sep ss) = visible_all ss"
  by (induction sep ss rule: join.induct) (simp_all add: visible_space)

lemma newline_space [simp]: "py_isspace newline"
  by (simp add: py_isspace_def)

lemma visible_lstrip: "(\<And>c. P c \<Longrightarrow> py_isspace c) \<Longrightarrow> visible (lstrip_by P s) = visible s"
  unfolding lstrip_by_def by (induction s) (auto simp: visible_def)

lemma visible_rstrip: "(\<And>c. P c \<Longrightarrow> py_isspace c) \<Longrightarrow> visible (rstrip_by P s) = visible s"
  by (induction s rule: rev_induct) (auto simp: rstrip_by_snoc visible_def)

lemma visible_strip: "(\<And>c. P c \<Longrightarrow> py_isspace c) \<Longrightarrow> visible (strip_by P s) = visible s"
  by (simp add: strip_by_def visible_lstrip visible_rstrip)

lemma visible_strip_newlines [simp]:
  "visible (lstrip_by (\<lambda>c. c = newline) s) = visible s" "visible (rstrip_by (\<lambda>c. c = newline) s) = visible s"
  "visible (strip_by (\<lambda>c. c = newline) s) = visible s"
  by (rule visible_lstrip visible_rstrip visible_strip; simp)+

lemma py_strip_blank: "py_strip s = [] \<longleftrightarrow> visible s = []"
proof
  assume "visible s = []"
  then have "visible (py_strip s) = []" by (simp add: visible_strip)
  then show "py_strip s = []" using strip_by_hd [of py_isspace s] by (cases "py_strip s") (auto simp: visible_Cons)
qed (metis visible_Nil visible_strip)

lemma line_boundary_space: "line_boundary c \<Longrightarrow> py_isspace c"
  by (auto simp: line_boundary_def py_isspace_def Let_def)

lemma visible_splitlines: "visible_all (py_splitlines s) = visible s"
proof -
  have "visible_all (splitlines_from acc s) = visible acc @ visible s" for acc
  proof (induction acc s rule: splitlines_from.induct)
    case (2 acc c s)
    show ?case
    proof (cases "line_boundary c")
      case True
      then show ?thesis using 2 line_boundary_space [of c] by (cases s) (auto simp: visible_Cons)
    next
      case False
      then show ?thesis using 2 by (simp add: visible_Cons)
    qed
  qed simp
  then show ?thesis by (simp add: py_splitlines_def)
qed

lemma visible_sentences: "visible_all (split_sentences s) = visible s"
proof -
  have "visible_all (split_sentences_from prev acc s) = visible acc @ visible s" for prev acc
  proof (induction prev acc s rule: split_sentences_from.induct)
    case (2 prev acc c s)
    then show ?case
      using visible_lstrip [of py_isspace s] by (auto simp: visible_Cons lstrip_by_def)
  qed simp
  then show ?thesis by (simp add: split_sentences_def)
qed

definition block_visible :: "block_state \<Rightarrow> string" where
  "block_visible st = visible_all (bs_blocks st) @ visible_all (bs_buf st)"

lemma flush_visible: "block_visible (flush st) = block_visible st" "bs_buf (flush st) = []"
  by (auto simp: block_visible_def flush_def visible_join)

lemma block_line_visible: "block_visible (block_line st line) = block_visible st @ visible line"
proof (cases "bs_fence st")
  case (Some m)
  then show ?thesis
    using flush_visible(1) [of "st\<lparr>bs_buf := bs_buf st @ [line]\<rparr>"]
    by (auto simp: block_line_def Let_def block_visible_def)
next
  case None
  show ?thesis
  proof (cases "find (\<lambda>m. prefix m (py_lstrip line)) FENCE_MARKERS")
    case (Some m)
    then show ?thesis
      using None flush_visible [of st] by (simp add: block_line_def Let_def block_visible_def)
  next
    case none: None
    then show ?thesis
      using None flush_visible [of st] py_strip_blank [of line] by (simp add: block_line_def Let_def block_visible_def)
  qed
qed

lemma visible_blocks: "visible_all (blocks body) = visible body"
proof -
  have "block_visible (foldl block_line st ls) = block_visible st @ visible_all ls" for st ls
    by (induction ls arbitrary: st) (simp_all add: block_line_visible)
  then have "block_visible (flush (foldl block_line \<lparr>bs_blocks = [], bs_buf = [], bs_fence = None\<rparr> (py_splitlines body)))
      = visible body"
    by (simp add: flush_visible(1) visible_splitlines) (simp add: block_visible_def)
  then show ?thesis by (simp add: blocks_def block_visible_def flush_visible(2))
qed

subsection \<open>Splitting ends and keeps the text\<close>

lemma hard_cut_total:
  assumes "0 < hm"
  shows "\<exists>ps c. hard_cut hm pieces cur = Some (pieces @ ps, c) \<and> length c \<le> hm \<and>
    (\<forall>p\<in>set ps. length p \<le> hm) \<and> cur = concat ps @ c"
proof (induction cur arbitrary: pieces rule: length_induct)
  case (1 cur)
  show ?case
  proof (cases "hm < length cur")
    case True
    then have "length (drop hm cur) < length cur" using assms by simp
    with 1 obtain ps c where "hard_cut hm (pieces @ [take hm cur]) (drop hm cur) = Some ((pieces @ [take hm cur]) @ ps, c)"
      "length c \<le> hm" "\<forall>p\<in>set ps. length p \<le> hm" and d: "drop hm cur = concat ps @ c" by blast
    moreover have "cur = take hm cur @ concat ps @ c" using d by (metis append_take_drop_id)
    ultimately show ?thesis
      using True by (intro exI [of _ "take hm cur # ps"] exI [of _ c])
        (simp add: hard_cut.simps [of hm pieces cur])
  next
    case False
    then show ?thesis by (intro exI [of _ "[]"] exI [of _ cur]) (simp add: hard_cut.simps [of hm pieces cur])
  qed
qed

text \<open>A packing state: the finished pieces and the current one, all within the limit.\<close>

definition packed :: "nat \<Rightarrow> string \<Rightarrow> string list \<times> string \<Rightarrow> bool" where
  "packed hm v st \<longleftrightarrow> (\<forall>p\<in>set (fst st). length p \<le> hm) \<and> length (snd st) \<le> hm \<and>
     visible_all (fst st) @ visible (snd st) = v"

lemma packed_end: "packed hm v st \<Longrightarrow> (\<forall>p\<in>set (end_piece st). length p \<le> hm) \<and> visible_all (end_piece st) = v"
  by (cases st) (auto simp: packed_def end_piece_def)

lemma hard_cut_packed:
  assumes "0 < hm" "\<forall>p\<in>set pieces. length p \<le> hm"
  shows "\<exists>st. hard_cut hm pieces cur = Some st \<and> packed hm (visible_all pieces @ visible cur) st"
proof -
  obtain ps c where c: "hard_cut hm pieces cur = Some (pieces @ ps, c)" "length c \<le> hm"
    "\<forall>p\<in>set ps. length p \<le> hm" "cur = concat ps @ c" using hard_cut_total [OF assms(1)] by blast
  have "visible (concat ps) = visible_all ps" by (induction ps) simp_all
  then show ?thesis using c assms(2) by (auto simp: packed_def)
qed

lemma pack_units_packed:
  assumes "0 < hm" "\<forall>c\<in>set sep. py_isspace c" "packed hm v (pieces, cur)"
  shows "\<exists>st. pack_units hm sep us pieces cur = Some st \<and> packed hm (v @ visible_all us) st"
  using assms(3)
proof (induction us arbitrary: pieces cur v)
  case (Cons u us)
  let ?c = "if cur = [] then u else cur @ sep @ u"
  define st1 where "st1 = (if length ?c \<le> hm \<or> cur = [] then (pieces, ?c) else (pieces @ [cur], u))"
  have v1: "visible_all (fst st1) @ visible (snd st1) = v @ visible u" "\<forall>p\<in>set (fst st1). length p \<le> hm"
    using Cons.prems assms(2) by (auto simp: st1_def packed_def visible_space)
  obtain st2 where st2: "hard_cut hm (fst st1) (snd st1) = Some st2" "packed hm (v @ visible u) st2"
    using hard_cut_packed [OF assms(1) v1(2), of "snd st1"] v1(1) by auto
  obtain st where "pack_units hm sep us (fst st2) (snd st2) = Some st" "packed hm ((v @ visible u) @ visible_all us) st"
    using Cons.IH [of "v @ visible u" "fst st2" "snd st2"] st2(2) by auto
  moreover have "pack_units hm sep (u # us) pieces cur = pack_units hm sep us (fst st2) (snd st2)"
    using st2(1) unfolding pack_units.simps Let_def st1_def [symmetric] by (simp add: case_prod_beta)
  ultimately show ?case by simp
qed simp

lemma split_oversized_ok:
  assumes "0 < hm"
  shows "\<exists>ps. split_oversized_block b hm = Some ps \<and> (\<forall>p\<in>set ps. length p \<le> hm) \<and> visible_all ps = visible b"
proof -
  let ?f = "\<exists>m\<in>set FENCE_MARKERS. prefix m (py_lstrip b)"
  let ?units = "if ?f then py_splitlines b else split_sentences b" and ?sep = "if ?f then [newline] else '' ''"
  have "\<forall>c\<in>set ?sep. py_isspace c" "packed hm [] ([], [])" by (simp_all add: py_isspace_def packed_def)
  from pack_units_packed [OF assms this, of ?units] obtain st where
    "pack_units hm ?sep ?units [] [] = Some st" "packed hm (visible_all ?units) st" by auto
  moreover have "visible_all ?units = visible b" by (simp add: visible_splitlines visible_sentences)
  ultimately show ?thesis
    using packed_end [of hm "visible b" st] unfolding split_oversized_block_def Let_def by simp
qed

lemma pack_blocks_packed:
  assumes "0 < hm" "packed hm v (pieces, cur)"
  shows "\<exists>st. pack_blocks hm bs pieces cur = Some st \<and> packed hm (v @ visible_all bs) st"
  using assms(2)
proof (induction bs arbitrary: pieces cur v)
  case (Cons b bs)
  show ?case
  proof (cases "hm < length b")
    case True
    obtain ps where ps: "split_oversized_block b hm = Some ps" "\<forall>p\<in>set ps. length p \<le> hm" "visible_all ps = visible b"
      using split_oversized_ok [OF assms(1)] by blast
    have "packed hm (v @ visible b) (end_piece (pieces, cur) @ ps, [])"
      using packed_end [OF Cons.prems] ps by (auto simp: packed_def)
    from Cons.IH [OF this] show ?thesis using True ps(1) by simp
  next
    case False
    let ?c = "if cur = [] then b else cur @ [newline, newline] @ b"
    have vc: "visible ?c = visible cur @ visible b" by (simp add: visible_Cons)
    show ?thesis
    proof (cases "length ?c \<le> hm")
      case True
      then have "packed hm (v @ visible b) (pieces, ?c)" using Cons.prems vc by (auto simp: packed_def)
      from Cons.IH [OF this] show ?thesis using True False by (simp add: Let_def)
    next
      case long: False
      then have "packed hm (v @ visible b) (pieces @ [cur], b)" using Cons.prems False by (auto simp: packed_def)
      from Cons.IH [OF this] show ?thesis using long False by (simp add: Let_def)
    qed
  qed
qed simp

lemma split_body_ok:
  assumes "0 < hm"
  shows "\<exists>ps. split_body body hm = Some ps \<and> (\<forall>p\<in>set ps. length p \<le> hm) \<and> visible_all ps = visible body"
proof (cases "length body \<le> hm")
  case False
  have "packed hm [] ([], [])" by (simp add: packed_def)
  from pack_blocks_packed [OF assms this, of "blocks body"] obtain st where
    "pack_blocks hm (blocks body) [] [] = Some st" "packed hm (visible body) st" by (auto simp: visible_blocks)
  then show ?thesis using False packed_end by (auto simp: split_body_def)
qed (simp add: split_body_def)

subsection \<open>Chunks of a note\<close>

lemma section_chunks_ok:
  assumes "0 < hm"
  shows "\<exists>cs. section_chunks hm sec n = Some cs \<and> map c_ordinal cs = [n..<n + length cs] \<and>
    (\<forall>c\<in>set cs. length (c_content c) \<le> hm \<and> visible (c_content c) \<noteq> []) \<and>
    visible_all (map c_content cs) = visible (cs_content sec)"
proof -
  let ?body = "strip_by (\<lambda>c. c = newline) (cs_content sec)"
  have v: "visible ?body = visible (cs_content sec)" by simp
  show ?thesis
  proof (cases "py_strip ?body = []")
    case True
    then show ?thesis using v by (simp add: section_chunks_def py_strip_blank)
  next
    case False
    obtain ps where ps: "split_body ?body hm = Some ps" "\<forall>p\<in>set ps. length p \<le> hm" "visible_all ps = visible ?body"
      using split_body_ok [OF assms] by blast
    let ?kept = "filter (\<lambda>p. py_strip p \<noteq> []) ps"
    define cs where "cs = map (\<lambda>(i, piece). \<lparr>c_ordinal = n + i, c_header_path = cs_header_path sec, c_content = piece,
      c_char_start = cs_char_start sec, c_char_end = cs_char_end sec\<rparr>) (enumerate 0 ?kept)"
    have "section_chunks hm sec n = Some cs" using False ps(1) by (simp add: section_chunks_def Let_def cs_def)
    moreover have "map c_content cs = ?kept" unfolding cs_def by (rule nth_equalityI) (simp_all add: nth_enumerate_eq)
    moreover have "visible_all ?kept = visible_all ps" by (induction ps) (auto simp: py_strip_blank)
    moreover have "map c_ordinal cs = [n..<n + length cs]"
      unfolding cs_def by (rule nth_equalityI) (simp_all add: nth_enumerate_eq)
    moreover have "length (c_content c) \<le> hm \<and> visible (c_content c) \<noteq> []" if "c \<in> set cs" for c
    proof -
      have "c_content c \<in> set (map c_content cs)" using that by simp
      then have "c_content c \<in> set ?kept" using calculation(2) by metis
      then show ?thesis using ps(2) by (simp add: py_strip_blank)
    qed
    ultimately show ?thesis using ps(3) v by (metis (no_types))
  qed
qed

lemma chunk_sections_ok:
  assumes "0 < hm"
  shows "\<exists>cs. chunk_sections hm secs n = Some cs \<and> map c_ordinal cs = [n..<n + length cs] \<and>
    (\<forall>c\<in>set cs. length (c_content c) \<le> hm \<and> visible (c_content c) \<noteq> []) \<and>
    visible_all (map c_content cs) = visible_all (map cs_content secs)"
proof (induction secs arbitrary: n)
  case (Cons sec secs)
  obtain cs where cs: "section_chunks hm sec n = Some cs" "map c_ordinal cs = [n..<n + length cs]"
    "\<forall>c\<in>set cs. length (c_content c) \<le> hm \<and> visible (c_content c) \<noteq> []"
    "visible_all (map c_content cs) = visible (cs_content sec)"
    using section_chunks_ok [OF assms] by metis
  obtain ds where ds: "chunk_sections hm secs (n + length cs) = Some ds"
    "map c_ordinal ds = [n + length cs..<n + length cs + length ds]"
    "\<forall>c\<in>set ds. length (c_content c) \<le> hm \<and> visible (c_content c) \<noteq> []"
    "visible_all (map c_content ds) = visible_all (map cs_content secs)"
    using Cons.IH by metis
  have "map c_ordinal (cs @ ds) = [n..<n + length (cs @ ds)]"
    using cs(2) ds(2) upt_add_eq_append [of n "n + length cs" "length ds"] by (simp add: add.assoc)
  then show ?case using cs ds by (intro exI [of _ "cs @ ds"]) auto
qed simp

lemma merge_small_visible:
  "visible_all (map cs_content (merge_small target min_size secs)) = visible_all (map cs_content secs)"
proof -
  have step: "visible_all (map cs_content (merge_step target min_size m s)) =
      visible_all (map cs_content m) @ visible (cs_content s)" for m s
    by (cases m rule: rev_cases) (auto simp: merge_step_def Let_def visible_Cons)
  have "visible_all (map cs_content (foldl (merge_step target min_size) m secs)) =
      visible_all (map cs_content m) @ visible_all (map cs_content secs)" for m
    by (induction secs arbitrary: m) (simp_all add: step del: map_map)
  then show ?thesis by (simp add: merge_small_def)
qed

text \<open>The limit zero passes the check of the sizes, but then the cutting loop never ends.\<close>

lemma hard_cut_zero: "hard_cut 0 pieces cur = Some st \<Longrightarrow> cur = []"
proof -
  have "hm = 0 \<longrightarrow> cur = []" if "hard_cut hm pieces cur = Some st" for hm
    by (rule hard_cut.raw_induct [OF _ that]) (auto split: if_splits)
  then show "hard_cut 0 pieces cur = Some st \<Longrightarrow> cur = []" by blast
qed

lemma pack_units_zero: "pack_units 0 sep us pieces [] = Some st \<Longrightarrow> visible_all us = []"
proof (induction us arbitrary: pieces)
  case (Cons u us)
  from Cons.prems obtain st' where st': "hard_cut 0 pieces u = Some st'" by (auto split: option.splits)
  then have "u = []" by (rule hard_cut_zero)
  with Cons show ?case by (simp add: hard_cut.simps)
qed simp

lemma split_oversized_zero: "split_oversized_block b 0 = Some ps \<Longrightarrow> visible b = []"
  using visible_splitlines [of b] visible_sentences [of b]
  by (auto simp: split_oversized_block_def Let_def dest!: pack_units_zero split: if_splits)

lemma pack_blocks_zero: "pack_blocks 0 bs pieces [] = Some st \<Longrightarrow> visible_all bs = []"
proof (induction bs arbitrary: pieces)
  case (Cons b bs)
  then show ?case by (cases "b = []") (auto split: option.splits dest: split_oversized_zero)
qed simp

lemma split_body_zero: "split_body body 0 = Some ps \<Longrightarrow> visible body = []"
  using visible_blocks [of body] by (auto simp: split_body_def dest!: pack_blocks_zero split: if_splits)

lemma chunk_sections_zero: "chunk_sections 0 secs n = Some cs \<Longrightarrow> visible_all (map cs_content secs) = []"
proof (induction secs arbitrary: n cs)
  case (Cons sec secs)
  then obtain ds where "section_chunks 0 sec n = Some ds" by (auto split: option.splits)
  then have "visible (strip_by (\<lambda>c. c = newline) (cs_content sec)) = []"
    by (auto simp: section_chunks_def Let_def py_strip_blank dest!: split_body_zero split: if_splits)
  then show ?case using Cons by (auto split: option.splits)
qed simp

text \<open>C39: chunking ends and loses nothing. For a positive size limit the splitting returns; the
  chunks are numbered from zero without gaps, none is blank or longer than the limit, and their
  visible characters, in order, are exactly those of the sections. The limit zero is accepted too,
  but with anything visible to split the function never returns.\<close>

theorem chunk_markdown_complete:
  assumes "0 \<le> min_size" and "min_size \<le> target" and "target \<le> hard_max"
    and "py_strip src \<noteq> []" and "build_sections md_parse src title = Inr sections"
  shows "if 0 < hard_max
    then \<exists>cs. chunk_markdown md_parse src title target hard_max min_size = Some (Inr cs) \<and>
      map c_ordinal cs = [0..<length cs] \<and>
      (\<forall>c\<in>set cs. int (length (c_content c)) \<le> hard_max \<and> visible (c_content c) \<noteq> []) \<and>
      concat (map (\<lambda>c. visible (c_content c)) cs) = concat (map (\<lambda>s. visible (cs_content s)) sections)
    else concat (map (\<lambda>s. visible (cs_content s)) sections) \<noteq> [] \<longrightarrow>
      chunk_markdown md_parse src title target hard_max min_size = None"
proof -
  let ?secs = "merge_small (nat target) (nat min_size) sections"
  have cm: "chunk_markdown md_parse src title target hard_max min_size = map_option Inr (chunk_sections (nat hard_max) ?secs 0)"
    using assms by (simp add: chunk_markdown_def)
  have vs: "visible_all (map cs_content ss) = concat (map (\<lambda>s. visible (cs_content s)) ss)" for ss by (simp add: comp_def)
  show ?thesis
  proof (cases "0 < hard_max")
    case True
    then have "0 < nat hard_max" by simp
    from chunk_sections_ok [OF this, of ?secs 0] obtain cs where
      cs: "chunk_sections (nat hard_max) ?secs 0 = Some cs" "map c_ordinal cs = [0..<length cs]"
      "\<forall>c\<in>set cs. length (c_content c) \<le> nat hard_max \<and> visible (c_content c) \<noteq> []"
      "visible_all (map c_content cs) = visible_all (map cs_content sections)"
      unfolding merge_small_visible by auto
    then show ?thesis using True cm by (auto simp: comp_def le_nat_iff)
  next
    case False
    then have z: "nat hard_max = 0" by simp
    have "chunk_sections 0 ?secs 0 = None" if "concat (map (\<lambda>s. visible (cs_content s)) sections) \<noteq> []"
      using that chunk_sections_zero [of ?secs 0] merge_small_visible [of _ _ sections] unfolding vs
      by (cases "chunk_sections 0 ?secs 0") auto
    then show ?thesis using False cm z by simp
  qed
qed

subsection \<open>Example\<close>

definition ex_text :: string where "ex_text = ''ab cd'' @ [newline, newline] @ ''ef''"

lemma ex_build: "build_sections (\<lambda>_. []) ex_text (Some ''T'') =
    Inr [\<lparr>cs_header_path = [''# T''], cs_content = ex_text, cs_char_start = 0, cs_char_end = 9\<rparr>]"
  by code_simp

theorem chunk_markdown_complete_witness:
  "(\<exists>cs. chunk_markdown (\<lambda>_. []) ex_text (Some ''T'') 3 3 0 = Some (Inr cs) \<and>
      concat (map (\<lambda>c. visible (c_content c)) cs) = ''abcdef'') \<and>
   chunk_markdown (\<lambda>_. []) ex_text (Some ''T'') 0 0 0 = None"
proof -
  have ne: "py_strip ex_text \<noteq> []" by code_simp
  have v: "visible ex_text = ''abcdef''" by code_simp
  show ?thesis
    using chunk_markdown_complete [OF _ _ _ ne ex_build, of 0 3 3] chunk_markdown_complete [OF _ _ _ ne ex_build, of 0 0 0] v
    by auto
qed

end
