(* ===== verification/Tags.thy ===== *)
theory Tags
  imports Markdown_Tokens Paths
begin

section \<open>Tags\<close>

text \<open>
  Models \<open>markdown/tags.py\<close>: canonical tag paths, their ancestors, renaming of a path, the inline
  rule for \<open>#hashtags\<close> at a position, the collection of tags from the token stream and the rewriting
  of hashtags in a text.
\<close>

subsection \<open>Definitions\<close>

text \<open>The characters of a tag path: \<open>[\\w-]\<close>, and with the slash \<open>[\\w\\-/]\<close>.\<close>

definition tag_seg_char :: "char \<Rightarrow> bool" where
  "tag_seg_char c \<longleftrightarrow> py_isword c \<or> c = CHR ''-''"

definition tag_char :: "char \<Rightarrow> bool" where
  "tag_char c \<longleftrightarrow> tag_seg_char c \<or> c = CHR ''/''"

definition tag_path :: "string \<Rightarrow> bool" where
  "tag_path s \<longleftrightarrow> (\<forall>seg\<in>set (split_on (CHR ''/'') s). seg \<noteq> [] \<and> (\<forall>c\<in>set seg. tag_seg_char c))"

text \<open>\<open>_PATH_RE.match\<close>; the \<open>$\<close> also matches before a final newline.\<close>

definition path_re_matches :: "string \<Rightarrow> bool" where
  "path_re_matches s \<longleftrightarrow> tag_path s \<or> s \<noteq> [] \<and> last s = CHR 0x0A \<and> tag_path (butlast s)"

definition str_lower :: "string \<Rightarrow> string" where
  "str_lower s = map py_lower s"

definition normalize :: "string \<Rightarrow> string option" where
  "normalize raw =
     (let segs = path_segments (py_strip (lstrip_by (\<lambda>c. c = CHR ''#'') (py_strip raw)))
      in if segs = [] then None
         else let path = str_lower (join ''/'' segs) in if path_re_matches path then Some path else None)"

definition ancestors :: "string \<Rightarrow> string list" where
  "ancestors path = (let segs = path_segments path
     in map (\<lambda>i. join ''/'' (take (i + 1) segs)) [0..<length segs])"

definition remap_path :: "string \<Rightarrow> string \<Rightarrow> string \<Rightarrow> string option" where
  "remap_path path old new =
     (if path = old then Some new
      else if prefix (old @ ''/'') path then Some (new @ drop (length old) path)
      else None)"

definition tag_body_char :: "char \<Rightarrow> bool" where
  "tag_body_char c = (let n = code_point c in
     97 \<le> n \<and> n \<le> 122 \<or> 65 \<le> n \<and> n \<le> 90 \<or> 48 \<le> n \<and> n \<le> 57 \<or> c = CHR ''_'' \<or> c = CHR ''-'' \<or> c = CHR ''/'')"

definition is_word_char :: "char \<Rightarrow> bool" where
  "is_word_char c \<longleftrightarrow> py_isalnum c \<or> c = CHR ''_''"

text \<open>\<open>_inline_tag_rule\<close> at \<open>pos\<close>: the tag and the position behind it, or no match.\<close>

definition inline_tag_rule :: "string \<Rightarrow> nat \<Rightarrow> (string \<times> nat) option" where
  "inline_tag_rule src pos =
     (if src ! pos \<noteq> CHR ''#'' then None
      else if 0 < pos \<and> (is_word_char (src ! (pos - 1)) \<or> src ! (pos - 1) = CHR ''/'') then None
      else let body = takeWhile (\<lambda>c. tag_body_char c \<or> py_isalnum c) (drop (Suc pos) src)
           in case normalize body of None \<Rightarrow> None | Some t \<Rightarrow> Some (t, Suc pos + length body))"

text \<open>The tags of a text, from the tokens the inline rule pushed.\<close>

definition extract_inline_tags :: "(string \<Rightarrow> token list) \<Rightarrow> string \<Rightarrow> string set" where
  "extract_inline_tags md_parse body =
     set (map (\<lambda>m. case map_of m ''tag'' of Some (Some t) \<Rightarrow> t | _ \<Rightarrow> []) (extract_meta md_parse body ''inline_tag''))"

text \<open>The replacement of one match of \<open>_REWRITE_RE\<close> (\<open>body\<close> is its group), with the \<open>changed\<close>
  flag.\<close>

definition rewrite_match :: "(string \<Rightarrow> string option) \<Rightarrow> string \<Rightarrow> string \<times> bool" where
  "rewrite_match rewrite body = (case normalize body of
      None \<Rightarrow> (CHR ''#'' # body, False)
    | Some current \<Rightarrow> (case rewrite current of
        None \<Rightarrow> (CHR ''#'' # body, False)
      | Some new \<Rightarrow> if new = current then (CHR ''#'' # body, False) else (CHR ''#'' # new, True)))"

definition blocks_tag :: "char option \<Rightarrow> bool" where
  "blocks_tag prev = (case prev of None \<Rightarrow> False | Some c \<Rightarrow> py_isword c \<or> c = CHR ''/'')"

text \<open>\<open>_REWRITE_RE.sub\<close> from the left; \<open>prev\<close> is the character before, for the look-behind.\<close>

function rewrite_from :: "(string \<Rightarrow> string option) \<Rightarrow> char option \<Rightarrow> string \<Rightarrow> string \<times> bool" where
  "rewrite_from rewrite prev [] = ([], False)"
| "rewrite_from rewrite prev (c # s) =
     (let body = takeWhile tag_char s
      in if c = CHR ''#'' \<and> \<not> blocks_tag prev \<and> body \<noteq> []
         then let (out, ch) = rewrite_match rewrite body;
                  (out', ch') = rewrite_from rewrite (Some (last body)) (dropWhile tag_char s)
              in (out @ out', ch \<or> ch')
         else let (out', ch') = rewrite_from rewrite (Some c) s in (c # out', ch'))"
  by pat_completeness auto
termination
  by (relation "measure (\<lambda>(r, p, s). length s)") (auto simp: length_dropWhile_le le_imp_less_Suc)

definition rewrite_inline_tags :: "string \<Rightarrow> (string \<Rightarrow> string option) \<Rightarrow> string \<times> bool" where
  "rewrite_inline_tags body rewrite = rewrite_from rewrite None body"

subsection \<open>Canonical paths\<close>

lemma code_lower:
  "code_point (py_lower c) = (let n = code_point c in
     if 65 \<le> n \<and> n \<le> 90 \<or> 192 \<le> n \<and> n \<le> 222 \<and> n \<noteq> 215 then n + 32 else n)"
  by (simp add: py_lower_def Let_def)

lemma char_code: "c = d \<longleftrightarrow> code_point c = code_point d"
  by (metis char_of_char)

lemma lower_idem: "py_lower (py_lower c) = py_lower c"
  by (subst char_code) (auto simp: code_lower Let_def)

lemma word_code: "py_isword c \<longleftrightarrow> (let n = code_point c in
     48 \<le> n \<and> n \<le> 57 \<or> 65 \<le> n \<and> n \<le> 90 \<or> 97 \<le> n \<and> n \<le> 122 \<or> n = 95
     \<or> n = 170 \<or> n = 178 \<or> n = 179 \<or> n = 181 \<or> n = 185 \<or> n = 186
     \<or> 188 \<le> n \<and> n \<le> 190 \<or> 192 \<le> n \<and> n \<le> 255 \<and> n \<noteq> 215 \<and> n \<noteq> 247)"
  by (auto simp: py_isword_def py_isalnum_def char_code [of c "CHR ''_''"] Let_def)

lemma word_lower: "py_isword (py_lower c) = py_isword c"
  unfolding word_code code_lower Let_def by auto

lemma not_word: "\<not> py_isword CHR ''#''" "\<not> py_isword CHR ''/''" "\<not> py_isword CHR ''-''"
  by (simp_all add: word_code)

lemma space_not_word: "py_isspace c \<Longrightarrow> \<not> tag_char c"
  by (auto simp: tag_char_def tag_seg_char_def word_code py_isspace_def Let_def char_code [of c "CHR ''-''"] char_code [of c "CHR ''/''"])

lemma lower_eq_sym:
  "py_lower c = CHR ''/'' \<longleftrightarrow> c = CHR ''/''" "py_lower c = CHR ''-'' \<longleftrightarrow> c = CHR ''-''"
  by (auto simp: char_code code_lower Let_def)

lemma seg_char_lower: "tag_seg_char (py_lower c) = tag_seg_char c"
  by (simp add: tag_seg_char_def word_lower lower_eq_sym)

text \<open>A canonical path: what \<open>normalize\<close> returns.\<close>

definition canonical :: "string \<Rightarrow> bool" where
  "canonical p \<longleftrightarrow> tag_path p \<and> str_lower p = p"

lemma tag_path_chars: "tag_path p \<Longrightarrow> c \<in> set p \<Longrightarrow> tag_char c"
proof -
  assume tp: "tag_path p" and c: "c \<in> set p"
  have "c = CHR ''/'' \<or> (\<exists>seg\<in>set (split_on (CHR ''/'') p). c \<in> set seg)"
    using c
  proof (induction p)
    case (Cons x xs)
    then show ?case by (cases "split_on (CHR ''/'') xs") auto
  qed simp
  then show ?thesis using tp by (auto simp: tag_path_def tag_char_def)
qed

lemma tag_path_segments:
  assumes "tag_path p"
  shows "path_segments p = split_on (CHR ''/'') p" "p = join ''/'' (path_segments p)" "p \<noteq> []"
    "\<forall>seg\<in>set (path_segments p). seg \<noteq> [] \<and> CHR ''/'' \<notin> set seg"
proof -
  show seg: "path_segments p = split_on (CHR ''/'') p"
    using assms by (simp add: path_segments_def tag_path_def filter_id_conv)
  show "p = join ''/'' (path_segments p)" by (simp add: seg)
  show "p \<noteq> []" using assms by (auto simp: tag_path_def)
  show "\<forall>seg\<in>set (path_segments p). seg \<noteq> [] \<and> CHR ''/'' \<notin> set seg"
    using assms seg by (auto simp: tag_path_def dest: split_on_no_sep)
qed

lemma last_join: "ps \<noteq> [] \<Longrightarrow> last ps \<noteq> [] \<Longrightarrow> join sep ps \<noteq> [] \<and> last (join sep ps) = last (last ps)"
  by (induction sep ps rule: join.induct) auto

lemma hd_join: "ps \<noteq> [] \<Longrightarrow> hd ps \<noteq> [] \<Longrightarrow> hd (join sep ps) = hd (hd ps)"
  by (induction sep ps rule: join.induct) auto

lemma tag_path_ends: "tag_path p \<Longrightarrow> tag_seg_char (hd p) \<and> tag_seg_char (last p)"
proof -
  assume tp: "tag_path p"
  note t = tag_path_segments [OF tp]
  let ?s = "path_segments p"
  have ne: "?s \<noteq> []" using t(1) by simp
  have seg: "tag_seg_char c" if "c \<in> set s" "s \<in> set ?s" for c s
    using that tp t(1) by (auto simp: tag_path_def)
  have "hd ?s \<in> set ?s" "last ?s \<in> set ?s" using ne by simp_all
  moreover from this have "hd ?s \<noteq> []" "last ?s \<noteq> []" using t(4) by blast+
  ultimately show ?thesis
    using seg ne hd_join [of ?s "''/''"] last_join [of ?s "''/''"] t(2) by (metis hd_in_set last_in_set)
qed

lemma normalize_canonical_id: "canonical p \<Longrightarrow> normalize p = Some p"
proof -
  assume cp: "canonical p"
  then have tp: "tag_path p" and lo: "str_lower p = p" by (simp_all add: canonical_def)
  note t = tag_path_segments [OF tp] and e = tag_path_ends [OF tp]
  have ns: "\<not> py_isspace (hd p)" "\<not> py_isspace (last p)" "hd p \<noteq> CHR ''#''"
    using e space_not_word not_word(1) by (auto simp: tag_char_def tag_seg_char_def)
  have "py_strip p = p" using ns by (simp add: strip_by_id)
  moreover have "lstrip_by (\<lambda>c. c = CHR ''#'') p = p" using ns by (simp add: lstrip_by_id)
  ultimately show ?thesis
    using tp lo t(2) t(1) by (simp add: normalize_def Let_def path_re_matches_def flip: t(2))
qed

lemma split_on_map: "(\<And>x. f x = c \<longleftrightarrow> x = c) \<Longrightarrow> split_on c (map f s) = map (map f) (split_on c s)"
proof (induction s)
  case (Cons x s)
  then show ?case by (cases "split_on c s") simp_all
qed simp

lemma lower_tag_path: "tag_path (str_lower s) = tag_path s"
  by (simp add: tag_path_def str_lower_def split_on_map lower_eq_sym seg_char_lower)

text \<open>Normalization of tags. A result is a canonical path, lower case, with no empty segment
  and only word characters and hyphens in its segments, and normalizes to itself; or it is such a
  path followed by one newline, which the pattern lets pass.\<close>

theorem normalize_result:
  assumes "normalize raw = Some p"
  shows "canonical p \<and> normalize p = Some p \<or>
    last p = CHR 0x0A \<and> canonical (butlast p) \<and> normalize p = Some (butlast p)"
proof -
  let ?segs = "path_segments (py_strip (lstrip_by (\<lambda>c. c = CHR ''#'') (py_strip raw)))"
  have p: "p = str_lower (join ''/'' ?segs)" "path_re_matches p"
    using assms by (auto simp: normalize_def Let_def split: if_splits)
  have lo: "str_lower p = p" by (simp add: p(1) str_lower_def lower_idem)
  show ?thesis
  proof (cases "tag_path p")
    case True
    then show ?thesis using lo normalize_canonical_id by (simp add: canonical_def)
  next
    case False
    then have nlp: "p \<noteq> []" "last p = CHR 0x0A" "tag_path (butlast p)"
      using p(2) by (auto simp: path_re_matches_def)
    let ?q = "butlast p"
    have "str_lower ?q = ?q" using lo by (metis map_butlast str_lower_def)
    then have q: "canonical ?q" using nlp(3) by (simp add: canonical_def)
    have e: "\<not> py_isspace (last ?q)" "?q \<noteq> []" "\<not> py_isspace (hd ?q)"
      using tag_path_ends [OF nlp(3)] tag_path_segments(3) [OF nlp(3)] space_not_word
      by (auto simp: tag_char_def)
    have pq: "p = ?q @ [CHR 0x0A]" using nlp by (metis append_butlast_last_id)
    have "hd p = hd ?q" using e(2) pq by (metis hd_append2)
    then have "lstrip_by py_isspace p = p" using e(3) by (simp add: lstrip_by_id)
    then have "py_strip p = rstrip_by py_isspace (?q @ [CHR 0x0A])" using pq by (simp add: strip_by_def)
    also have "\<dots> = ?q" using e(1) by (simp add: rstrip_by_snoc py_isspace_def [of "CHR 0x0A"] rstrip_by_id)
    finally have "py_strip p = py_strip ?q" by (metis strip_by_idem)
    then have "normalize p = normalize ?q" by (simp add: normalize_def)
    then show ?thesis using q nlp(2) normalize_canonical_id by simp
  qed
qed

subsection \<open>Hierarchy\<close>

lemma split_on_append: "split_on c (a @ c # b) = split_on c a @ split_on c b"
proof (induction a)
  case (Cons x a)
  then show ?case by (cases "split_on c a") simp_all
qed simp

lemma covers_iff:
  assumes "tag_path p" "tag_path old"
  shows "prefix (path_segments old) (path_segments p) \<longleftrightarrow> p = old \<or> prefix (old @ ''/'') p"
proof
  assume "prefix (path_segments old) (path_segments p)"
  then obtain ts where ts: "path_segments p = path_segments old @ ts" by (auto simp: prefix_def)
  show "p = old \<or> prefix (old @ ''/'') p"
  proof (cases "ts = []")
    case True
    then show ?thesis using ts tag_path_segments(2) [OF assms(1)] tag_path_segments(2) [OF assms(2)] by simp
  next
    case False
    have "path_segments old \<noteq> []" using tag_path_segments(1) [OF assms(2)] by simp
    then have "p = old @ ''/'' @ join ''/'' ts"
      using ts False tag_path_segments(2) [OF assms(1)] tag_path_segments(2) [OF assms(2)]
        join_append [of "path_segments old" ts "''/''"] by simp
    then show ?thesis by simp
  qed
next
  assume "p = old \<or> prefix (old @ ''/'') p"
  then show "prefix (path_segments old) (path_segments p)"
    using tag_path_segments(1) [OF assms(1)] tag_path_segments(1) [OF assms(2)]
    by (auto simp: prefix_def split_on_append)
qed

lemma ancestors_iff:
  assumes "tag_path p" "tag_path old"
  shows "old \<in> set (ancestors p) \<longleftrightarrow> prefix (path_segments old) (path_segments p)"
proof
  assume "old \<in> set (ancestors p)"
  then obtain i where old: "old = join ''/'' (take (i + 1) (path_segments p))"
    by (auto simp: ancestors_def Let_def)
  have "path_segments old = take (i + 1) (path_segments p)"
    unfolding old using tag_path_segments(4) [OF assms(1)] by (intro path_segments_join) (auto dest: in_set_takeD)
  then show "prefix (path_segments old) (path_segments p)" by (simp add: take_is_prefix)
next
  assume "prefix (path_segments old) (path_segments p)"
  then obtain ts where ts: "path_segments p = path_segments old @ ts" by (auto simp: prefix_def)
  have ne: "path_segments old \<noteq> []" using tag_path_segments(1) [OF assms(2)] by simp
  let ?i = "length (path_segments old) - 1"
  have "?i < length (path_segments p)"
    using ts ne by (cases "path_segments old") simp_all
  moreover have "old = join ''/'' (take (?i + 1) (path_segments p))"
    using ts ne tag_path_segments(2) [OF assms(2)] by simp
  ultimately show "old \<in> set (ancestors p)" unfolding ancestors_def Let_def set_map by (intro image_eqI [of _ _ ?i]) simp_all
qed

text \<open>Renaming follows the hierarchy. A path is renamed exactly when the old path is one of its
  ancestors (itself included); then the segments of the old path are replaced by those of the new
  one and the remaining segments stay. So \<open>work\<close> covers \<open>work/x\<close> and never \<open>workflow\<close>.\<close>

theorem remap_follows_ancestors:
  assumes "canonical p" and "canonical old" and "canonical new"
  shows "remap_path p old new =
    (if old \<in> set (ancestors p)
     then Some (join ''/'' (path_segments new @ drop (length (path_segments old)) (path_segments p)))
     else None)"
proof -
  have tp: "tag_path p" "tag_path old" "tag_path new" using assms by (simp_all add: canonical_def)
  note sp = tag_path_segments(1) [OF tp(1)] and so = tag_path_segments(1) [OF tp(2)]
  consider "p = old" | r where "p = old @ ''/'' @ r" | "p \<noteq> old" "\<not> prefix (old @ ''/'') p"
    by (auto simp: prefix_def)
  then show ?thesis
  proof cases
    case 1
    then show ?thesis
      using covers_iff [OF tp(1,2)] ancestors_iff [OF tp(1,2)] tag_path_segments(2) [OF tp(3)] by (simp add: remap_path_def)
  next
    case 2
    have seg: "path_segments p = path_segments old @ split_on (CHR ''/'') r"
      using 2 sp so by (simp add: split_on_append)
    have "path_segments new \<noteq> []" using tag_path_segments(1) [OF tp(3)] by simp
    then have "join ''/'' (path_segments new @ split_on (CHR ''/'') r) = new @ ''/'' @ r"
      using join_append [of "path_segments new" "split_on (CHR ''/'') r" "''/''"] tag_path_segments(2) [OF tp(3)] by simp
    moreover have "prefix (old @ ''/'') p" "p \<noteq> old" using 2 by simp_all
    ultimately show ?thesis
      using 2 seg covers_iff [OF tp(1,2)] ancestors_iff [OF tp(1,2)] by (simp add: remap_path_def)
  next
    case 3
    then show ?thesis
      using covers_iff [OF tp(1,2)] ancestors_iff [OF tp(1,2)] by (simp add: remap_path_def)
  qed
qed

subsection \<open>Rewriting\<close>

text \<open>The tags of a text in the grammar of the rewrite, in order.\<close>

function raw_tags :: "char option \<Rightarrow> string \<Rightarrow> string list" where
  "raw_tags prev [] = []"
| "raw_tags prev (c # s) =
     (let body = takeWhile tag_char s
      in if c = CHR ''#'' \<and> \<not> blocks_tag prev \<and> body \<noteq> []
         then (case normalize body of None \<Rightarrow> [] | Some t \<Rightarrow> [t]) @ raw_tags (Some (last body)) (dropWhile tag_char s)
         else raw_tags (Some c) s)"
  by pat_completeness auto
termination
  by (relation "measure (\<lambda>(p, s). length s)") (auto simp: length_dropWhile_le le_imp_less_Suc)

definition apply_rewrite :: "(string \<Rightarrow> string option) \<Rightarrow> string \<Rightarrow> string" where
  "apply_rewrite r t = (case r t of None \<Rightarrow> t | Some n \<Rightarrow> n)"

text \<open>The look-behind only matters in front of a hash sign.\<close>

lemma raw_tags_prev:
  "blocks_tag p = blocks_tag q \<or> s = [] \<or> hd s \<noteq> CHR ''#'' \<Longrightarrow> raw_tags p s = raw_tags q s"
  by (cases s) (auto simp: Let_def)

lemma hash_not_tag_char: "\<not> tag_char CHR ''#''"
  by (simp add: tag_char_def tag_seg_char_def not_word)

lemma rewrite_match_hd: "rewrite_match r body = (out, ch) \<Longrightarrow> out \<noteq> [] \<and> hd out = CHR ''#''"
  by (auto simp: rewrite_match_def split: option.splits if_splits)

lemma rewrite_from_hd: "s \<noteq> [] \<Longrightarrow> fst (rewrite_from r p s) \<noteq> [] \<and> hd (fst (rewrite_from r p s)) = hd s"
proof (cases s)
  case (Cons c t)
  then show ?thesis
    using rewrite_match_hd [of r "takeWhile tag_char t"]
    by (cases "rewrite_match r (takeWhile tag_char t)") (auto simp: Let_def split: prod.splits)
qed simp

lemma take_drop_body:
  assumes "\<forall>c\<in>set b. tag_char c" "rest = [] \<or> \<not> tag_char (hd rest)"
  shows "takeWhile tag_char (b @ rest) = b" "dropWhile tag_char (b @ rest) = rest"
  using assms by (cases rest; simp)+

lemma raw_tags_hash:
  assumes "\<forall>c\<in>set b. tag_char c" "rest = [] \<or> \<not> tag_char (hd rest)" "b \<noteq> []" "\<not> blocks_tag p"
  shows "raw_tags p (CHR ''#'' # b @ rest) =
    (case normalize b of None \<Rightarrow> [] | Some t \<Rightarrow> [t]) @ raw_tags (Some (last b)) rest"
  using assms take_drop_body [OF assms(1,2)] by (simp add: Let_def)

lemma rewrite_step_skip:
  assumes "\<not> (c = CHR ''#'' \<and> \<not> blocks_tag p \<and> takeWhile tag_char s \<noteq> [])"
  shows "rewrite_from r p (c # s) = (c # fst (rewrite_from r (Some c) s), snd (rewrite_from r (Some c) s))"
    "raw_tags p (c # s) = raw_tags (Some c) s"
    "raw_tags p (c # fst (rewrite_from r (Some c) s)) = raw_tags (Some c) (fst (rewrite_from r (Some c) s))"
proof -
  show "rewrite_from r p (c # s) = (c # fst (rewrite_from r (Some c) s), snd (rewrite_from r (Some c) s))"
    using assms by (simp only: rewrite_from.simps Let_def if_False) (simp add: case_prod_beta)
  show "raw_tags p (c # s) = raw_tags (Some c) s" using assms by (simp only: raw_tags.simps Let_def if_False)
  let ?o = "fst (rewrite_from r (Some c) s)"
  have "takeWhile tag_char ?o \<noteq> [] \<Longrightarrow> takeWhile tag_char s \<noteq> []"
    using rewrite_from_hd [of s r "Some c"] by (cases s; cases ?o) (auto split: if_splits)
  then have "\<not> (c = CHR ''#'' \<and> \<not> blocks_tag p \<and> takeWhile tag_char ?o \<noteq> [])" using assms by blast
  then show "raw_tags p (c # ?o) = raw_tags (Some c) ?o" by (simp only: raw_tags.simps Let_def if_False)
qed

lemma rewrite_step_match:
  assumes "\<not> blocks_tag p" "takeWhile tag_char s \<noteq> []"
  shows "rewrite_from r p (CHR ''#'' # s) =
    (let b = takeWhile tag_char s; o' = rewrite_from r (Some (last b)) (dropWhile tag_char s)
     in (fst (rewrite_match r b) @ fst o', snd (rewrite_match r b) \<or> snd o'))"
  using assms by (simp add: Let_def case_prod_beta)

lemma rewrite_from_exact:
  assumes "\<And>t n. r t = Some n \<Longrightarrow> canonical n \<and> last n \<noteq> CHR ''-''" and "\<not> sublist ''-#'' s"
  shows "raw_tags p (fst (rewrite_from r p s)) = map (apply_rewrite r) (raw_tags p s) \<and>
    (snd (rewrite_from r p s) \<longleftrightarrow> (\<exists>t\<in>set (raw_tags p s). apply_rewrite r t \<noteq> t)) \<and>
    (\<not> snd (rewrite_from r p s) \<longrightarrow> fst (rewrite_from r p s) = s)"
  using assms
proof (induction "length s" arbitrary: p s rule: less_induct)
  case (less s p)
  show ?case
  proof (cases s)
    case Nil
    then show ?thesis by simp
  next
    case s: (Cons c t)
    let ?b = "takeWhile tag_char t" and ?rest = "dropWhile tag_char t"
    show ?thesis
    proof (cases "c = CHR ''#'' \<and> \<not> blocks_tag p \<and> ?b \<noteq> []")
      case False
      have "\<not> sublist ''-#'' t" using less.prems(2) by (simp add: s sublist_Cons_right)
      with less.hyps [of t "Some c"] less.prems(1) s
      show ?thesis unfolding s by (simp only: rewrite_step_skip [OF False] length_Cons lessI fst_conv snd_conv) auto
    next
      case True
      let ?o = "rewrite_from r (Some (last ?b)) ?rest"
      have suf: "t = ?b @ ?rest" by (rule takeWhile_dropWhile_id [symmetric])
      have nosub: "\<not> sublist ''-#'' ?rest"
      proof
        assume "sublist ''-#'' ?rest"
        moreover have "suffix ?rest s" by (simp add: s suffix_ConsI suffix_dropWhile)
        ultimately show False using less.prems(2) suffix_imp_sublist sublist_order.order_trans by blast
      qed
      have len: "length ?rest < length s" by (simp add: s length_dropWhile_le le_imp_less_Suc)
      note IH = less.hyps [where p = "Some (last ?b)", OF len less.prems(1) nosub]
      have rest: "?rest = [] \<or> \<not> tag_char (hd ?rest)" using hd_dropWhile by blast
      have orest: "fst ?o = [] \<or> \<not> tag_char (hd (fst ?o))" "fst ?o \<noteq> [] \<Longrightarrow> hd (fst ?o) = hd ?rest \<and> ?rest \<noteq> []"
        using rest rewrite_from_hd [of ?rest r "Some (last ?b)"] rewrite_from.simps(1) [of r "Some (last ?b)"]
        by (metis fst_conv)+
      have bch: "\<forall>x\<in>set ?b. tag_char x" by (auto dest: set_takeWhileD)
      have tags: "raw_tags p s = (case normalize ?b of None \<Rightarrow> [] | Some u \<Rightarrow> [u]) @ raw_tags (Some (last ?b)) ?rest"
        using True by (simp add: s Let_def)
      have out: "rewrite_from r p s = (fst (rewrite_match r ?b) @ fst ?o, snd (rewrite_match r ?b) \<or> snd ?o)"
        using rewrite_step_match [of p t r] True s by (simp add: Let_def)
      show ?thesis
      proof (cases "snd (rewrite_match r ?b)")
        case False
        then have m: "fst (rewrite_match r ?b) = CHR ''#'' # ?b"
          "\<forall>u. normalize ?b = Some u \<longrightarrow> apply_rewrite r u = u"
          by (auto simp: rewrite_match_def apply_rewrite_def split: option.splits if_splits)
        have "raw_tags p (CHR ''#'' # ?b @ fst ?o) =
            (case normalize ?b of None \<Rightarrow> [] | Some u \<Rightarrow> [u]) @ raw_tags (Some (last ?b)) (fst ?o)"
          by (rule raw_tags_hash [OF bch orest(1)]) (use True in blast)+
        moreover have "CHR ''#'' # ?b @ ?rest = s" using True s suf by simp
        ultimately show ?thesis using IH m False unfolding out tags fst_conv snd_conv
          by (cases "normalize ?b") (simp_all del: raw_tags.simps rewrite_from.simps takeWhile_dropWhile_id)
      next
        case ch: True
        then obtain u n where un: "normalize ?b = Some u" "r u = Some n" "n \<noteq> u"
          "fst (rewrite_match r ?b) = CHR ''#'' # n"
          by (auto simp: rewrite_match_def split: option.splits if_splits)
        have n: "canonical n" "last n \<noteq> CHR ''-''" using less.prems(1) [OF un(2)] by simp_all
        then have tp: "tag_path n" by (simp add: canonical_def)
        have nch: "\<forall>x\<in>set n. tag_char x" "n \<noteq> []" using tag_path_chars [OF tp] tag_path_segments(3) [OF tp] by auto
        have bl: "blocks_tag (Some (last n))"
          using tag_path_ends [OF tp] n(2) by (simp add: blocks_tag_def tag_seg_char_def)
        have "blocks_tag (Some (last ?b)) \<or> fst ?o = [] \<or> hd (fst ?o) \<noteq> CHR ''#''"
        proof (rule ccontr)
          assume no: "\<not> ?thesis"
          have "tag_char (last ?b)" using bch True by simp
          then have lb: "last ?b = CHR ''-''" using no by (auto simp: blocks_tag_def tag_char_def tag_seg_char_def)
          have h: "hd ?rest = CHR ''#''" "?rest \<noteq> []" using no orest(2) by auto
          have "t = butlast ?b @ ''-#'' @ tl ?rest"
            using suf lb h True by (metis append_Cons append_Nil append_assoc append_butlast_last_id list.collapse)
          then have "sublist ''-#'' (c # t)" by (metis sublist_appendI append_Cons)
          then show False using less.prems(2) s by simp
        qed
        then have prev: "raw_tags (Some (last n)) (fst ?o) = raw_tags (Some (last ?b)) (fst ?o)"
          using bl by (intro raw_tags_prev) auto
        have "raw_tags p (CHR ''#'' # n @ fst ?o) =
            (case normalize n of None \<Rightarrow> [] | Some u \<Rightarrow> [u]) @ raw_tags (Some (last n)) (fst ?o)"
          by (rule raw_tags_hash [OF nch(1) orest(1) nch(2)]) (use True in blast)
        then show ?thesis
          using IH un prev ch normalize_canonical_id [OF n(1)] unfolding out tags fst_conv snd_conv
          by (simp add: apply_rewrite_def del: raw_tags.simps rewrite_from.simps)
      qed
    qed
  qed
qed

text \<open>Rewriting hashtags. When no hyphen stands directly before a hash sign and the replacements
  are canonical paths that do not end in a hyphen, the tags of the new text are the old tags, in
  order, each replaced as the rewriter says; the flag tells whether any tag changed, and a text
  none of whose tags changes is returned as it was.\<close>

theorem rewrite_inline_tags_exact:
  assumes "rewrite_inline_tags s r = (s', changed)" and "\<not> sublist ''-#'' s"
    and "\<And>t n. r t = Some n \<Longrightarrow> canonical n \<and> last n \<noteq> CHR ''-''"
  shows "raw_tags None s' = map (apply_rewrite r) (raw_tags None s) \<and>
    (changed \<longleftrightarrow> (\<exists>t\<in>set (raw_tags None s). apply_rewrite r t \<noteq> t)) \<and> (\<not> changed \<longrightarrow> s' = s)"
  using rewrite_from_exact [of r s None] assms by (simp add: rewrite_inline_tags_def)

text \<open>Extraction and rewriting agree on what the body of a tag is.\<close>

lemma tag_body_agrees: "tag_body_char c \<or> py_isalnum c \<longleftrightarrow> tag_char c"
  by (auto simp: tag_body_char_def tag_char_def tag_seg_char_def py_isword_def py_isalnum_def Let_def)

lemma inline_rule_agrees:
  assumes "pos < length src"
  shows "inline_tag_rule src pos =
    (if src ! pos = CHR ''#'' \<and> \<not> blocks_tag (if pos = 0 then None else Some (src ! (pos - 1)))
     then map_option (\<lambda>t. (t, Suc pos + length (takeWhile tag_char (drop (Suc pos) src))))
            (normalize (takeWhile tag_char (drop (Suc pos) src)))
     else None)"
  by (simp add: inline_tag_rule_def tag_body_agrees blocks_tag_def is_word_char_def py_isword_def Let_def
      split: option.splits)

subsection \<open>Examples\<close>

theorem normalize_result_witness:
  "normalize (''Work'' @ [CHR 0x0A] @ ''/'') = Some (''work'' @ [CHR 0x0A]) \<and> normalize (''work'' @ [CHR 0x0A]) = Some ''work''"
proof -
  have n: "normalize (''Work'' @ [CHR 0x0A] @ ''/'') = Some (''work'' @ [CHR 0x0A])" by code_simp
  moreover have "\<not> canonical (''work'' @ [CHR 0x0A])" unfolding canonical_def tag_path_def by code_simp
  ultimately show ?thesis using normalize_result [OF n] by simp
qed

lemma ex_canonical: "canonical ''work/x''" "canonical ''work''" "canonical ''job''"
  unfolding canonical_def tag_path_def by code_simp+

theorem remap_follows_ancestors_witness:
  "remap_path ''work/x'' ''work'' ''job'' = Some ''job/x'' \<and> ''work'' \<in> set (ancestors ''work/x'')"
proof -
  have "''work'' \<in> set (ancestors ''work/x'')"
    "join ''/'' (path_segments ''job'' @ drop (length (path_segments ''work'')) (path_segments ''work/x'')) = ''job/x''"
    by code_simp+
  then show ?thesis using remap_follows_ancestors [OF ex_canonical] by simp
qed

definition ex_rename :: "string \<Rightarrow> string option" where
  "ex_rename t = (if t = ''work'' then Some ''job'' else None)"

theorem rewrite_inline_tags_exact_witness:
  "raw_tags None (fst (rewrite_inline_tags ''see #Work/ and #home'' ex_rename)) = [''job'', ''home'']"
proof -
  have "rewrite_inline_tags ''see #Work/ and #home'' ex_rename = (''see #job and #home'', True)" by code_simp
  moreover have "\<not> sublist ''-#'' ''see #Work/ and #home''" by code_simp
  moreover have "canonical n \<and> last n \<noteq> CHR ''-''" if "ex_rename t = Some n" for t n
    using that ex_canonical(3) by (auto simp: ex_rename_def split: if_splits)
  moreover have "raw_tags None ''see #Work/ and #home'' = [''work'', ''home'']" by code_simp
  ultimately show ?thesis
    using rewrite_inline_tags_exact [of "''see #Work/ and #home''" ex_rename] by (simp add: apply_rewrite_def ex_rename_def)
qed

end
