(* ===== verification/Wikilinks.thy ===== *)
theory Wikilinks
  imports Markdown_Tokens Paths
begin

section \<open>Wikilinks\<close>

text \<open>
  Models \<open>markdown/wikilinks.py\<close>: the inline rule for \<open>[[target|alias]]\<close>, the rendering of one link,
  the collection of links from the token stream and the rewriting of targets in raw text. The HTML
  escaping of \<open>markdown_it\<close> is a parameter.
\<close>

record indexed_note =
  in_note_id :: string
  in_folder :: string
  in_title :: string

definition XWS_PREFIX :: string where "XWS_PREFIX = ''note:''"

definition xws_note_id :: "string \<Rightarrow> string option" where
  "xws_note_id target = (if prefix XWS_PREFIX target then Some (drop (length XWS_PREFIX) target) else None)"

text \<open>\<open>urllib.parse.quote\<close>: percent escapes of the UTF-8 bytes of what is not unreserved.\<close>

definition hex_upper :: "nat \<Rightarrow> char" where
  "hex_upper n = (if n < 10 then char_of (48 + n) else char_of (55 + n))"

definition percent_byte :: "nat \<Rightarrow> string" where
  "percent_byte n = [CHR 0x25, hex_upper (n div 16), hex_upper (n mod 16)]"

definition quote_char :: "char \<Rightarrow> string" where
  "quote_char c = (let n = code_point c in
     if 48 \<le> n \<and> n \<le> 57 \<or> 65 \<le> n \<and> n \<le> 90 \<or> 97 \<le> n \<and> n \<le> 122 \<or> n \<in> {45, 46, 47, 95, 126} then [c]
     else if n < 128 then percent_byte n
     else percent_byte (192 + n div 64) @ percent_byte (128 + n mod 64))"

definition py_quote :: "string \<Rightarrow> string" where
  "py_quote s = concat (map quote_char s)"

definition note_explorer_url :: "string \<Rightarrow> string \<Rightarrow> string \<Rightarrow> string" where
  "note_explorer_url slug folder note_id =
     ''/workspace/'' @ slug @ ''/notes/'' @ join ''/'' (map py_quote (path_segments folder) @ [note_id])"

text \<open>\<open>_wikilink_rule\<close> at the start of \<open>s\<close>: target, alias and the number of characters consumed.\<close>

definition parse_link :: "string \<Rightarrow> (string \<times> string option) option" where
  "parse_link inner =
     (let (t, a) = partition_at (CHR ''|'') inner
      in if CHR ''['' \<in> set inner \<or> CHR '']'' \<in> set inner \<or> CHR 0x0A \<in> set inner \<or> py_strip t = [] then None
         else Some (py_strip t, if py_strip a = [] then None else Some (py_strip a)))"

definition wikilink_rule :: "string \<Rightarrow> nat \<Rightarrow> ((string \<times> string option) \<times> nat) option" where
  "wikilink_rule src pos =
     (if \<not> prefix ''[['' (drop pos src) then None
      else (case find_from src '']]'' (pos + 2) of
          None \<Rightarrow> None
        | Some e \<Rightarrow> map_option (\<lambda>m. (m, e + 2)) (parse_link (drop (pos + 2) (take e src)))))"

text \<open>The environment of a rendering: the resolvers and the workspace slug.\<close>

record render_env =
  re_resolver :: "(string \<Rightarrow> indexed_note option) option"
  re_slug :: "string option"
  re_xws_resolver :: "(string \<Rightarrow> (string \<times> string) option) option"

definition broken_span :: "string \<Rightarrow> string" where
  "broken_span lbl = ''<span class='' @ [CHR 0x22] @ ''wikilink-broken'' @ [CHR 0x22] @ ''>'' @ lbl @ ''</span>''"

definition anchor_tag :: "string \<Rightarrow> string \<Rightarrow> string \<Rightarrow> string" where
  "anchor_tag cls href lbl = ''<a class='' @ [CHR 0x22] @ cls @ [CHR 0x22] @ '' href='' @ [CHR 0x22] @ href @ [CHR 0x22] @ ''>'' @ lbl @ ''</a>''"

definition or_str :: "string option \<Rightarrow> string \<Rightarrow> string" where
  "or_str a b = (case a of None \<Rightarrow> b | Some s \<Rightarrow> if s = [] then b else s)"

definition render_wikilink :: "(string \<Rightarrow> string) \<Rightarrow> render_env \<Rightarrow> string \<Rightarrow> string option \<Rightarrow> string" where
  "render_wikilink escapeHtml env target raw_alias =
     (case xws_note_id target of
        Some note_id \<Rightarrow>
          (case (case re_xws_resolver env of None \<Rightarrow> None | Some f \<Rightarrow> f note_id) of
             Some (title, url) \<Rightarrow> anchor_tag ''wikilink xws-wikilink'' (escapeHtml url) (escapeHtml (or_str raw_alias title))
           | None \<Rightarrow> broken_span (escapeHtml (or_str raw_alias note_id)))
      | None \<Rightarrow>
          (let lbl = escapeHtml (or_str raw_alias target);
               resolved = (case re_resolver env of None \<Rightarrow> None | Some f \<Rightarrow> f target)
           in case (resolved, re_slug env) of
                (Some n, Some (c # slug)) \<Rightarrow> anchor_tag ''wikilink'' (note_explorer_url (c # slug) (in_folder n) (in_note_id n)) lbl
              | _ \<Rightarrow> broken_span lbl))"

definition extract_wikilinks :: "(string \<Rightarrow> token list) \<Rightarrow> string \<Rightarrow> (string \<times> string option) list" where
  "extract_wikilinks md_parse body =
     map (\<lambda>m. (case map_of m ''target'' of Some (Some t) \<Rightarrow> t | _ \<Rightarrow> [],
               case map_of m ''alias'' of Some a \<Rightarrow> a | None \<Rightarrow> None))
       (extract_meta md_parse body ''wikilink'')"

subsection \<open>Rewriting\<close>

text \<open>A match of \<open>\\[\\[([^\\]]*?)\\]\\]\<close> at the start: the group and the text behind.\<close>

definition match_link :: "string \<Rightarrow> (string \<times> string) option" where
  "match_link s =
     (if prefix ''[['' s \<and> prefix '']]'' (dropWhile (\<lambda>c. c \<noteq> CHR '']'') (drop 2 s))
      then Some (takeWhile (\<lambda>c. c \<noteq> CHR '']'') (drop 2 s), drop 2 (dropWhile (\<lambda>c. c \<noteq> CHR '']'') (drop 2 s)))
      else None)"

definition rewrite_link :: "(string \<Rightarrow> string option) \<Rightarrow> string \<Rightarrow> string \<times> bool" where
  "rewrite_link rewrite inner =
     (let same = (''[['' @ inner @ '']]'', False);
          (t, a) = partition_at (CHR ''|'') inner;
          target = py_strip t
      in if CHR ''['' \<in> set inner \<or> CHR 0x0A \<in> set inner then same
         else (case (if target \<noteq> [] then rewrite target else None) of
             None \<Rightarrow> same
           | Some new \<Rightarrow>
               if new = target then same
               else let alias = py_strip a
                    in (if alias \<noteq> [] then ''[['' @ new @ ''|'' @ alias @ '']]'' else ''[['' @ new @ '']]'', True)))"

lemma match_link_shorter: "match_link s = Some (b, rest) \<Longrightarrow> length rest < length s"
proof -
  assume m: "match_link s = Some (b, rest)"
  then have "rest = drop 2 (dropWhile (\<lambda>c. c \<noteq> CHR '']'') (drop 2 s))" "2 \<le> length s"
    by (auto simp: match_link_def split: if_splits dest: prefix_length_le)
  then show ?thesis using length_dropWhile_le [of "\<lambda>c. c \<noteq> CHR '']''" "drop 2 s"] by simp
qed

function rewrite_wikilinks_from :: "(string \<Rightarrow> string option) \<Rightarrow> string \<Rightarrow> string \<times> bool" where
  "rewrite_wikilinks_from rewrite s = (case match_link s of
      Some (inner, rest) \<Rightarrow>
        let (out, ch) = rewrite_link rewrite inner; (out', ch') = rewrite_wikilinks_from rewrite rest
        in (out @ out', ch \<or> ch')
    | None \<Rightarrow> (case s of
        [] \<Rightarrow> ([], False)
      | c # s' \<Rightarrow> let (out', ch') = rewrite_wikilinks_from rewrite s' in (c # out', ch')))"
  by pat_completeness auto
termination
  by (relation "measure (\<lambda>(r, s). length s)") (auto dest: match_link_shorter)

declare rewrite_wikilinks_from.simps [simp del]

definition rewrite_wikilinks :: "string \<Rightarrow> (string \<Rightarrow> string option) \<Rightarrow> string \<times> bool" where
  "rewrite_wikilinks body rewrite = rewrite_wikilinks_from rewrite body"

subsection \<open>Rewriting changes the targets and nothing else\<close>

text \<open>The links of a text in the grammar of the rewrite, in order.\<close>

function raw_links :: "string \<Rightarrow> (string \<times> string option) list" where
  "raw_links s = (case match_link s of
      Some (inner, rest) \<Rightarrow> (case parse_link inner of None \<Rightarrow> [] | Some l \<Rightarrow> [l]) @ raw_links rest
    | None \<Rightarrow> (case s of [] \<Rightarrow> [] | c # s' \<Rightarrow> raw_links s'))"
  by pat_completeness auto
termination
  by (relation "measure length") (auto dest: match_link_shorter)

declare raw_links.simps [simp del]

definition apply_target :: "(string \<Rightarrow> string option) \<Rightarrow> string \<times> string option \<Rightarrow> string \<times> string option" where
  "apply_target r l = (case r (fst l) of None \<Rightarrow> l | Some n \<Rightarrow> (n, snd l))"

text \<open>A text that can stand as a target.\<close>

definition target_text :: "string \<Rightarrow> bool" where
  "target_text n \<longleftrightarrow> n \<noteq> [] \<and> py_strip n = n \<and> CHR ''['' \<notin> set n \<and> CHR '']'' \<notin> set n \<and> CHR ''|'' \<notin> set n \<and> CHR 0x0A \<notin> set n"

definition closes :: "string \<Rightarrow> bool" where
  "closes s \<longleftrightarrow> prefix '']]'' (dropWhile (\<lambda>c. c \<noteq> CHR '']'') s)"

lemma match_link_closes: "match_link s = Some x \<Longrightarrow> prefix ''[['' s \<and> closes s"
proof -
  assume "match_link s = Some x"
  then have p: "prefix ''[['' s" and c: "closes (drop 2 s)"
    by (auto simp: match_link_def closes_def split: if_splits)
  then obtain t where "s = CHR ''['' # CHR ''['' # t" by (auto simp: prefix_def)
  then show ?thesis using p c by (simp add: closes_def)
qed

lemma rewrite_link_hd: "prefix ''[['' (fst (rewrite_link r inner))"
  by (auto simp: rewrite_link_def Let_def split: prod.splits option.splits)

abbreviation rw :: "(string \<Rightarrow> string option) \<Rightarrow> string \<Rightarrow> string" where
  "rw r s \<equiv> fst (rewrite_wikilinks_from r s)"

lemma rw_match: "match_link s = Some (inner, rest) \<Longrightarrow> rw r s = fst (rewrite_link r inner) @ rw r rest"
  by (subst rewrite_wikilinks_from.simps) (simp add: case_prod_beta Let_def)

lemma rw_skip: "match_link (c # s) = None \<Longrightarrow> rw r (c # s) = c # rw r s"
  by (subst rewrite_wikilinks_from.simps) (simp add: case_prod_beta Let_def)

lemma rw_Nil: "rw r [] = []"
  by (subst rewrite_wikilinks_from.simps) (simp add: match_link_def)

lemma rw_hd: "s \<noteq> [] \<Longrightarrow> rw r s \<noteq> [] \<and> hd (rw r s) = hd s"
proof (cases "match_link s")
  case (Some x)
  obtain inner rest where x: "x = (inner, rest)" by (cases x)
  have "prefix ''[['' s" using match_link_closes [OF Some] by simp
  moreover have "prefix ''[['' (rw r s)"
    using rw_match Some x rewrite_link_hd [of r inner] by (simp add: prefix_prefix)
  ultimately show ?thesis by (auto simp: prefix_def)
next
  case None
  assume "s \<noteq> []"
  then show ?thesis using None rw_skip by (cases s) simp_all
qed

lemma rw_not_closes: "\<not> closes s \<Longrightarrow> \<not> closes (rw r s)"
proof (induction s)
  case Nil
  then show ?case by (simp add: rw_Nil)
next
  case (Cons c s)
  then have "match_link (c # s) = None" using match_link_closes by (cases "match_link (c # s)") auto
  note sk = rw_skip [OF this, of r]
  show ?case
  proof (cases "c = CHR '']''")
    case True
    then have "s = [] \<or> hd s \<noteq> CHR '']''" using Cons.prems by (cases s) (auto simp: closes_def)
    then have "rw r s = [] \<or> hd (rw r s) \<noteq> CHR '']''" using rw_hd [of s r] rw_Nil [of r] by (cases "s = []") simp_all
    then show ?thesis using True sk by (cases "rw r s") (auto simp: closes_def)
  next
    case False
    then show ?thesis using Cons sk by (simp add: closes_def)
  qed
qed

lemma rw_no_new_match:
  assumes "match_link (c # s) = None"
  shows "match_link (c # rw r s) = None"
proof (cases "prefix ''[['' (c # s)")
  case True
  then obtain t where t: "c = CHR ''[''" "s = CHR ''['' # t" by (auto simp: prefix_def)
  then have nc: "\<not> closes t" using assms by (simp add: match_link_def closes_def split: if_splits)
  then have "match_link s = None"
    using match_link_closes [of s] t(2) by (cases "match_link s") (auto simp: closes_def)
  then have "rw r s = CHR ''['' # rw r t" using rw_skip t(2) by simp
  then show ?thesis using t(1) rw_not_closes [OF nc, of r] by (simp add: match_link_def closes_def)
next
  case False
  then have "\<not> prefix ''[['' (c # rw r s)"
    using rw_hd [of s r] rw_Nil [of r] by (cases s; cases "rw r s") auto
  then show ?thesis unfolding match_link_def by (simp only: simp_thms if_False)
qed

lemma span_free:
  "c \<notin> set s \<Longrightarrow> takeWhile (\<lambda>x. x \<noteq> c) (s @ c # t) = s \<and> dropWhile (\<lambda>x. x \<noteq> c) (s @ c # t) = c # t"
  "c \<notin> set s \<Longrightarrow> takeWhile (\<lambda>x. x \<noteq> c) s = s \<and> dropWhile (\<lambda>x. x \<noteq> c) s = []"
  by (induction s) auto

lemma match_link_brackets: "CHR '']'' \<notin> set b \<Longrightarrow> match_link (''[['' @ b @ '']]'' @ rest) = Some (b, rest)"
proof -
  assume b: "CHR '']'' \<notin> set b"
  have "dropWhile (\<lambda>c. c \<noteq> CHR '']'') (b @ '']]'' @ rest) = '']]'' @ rest"
    "takeWhile (\<lambda>c. c \<noteq> CHR '']'') (b @ '']]'' @ rest) = b"
    using span_free(1) [OF b, of "'']'' @ rest"] by simp_all
  then show ?thesis by (simp add: match_link_def)
qed

lemma match_linkD: "match_link s = Some (b, rest) \<Longrightarrow> s = ''[['' @ b @ '']]'' @ rest \<and> CHR '']'' \<notin> set b"
proof -
  assume m: "match_link s = Some (b, rest)"
  let ?P = "\<lambda>c. c \<noteq> CHR '']''"
  have p: "prefix ''[['' s" "prefix '']]'' (dropWhile ?P (drop 2 s))" "b = takeWhile ?P (drop 2 s)"
    "rest = drop 2 (dropWhile ?P (drop 2 s))"
    using m by (auto simp: match_link_def split: if_splits)
  then obtain t u where t: "s = ''[['' @ t" "dropWhile ?P (drop 2 s) = '']]'' @ u" by (auto simp: prefix_def)
  then have "t = b @ '']]'' @ rest" using p(3,4) takeWhile_dropWhile_id [of ?P t] by simp
  moreover have "CHR '']'' \<notin> set b" using p(3) by (auto dest: set_takeWhileD)
  ultimately show ?thesis using t(1) by simp
qed

lemma partition_free: "c \<notin> set s \<Longrightarrow> partition_at c s = (s, [])" "c \<notin> set s \<Longrightarrow> partition_at c (s @ c # t) = (s, t)"
  unfolding partition_at_def by (metis span_free(2) list.sel(2)) (metis span_free(1) list.sel(3))

lemma partition_sets: "partition_at (c :: 'a) s = (t, a) \<Longrightarrow> set t \<subseteq> set s \<and> set a \<subseteq> set s"
proof -
  assume "partition_at c s = (t, a)"
  then have "t = takeWhile (\<lambda>x. x \<noteq> c) s" "a = tl (dropWhile (\<lambda>x. x \<noteq> c) s)" by (auto simp: partition_at_def)
  moreover have "set (tl xs) \<subseteq> set xs" for xs :: "'a list" by (cases xs) auto
  ultimately show ?thesis by (auto dest: set_takeWhileD set_dropWhileD)
qed

text \<open>One match, rewritten: the link it stands for afterwards, and whether it changed.\<close>

lemma rewrite_link_effect:
  assumes "CHR '']'' \<notin> set inner" "\<And>t n. r t = Some n \<Longrightarrow> target_text n"
  obtains b where "fst (rewrite_link r inner) = ''[['' @ b @ '']]''" "CHR '']'' \<notin> set b"
    "parse_link b = map_option (apply_target r) (parse_link inner)"
    "snd (rewrite_link r inner) \<longleftrightarrow> (\<exists>l. parse_link inner = Some l \<and> apply_target r l \<noteq> l)"
    "snd (rewrite_link r inner) \<or> b = inner"
proof -
  obtain t a where ta: "partition_at (CHR ''|'') inner = (t, a)" by fastforce
  let ?al = "if py_strip a = [] then None else Some (py_strip a)"
  show thesis
  proof (cases "parse_link inner")
    case None
    then have "rewrite_link r inner = (''[['' @ inner @ '']]'', False)"
      using assms(1) ta by (auto simp: parse_link_def rewrite_link_def Let_def split: if_splits)
    then show thesis using None assms(1) by (intro that [of inner]) simp_all
  next
    case (Some l)
    then have ok: "CHR ''['' \<notin> set inner" "CHR 0x0A \<notin> set inner" "py_strip t \<noteq> []" "l = (py_strip t, ?al)"
      using ta by (auto simp: parse_link_def split: if_splits)
    show thesis
    proof (cases "r (py_strip t) \<in> {None, Some (py_strip t)}")
      case True
      then have "rewrite_link r inner = (''[['' @ inner @ '']]'', False)" "apply_target r l = l"
        using ok ta by (auto simp: rewrite_link_def apply_target_def Let_def)
      then show thesis using Some assms(1) by (intro that [of inner]) simp_all
    next
      case False
      then obtain n where n: "r (py_strip t) = Some n" "n \<noteq> py_strip t" by auto
      then have tn: "target_text n" using assms(2) by simp
      let ?b = "if py_strip a \<noteq> [] then n @ ''|'' @ py_strip a else n"
      have rl: "rewrite_link r inner = (''[['' @ ?b @ '']]'', True)"
        using ok ta n by (simp add: rewrite_link_def Let_def)
      have sa: "set (py_strip a) \<subseteq> set inner" using partition_sets [OF ta] set_strip_by by fast
      have free: "CHR '']'' \<notin> set ?b" "CHR ''['' \<notin> set ?b" "CHR 0x0A \<notin> set ?b"
        using tn sa assms(1) ok by (auto simp: target_text_def)
      have "parse_link ?b = Some (n, ?al)"
        using tn free partition_free(1) [of "CHR ''|''" n] partition_free(2) [of "CHR ''|''" n "py_strip a"]
        by (auto simp: parse_link_def target_text_def)
      then show thesis
        using rl free(1) Some ok(4) n by (intro that [of ?b]) (simp_all add: apply_target_def)
    qed
  qed
qed

lemma rw_exact:
  assumes new: "\<And>t n. r t = Some n \<Longrightarrow> target_text n"
  shows "raw_links (rw r s) = map (apply_target r) (raw_links s) \<and>
    (snd (rewrite_wikilinks_from r s) \<longleftrightarrow> (\<exists>l\<in>set (raw_links s). apply_target r l \<noteq> l)) \<and>
    (\<not> snd (rewrite_wikilinks_from r s) \<longrightarrow> rw r s = s)"
proof (induction "length s" arbitrary: s rule: less_induct)
  case less
  show ?case
  proof (cases "match_link s")
    case (Some x)
    obtain inner rest where m: "match_link s = Some (inner, rest)" using Some by (cases x) auto
    note IH = less.hyps [OF match_link_shorter [OF m]] and d = match_linkD [OF m]
    obtain b where b: "fst (rewrite_link r inner) = ''[['' @ b @ '']]''" "CHR '']'' \<notin> set b"
      "parse_link b = map_option (apply_target r) (parse_link inner)"
      "snd (rewrite_link r inner) \<longleftrightarrow> (\<exists>l. parse_link inner = Some l \<and> apply_target r l \<noteq> l)"
      "snd (rewrite_link r inner) \<or> b = inner"
      using rewrite_link_effect [of inner r] d new by metis
    have out: "rw r s = ''[['' @ b @ '']]'' @ rw r rest"
      "snd (rewrite_wikilinks_from r s) \<longleftrightarrow> snd (rewrite_link r inner) \<or> snd (rewrite_wikilinks_from r rest)"
      using rw_match [OF m, of r] b(1) rewrite_wikilinks_from.simps [of r s] m by (simp_all add: case_prod_beta Let_def)
    have "raw_links (rw r s) = (case parse_link b of None \<Rightarrow> [] | Some l \<Rightarrow> [l]) @ raw_links (rw r rest)"
      unfolding out(1) by (subst raw_links.simps) (use match_link_brackets [OF b(2), of "rw r rest"] in simp)
    moreover have "raw_links s = (case parse_link inner of None \<Rightarrow> [] | Some l \<Rightarrow> [l]) @ raw_links rest"
      using m by (simp add: raw_links.simps [of s])
    ultimately show ?thesis using IH b out d by (cases "parse_link inner") auto
  next
    case None
    show ?thesis
    proof (cases s)
      case Nil
      then show ?thesis by (simp add: rw_Nil rewrite_wikilinks_from.simps raw_links.simps match_link_def)
    next
      case (Cons c t)
      have "snd (rewrite_wikilinks_from r s) = snd (rewrite_wikilinks_from r t)"
        using None unfolding Cons by (subst rewrite_wikilinks_from.simps) (simp add: case_prod_beta Let_def)
      moreover have "raw_links s = raw_links t" using None unfolding Cons by (subst raw_links.simps) simp
      moreover have "raw_links (c # rw r t) = raw_links (rw r t)"
        using rw_no_new_match [of c t r] None Cons by (simp add: raw_links.simps [of "c # rw r t"])
      ultimately show ?thesis
        using less.hyps [of t] Cons rw_skip [of c t r] None by simp
    qed
  qed
qed

text \<open>Rewriting links. When every replacement is a text that can stand as a target, the links of
  the new text are the old links, in order and with their aliases, each target replaced as the
  rewriter says; the flag tells whether any target changed, and otherwise the text is returned as
  it was.\<close>

theorem rewrite_wikilinks_exact:
  assumes "rewrite_wikilinks s r = (s', changed)" and "\<And>t n. r t = Some n \<Longrightarrow> target_text n"
  shows "raw_links s' = map (apply_target r) (raw_links s) \<and>
    (changed \<longleftrightarrow> (\<exists>l\<in>set (raw_links s). apply_target r l \<noteq> l)) \<and> (\<not> changed \<longrightarrow> s' = s)"
  using rw_exact [of r s] assms by (simp add: rewrite_wikilinks_def)

subsection \<open>Example\<close>

definition ex_move :: "string \<Rightarrow> string option" where
  "ex_move t = (if t = ''Plan'' then Some ''Work/Plan'' else None)"

theorem rewrite_wikilinks_exact_witness:
  "raw_links (fst (rewrite_wikilinks ''x [[ Plan |the plan]] [[[a]] y [[Home]]'' ex_move)) =
    [(''Work/Plan'', Some ''the plan''), (''Home'', None)]"
proof -
  let ?s = "''x [[ Plan |the plan]] [[[a]] y [[Home]]''"
  have "raw_links ?s = [(''Plan'', Some ''the plan''), (''Home'', None)]" by code_simp
  moreover have "target_text n" if "ex_move t = Some n" for t n
  proof -
    have "target_text ''Work/Plan''" by code_simp
    then show ?thesis using that by (auto simp: ex_move_def split: if_splits)
  qed
  ultimately show ?thesis
    using rewrite_wikilinks_exact [of ?s ex_move "fst (rewrite_wikilinks ?s ex_move)" "snd (rewrite_wikilinks ?s ex_move)"]
    by (simp add: apply_target_def ex_move_def)
qed

end
