(* ===== verification/Link_Index.thy ===== *)
theory Link_Index
  imports Wikilinks "HOL-Library.Multiset"
begin

section \<open>Resolving wikilink targets\<close>

text \<open>
  Models \<open>markdown/link_index.py\<close>. The index is the \<open>dict\<close> from titles to notes, an association list
  in insertion order; the casefolded index, which the code builds lazily, is computed from it on
  demand. Ranks are compared as Python compares tuples.
\<close>

subsection \<open>Definitions\<close>

definition strip_slashes :: "string \<Rightarrow> string" where
  "strip_slashes s = strip_by (\<lambda>c. c = CHR ''/'') s"

definition split_target :: "string \<Rightarrow> string \<times> string" where
  "split_target target =
     (let (folder_part, title) = rpartition (CHR ''/'') (strip_slashes (py_strip target))
      in case normalize_folder folder_part of
           Inr f \<Rightarrow> (f, py_strip title)
         | Inl _ \<Rightarrow> (folder_part, py_strip title))"

definition join_target :: "string \<Rightarrow> string \<Rightarrow> string" where
  "join_target folder title = (if folder \<noteq> [] then folder @ ''/'' @ title else title)"

fun shared_depth :: "string list \<Rightarrow> string list \<Rightarrow> nat" where
  "shared_depth (x # a) (y # b) = (if x \<noteq> y then 0 else Suc (shared_depth a b))"
| "shared_depth _ _ = 0"

definition folder_matches :: "string \<Rightarrow> string \<Rightarrow> bool" where
  "folder_matches nfolder sfx \<longleftrightarrow> sfx = [] \<or> nfolder = sfx \<or> suffix (''/'' @ sfx) nfolder"

type_synonym link_index = "(string \<times> indexed_note list) list"

fun index_add :: "link_index \<Rightarrow> indexed_note \<Rightarrow> link_index" where
  "index_add [] n = [(in_title n, [n])]"
| "index_add ((t, ns) # ix) n = (if t = in_title n then (t, ns @ [n]) # ix else (t, ns) # index_add ix n)"

definition mk_index :: "indexed_note list \<Rightarrow> link_index" where
  "mk_index notes = foldl index_add [] notes"

definition by_title :: "link_index \<Rightarrow> string \<Rightarrow> indexed_note list" where
  "by_title ix title = (case map_of ix title of None \<Rightarrow> [] | Some ns \<Rightarrow> ns)"

definition by_casefold_title :: "link_index \<Rightarrow> string \<Rightarrow> indexed_note list" where
  "by_casefold_title ix cf_title = filter (\<lambda>n. py_casefold (in_title n) = cf_title) (concat (map snd ix))"

definition rank :: "string \<Rightarrow> string list \<Rightarrow> indexed_note \<Rightarrow> nat \<times> int \<times> nat \<times> string \<times> string" where
  "rank folder source n =
     (let segments = path_segments (in_folder n)
      in (if in_folder n = folder then 0 else 1, - int (shared_depth segments source), length segments, in_folder n, in_title n))"

record link_match =
  lm_chosen :: indexed_note
  lm_alternatives :: "indexed_note list"
  lm_casefold :: bool

definition resolve_detailed :: "link_index \<Rightarrow> string \<Rightarrow> string \<Rightarrow> bool \<Rightarrow> link_match option" where
  "resolve_detailed ix target source_folder allow_casefold =
     (let (folder, title) = split_target target;
          exact = filter (\<lambda>n. folder_matches (in_folder n) folder) (by_title ix title);
          folded = (if exact = [] \<and> allow_casefold
                    then filter (\<lambda>n. folder_matches (py_casefold (in_folder n)) (py_casefold folder))
                           (by_casefold_title ix (py_casefold title))
                    else []);
          candidates = (if exact \<noteq> [] then exact else folded)
      in case sort_key (rank folder (path_segments source_folder)) candidates of
           [] \<Rightarrow> None
         | c # cs \<Rightarrow> Some \<lparr>lm_chosen = c, lm_alternatives = cs, lm_casefold = (exact = [])\<rparr>)"

definition resolve :: "link_index \<Rightarrow> string \<Rightarrow> string \<Rightarrow> bool \<Rightarrow> indexed_note option" where
  "resolve ix target source_folder allow_casefold =
     map_option lm_chosen (resolve_detailed ix target source_folder allow_casefold)"

text \<open>The loop of \<open>shortest_target\<close> over the suffix lengths.\<close>

fun try_lengths :: "link_index \<Rightarrow> indexed_note \<Rightarrow> string \<Rightarrow> string list \<Rightarrow> nat list \<Rightarrow> string" where
  "try_lengths ix note source_folder segments [] = join_target (in_folder note) (in_title note)"
| "try_lengths ix note source_folder segments (len # lens) =
     (let target = join ''/'' (drop (length segments - len) segments)
      in case resolve ix target source_folder False of
           Some hit \<Rightarrow> if in_note_id hit = in_note_id note then target
                       else try_lengths ix note source_folder segments lens
         | None \<Rightarrow> try_lengths ix note source_folder segments lens)"

definition shortest_target :: "link_index \<Rightarrow> indexed_note \<Rightarrow> string \<Rightarrow> nat \<Rightarrow> string" where
  "shortest_target ix note source_folder min_segments =
     (let segments = path_segments (in_folder note) @ [in_title note]
      in try_lengths ix note source_folder segments [max 1 min_segments..<length segments])"

record link_resolution =
  lr_resolved_ids :: "string list"
  lr_broken :: "string list"
  lr_xws_ids :: "string list"
  lr_ambiguous :: "(string \<times> indexed_note \<times> indexed_note list) list"
  lr_case_corrected :: "(string \<times> indexed_note) list"

text \<open>Sets are lists without repetition; \<open>sorted(set)\<close> and the sorted dict of targets are sorted lists.\<close>

definition resolve_links :: "link_index \<Rightarrow> (string \<times> string option) list \<Rightarrow> string \<Rightarrow> link_resolution" where
  "resolve_links ix links source_folder =
     (let targets = remdups (map fst links);
          paths = sort (filter (\<lambda>t. xws_note_id t = None) targets);
          match = (\<lambda>t. resolve_detailed ix t source_folder True)
      in \<lparr>lr_resolved_ids = remdups (concat (map (\<lambda>t. case match t of None \<Rightarrow> [] | Some m \<Rightarrow> [in_note_id (lm_chosen m)]) paths)),
          lr_broken = filter (\<lambda>t. match t = None) paths,
          lr_xws_ids = sort (remdups (concat (map (\<lambda>t. case xws_note_id t of None \<Rightarrow> [] | Some i \<Rightarrow> [i]) targets))),
          lr_ambiguous = concat (map (\<lambda>t. case match t of None \<Rightarrow> []
             | Some m \<Rightarrow> if lm_alternatives m \<noteq> [] then [(t, lm_chosen m, lm_alternatives m)] else []) paths),
          lr_case_corrected = concat (map (\<lambda>t. case match t of None \<Rightarrow> []
             | Some m \<Rightarrow> if lm_alternatives m = [] \<and> lm_casefold m then [(t, lm_chosen m)] else []) paths)\<rparr>)"

definition resolve_content_links :: "(string \<Rightarrow> token list) \<Rightarrow> link_index \<Rightarrow> string \<Rightarrow> string \<Rightarrow> link_resolution" where
  "resolve_content_links md_parse ix content source_folder = resolve_links ix (extract_wikilinks md_parse content) source_folder"

definition broken_pairs :: "link_resolution \<Rightarrow> (string \<times> string) list" where
  "broken_pairs r = sort (remdups (map split_target (lr_broken r)))"

subsection \<open>The index\<close>

lemma index_add_by_title: "by_title (index_add ix n) t = by_title ix t @ (if t = in_title n then [n] else [])"
  by (induction ix n rule: index_add.induct) (auto simp: by_title_def split: option.splits)

lemma by_title_mk_index: "by_title (mk_index nts) t = filter (\<lambda>n. in_title n = t) nts"
proof -
  have "by_title (foldl index_add ix nts) t = by_title ix t @ filter (\<lambda>n. in_title n = t) nts" for ix
    by (induction nts arbitrary: ix) (auto simp: index_add_by_title)
  then show ?thesis by (simp add: mk_index_def by_title_def [of "[]"])
qed

lemma index_add_all: "mset (concat (map snd (index_add ix n))) = add_mset n (mset (concat (map snd ix)))"
  by (induction ix n rule: index_add.induct) auto

lemma mk_index_all: "mset (concat (map snd (mk_index nts))) = mset nts"
proof -
  have "mset (concat (map snd (foldl index_add ix nts))) = mset (concat (map snd ix)) + mset nts" for ix
    by (induction nts arbitrary: ix) (simp_all add: index_add_all)
  then show ?thesis by (simp add: mk_index_def)
qed

lemma set_by_casefold: "set (by_casefold_title (mk_index nts) t) = {n \<in> set nts. py_casefold (in_title n) = t}"
  using mset_eq_setD [OF mk_index_all, of nts] by (auto simp: by_casefold_title_def)

text \<open>The two candidate sets of a target.\<close>

definition exact_candidates :: "indexed_note list \<Rightarrow> string \<Rightarrow> indexed_note set" where
  "exact_candidates nts target = {n \<in> set nts. in_title n = snd (split_target target) \<and>
     folder_matches (in_folder n) (fst (split_target target))}"

definition folded_candidates :: "indexed_note list \<Rightarrow> string \<Rightarrow> indexed_note set" where
  "folded_candidates nts target = {n \<in> set nts. py_casefold (in_title n) = py_casefold (snd (split_target target)) \<and>
     folder_matches (py_casefold (in_folder n)) (py_casefold (fst (split_target target)))}"

lemma resolve_best:
  shows "case resolve_detailed (mk_index nts) target source allow of
      None \<Rightarrow> exact_candidates nts target = {} \<and> (allow \<longrightarrow> folded_candidates nts target = {})
    | Some m \<Rightarrow>
        (lm_casefold m \<longleftrightarrow> exact_candidates nts target = {}) \<and> (lm_casefold m \<longrightarrow> allow) \<and>
        set (lm_chosen m # lm_alternatives m) =
          (if lm_casefold m then folded_candidates nts target else exact_candidates nts target) \<and>
        sorted (map (rank (fst (split_target target)) (path_segments source)) (lm_chosen m # lm_alternatives m))"
proof -
  obtain folder title where ft: "split_target target = (folder, title)" by fastforce
  define ex where "ex = filter (\<lambda>n. folder_matches (in_folder n) folder) (by_title (mk_index nts) title)"
  define fo where "fo = (if ex = [] \<and> allow
    then filter (\<lambda>n. folder_matches (py_casefold (in_folder n)) (py_casefold folder))
           (by_casefold_title (mk_index nts) (py_casefold title)) else [])"
  define cands where "cands = (if ex \<noteq> [] then ex else fo)"
  let ?key = "rank folder (path_segments source)"
  have ex: "set ex = exact_candidates nts target" by (auto simp: ft ex_def exact_candidates_def by_title_mk_index)
  have fo: "set fo = (if ex = [] \<and> allow then folded_candidates nts target else {})"
    by (auto simp: fo_def ft folded_candidates_def set_by_casefold)
  have r: "resolve_detailed (mk_index nts) target source allow = (case sort_key ?key cands of
      [] \<Rightarrow> None | c # cs \<Rightarrow> Some \<lparr>lm_chosen = c, lm_alternatives = cs, lm_casefold = (ex = [])\<rparr>)"
    unfolding resolve_detailed_def ft Let_def cands_def fo_def ex_def by simp
  have e0: "ex = [] \<longleftrightarrow> exact_candidates nts target = {}" unfolding ex [symmetric] by simp
  show ?thesis
  proof (cases "sort_key ?key cands")
    case Nil
    then have "cands = []" by (metis set_sort set_empty)
    then have "ex = []" "fo = []" by (auto simp: cands_def split: if_splits)
    then show ?thesis using r Nil e0 fo by auto
  next
    case (Cons c cs)
    have st: "set (c # cs) = set cands" "sorted (map ?key (c # cs))"
      using Cons by (metis set_sort, metis sorted_sort_key)
    then have "cands \<noteq> []" by auto
    then have "ex = [] \<Longrightarrow> allow \<and> set cands = folded_candidates nts target"
      using fo by (auto simp: cands_def split: if_splits)
    moreover have "ex \<noteq> [] \<Longrightarrow> set cands = exact_candidates nts target" by (simp add: cands_def ex)
    ultimately show ?thesis using st e0 unfolding r Cons ft by simp
  qed
qed

text \<open>Resolution picks the best candidate. A target resolves exactly when some note matches it,
  exactly or, where allowed and nothing matches exactly, up to case; the winner has the least rank
  (full path, nearness, depth, folder, title), the alternatives are the other candidates in rank
  order, and the case flag says that nothing matched exactly.\<close>

theorem resolve_picks_best:
  shows "case resolve_detailed (mk_index nts) target source allow of
      None \<Rightarrow> exact_candidates nts target = {} \<and> (allow \<longrightarrow> folded_candidates nts target = {})
    | Some m \<Rightarrow>
        (lm_casefold m \<longleftrightarrow> exact_candidates nts target = {}) \<and> (lm_casefold m \<longrightarrow> allow) \<and>
        set (lm_chosen m # lm_alternatives m) =
          (if lm_casefold m then folded_candidates nts target else exact_candidates nts target) \<and>
        sorted (map (rank (fst (split_target target)) (path_segments source)) (lm_chosen m # lm_alternatives m))"
  by (rule resolve_best)

subsection \<open>Full paths and shortest targets\<close>

text \<open>A note whose folder is stored in normal form and whose title can be the last segment of a
  target.\<close>

definition stored_note :: "indexed_note \<Rightarrow> bool" where
  "stored_note n \<longleftrightarrow> normalize_folder (in_folder n) = Inr (in_folder n) \<and> in_title n \<noteq> [] \<and>
     py_strip (in_title n) = in_title n \<and> CHR ''/'' \<notin> set (in_title n)"

lemma normal_folder_hd:
  assumes "normalize_folder f = Inr f" "f \<noteq> []"
  shows "\<not> py_isspace (hd f)" "hd f \<noteq> CHR ''/''"
proof -
  note f = normalize_folder_Inr [OF assms(1)]
  have ne: "path_segments f \<noteq> []" using f(2) assms(2) by (metis join.simps(1))
  then obtain t ts where ts: "path_segments f = title_to_windows_filename t # ts"
    using f(1) by (cases "path_segments (py_strip f)") auto
  let ?s = "title_to_windows_filename t"
  have "hd f = hd ?s" using f(2) ts filename_facts(1) [of t] by (cases ts) auto
  moreover have "hd ?s \<in> set ?s" using filename_facts(1) by simp
  ultimately show "\<not> py_isspace (hd f)" "hd f \<noteq> CHR ''/''"
    using filename_facts(5) [of t] filename_no_slash [of t] by metis+
qed

lemma split_join_target:
  assumes "stored_note n"
  shows "split_target (join_target (in_folder n) (in_title n)) = (in_folder n, in_title n)"
proof -
  let ?f = "in_folder n" and ?t = "in_title n"
  have t: "?t \<noteq> []" "py_strip ?t = ?t" "CHR ''/'' \<notin> set ?t" "normalize_folder ?f = Inr ?f"
    using assms by (simp_all add: stored_note_def)
  have ends: "\<not> py_isspace (hd ?t)" "\<not> py_isspace (last ?t)" "hd ?t \<noteq> CHR ''/''" "last ?t \<noteq> CHR ''/''"
    using t strip_by_hd [of py_isspace ?t] strip_by_last [of py_isspace ?t] by (auto dest: hd_in_set last_in_set)
  show ?thesis
  proof (cases "?f = []")
    case True
    have "strip_slashes (py_strip ?t) = ?t" using t(2) ends by (simp add: strip_slashes_def strip_by_id)
    then show ?thesis using True t by (simp add: split_target_def join_target_def rpartition_free)
  next
    case False
    let ?g = "?f @ ''/'' @ ?t"
    have "hd ?g = hd ?f" "last ?g = last ?t" using False t(1) by simp_all
    then have "py_strip ?g = ?g" "strip_slashes ?g = ?g"
      using normal_folder_hd [OF t(4) False] ends unfolding strip_slashes_def by (auto intro!: strip_by_id)
    then show ?thesis
      using False t rpartition_append [OF t(3), of ?f] by (simp add: split_target_def join_target_def)
  qed
qed

lemma folder_matches_refl: "folder_matches f f"
  by (simp add: folder_matches_def)

lemma rank_leD: "rank folder src m \<le> rank folder src n \<Longrightarrow> in_folder n = folder \<Longrightarrow> in_folder m = folder"
  by (auto simp: rank_def Let_def less_eq_prod_simp split: if_splits)

lemma resolve_member:
  assumes "resolve (mk_index nts) target source allow = Some c"
  shows "c \<in> set nts"
proof -
  obtain m where m: "resolve_detailed (mk_index nts) target source allow = Some m" "c = lm_chosen m"
    using assms by (auto simp: resolve_def)
  then show ?thesis
    using resolve_best [of nts target allow source]
    by (auto simp: exact_candidates_def folded_candidates_def split: if_splits)
qed

lemma full_path_resolves:
  assumes "n \<in> set nts" "stored_note n"
    and "\<And>m. m \<in> set nts \<Longrightarrow> in_folder m = in_folder n \<Longrightarrow> in_title m = in_title n \<Longrightarrow> m = n"
  shows "resolve (mk_index nts) (join_target (in_folder n) (in_title n)) source allow = Some n"
proof -
  let ?t = "join_target (in_folder n) (in_title n)"
  have mem: "n \<in> exact_candidates nts ?t"
    using assms(1) by (simp add: exact_candidates_def split_join_target [OF assms(2)] folder_matches_refl)
  then obtain m where m: "resolve_detailed (mk_index nts) ?t source allow = Some m"
    using resolve_best [of nts ?t allow source] by (auto split: option.splits)
  let ?c = "lm_chosen m" and ?key = "rank (in_folder n) (path_segments source)"
  have c: "set (?c # lm_alternatives m) = exact_candidates nts ?t" "sorted (map ?key (?c # lm_alternatives m))"
    using resolve_best [of nts ?t allow source] m mem by (auto simp: split_join_target [OF assms(2)])
  have "n \<in> set (?c # lm_alternatives m)" unfolding c(1) by (rule mem)
  then have "?key ?c \<le> ?key n" using c(2) by auto
  then have "in_folder ?c = in_folder n" by (rule rank_leD) simp
  moreover have "?c \<in> set nts" "in_title ?c = in_title n"
    using c(1) by (auto simp: exact_candidates_def split_join_target [OF assms(2)])
  ultimately show ?thesis using assms(3) m by (simp add: resolve_def)
qed

lemma targets_resolve:
  assumes "n \<in> set nts" and "stored_note n" and "distinct (map in_note_id nts)"
    and "\<And>m. m \<in> set nts \<Longrightarrow> in_folder m = in_folder n \<Longrightarrow> in_title m = in_title n \<Longrightarrow> m = n"
  shows "resolve (mk_index nts) (join_target (in_folder n) (in_title n)) source allow = Some n \<and>
    resolve (mk_index nts) (shortest_target (mk_index nts) n source min_segments) source False = Some n"
proof
  show full: "resolve (mk_index nts) (join_target (in_folder n) (in_title n)) source allow = Some n" for allow
    by (rule full_path_resolves [OF assms(1,2,4)])
  have "resolve (mk_index nts) (try_lengths (mk_index nts) n source segs lens) source False = Some n" for segs lens
  proof (induction lens)
    case Nil
    then show ?case using full by simp
  next
    case (Cons len lens)
    show ?case
    proof (cases "resolve (mk_index nts) (join ''/'' (drop (length segs - len) segs)) source False")
      case None
      then show ?thesis using Cons by simp
    next
      case (Some h)
      show ?thesis
      proof (cases "in_note_id h = in_note_id n")
        case True
        then have "h = n"
          using assms(1,3) resolve_member [OF Some] by (auto simp: distinct_map inj_on_def)
        then show ?thesis using Some by simp
      next
        case False
        then show ?thesis using Some Cons by simp
      qed
    qed
  qed
  then show "resolve (mk_index nts) (shortest_target (mk_index nts) n source min_segments) source False = Some n"
    by (simp add: shortest_target_def Let_def)
qed

text \<open>C40: written links lead back. In a workspace where identifiers and the pairs of folder and title
  are unique, the full path of a stored note resolves to it from every folder, and so does the
  target \<open>shortest_target\<close> chooses, whatever other notes share the title.\<close>

theorem written_targets_resolve:
  assumes "n \<in> set nts" and "stored_note n" and "distinct (map in_note_id nts)"
    and "\<And>m. m \<in> set nts \<Longrightarrow> in_folder m = in_folder n \<Longrightarrow> in_title m = in_title n \<Longrightarrow> m = n"
  shows "resolve (mk_index nts) (join_target (in_folder n) (in_title n)) source allow = Some n \<and>
    resolve (mk_index nts) (shortest_target (mk_index nts) n source min_segments) source False = Some n"
  by (rule targets_resolve [OF assms])

subsection \<open>Examples\<close>

definition ex_notes :: "indexed_note list" where
  "ex_notes = [\<lparr>in_note_id = ''1'', in_folder = ''a/b'', in_title = ''T''\<rparr>, \<lparr>in_note_id = ''2'', in_folder = ''c'', in_title = ''T''\<rparr>]"

lemma ex_shortest: "shortest_target (mk_index ex_notes) (ex_notes ! 0) ''c'' 1 = ''b/T''"
  by code_simp

theorem written_targets_resolve_witness:
  "resolve (mk_index ex_notes) ''b/T'' ''c'' False = Some (ex_notes ! 0)"
proof -
  have "stored_note (ex_notes ! 0)" by code_simp
  moreover have "ex_notes ! 0 \<in> set ex_notes" "distinct (map in_note_id ex_notes)" by code_simp+
  moreover have "\<And>m. m \<in> set ex_notes \<Longrightarrow> in_folder m = in_folder (ex_notes ! 0) \<Longrightarrow> in_title m = in_title (ex_notes ! 0) \<Longrightarrow> m = ex_notes ! 0"
    by (auto simp: ex_notes_def)
  ultimately show ?thesis
    using written_targets_resolve [of "ex_notes ! 0" ex_notes "''c''" False 1] unfolding ex_shortest by blast
qed

theorem resolve_picks_best_witness:
  "\<exists>m. resolve_detailed (mk_index ex_notes) ''t'' ''c'' True = Some m \<and> lm_casefold m"
proof -
  have s: "split_target ''t'' = ([], ''t'')" by code_simp
  have "\<forall>n \<in> set ex_notes. in_title n \<noteq> ''t''" by code_simp
  then have x: "exact_candidates ex_notes ''t'' = {}"
    unfolding exact_candidates_def s by fastforce
  have "\<forall>n \<in> set ex_notes. py_casefold (in_title n) = py_casefold ''t''" by code_simp
  moreover have "ex_notes ! 0 \<in> set ex_notes" by code_simp
  moreover have "folder_matches (py_casefold (in_folder (ex_notes ! 0))) (py_casefold [])" by code_simp
  ultimately have "ex_notes ! 0 \<in> folded_candidates ex_notes ''t''"
    unfolding folded_candidates_def s by fastforce
  with x show ?thesis
    using resolve_picks_best [of ex_notes "''t''" True "''c''"]
    by (cases "resolve_detailed (mk_index ex_notes) ''t'' ''c'' True") auto
qed

end
