(* ===== verification/Link_Store.thy ===== *)
theory Link_Store
  imports Link_Index
begin

section \<open>The link graph: rows, services, backlink rewriting\<close>

text \<open>
  Models \<open>repositories/notes/links.py\<close>, \<open>repositories/dangling_links.py\<close>, \<open>services/notes/links.py\<close> and the
  text part of \<open>services/notes/backlinks.py\<close>. The tables \<open>note_links\<close> and \<open>dangling_links\<close> are lists of
  rows; a session is a function on them, and an operation that commits at once is the same function.
  Sets of identifiers are lists. The CommonMark parser is a parameter, as are the identifiers that
  \<open>nanoid\<close> generates.
\<close>

subsection \<open>The repositories\<close>

record note_link_row =
  nl_source :: string
  nl_target :: string
  nl_workspace :: string
  nl_owner :: string

record dangling_row =
  dg_id :: string
  dg_workspace :: string
  dg_owner :: string
  dg_source :: string
  dg_folder :: string
  dg_title :: string
  dg_created_at :: string

record link_db =
  ld_links :: "note_link_row list"
  ld_dangling :: "dangling_row list"

definition replace_links :: "string \<Rightarrow> string \<Rightarrow> string \<Rightarrow> string list \<Rightarrow> link_db \<Rightarrow> link_db" where
  "replace_links source_note_id workspace owner_id target_ids db =
     db\<lparr>ld_links := sql_delete (\<lambda>r. nl_source r = source_note_id) (ld_links db) @
       map (\<lambda>t. \<lparr>nl_source = source_note_id, nl_target = t, nl_workspace = workspace, nl_owner = owner_id\<rparr>) (remdups target_ids)\<rparr>"

text \<open>\<open>ON CONFLICT DO NOTHING\<close> on the composite primary key.\<close>

definition add_link :: "string \<Rightarrow> string \<Rightarrow> string \<Rightarrow> string \<Rightarrow> link_db \<Rightarrow> link_db" where
  "add_link source_note_id target_note_id workspace owner_id db =
     (if \<exists>r\<in>set (ld_links db). nl_source r = source_note_id \<and> nl_target r = target_note_id then db
      else db\<lparr>ld_links := ld_links db @
        [\<lparr>nl_source = source_note_id, nl_target = target_note_id, nl_workspace = workspace, nl_owner = owner_id\<rparr>]\<rparr>)"

definition delete_links_from :: "string \<Rightarrow> link_db \<Rightarrow> link_db" where
  "delete_links_from source_note_id db = db\<lparr>ld_links := sql_delete (\<lambda>r. nl_source r = source_note_id) (ld_links db)\<rparr>"

definition delete_links_to :: "string \<Rightarrow> link_db \<Rightarrow> link_db" where
  "delete_links_to target_note_id db = db\<lparr>ld_links := sql_delete (\<lambda>r. nl_target r = target_note_id) (ld_links db)\<rparr>"

definition delete_workspace_links :: "string \<Rightarrow> string \<Rightarrow> link_db \<Rightarrow> link_db" where
  "delete_workspace_links workspace owner_id db =
     db\<lparr>ld_links := sql_delete (\<lambda>r. nl_workspace r = workspace \<and> nl_owner r = owner_id) (ld_links db)\<rparr>"

definition in_workspace :: "string option \<Rightarrow> note_link_row \<Rightarrow> bool" where
  "in_workspace same_workspace r = (case same_workspace of None \<Rightarrow> True | Some w \<Rightarrow> nl_workspace r = w)"

definition backlinks :: "string \<Rightarrow> string option \<Rightarrow> link_db \<Rightarrow> string list" where
  "backlinks target_note_id same_workspace db =
     map nl_source (filter (\<lambda>r. nl_target r = target_note_id \<and> in_workspace same_workspace r) (ld_links db))"

definition backlinks_many :: "string list \<Rightarrow> string option \<Rightarrow> link_db \<Rightarrow> string list" where
  "backlinks_many target_note_ids same_workspace db =
     (if target_note_ids = [] then []
      else remdups (map nl_source (filter (\<lambda>r. nl_target r \<in> set target_note_ids \<and> in_workspace same_workspace r) (ld_links db))))"

definition outlinks :: "string \<Rightarrow> link_db \<Rightarrow> string list" where
  "outlinks source_note_id db = map nl_target (filter (\<lambda>r. nl_source r = source_note_id) (ld_links db))"

definition links_for_workspace :: "string \<Rightarrow> string \<Rightarrow> link_db \<Rightarrow> (string \<times> string) list" where
  "links_for_workspace workspace owner_id db =
     map (\<lambda>r. (nl_source r, nl_target r)) (filter (\<lambda>r. nl_workspace r = workspace \<and> nl_owner r = owner_id) (ld_links db))"

text \<open>\<open>gens\<close> are the generated row identifiers.\<close>

definition replace_for_source ::
  "string list \<Rightarrow> string \<Rightarrow> string \<Rightarrow> string \<Rightarrow> (string \<times> string) list \<Rightarrow> string \<Rightarrow> link_db \<Rightarrow> link_db" where
  "replace_for_source gens source_note_id workspace owner_id pairs now db =
     db\<lparr>ld_dangling := sql_delete (\<lambda>r. dg_source r = source_note_id) (ld_dangling db) @
       map (\<lambda>(g, folder, title). \<lparr>dg_id = g, dg_workspace = workspace, dg_owner = owner_id, dg_source = source_note_id,
          dg_folder = folder, dg_title = title, dg_created_at = now\<rparr>) (zip gens pairs)\<rparr>"

definition dangling_in :: "string \<Rightarrow> string \<Rightarrow> dangling_row \<Rightarrow> bool" where
  "dangling_in owner_id workspace r \<longleftrightarrow> dg_owner r = owner_id \<and> dg_workspace r = workspace"

definition dangling_exists :: "string \<Rightarrow> string \<Rightarrow> link_db \<Rightarrow> bool" where
  "dangling_exists owner_id workspace db \<longleftrightarrow> (\<exists>r\<in>set (ld_dangling db). dangling_in owner_id workspace r)"

definition dangling_for_workspace :: "string \<Rightarrow> string \<Rightarrow> link_db \<Rightarrow> (string \<times> string \<times> string \<times> string) list" where
  "dangling_for_workspace owner_id workspace db =
     map (\<lambda>r. (dg_id r, dg_source r, dg_folder r, dg_title r)) (filter (dangling_in owner_id workspace) (ld_dangling db))"

definition source_ids_for_workspace :: "string \<Rightarrow> string \<Rightarrow> link_db \<Rightarrow> string list" where
  "source_ids_for_workspace owner_id workspace db =
     remdups (map dg_source (filter (dangling_in owner_id workspace) (ld_dangling db)))"

definition sources_for_titles :: "string \<Rightarrow> string \<Rightarrow> string list \<Rightarrow> link_db \<Rightarrow> string list" where
  "sources_for_titles owner_id workspace titles db =
     (if titles = [] then []
      else remdups (map dg_source (filter (\<lambda>r. dangling_in owner_id workspace r \<and> dg_title r \<in> set titles) (ld_dangling db))))"

definition dangling_delete :: "string \<Rightarrow> link_db \<Rightarrow> link_db" where
  "dangling_delete row_id db = db\<lparr>ld_dangling := sql_delete (\<lambda>r. dg_id r = row_id) (ld_dangling db)\<rparr>"

definition delete_for_source :: "string \<Rightarrow> link_db \<Rightarrow> link_db" where
  "delete_for_source source_note_id db = db\<lparr>ld_dangling := sql_delete (\<lambda>r. dg_source r = source_note_id) (ld_dangling db)\<rparr>"

definition dangling_delete_for_workspace :: "string \<Rightarrow> string \<Rightarrow> link_db \<Rightarrow> link_db" where
  "dangling_delete_for_workspace owner_id workspace db =
     db\<lparr>ld_dangling := sql_delete (dangling_in owner_id workspace) (ld_dangling db)\<rparr>"

subsection \<open>The neighbourhood of a note\<close>

text \<open>The notes that the query joins: identifier, owner, workspace.\<close>

type_synonym note_key = "string \<times> string \<times> string"

definition eligible_edges :: "note_key list \<Rightarrow> string \<Rightarrow> string \<Rightarrow> bool \<Rightarrow> link_db \<Rightarrow> (string \<times> string) list" where
  "eligible_edges nts workspace owner_id include_cross db =
     (let ok = (\<lambda>i. \<exists>(j, own, w)\<in>set nts. j = i \<and> own = owner_id \<and> (include_cross \<or> w = workspace))
      in map (\<lambda>r. (nl_source r, nl_target r))
           (filter (\<lambda>r. nl_owner r = owner_id \<and> ok (nl_source r) \<and> ok (nl_target r)) (ld_links db)))"

definition adjacency :: "(string \<times> string) list \<Rightarrow> (string \<times> string) list" where
  "adjacency es = remdups (es @ map prod.swap es)"

text \<open>The rows \<open>walked\<close> gains at distance \<open>k\<close>: \<open>UNION\<close> keeps one row per note and distance.\<close>

fun level :: "(string \<times> string) list \<Rightarrow> string \<Rightarrow> nat \<Rightarrow> string list" where
  "level adj start 0 = [start]"
| "level adj start (Suc k) = remdups (map snd (filter (\<lambda>(s, t). s \<in> set (level adj start k)) adj))"

definition neighborhood_nodes :: "(string \<times> string) list \<Rightarrow> string \<Rightarrow> int \<Rightarrow> string list" where
  "neighborhood_nodes adj start depth = remdups (concat (map (level adj start) [0..<Suc (nat depth)]))"

definition neighborhood ::
  "note_key list \<Rightarrow> string \<Rightarrow> string \<Rightarrow> string \<Rightarrow> int \<Rightarrow> bool \<Rightarrow> link_db \<Rightarrow> (string \<times> string) list" where
  "neighborhood nts note_id workspace owner_id depth include_cross db =
     (let edges = eligible_edges nts workspace owner_id include_cross db;
          nodes = neighborhood_nodes (adjacency edges) note_id depth
      in sort (filter (\<lambda>(s, t). s \<in> set nodes \<and> t \<in> set nodes) edges))"

subsection \<open>The link service\<close>

datatype link_error = BrokenWikilinkError "string list"

record wikilink_warning =
  ww_kind :: string
  ww_target :: string
  ww_resolved_to :: string
  ww_alternatives :: "string list"

definition note_target :: "indexed_note \<Rightarrow> string" where
  "note_target n = join_target (in_folder n) (in_title n)"

definition wikilink_warnings :: "link_resolution \<Rightarrow> wikilink_warning list" where
  "wikilink_warnings links =
     sort_key ww_target
       (map (\<lambda>(t, c, alts). \<lparr>ww_kind = ''ambiguous_wikilink'', ww_target = t, ww_resolved_to = note_target c,
          ww_alternatives = map note_target alts\<rparr>) (lr_ambiguous links) @
        map (\<lambda>(t, c). \<lparr>ww_kind = ''case_corrected_wikilink'', ww_target = t, ww_resolved_to = note_target c,
          ww_alternatives = []\<rparr>) (lr_case_corrected links))"

text \<open>\<open>found\<close>: which of the identifiers are notes of the owner (\<open>get_many\<close>).\<close>

definition service_resolve_links ::
  "(string \<Rightarrow> token list) \<Rightarrow> (string list \<Rightarrow> string list) \<Rightarrow> link_index \<Rightarrow> string \<Rightarrow> string \<Rightarrow> link_resolution" where
  "service_resolve_links md_parse found ix content source_folder =
     (let r = resolve_content_links md_parse ix content source_folder
      in if lr_xws_ids r = [] then r
         else r\<lparr>lr_resolved_ids := remdups (lr_resolved_ids r @ found (lr_xws_ids r))\<rparr>)"

definition validate_wikilinks ::
  "(string \<Rightarrow> token list) \<Rightarrow> (string list \<Rightarrow> string list) \<Rightarrow> bool \<Rightarrow> link_index \<Rightarrow> string \<Rightarrow> string \<Rightarrow> link_error + link_resolution" where
  "validate_wikilinks md_parse found validated ix content source_folder =
     (let r = service_resolve_links md_parse found ix content source_folder
      in if lr_broken r \<noteq> [] \<and> validated then Inl (BrokenWikilinkError (lr_broken r)) else Inr r)"

fun persist_resolutions ::
  "(string \<Rightarrow> string list) \<Rightarrow> string \<Rightarrow> string \<Rightarrow> string \<Rightarrow> bool \<Rightarrow> (string \<times> link_resolution) list \<Rightarrow> link_db \<Rightarrow> link_db" where
  "persist_resolutions gens ws_name owner_id now dangling [] db = db"
| "persist_resolutions gens ws_name owner_id now dangling ((source_id, links) # rs) db =
     (let db' = replace_links source_id ws_name owner_id (lr_resolved_ids links) db;
          db'' = (if dangling then replace_for_source (gens source_id) source_id ws_name owner_id (broken_pairs links) now db' else db')
      in persist_resolutions gens ws_name owner_id now dangling rs db'')"

fun clear_sources :: "bool \<Rightarrow> string list \<Rightarrow> link_db \<Rightarrow> link_db" where
  "clear_sources dangling [] db = db"
| "clear_sources dangling (s # ss) db =
     (let db' = delete_links_from s db in clear_sources dangling ss (if dangling then delete_for_source s db' else db'))"

definition persist_many ::
  "(string \<Rightarrow> string list) \<Rightarrow> string \<Rightarrow> string \<Rightarrow> string \<Rightarrow> bool \<Rightarrow> (string \<times> link_resolution) list \<Rightarrow> string list \<Rightarrow> link_db \<Rightarrow> link_db" where
  "persist_many gens ws_name owner_id now dangling resolutions clear_source_ids db =
     clear_sources dangling (filter (\<lambda>s. s \<notin> fst ` set resolutions) clear_source_ids)
       (persist_resolutions gens ws_name owner_id now dangling resolutions db)"

definition target_ids_for_titles :: "indexed_note list \<Rightarrow> string list \<Rightarrow> string list" where
  "target_ids_for_titles paths titles = map in_note_id (filter (\<lambda>n. in_title n \<in> set titles) paths)"

definition affected_sources ::
  "string \<Rightarrow> string \<Rightarrow> bool \<Rightarrow> indexed_note list \<Rightarrow> string list \<Rightarrow> string list \<Rightarrow> link_db \<Rightarrow> string list" where
  "affected_sources ws_name owner_id dangling paths titles include_source_ids db =
     remdups (backlinks_many (target_ids_for_titles paths titles) (Some ws_name) db @
       (if dangling then sources_for_titles owner_id ws_name titles db else []) @ include_source_ids)"

subsection \<open>Rewriting backlinks\<close>

text \<open>\<open>moved\<close> maps the identifiers of the moved notes to their new identities.\<close>

definition moved_paths :: "(string \<rightharpoonup> indexed_note) \<Rightarrow> indexed_note list \<Rightarrow> indexed_note list" where
  "moved_paths moved paths = map (\<lambda>p. case moved (in_note_id p) of Some n \<Rightarrow> n | None \<Rightarrow> p) paths"

definition rewrite_target ::
  "link_index \<Rightarrow> link_index \<Rightarrow> (string \<rightharpoonup> indexed_note) \<Rightarrow> string \<Rightarrow> string \<Rightarrow> string \<Rightarrow> string option" where
  "rewrite_target before after moved before_folder after_folder target =
     (case resolve before target before_folder True of
        None \<Rightarrow> None
      | Some hit \<Rightarrow> (case moved (in_note_id hit) of
          None \<Rightarrow> None
        | Some n \<Rightarrow> Some (shortest_target after n after_folder (length (path_segments target)))))"

definition rewritten_body ::
  "indexed_note list \<Rightarrow> (string \<rightharpoonup> indexed_note) \<Rightarrow> string \<Rightarrow> string \<Rightarrow> string \<Rightarrow> string \<times> bool" where
  "rewritten_body paths moved before_folder after_folder content =
     rewrite_wikilinks content
       (rewrite_target (mk_index paths) (mk_index (moved_paths moved paths)) moved before_folder after_folder)"

subsection \<open>The neighbourhood is a bounded walk\<close>

lemma set_level: "set (level adj start k) = {t. (start, t) \<in> set adj ^^ k}"
proof (induction k)
  case (Suc k)
  then show ?case by force
qed simp

lemma set_adjacency: "set (adjacency es) = set es \<union> (set es)\<inverse>"
  by (auto simp: adjacency_def)

lemma set_neighborhood_nodes:
  "set (neighborhood_nodes adj start depth) = {t. \<exists>k\<le>nat depth. (start, t) \<in> set adj ^^ k}"
proof -
  have "set (neighborhood_nodes adj start depth) = (\<Union>k\<in>{0..<Suc (nat depth)}. set (level adj start k))"
    by (simp only: neighborhood_nodes_def set_remdups set_concat set_map set_upt image_image)
  then show ?thesis by (auto simp: set_level less_Suc_eq_le)
qed

text \<open>The neighbourhood of a note. The query returns, in order, exactly the eligible edges both of
  whose ends can be reached from the note by at most \<open>depth\<close> links, followed in either direction.\<close>

theorem neighborhood_exact:
  "set (neighborhood nts note_id workspace owner_id depth cross db) =
     {(s, t). (s, t) \<in> set (eligible_edges nts workspace owner_id cross db) \<and>
        (\<exists>k\<le>nat depth. (note_id, s) \<in>
           (set (eligible_edges nts workspace owner_id cross db) \<union> (set (eligible_edges nts workspace owner_id cross db))\<inverse>) ^^ k) \<and>
        (\<exists>k\<le>nat depth. (note_id, t) \<in>
           (set (eligible_edges nts workspace owner_id cross db) \<union> (set (eligible_edges nts workspace owner_id cross db))\<inverse>) ^^ k)} \<and>
   sorted (neighborhood nts note_id workspace owner_id depth cross db)"
  unfolding neighborhood_def Let_def set_sort set_filter set_neighborhood_nodes set_adjacency by auto

subsection \<open>Persisting replaces the rows of a source\<close>

text \<open>What the tables hold about one source.\<close>

definition source_rows :: "string \<Rightarrow> link_db \<Rightarrow> note_link_row list \<times> dangling_row list" where
  "source_rows s db = (filter (\<lambda>r. nl_source r = s) (ld_links db), filter (\<lambda>r. dg_source r = s) (ld_dangling db))"

definition link_rows :: "string \<Rightarrow> string \<Rightarrow> string \<Rightarrow> string list \<Rightarrow> note_link_row list" where
  "link_rows s ws owner ids = map (\<lambda>t. \<lparr>nl_source = s, nl_target = t, nl_workspace = ws, nl_owner = owner\<rparr>) (remdups ids)"

definition dangling_rows :: "string list \<Rightarrow> string \<Rightarrow> string \<Rightarrow> string \<Rightarrow> string \<Rightarrow> (string \<times> string) list \<Rightarrow> dangling_row list" where
  "dangling_rows gens s ws owner now pairs = map (\<lambda>(g, f, t). \<lparr>dg_id = g, dg_workspace = ws, dg_owner = owner, dg_source = s,
     dg_folder = f, dg_title = t, dg_created_at = now\<rparr>) (zip gens pairs)"

lemma filter_sql_delete: "filter P (sql_delete Q xs) = filter (\<lambda>r. P r \<and> \<not> Q r) xs"
  by (induction xs) (auto simp: sql_delete_def)

lemma filter_link_rows: "filter (\<lambda>r. nl_source r = s') (link_rows s ws owner ids) = (if s' = s then link_rows s ws owner ids else [])"
  by (auto simp: link_rows_def filter_map comp_def)

lemma filter_dangling_rows:
  "filter (\<lambda>r. dg_source r = s') (dangling_rows gens s ws owner now pairs) = (if s' = s then dangling_rows gens s ws owner now pairs else [])"
  by (auto simp: dangling_rows_def filter_map comp_def case_prod_beta)

lemma source_rows_replace_links:
  "source_rows s' (replace_links s ws owner ids db) =
    (if s' = s then link_rows s ws owner ids else fst (source_rows s' db), snd (source_rows s' db))"
  using filter_link_rows [of s' s ws owner ids]
  by (auto simp: source_rows_def replace_links_def filter_sql_delete link_rows_def intro!: filter_cong)

lemma source_rows_replace_for_source:
  "source_rows s' (replace_for_source gens s ws owner pairs now db) =
    (fst (source_rows s' db), if s' = s then dangling_rows gens s ws owner now pairs else snd (source_rows s' db))"
  using filter_dangling_rows [of s' gens s ws owner now pairs]
  by (auto simp: source_rows_def replace_for_source_def filter_sql_delete dangling_rows_def intro!: filter_cong)

lemma source_rows_delete:
  "source_rows s' (delete_links_from s db) = (if s' = s then [] else fst (source_rows s' db), snd (source_rows s' db))"
  "source_rows s' (delete_for_source s db) = (fst (source_rows s' db), if s' = s then [] else snd (source_rows s' db))"
  by (auto simp: source_rows_def delete_links_from_def delete_for_source_def filter_sql_delete intro!: filter_cong)

lemma source_rows_persist:
  assumes "distinct (map fst rs)"
  shows "source_rows s (persist_resolutions gens ws owner now dangling rs db) =
    (case map_of rs s of
       None \<Rightarrow> source_rows s db
     | Some l \<Rightarrow> (link_rows s ws owner (lr_resolved_ids l),
         if dangling then dangling_rows (gens s) s ws owner now (broken_pairs l) else snd (source_rows s db)))"
  using assms
proof (induction rs arbitrary: db)
  case (Cons x rs)
  obtain s' l where x: "x = (s', l)" by fastforce
  have "map_of rs s' = None" using Cons.prems by (simp add: x map_of_eq_None_iff)
  then show ?case using Cons
    by (auto simp: x Let_def source_rows_replace_links source_rows_replace_for_source split: option.splits)
qed simp

lemma source_rows_clear:
  "source_rows s (clear_sources dangling ss db) =
    (if s \<in> set ss then ([], if dangling then [] else snd (source_rows s db)) else source_rows s db)"
  by (induction ss arbitrary: db) (auto simp: Let_def source_rows_delete)

text \<open>Persisting is a replacement per source. After a batch of resolutions the rows of each
  resolved source are exactly its targets and its broken pairs, the rows of a cleared source are gone,
  and the rows of every other source are untouched; a source both resolved and cleared is resolved.\<close>

theorem persist_replaces:
  assumes "distinct (map fst rs)"
  shows "source_rows s (persist_many gens ws owner now True rs clear db) =
    (case map_of rs s of
       Some l \<Rightarrow> (link_rows s ws owner (lr_resolved_ids l), dangling_rows (gens s) s ws owner now (broken_pairs l))
     | None \<Rightarrow> if s \<in> set clear then ([], []) else source_rows s db)"
proof -
  have "s \<in> fst ` set rs \<longleftrightarrow> map_of rs s \<noteq> None" by (simp add: map_of_eq_None_iff)
  then show ?thesis
    by (auto simp: persist_many_def source_rows_clear source_rows_persist [OF assms] split: option.splits)
qed

subsection \<open>Rewritten backlinks lead to the moved note\<close>

lemma target_text_alt: "target_text n \<longleftrightarrow> n \<noteq> [] \<and> \<not> py_isspace (hd n) \<and> \<not> py_isspace (last n) \<and>
    (\<forall>c\<in>set n. c \<noteq> CHR ''['' \<and> c \<noteq> CHR '']'' \<and> c \<noteq> CHR ''|'' \<and> c \<noteq> CHR 0x0A)"
proof -
  have "n \<noteq> [] \<Longrightarrow> py_strip n = n \<longleftrightarrow> \<not> py_isspace (hd n) \<and> \<not> py_isspace (last n)"
    using strip_by_hd [of py_isspace n] strip_by_last [of py_isspace n] strip_by_id [of n py_isspace] by metis
  then show ?thesis unfolding target_text_def by blast
qed

lemma target_text_join: "ps \<noteq> [] \<Longrightarrow> \<forall>p\<in>set ps. target_text p \<Longrightarrow> target_text (join ''/'' ps)"
proof (induction ps rule: induct_list012)
  case (3 x y ys)
  then have "target_text x" "target_text (join ''/'' (y # ys))" by simp_all
  then show ?case unfolding target_text_alt by (auto simp: hd_append)
qed simp_all

text \<open>A note whose path segments and title can all be written in a link.\<close>

definition linkable :: "indexed_note \<Rightarrow> bool" where
  "linkable n \<longleftrightarrow> stored_note n \<and> (\<forall>seg\<in>set (path_segments (in_folder n) @ [in_title n]). target_text seg)"

lemma shortest_target_text:
  assumes "linkable n"
  shows "target_text (shortest_target ix n source k)"
proof -
  let ?segs = "path_segments (in_folder n) @ [in_title n]"
  have full: "join_target (in_folder n) (in_title n) = join ''/'' ?segs"
  proof -
    have f: "in_folder n = join ''/'' (path_segments (in_folder n))"
      using assms normalize_folder_Inr(2) by (auto simp: linkable_def stored_note_def)
    show ?thesis
    proof (cases "path_segments (in_folder n)")
      case Nil
      then have "in_folder n = []" using f by simp
      then show ?thesis using Nil by (simp add: join_target_def)
    next
      case (Cons x xs)
      have "x \<noteq> []" using assms Cons by (auto simp: linkable_def target_text_def)
      then have "in_folder n \<noteq> []" using f Cons by (cases xs) auto
      then show ?thesis using f Cons join_append [of "x # xs" "[in_title n]" "''/''"] by (simp add: join_target_def)
    qed
  qed
  have suf: "target_text (join ''/'' (drop (length ?segs - len) ?segs))" if "0 < len" for len
    using that assms by (intro target_text_join) (auto simp: linkable_def dest: in_set_dropD)
  have "target_text (try_lengths ix n source ?segs lens)" if "\<forall>l\<in>set lens. 0 < l" for lens
    using that
  proof (induction lens)
    case Nil
    then show ?case using suf [of "length ?segs"] by (simp add: full)
  next
    case (Cons l lens)
    then show ?case using suf [of l] by (simp add: Let_def split: option.splits)
  qed
  then show ?thesis unfolding shortest_target_def Let_def by (auto simp del: upt_Suc length_append)
qed

text \<open>The effect of a move on one link: what it resolved to before decides what it resolves to now.\<close>

definition follows :: "indexed_note list \<Rightarrow> (string \<rightharpoonup> indexed_note) \<Rightarrow> string \<Rightarrow> string \<Rightarrow> string \<times> string option \<Rightarrow> string \<times> string option \<Rightarrow> bool" where
  "follows paths moved before_folder after_folder l l' \<longleftrightarrow> snd l' = snd l \<and>
     (case resolve (mk_index paths) (fst l) before_folder True of
        Some hit \<Rightarrow> (case moved (in_note_id hit) of
            Some n \<Rightarrow> resolve (mk_index (moved_paths moved paths)) (fst l') after_folder False = Some n
          | None \<Rightarrow> fst l' = fst l)
      | None \<Rightarrow> fst l' = fst l)"


subsection \<open>Examples\<close>

definition ex_moved :: "string \<rightharpoonup> indexed_note" where
  "ex_moved = [''1'' \<mapsto> \<lparr>in_note_id = ''1'', in_folder = ''d'', in_title = ''U''\<rparr>]"

definition ex_body :: string where
  "ex_body = ''see [[ b/T |x]] and [[c/T]]''"

lemma ex_resolved:
  "resolve (mk_index ex_notes) ''b/T'' [] True = Some (ex_notes ! 0)" "in_note_id (ex_notes ! 0) = ''1''"
  "raw_links ex_body = [(''b/T'', Some ''x''), (''c/T'', None)]"
  "distinct (map in_note_id (moved_paths ex_moved ex_notes))"
  "distinct (map (\<lambda>n. (in_folder n, in_title n)) (moved_paths ex_moved ex_notes))"
  "linkable \<lparr>in_note_id = ''1'', in_folder = ''d'', in_title = ''U''\<rparr>"
  by code_simp+


definition ex_resolution :: link_resolution where
  "ex_resolution = \<lparr>lr_resolved_ids = [''2''], lr_broken = [''x/Gone''], lr_xws_ids = [], lr_ambiguous = [], lr_case_corrected = []\<rparr>"

theorem persist_replaces_witness:
  "source_rows ''s'' (persist_many (\<lambda>_. [''g'']) ''w'' ''o'' ''t'' True [(''s'', ex_resolution)] [''s'', ''r'']
      \<lparr>ld_links = [\<lparr>nl_source = ''s'', nl_target = ''1'', nl_workspace = ''w'', nl_owner = ''o''\<rparr>], ld_dangling = []\<rparr>) =
    ([\<lparr>nl_source = ''s'', nl_target = ''2'', nl_workspace = ''w'', nl_owner = ''o''\<rparr>],
     [\<lparr>dg_id = ''g'', dg_workspace = ''w'', dg_owner = ''o'', dg_source = ''s'', dg_folder = ''x'', dg_title = ''Gone'', dg_created_at = ''t''\<rparr>])"
proof -
  have "broken_pairs ex_resolution = [(''x'', ''Gone'')]" by code_simp
  then show ?thesis
    using persist_replaces [of "[(''s'', ex_resolution)]" "''s''"]
    by (simp add: link_rows_def dangling_rows_def) (simp add: ex_resolution_def)
qed

end
