(* ===== verification/Link_Reconcile.thy ===== *)
theory Link_Reconcile
  imports Jobs Link_Store
begin

section \<open>Background repair of the link graph\<close>

text \<open>
  Models \<open>repositories/link_reconcile.py\<close> (the versioned set of dirty sources, whose markers are written
  in one transaction with the job that will process them) and the protocol of
  \<open>services/reconcile_links_handler.py\<close> against concurrent writers.

  The handler does not take the workspace lock, so the protocol is a step relation: foreground writes,
  their marks, and the handler's reads and writes interleave in any order. What a source resolves to is
  a parameter of the paths of the workspace and of the revision of the source (folder, title, update
  time, text); handler steps are per source, which allows every order the loop over the passes can
  produce. The legacy mode of the handler, which adds the sources of dangling links, is not modelled.
\<close>

subsection \<open>The repository\<close>

record dirty_row =
  dr_owner :: string
  dr_workspace :: string
  dr_source :: string
  dr_generation :: int

definition dirty_key :: "string \<Rightarrow> string \<Rightarrow> string \<Rightarrow> dirty_row \<Rightarrow> bool" where
  "dirty_key owner_id workspace source_note_id r \<longleftrightarrow>
     dr_owner r = owner_id \<and> dr_workspace r = workspace \<and> dr_source r = source_note_id"

text \<open>\<open>INSERT ... ON CONFLICT DO UPDATE SET generation = generation + 1\<close>.\<close>

definition mark_source :: "string \<Rightarrow> string \<Rightarrow> string \<Rightarrow> dirty_row list \<Rightarrow> dirty_row list" where
  "mark_source owner_id workspace source_note_id t =
     (if \<exists>r\<in>set t. dirty_key owner_id workspace source_note_id r
      then sql_update (dirty_key owner_id workspace source_note_id) (\<lambda>r. r\<lparr>dr_generation := dr_generation r + 1\<rparr>) t
      else t @ [\<lparr>dr_owner = owner_id, dr_workspace = workspace, dr_source = source_note_id, dr_generation = 1\<rparr>])"

definition reconcile_key :: "string \<Rightarrow> string \<Rightarrow> string" where
  "reconcile_key owner_id workspace = ''reconcile:'' @ owner_id @ '':'' @ workspace"

definition reconcile_payload :: "string \<Rightarrow> string \<Rightarrow> json" where
  "reconcile_payload owner_id workspace =
     JObj [(''user_id'', JStr owner_id), (''workspace'', JStr workspace), (''mode'', JStr ''targeted'')]"

text \<open>One transaction over both tables: an error of the queue leaves both as they were.\<close>

definition mark_and_enqueue ::
  "string \<Rightarrow> epoch \<Rightarrow> string \<Rightarrow> string \<Rightarrow> string list \<Rightarrow> dirty_row list \<times> job list
   \<Rightarrow> db_error + (string option \<times> dirty_row list \<times> job list)" where
  "mark_and_enqueue jid now owner_id workspace source_note_ids st =
     (let sources = sort (remdups (filter (\<lambda>s. s \<noteq> []) source_note_ids))
      in if sources = [] then Inr (None, st)
         else (case enqueue_in_session jid ''reconcile_links'' (reconcile_payload owner_id workspace)
                 (Some (reconcile_key owner_id workspace)) (Some owner_id) 5 0 PRIORITY_DEFAULT now (snd st) of
             Inl e \<Rightarrow> Inl e
           | Inr (job_id, jobs) \<Rightarrow> Inr (Some job_id, foldl (\<lambda>t s. mark_source owner_id workspace s t) (fst st) sources, jobs)))"

definition list_dirty :: "string \<Rightarrow> string \<Rightarrow> dirty_row list \<Rightarrow> (string \<times> int) list" where
  "list_dirty owner_id workspace t =
     map (\<lambda>r. (dr_source r, dr_generation r)) (filter (\<lambda>r. dr_owner r = owner_id \<and> dr_workspace r = workspace) t)"

text \<open>\<open>acknowledge\<close>: statements of at most 400 predicates each.\<close>

fun acknowledge_batches :: "string \<Rightarrow> string \<Rightarrow> (string \<times> int) list list \<Rightarrow> dirty_row list \<Rightarrow> dirty_row list" where
  "acknowledge_batches owner_id workspace [] t = t"
| "acknowledge_batches owner_id workspace (b # bs) t =
     acknowledge_batches owner_id workspace bs
       (sql_delete (\<lambda>r. dr_owner r = owner_id \<and> dr_workspace r = workspace \<and> (dr_source r, dr_generation r) \<in> set b) t)"

definition acknowledge :: "string \<Rightarrow> string \<Rightarrow> (string \<times> int) list \<Rightarrow> dirty_row list \<Rightarrow> dirty_row list" where
  "acknowledge owner_id workspace generations t =
     (if generations = [] then t else acknowledge_batches owner_id workspace (batched 400 generations) t)"

definition dirty_delete_for_workspace :: "string \<Rightarrow> string \<Rightarrow> dirty_row list \<Rightarrow> nat \<times> dirty_row list" where
  "dirty_delete_for_workspace owner_id workspace t =
     (sql_count (\<lambda>r. dr_owner r = owner_id \<and> dr_workspace r = workspace) t,
      sql_delete (\<lambda>r. dr_owner r = owner_id \<and> dr_workspace r = workspace) t)"

subsection \<open>The dirty set as a map\<close>

text \<open>The abstract dirty set of one workspace and its two operations; the table implements it.\<close>

definition dirty_inv :: "dirty_row list \<Rightarrow> bool" where
  "dirty_inv t \<longleftrightarrow> distinct (map (\<lambda>r. (dr_owner r, dr_workspace r, dr_source r)) t)"

definition dirty_map :: "string \<Rightarrow> string \<Rightarrow> dirty_row list \<Rightarrow> string \<rightharpoonup> int" where
  "dirty_map owner_id workspace t = map_of (list_dirty owner_id workspace t)"

definition bump :: "string set \<Rightarrow> (string \<rightharpoonup> int) \<Rightarrow> string \<rightharpoonup> int" where
  "bump S d = (\<lambda>s. if s \<in> S then Some (case d s of None \<Rightarrow> 1 | Some g \<Rightarrow> g + 1) else d s)"

definition drop_matching :: "(string \<rightharpoonup> int) \<Rightarrow> (string \<rightharpoonup> int) \<Rightarrow> string \<rightharpoonup> int" where
  "drop_matching gens d = (\<lambda>s. if d s \<noteq> None \<and> gens s = d s then None else d s)"

lemma list_dirty_Cons:
  "list_dirty o' w (r # t) = (if dr_owner r = o' \<and> dr_workspace r = w then [(dr_source r, dr_generation r)] else []) @ list_dirty o' w t"
  by (simp add: list_dirty_def)

lemma dirty_map_None: "dirty_map o' w t s = None \<longleftrightarrow> (\<forall>r\<in>set t. \<not> dirty_key o' w s r)"
  by (force simp: dirty_map_def map_of_eq_None_iff list_dirty_def dirty_key_def)

lemma dirty_inv_mark: "dirty_inv t \<Longrightarrow> dirty_inv (mark_source o' w s t)"
proof -
  assume inv: "dirty_inv t"
  have "map (\<lambda>r. (dr_owner r, dr_workspace r, dr_source r)) (sql_update P (\<lambda>r. r\<lparr>dr_generation := dr_generation r + 1\<rparr>) t) =
      map (\<lambda>r. (dr_owner r, dr_workspace r, dr_source r)) t" for P
    by (rule map_key_sql_update) simp
  then show ?thesis using inv by (auto simp: dirty_inv_def mark_source_def dirty_key_def)
qed

lemma dirty_map_update:
  assumes "dirty_inv t"
  shows "dirty_map o' w (sql_update (dirty_key o' w s) (\<lambda>r. r\<lparr>dr_generation := dr_generation r + 1\<rparr>) t) =
    (\<lambda>x. if x = s then map_option (\<lambda>g. g + 1) (dirty_map o' w t x) else dirty_map o' w t x)"
  using assms
  by (induction t) (auto simp: dirty_map_def list_dirty_Cons dirty_key_def dirty_inv_def list_dirty_def)

lemma dirty_map_mark:
  assumes "dirty_inv t"
  shows "dirty_map o' w (mark_source o' w s t) = bump {s} (dirty_map o' w t)"
proof (cases "\<exists>r\<in>set t. dirty_key o' w s r")
  case True
  then have "dirty_map o' w t s \<noteq> None" using dirty_map_None by blast
  then show ?thesis using True dirty_map_update [OF assms]
    by (auto simp: mark_source_def bump_def fun_eq_iff split: option.splits)
next
  case False
  then have n: "dirty_map o' w t s = None" using dirty_map_None by blast
  show ?thesis
  proof
    fix x
    have "dirty_map o' w (t @ [\<lparr>dr_owner = o', dr_workspace = w, dr_source = s, dr_generation = 1\<rparr>]) x =
        (case dirty_map o' w t x of None \<Rightarrow> if x = s then Some 1 else None | Some g \<Rightarrow> Some g)"
      by (auto simp: dirty_map_def list_dirty_def map_add_def split: option.splits)
    then show "dirty_map o' w (mark_source o' w s t) x = bump {s} (dirty_map o' w t) x"
      using False n by (auto simp: mark_source_def bump_def split: option.splits)
  qed
qed

lemma bump_bump: "s \<notin> S \<Longrightarrow> bump S (bump {s} d) = bump (insert s S) d"
  by (auto simp: bump_def fun_eq_iff)

lemma dirty_map_marks:
  assumes "dirty_inv t" and "distinct ss"
  shows "dirty_map o' w (foldl (\<lambda>t s. mark_source o' w s t) t ss) = bump (set ss) (dirty_map o' w t) \<and>
    dirty_inv (foldl (\<lambda>t s. mark_source o' w s t) t ss)"
  using assms
proof (induction ss arbitrary: t)
  case Nil
  then show ?case by (simp add: bump_def)
next
  case (Cons s ss)
  then show ?case by (simp add: dirty_inv_mark dirty_map_mark bump_bump)
qed

lemma acknowledge_delete:
  "acknowledge_batches o' w bs t =
    sql_delete (\<lambda>r. dr_owner r = o' \<and> dr_workspace r = w \<and> (dr_source r, dr_generation r) \<in> set (concat bs)) t"
proof (induction bs arbitrary: t)
  case (Cons b bs)
  then show ?case by (auto simp: sql_delete_def intro: filter_cong)
qed (simp add: sql_delete_def)

lemma dirty_map_acknowledge:
  assumes "dirty_inv t" and "distinct (map fst gens)"
  shows "dirty_map o' w (acknowledge o' w gens t) = drop_matching (map_of gens) (dirty_map o' w t)"
proof -
  let ?P = "\<lambda>r. dr_owner r = o' \<and> dr_workspace r = w \<and> (dr_source r, dr_generation r) \<in> set gens"
  have "acknowledge o' w gens t = sql_delete ?P t"
    by (simp add: acknowledge_def acknowledge_delete concat_batched) (simp add: sql_delete_def)
  moreover have "dirty_map o' w (sql_delete ?P t) x = drop_matching (map_of gens) (dirty_map o' w t) x" for x
    using assms(1)
  proof (induction t)
    case Nil
    then show ?case by (simp add: dirty_map_def list_dirty_def sql_delete_def drop_matching_def)
  next
    case (Cons r t)
    have "x = dr_source r \<Longrightarrow> dr_owner r = o' \<Longrightarrow> dr_workspace r = w \<Longrightarrow> dirty_map o' w t x = None"
      using Cons.prems by (auto simp: dirty_map_None dirty_key_def dirty_inv_def image_iff)
    moreover have "(dr_source r, g) \<in> set gens \<longleftrightarrow> map_of gens (dr_source r) = Some g" for g
      using assms(2) by simp
    ultimately show ?case using Cons
      by (auto simp: dirty_map_def list_dirty_Cons sql_delete_def drop_matching_def dirty_inv_def)
  qed
  ultimately show ?thesis by (simp add: fun_eq_iff)
qed

lemma distinct_list_dirty: "dirty_inv t \<Longrightarrow> distinct (map fst (list_dirty o' w t))"
proof (induction t)
  case (Cons r t)
  have "dr_source r \<notin> fst ` set (list_dirty o' w t)" if "dr_owner r = o'" "dr_workspace r = w"
    using Cons.prems that by (auto simp: dirty_inv_def list_dirty_def image_iff)
  then show ?case using Cons by (auto simp: list_dirty_Cons dirty_inv_def)
qed (simp add: list_dirty_def)

text \<open>C28: marking and acknowledging. The table refines the map from sources to generations: one
  transaction raises the generation of every marked source and leaves a pending job with the key of the
  workspace, and acknowledging a snapshot removes exactly the markers whose generation is still the one
  of the snapshot.\<close>

theorem dirty_set_refines:
  assumes inv: "dirty_inv t" "job_inv jobs" and fresh: "jid \<notin> j_id ` set jobs" and src: "\<exists>s\<in>set ss. s \<noteq> []"
  shows "\<exists>i t' jobs'. mark_and_enqueue jid now o' w ss (t, jobs) = Inr (Some i, t', jobs') \<and>
      dirty_inv t' \<and> job_inv jobs' \<and> dirty_map o' w t' = bump {s \<in> set ss. s \<noteq> []} (dirty_map o' w t) \<and>
      (\<exists>r. filter (pending_for ''reconcile_links'' (reconcile_key o' w)) jobs' = [r] \<and> j_id r = i) \<and>
      dirty_map o' w (acknowledge o' w (list_dirty o' w t) t') = drop_matching (dirty_map o' w t) (dirty_map o' w t')"
proof -
  let ?ss = "sort (remdups (filter (\<lambda>s. s \<noteq> []) ss))"
  obtain i jobs' r where e: "enqueue_in_session jid ''reconcile_links'' (reconcile_payload o' w) (Some (reconcile_key o' w))
      (Some o') 5 0 PRIORITY_DEFAULT now jobs = Inr (i, jobs')" "job_inv jobs'"
      "filter (pending_for ''reconcile_links'' (reconcile_key o' w)) jobs' = [r]" "j_id r = i"
    using enqueue_debounced [OF inv(2) fresh] by blast
  define t' where "t' = foldl (\<lambda>t s. mark_source o' w s t) t ?ss"
  have t': "dirty_map o' w t' = bump (set ?ss) (dirty_map o' w t)" "dirty_inv t'"
    using dirty_map_marks [OF inv(1), of ?ss] by (simp_all add: t'_def)
  have "set ?ss \<noteq> {}" using src by auto
  then have "?ss \<noteq> []" by (metis set_empty)
  then have m: "mark_and_enqueue jid now o' w ss (t, jobs) = Inr (Some i, t', jobs')"
    using e(1) by (simp add: mark_and_enqueue_def t'_def)
  have "distinct (map fst (list_dirty o' w t))" by (rule distinct_list_dirty [OF inv(1)])
  then have "dirty_map o' w (acknowledge o' w (list_dirty o' w t) t') = drop_matching (dirty_map o' w t) (dirty_map o' w t')"
    using dirty_map_acknowledge [OF t'(2)] by (simp add: dirty_map_def)
  then show ?thesis using m t' e by auto
qed

subsection \<open>The protocol\<close>

text \<open>How far the handler is with one source: nothing read, read at a revision, its rows written from
  that revision, verified to be still at it.\<close>

datatype 'v phase = Unread | Read 'v | Written 'v | Stable 'v

text \<open>A running handler: the generations it listed, the paths it indexed, its progress.\<close>

record ('i, 'v) handler_run =
  hr_generations :: "string \<rightharpoonup> int"
  hr_index :: "'i option"
  hr_phase :: "string \<Rightarrow> 'v phase"

text \<open>The workspace: paths, revisions of the sources, link rows, dirty set, and what foreground writes
  have yet to do: replace the rows of an edited source, mark the sources whose links changed meaning.
  \<open>rc_raced\<close> is a ghost: the sources edited while a handler held an index.\<close>

record ('i, 'v, 'r) rc_state =
  rc_index :: 'i
  rc_rev :: "string \<Rightarrow> 'v"
  rc_rows :: "string \<Rightarrow> 'r"
  rc_dirty :: "string \<rightharpoonup> int"
  rc_owes_rows :: "string set"
  rc_owes_mark :: "string set"
  rc_run :: "('i, 'v) handler_run option"
  rc_raced :: "string set"

abbreviation indexed :: "('i, 'v) handler_run option \<Rightarrow> bool" where
  "indexed h \<equiv> (case h of None \<Rightarrow> False | Some r \<Rightarrow> hr_index r \<noteq> None)"

text \<open>\<open>f i v\<close>: the rows of a source at revision \<open>v\<close> resolved against the paths \<open>i\<close>.\<close>

inductive rc_step :: "('i \<Rightarrow> 'v \<Rightarrow> 'r) \<Rightarrow> ('i, 'v, 'r) rc_state \<Rightarrow> ('i, 'v, 'r) rc_state \<Rightarrow> bool" for f where
  edit: "E = {x. rev' x \<noteq> rc_rev s x} \<Longrightarrow> rc_step f s (s\<lparr>rc_index := i', rc_rev := rev',
      rc_owes_rows := rc_owes_rows s \<union> E,
      rc_owes_mark := rc_owes_mark s \<union> {x. f (rc_index s) (rc_rev s x) \<noteq> f i' (rc_rev s x)},
      rc_raced := (if indexed (rc_run s) then rc_raced s \<union> E else rc_raced s)\<rparr>)"
| rows: "x \<in> rc_owes_rows s \<Longrightarrow> r = f (rc_index s) (rc_rev s x) \<or> x \<in> rc_owes_mark s \<Longrightarrow>
    rc_step f s (s\<lparr>rc_rows := (rc_rows s)(x := r), rc_owes_rows := rc_owes_rows s - {x}\<rparr>)"
| mark: "rc_step f s (s\<lparr>rc_dirty := bump S (rc_dirty s), rc_owes_mark := rc_owes_mark s - S\<rparr>)"
| start: "rc_run s = None \<Longrightarrow>
    rc_step f s (s\<lparr>rc_run := Some \<lparr>hr_generations = rc_dirty s, hr_index = None, hr_phase = (\<lambda>_. Unread)\<rparr>\<rparr>)"
| index: "rc_run s = Some h \<Longrightarrow> hr_index h = None \<Longrightarrow> rc_step f s (s\<lparr>rc_run := Some (h\<lparr>hr_index := Some (rc_index s)\<rparr>)\<rparr>)"
| read: "rc_run s = Some h \<Longrightarrow> hr_index h = Some i \<Longrightarrow> x \<in> dom (hr_generations h) \<Longrightarrow> hr_phase h x = Unread \<Longrightarrow>
    rc_step f s (s\<lparr>rc_run := Some (h\<lparr>hr_phase := (hr_phase h)(x := Read (rc_rev s x))\<rparr>)\<rparr>)"
| store: "rc_run s = Some h \<Longrightarrow> hr_index h = Some i \<Longrightarrow> hr_phase h x = Read v \<Longrightarrow>
    rc_step f s (s\<lparr>rc_rows := (rc_rows s)(x := f i v), rc_run := Some (h\<lparr>hr_phase := (hr_phase h)(x := Written v)\<rparr>)\<rparr>)"
| verify: "rc_run s = Some h \<Longrightarrow> hr_phase h x = Written v \<Longrightarrow>
    rc_step f s (s\<lparr>rc_run := Some (h\<lparr>hr_phase := (hr_phase h)(x := if rc_rev s x = v then Stable v else Read (rc_rev s x))\<rparr>)\<rparr>)"
| requeue: "rc_run s = Some h \<Longrightarrow> hr_phase h x = Read v \<Longrightarrow>
    rc_step f s (s\<lparr>rc_dirty := bump {x} (rc_dirty s), rc_run := Some (h\<lparr>hr_phase := (hr_phase h)(x := Unread)\<rparr>)\<rparr>)"
| finish: "rc_run s = Some h \<Longrightarrow> A \<subseteq> {x. \<exists>v. hr_phase h x = Stable v} \<Longrightarrow>
    rc_step f s (s\<lparr>rc_dirty := drop_matching (\<lambda>x. if x \<in> A then hr_generations h x else None) (rc_dirty s), rc_run := None\<rparr>)"
| abort: "rc_step f s (s\<lparr>rc_run := None\<rparr>)"

subsection \<open>No follow-up is lost for a source nobody edits meanwhile\<close>

definition settled :: "('i \<Rightarrow> 'v \<Rightarrow> 'r) \<Rightarrow> ('i, 'v, 'r) rc_state \<Rightarrow> string \<Rightarrow> bool" where
  "settled f s x \<longleftrightarrow> rc_rows s x = f (rc_index s) (rc_rev s x)"

text \<open>Someone will come back to the source.\<close>

definition scheduled :: "('i, 'v, 'r) rc_state \<Rightarrow> string \<Rightarrow> bool" where
  "scheduled s x \<longleftrightarrow> x \<in> rc_owes_rows s \<or> x \<in> rc_owes_mark s \<or> rc_dirty s x \<noteq> None"

text \<open>The source is to be marked, or has been since the handler listed it.\<close>

definition marked_since :: "('i, 'v) handler_run \<Rightarrow> ('i, 'v, 'r) rc_state \<Rightarrow> string \<Rightarrow> bool" where
  "marked_since h s x \<longleftrightarrow> x \<in> rc_owes_mark s \<or> rc_dirty s x \<noteq> hr_generations h x"

definition run_inv :: "('i \<Rightarrow> 'v \<Rightarrow> 'r) \<Rightarrow> ('i, 'v, 'r) rc_state \<Rightarrow> ('i, 'v) handler_run \<Rightarrow> string \<Rightarrow> bool" where
  "run_inv f s h x \<longleftrightarrow>
     (hr_phase h x \<noteq> Unread \<longrightarrow> hr_index h \<noteq> None \<and> hr_generations h x \<noteq> None) \<and>
     (\<forall>g. hr_generations h x = Some g \<longrightarrow> (\<exists>g'\<ge>g. rc_dirty s x = Some g')) \<and>
     (x \<notin> rc_raced s \<longrightarrow>
       (\<forall>v. hr_phase h x = Read v \<or> hr_phase h x = Written v \<or> hr_phase h x = Stable v \<longrightarrow> v = rc_rev s x) \<and>
       (\<forall>i. hr_index h = Some i \<and> hr_generations h x \<noteq> None \<longrightarrow>
          marked_since h s x \<or> f i (rc_rev s x) = f (rc_index s) (rc_rev s x)) \<and>
       (\<forall>v. hr_phase h x = Written v \<or> hr_phase h x = Stable v \<longrightarrow>
          marked_since h s x \<or> x \<in> rc_owes_rows s \<or> settled f s x))"

definition src_inv :: "('i \<Rightarrow> 'v \<Rightarrow> 'r) \<Rightarrow> ('i, 'v, 'r) rc_state \<Rightarrow> string \<Rightarrow> bool" where
  "src_inv f s x \<longleftrightarrow> (settled f s x \<or> scheduled s x \<or> x \<in> rc_raced s) \<and> (\<forall>h. rc_run s = Some h \<longrightarrow> run_inv f s h x)"

lemmas rc_defs = src_inv_def run_inv_def settled_def scheduled_def marked_since_def

lemma step_edit:
  assumes "src_inv f s x" and "E = {x. rev' x \<noteq> rc_rev s x}"
  shows "src_inv f (s\<lparr>rc_index := i', rc_rev := rev', rc_owes_rows := rc_owes_rows s \<union> E,
      rc_owes_mark := rc_owes_mark s \<union> {x. f (rc_index s) (rc_rev s x) \<noteq> f i' (rc_rev s x)},
      rc_raced := (if indexed (rc_run s) then rc_raced s \<union> E else rc_raced s)\<rparr>) x"
proof (cases "x \<in> E")
  case True
  then show ?thesis using assms(1) by (cases "rc_run s") (auto simp: src_inv_def scheduled_def run_inv_def)
next
  case False
  then have "rev' x = rc_rev s x" using assms(2) by simp
  then show ?thesis using assms(1) by (cases "rc_run s") (auto simp: rc_defs)
qed

lemma step_bump:
  assumes "src_inv f s x" and "\<And>h. rc_run s = Some h \<Longrightarrow> \<exists>h'. r' = Some h' \<and> hr_generations h' = hr_generations h \<and>
      hr_index h' = hr_index h \<and> (hr_phase h' x = hr_phase h x \<or> hr_phase h' x = Unread)"
    and "rc_run s = None \<Longrightarrow> r' = None" and M: "rc_owes_mark s - S \<subseteq> M"
  shows "src_inv f (s\<lparr>rc_dirty := bump S (rc_dirty s), rc_owes_mark := M, rc_run := r'\<rparr>) x"
proof -
  let ?s = "s\<lparr>rc_dirty := bump S (rc_dirty s), rc_owes_mark := M, rc_run := r'\<rparr>"
  have a: "settled f ?s x \<or> scheduled ?s x \<or> x \<in> rc_raced ?s"
    using assms(1) M by (auto simp: src_inv_def settled_def scheduled_def bump_def)
  have "run_inv f ?s h' x" if h': "r' = Some h'" for h'
  proof -
    obtain h where h: "rc_run s = Some h" "hr_generations h' = hr_generations h" "hr_index h' = hr_index h"
      "hr_phase h' x = hr_phase h x \<or> hr_phase h' x = Unread"
      using assms(2,3) h' by (cases "rc_run s") auto
    then have r: "run_inv f s h x" using assms(1) by (simp add: src_inv_def)
    show ?thesis
    proof (cases "x \<in> S")
      case True
      have "marked_since h' ?s x" "\<forall>g. hr_generations h' x = Some g \<longrightarrow> (\<exists>g'\<ge>g. rc_dirty ?s x = Some g')"
        using True r h(2) by (cases "hr_generations h x"; auto simp: run_inv_def marked_since_def bump_def)+
      then show ?thesis using r h by (auto simp: run_inv_def)
    next
      case False
      then show ?thesis using r h M by (cases "hr_phase h x") (auto simp: run_inv_def marked_since_def settled_def bump_def)
    qed
  qed
  then show ?thesis using a by (simp add: src_inv_def)
qed

lemma step_src:
  assumes "rc_step f s s'" and "src_inv f s y"
  shows "src_inv f s' y"
  using assms(1)
proof cases
  case (edit E rev' i')
  then show ?thesis using step_edit [OF assms(2)] by simp
next
  case (rows x r)
  then show ?thesis using assms(2) by (cases "y = x") (auto simp: rc_defs)
next
  case (mark S)
  have "s' = s\<lparr>rc_dirty := bump S (rc_dirty s), rc_owes_mark := rc_owes_mark s - S, rc_run := rc_run s\<rparr>"
    using mark by simp
  then show ?thesis using step_bump [OF assms(2), of "rc_run s" S "rc_owes_mark s - S"] by simp
next
  case start
  then show ?thesis using assms(2) by (auto simp: rc_defs)
next
  case (index h)
  then show ?thesis using assms(2) by (auto simp: rc_defs)
next
  case (read h i x)
  then show ?thesis using assms(2) by (cases "y = x") (auto simp: rc_defs)
next
  case (store h i x v)
  then show ?thesis using assms(2) by (cases "y = x") (auto simp: rc_defs)
next
  case (verify h x v)
  then show ?thesis using assms(2) by (cases "y = x") (auto simp: rc_defs)
next
  case (requeue h x v)
  let ?h = "h\<lparr>hr_phase := (hr_phase h)(x := Unread)\<rparr>"
  have "s' = s\<lparr>rc_dirty := bump {x} (rc_dirty s), rc_owes_mark := rc_owes_mark s, rc_run := Some ?h\<rparr>"
    using requeue by simp
  then show ?thesis using step_bump [OF assms(2), of "Some ?h" "{x}" "rc_owes_mark s"] requeue by auto
next
  case (finish h A)
  then show ?thesis using assms(2) by (auto simp: rc_defs drop_matching_def split: if_splits)
next
  case abort
  then show ?thesis using assms(2) by (simp add: src_inv_def settled_def scheduled_def)
qed

text \<open>A workspace at rest: every source settled, nothing owed, no handler.\<close>

definition at_rest :: "('i \<Rightarrow> 'v \<Rightarrow> 'r) \<Rightarrow> ('i, 'v, 'r) rc_state \<Rightarrow> bool" where
  "at_rest f s \<longleftrightarrow> (\<forall>x. settled f s x) \<and> rc_run s = None"

interpretation rc: inv_machine
  "\<lparr>rc_index = i, rc_rev = rev, rc_rows = (\<lambda>x. f i (rev x)), rc_dirty = (\<lambda>_. None), rc_owes_rows = {}, rc_owes_mark = {},
    rc_run = None, rc_raced = {}\<rparr>"
  "rc_step f" "\<lambda>s. \<forall>x. src_inv f s x" for f :: "'i \<Rightarrow> 'v \<Rightarrow> 'r" and i rev
  by unfold_locales (simp add: src_inv_def settled_def, blast intro: step_src)


subsection \<open>The race with an edit of the source\<close>

text \<open>Two paths (before and after another note got its new name) and two texts of the source (without
  and with a link to that name): the link is resolved (1), dangling (2) or absent (0).\<close>

definition ex_rows :: "bool \<Rightarrow> bool \<Rightarrow> nat" where
  "ex_rows renamed links = (if links then (if renamed then 1 else 2) else 0)"

definition ex_state ::
  "bool \<Rightarrow> bool \<Rightarrow> nat \<Rightarrow> int option \<Rightarrow> bool \<Rightarrow> (bool, bool) handler_run option \<Rightarrow> bool \<Rightarrow> (bool, bool, nat) rc_state" where
  "ex_state i v r d owes run raced =
     \<lparr>rc_index = i, rc_rev = (\<lambda>x. x = ''s'' \<and> v), rc_rows = (\<lambda>x. if x = ''s'' then r else 0),
      rc_dirty = (\<lambda>x. if x = ''s'' then d else None), rc_owes_rows = (if owes then {''s''} else {}), rc_owes_mark = {},
      rc_run = run, rc_raced = (if raced then {''s''} else {})\<rparr>"

definition ex_run :: "bool option \<Rightarrow> bool phase \<Rightarrow> (bool, bool) handler_run" where
  "ex_run ix ph = \<lparr>hr_generations = [''s'' \<mapsto> 1], hr_index = ix, hr_phase = (\<lambda>x. if x = ''s'' then ph else Unread)\<rparr>"

lemma ex_steps:
  "rc_step ex_rows (ex_state False False 0 None False None False) (ex_state False False 0 (Some 1) False None False)"
  "rc_step ex_rows (ex_state False False 0 (Some 1) False None False) (ex_state False False 0 (Some 1) False (Some (ex_run None Unread)) False)"
  "rc_step ex_rows (ex_state False False 0 (Some 1) False (Some (ex_run None Unread)) False)
     (ex_state False False 0 (Some 1) False (Some (ex_run (Some False) Unread)) False)"
  "rc_step ex_rows (ex_state False False 0 (Some 1) False (Some (ex_run (Some False) Unread)) False)
     (ex_state True False 0 (Some 1) False (Some (ex_run (Some False) Unread)) False)"
  "rc_step ex_rows (ex_state True False 0 (Some 1) False (Some (ex_run (Some False) Unread)) False)
     (ex_state True True 0 (Some 1) True (Some (ex_run (Some False) Unread)) True)"
  "rc_step ex_rows (ex_state True True 0 (Some 1) True (Some (ex_run (Some False) Unread)) True)
     (ex_state True True 1 (Some 1) False (Some (ex_run (Some False) Unread)) True)"
  "rc_step ex_rows (ex_state True True 1 (Some 1) False (Some (ex_run (Some False) Unread)) True)
     (ex_state True True 1 (Some 1) False (Some (ex_run (Some False) (Read True))) True)"
  "rc_step ex_rows (ex_state True True 1 (Some 1) False (Some (ex_run (Some False) (Read True))) True)
     (ex_state True True 2 (Some 1) False (Some (ex_run (Some False) (Written True))) True)"
  "rc_step ex_rows (ex_state True True 2 (Some 1) False (Some (ex_run (Some False) (Written True))) True)
     (ex_state True True 2 (Some 1) False (Some (ex_run (Some False) (Stable True))) True)"
  "rc_step ex_rows (ex_state True True 2 (Some 1) False (Some (ex_run (Some False) (Stable True))) True)
     (ex_state True True 2 None False None True)"
proof -
  let ?s = ex_state
  show "rc_step ex_rows (?s False False 0 None False None False) (?s False False 0 (Some 1) False None False)"
    using mark [of ex_rows "?s False False 0 None False None False" "{''s''}"]
    by (simp add: ex_state_def bump_def cong: if_cong)
  show "rc_step ex_rows (?s False False 0 (Some 1) False None False) (?s False False 0 (Some 1) False (Some (ex_run None Unread)) False)"
    using start [of "?s False False 0 (Some 1) False None False" ex_rows]
    by (simp add: ex_state_def ex_run_def fun_upd_def)
  show "rc_step ex_rows (?s False False 0 (Some 1) False (Some (ex_run None Unread)) False)
     (?s False False 0 (Some 1) False (Some (ex_run (Some False) Unread)) False)"
    using index [of "?s False False 0 (Some 1) False (Some (ex_run None Unread)) False" "ex_run None Unread" ex_rows]
    by (simp add: ex_state_def ex_run_def)
  show "rc_step ex_rows (?s False False 0 (Some 1) False (Some (ex_run (Some False) Unread)) False)
     (?s True False 0 (Some 1) False (Some (ex_run (Some False) Unread)) False)"
    using edit [OF refl, where f = ex_rows and s = "?s False False 0 (Some 1) False (Some (ex_run (Some False) Unread)) False"
        and rev' = "\<lambda>x. False" and i' = True]
    by (simp add: ex_state_def ex_rows_def ex_run_def)
  show "rc_step ex_rows (?s True False 0 (Some 1) False (Some (ex_run (Some False) Unread)) False)
     (?s True True 0 (Some 1) True (Some (ex_run (Some False) Unread)) True)"
    using edit [OF refl, where f = ex_rows and s = "?s True False 0 (Some 1) False (Some (ex_run (Some False) Unread)) False"
        and rev' = "\<lambda>x. x = ''s''" and i' = True]
    by (simp add: ex_state_def ex_rows_def ex_run_def)
  show "rc_step ex_rows (?s True True 0 (Some 1) True (Some (ex_run (Some False) Unread)) True)
     (?s True True 1 (Some 1) False (Some (ex_run (Some False) Unread)) True)"
    using rows [of "''s''" "?s True True 0 (Some 1) True (Some (ex_run (Some False) Unread)) True" 1 ex_rows]
    by (simp add: ex_state_def ex_rows_def ex_run_def fun_upd_def cong: if_cong)
  show "rc_step ex_rows (?s True True 1 (Some 1) False (Some (ex_run (Some False) Unread)) True)
     (?s True True 1 (Some 1) False (Some (ex_run (Some False) (Read True))) True)"
    using read [of "?s True True 1 (Some 1) False (Some (ex_run (Some False) Unread)) True" "ex_run (Some False) Unread" False "''s''" ex_rows]
    by (simp add: dom_def ex_state_def ex_run_def fun_upd_def cong: if_cong)
  show "rc_step ex_rows (?s True True 1 (Some 1) False (Some (ex_run (Some False) (Read True))) True)
     (?s True True 2 (Some 1) False (Some (ex_run (Some False) (Written True))) True)"
    using store [of "?s True True 1 (Some 1) False (Some (ex_run (Some False) (Read True))) True" "ex_run (Some False) (Read True)" False "''s''" True ex_rows]
    by (simp add: ex_state_def ex_run_def ex_rows_def fun_upd_def cong: if_cong)
  show "rc_step ex_rows (?s True True 2 (Some 1) False (Some (ex_run (Some False) (Written True))) True)
     (?s True True 2 (Some 1) False (Some (ex_run (Some False) (Stable True))) True)"
    using verify [of "?s True True 2 (Some 1) False (Some (ex_run (Some False) (Written True))) True" "ex_run (Some False) (Written True)" "''s''" True ex_rows]
    by (simp add: ex_state_def ex_run_def fun_upd_def cong: if_cong)
  show "rc_step ex_rows (?s True True 2 (Some 1) False (Some (ex_run (Some False) (Stable True))) True)
     (?s True True 2 None False None True)"
  proof -
    let ?h = "ex_run (Some False) (Stable True)" and ?s1 = "?s True True 2 (Some 1) False (Some (ex_run (Some False) (Stable True))) True"
    have "rc_step ex_rows ?s1 (?s1\<lparr>rc_dirty := drop_matching (\<lambda>x. if x \<in> {''s''} then hr_generations ?h x else None) (rc_dirty ?s1), rc_run := None\<rparr>)"
      by (rule finish) (auto simp: ex_state_def ex_run_def)
    moreover have "drop_matching (\<lambda>x. if x \<in> {''s''} then hr_generations ?h x else None) (rc_dirty ?s1) = (\<lambda>x. None)"
      by (auto simp: drop_matching_def ex_state_def ex_run_def fun_eq_iff)
    ultimately show ?thesis by (simp add: ex_state_def if_distrib cong: if_cong)
  qed
qed

text \<open>C27: the exception is real. A note is renamed and the source is then edited to link to its new
  name, both while a handler that has indexed the paths before has the source on its list: the handler
  reads the new text, resolves it against the old paths, finds the revision unchanged and acknowledges.
  The rows of the source are wrong, and nothing is scheduled to correct them.\<close>

theorem edited_source_can_be_lost:
  "\<exists>s0 s. at_rest ex_rows s0 \<and> (rc_step ex_rows)\<^sup>*\<^sup>* s0 s \<and> rc_run s = None \<and> \<not> settled ex_rows s ''s'' \<and> \<not> scheduled s ''s''"
proof (intro exI conjI)
  show "at_rest ex_rows (ex_state False False 0 None False None False)"
    by (auto simp: at_rest_def settled_def ex_state_def ex_rows_def)
  show "(rc_step ex_rows)\<^sup>*\<^sup>* (ex_state False False 0 None False None False) (ex_state True True 2 None False None True)"
    using ex_steps by (meson converse_rtranclp_into_rtranclp rtranclp.rtrancl_refl)
qed (simp_all add: settled_def scheduled_def ex_state_def ex_rows_def)


theorem dirty_set_refines_witness:
  "\<exists>t' jobs'. mark_and_enqueue ''j'' 0 ''o'' ''w'' [''s'', []] ([\<lparr>dr_owner = ''o'', dr_workspace = ''w'', dr_source = ''s'', dr_generation = 4\<rparr>], []) =
      Inr (Some ''j'', t', jobs') \<and> dirty_map ''o'' ''w'' t' ''s'' = Some 5 \<and>
      dirty_map ''o'' ''w'' (acknowledge ''o'' ''w'' [(''s'', 4)] t') ''s'' = Some 5"
proof -
  let ?t = "[\<lparr>dr_owner = ''o'', dr_workspace = ''w'', dr_source = ''s'', dr_generation = 4\<rparr>]"
  have inv: "dirty_inv ?t" "job_inv []" by (simp_all add: dirty_inv_def job_inv_def pending_unique_def running_unique_def)
  have l: "list_dirty ''o'' ''w'' ?t = [(''s'', 4)]" by (simp add: list_dirty_def)
  then have d: "dirty_map ''o'' ''w'' ?t = [''s'' \<mapsto> 4]" by (simp add: dirty_map_def)
  obtain i t' jobs' r where m: "mark_and_enqueue ''j'' 0 ''o'' ''w'' [''s'', []] (?t, []) = Inr (Some i, t', jobs')"
      "dirty_map ''o'' ''w'' t' = bump {s \<in> set [''s'', []]. s \<noteq> []} (dirty_map ''o'' ''w'' ?t)"
      "dirty_map ''o'' ''w'' (acknowledge ''o'' ''w'' (list_dirty ''o'' ''w'' ?t) t') = drop_matching (dirty_map ''o'' ''w'' ?t) (dirty_map ''o'' ''w'' t')"
    using dirty_set_refines [OF inv, of "''j''" "[''s'', []]" 0 "''o''" "''w''"] by auto
  have "i = ''j''" using m(1)
    by (auto simp: mark_and_enqueue_def enqueue_in_session_def upsert_pending_def select_pending_id_def new_job_def pending_for_def Let_def)
  then show ?thesis using m by (auto simp: l d bump_def drop_matching_def)
qed

end
