(* ===== verification/Git_History.thy ===== *)
theory Git_History
  imports Prelude
begin

section \<open>File histories from one walk of the commit log\<close>

text \<open>
  Models the history reads of \<open>repositories/git.py\<close> (\<open>_flat_changes\<close>, \<open>_matching_followed\<close>,
  \<open>file_histories\<close>, \<open>file_history\<close>, \<open>head_shas_for_paths\<close>) and the staleness check of
  \<open>services/notes/staleness.py\<close>. The commit walker is dulwich's: a parameter that maps the paths it
  is asked to follow to the entries it yields and the exception it ends with, if any. Encoding a path
  to bytes is injective and is left out.
\<close>

subsection \<open>Definitions\<close>

text \<open>A tree change names the path before and after it; a merge commit groups them by parent.\<close>

record tree_change =
  tc_old :: "string option"
  tc_new :: "string option"

datatype change_item = Linear tree_change | Merged "tree_change list"

record walk_entry =
  we_sha :: string
  we_message :: string
  we_author_time :: int
  we_changes :: "change_item list"

record history_entry =
  he_sha :: string
  he_message :: string
  he_timestamp :: int

datatype walk_error = WalkKeyError | WalkError string

datatype git_error = GitError string

type_synonym walker = "string list \<Rightarrow> walk_entry list \<times> walk_error option"

fun flat_item :: "change_item \<Rightarrow> tree_change list" where
  "flat_item (Linear c) = [c]"
| "flat_item (Merged cs) = cs"

definition flat_changes :: "walk_entry \<Rightarrow> tree_change list" where
  "flat_changes e = concat (map flat_item (we_changes e))"

definition changed_paths :: "walk_entry \<Rightarrow> string list" where
  "changed_paths e = remdups (concat (map (\<lambda>c. List.map_filter (\<lambda>x. x) [tc_new c, tc_old c]) (flat_changes e)))"

definition matching_followed :: "string list \<Rightarrow> string \<Rightarrow> string list" where
  "matching_followed followed changed_path =
     filter (\<lambda>f. changed_path = f \<or> prefix f changed_path \<and> changed_path ! length f = CHR ''/'') followed"

definition to_history :: "walk_entry \<Rightarrow> history_entry" where
  "to_history e = \<lparr>he_sha = we_sha e, he_message = py_strip (we_message e), he_timestamp = we_author_time e\<rparr>"

text \<open>One iteration of the walk: the budgets and the result after one commit.\<close>

definition matched_paths :: "(string \<times> int) list \<Rightarrow> walk_entry \<Rightarrow> string list" where
  "matched_paths remaining e = remdups (concat (map (matching_followed (map fst remaining)) (changed_paths e)))"

definition spend :: "string list \<Rightarrow> (string \<times> int) list \<Rightarrow> (string \<times> int) list" where
  "spend matched remaining =
     filter (\<lambda>(f, n). n \<noteq> 0) (map (\<lambda>(f, n). (f, if f \<in> set matched then n - 1 else n)) remaining)"

definition credit :: "string list \<Rightarrow> history_entry \<Rightarrow> (string \<Rightarrow> history_entry list) \<Rightarrow> string \<Rightarrow> history_entry list" where
  "credit matched h res = (\<lambda>p. if p \<in> set matched then res p @ [h] else res p)"

text \<open>The loop; the flag says that it broke off because every budget was spent.\<close>

fun walk_histories ::
  "walk_entry list \<Rightarrow> (string \<times> int) list \<Rightarrow> (string \<Rightarrow> history_entry list) \<Rightarrow> (string \<Rightarrow> history_entry list) \<times> bool" where
  "walk_histories [] remaining res = (res, False)"
| "walk_histories (e # es) remaining res =
     (let matched = matched_paths remaining e
      in if matched = [] then walk_histories es remaining res
         else let res' = credit matched (to_history e) res; remaining' = spend matched remaining
              in if remaining' = [] then (res', True) else walk_histories es remaining' res')"

definition file_histories ::
  "walker \<Rightarrow> string list \<Rightarrow> int \<Rightarrow> git_error + (string \<rightharpoonup> history_entry list)" where
  "file_histories get_walker relative_paths limit =
     (let dict = (\<lambda>res p. if p \<in> set relative_paths then Some (res p) else None);
          remaining = map (\<lambda>p. (p, limit)) (remdups relative_paths)
      in if remaining = [] \<or> limit \<le> 0 then Inr (dict (\<lambda>_. []))
         else let (entries, exn) = get_walker (map fst remaining);
                  (res, broke) = walk_histories entries remaining (\<lambda>_. [])
              in if broke then Inr (dict res)
                 else (case exn of
                     None \<Rightarrow> Inr (dict res)
                   | Some WalkKeyError \<Rightarrow> Inr (dict res)
                   | Some (WalkError msg) \<Rightarrow> Inl (GitError msg)))"

definition file_history :: "walker \<Rightarrow> string \<Rightarrow> int \<Rightarrow> git_error + history_entry list" where
  "file_history get_walker relative_path limit =
     map_sum id (\<lambda>r. the (r relative_path)) (file_histories get_walker [relative_path] limit)"

definition head_shas_for_paths :: "walker \<Rightarrow> string list \<Rightarrow> git_error + (string \<rightharpoonup> string option)" where
  "head_shas_for_paths get_walker relative_paths =
     map_sum id (\<lambda>r p. map_option (\<lambda>h. case h of [] \<Rightarrow> None | e # _ \<Rightarrow> Some (he_sha e)) (r p))
       (file_histories get_walker relative_paths 1)"

definition current_head_sha :: "walker \<Rightarrow> string \<Rightarrow> git_error + string option" where
  "current_head_sha get_walker relative =
     map_sum id (\<lambda>r. the (r relative)) (head_shas_for_paths get_walker [relative])"

definition sha_is_fresh :: "string option \<Rightarrow> string option \<Rightarrow> bool" where
  "sha_is_fresh current_sha expected_sha =
     (let expected = py_strip (case expected_sha of None \<Rightarrow> [] | Some s \<Rightarrow> s)
      in expected \<noteq> [] \<and> (case current_sha of None \<Rightarrow> False | Some s \<Rightarrow> prefix expected s))"

subsection \<open>The reference: one filtered log per path\<close>

text \<open>A commit touches a path when it changed it or something below it.\<close>

definition touches :: "string \<Rightarrow> walk_entry \<Rightarrow> bool" where
  "touches p e \<longleftrightarrow> (\<exists>c\<in>set (changed_paths e). c = p \<or> prefix (p @ ''/'') c)"

definition path_log :: "walk_entry list \<Rightarrow> string \<Rightarrow> int \<Rightarrow> history_entry list" where
  "path_log clog p limit = map to_history (take (nat limit) (filter (touches p) clog))"

text \<open>What dulwich documents: asked to follow some paths, the walker yields the commits that touch
  one of them, in the order of the log.\<close>

definition walks :: "walker \<Rightarrow> walk_entry list \<Rightarrow> bool" where
  "walks get_walker clog \<longleftrightarrow>
     (\<forall>ps. ps \<noteq> [] \<longrightarrow> get_walker ps = (filter (\<lambda>e. \<exists>p\<in>set ps. touches p e) clog, None))"

lemma matching_followed_iff:
  "f \<in> set (matching_followed followed c) \<longleftrightarrow> f \<in> set followed \<and> (c = f \<or> prefix (f @ ''/'') c)"
proof -
  have "(prefix f c \<and> c ! length f = CHR ''/'' \<and> c \<noteq> f) = prefix (f @ ''/'') c"
    by (auto simp: prefix_def nth_append) (metis list.exhaust nth_Cons_0)+
  then show ?thesis by (auto simp: matching_followed_def)
qed

lemma matched_paths_iff: "p \<in> set (matched_paths rem e) \<longleftrightarrow> p \<in> set (map fst rem) \<and> touches p e"
  by (auto simp: matched_paths_def matching_followed_iff touches_def)

lemma spend_Cons: "spend m ((f, n) # rem) =
    (if f \<in> set m then (if n = 1 then spend m rem else (f, n - 1) # spend m rem)
     else if n = 0 then spend m rem else (f, n) # spend m rem)"
  by (auto simp: spend_def)

lemma fst_spend: "set (map fst (spend m rem)) \<subseteq> set (map fst rem)"
  by (force simp: spend_def)

lemma spend_ok:
  assumes "distinct (map fst rem)" and "\<forall>(p, n)\<in>set rem. 0 < n"
  shows "distinct (map fst (spend m rem)) \<and> (\<forall>(p, n)\<in>set (spend m rem). 0 < n)"
proof -
  have "distinct (map fst rem) \<Longrightarrow> distinct (map fst (spend m rem))"
  proof (induction rem)
    case (Cons x rem)
    then show ?case using fst_spend [of m rem] by (cases x) (auto simp: spend_Cons subset_iff image_iff)
  qed (simp add: spend_def)
  then show ?thesis using assms by (force simp: spend_def split: if_splits)
qed

lemma map_of_spend:
  assumes "distinct (map fst rem)" and "\<forall>(p, n)\<in>set rem. 0 < n"
  shows "map_of (spend m rem) q = (case map_of rem q of None \<Rightarrow> None
      | Some n \<Rightarrow> if q \<in> set m then (if n = 1 then None else Some (n - 1)) else Some n)"
  using assms
proof (induction rem)
  case Nil
  then show ?case by (simp add: spend_def)
next
  case (Cons x rem)
  obtain f n where x: "x = (f, n)" by fastforce
  have "map_of (spend m rem) f = None"
    using Cons.prems(1) fst_spend [of m rem] by (auto simp: x map_of_eq_None_iff)
  then show ?case using Cons by (auto simp: x spend_Cons)
qed

lemma path_log_Cons:
  assumes "0 < n"
  shows "path_log (e # es) p n = (if touches p e then to_history e # path_log es p (n - 1) else path_log es p n)"
proof -
  have "nat n = Suc (nat (n - 1))" using assms by simp
  then show ?thesis by (simp add: path_log_def)
qed

text \<open>The loop against the reference: after the walk every followed path has got the first
  commits that touch it, as many as its budget allows.\<close>

lemma walk_spec:
  assumes "distinct (map fst rem)" and "\<forall>(p, n)\<in>set rem. 0 < n"
  shows "fst (walk_histories es rem res) p =
    res p @ (case map_of rem p of None \<Rightarrow> [] | Some n \<Rightarrow> path_log es p n)"
  using assms
proof (induction es arbitrary: rem res)
  case Nil
  then show ?case by (simp add: path_log_def split: option.splits)
next
  case (Cons e es)
  define m where "m = matched_paths rem e"
  have mi: "p \<in> set m \<longleftrightarrow> map_of rem p \<noteq> None \<and> touches p e" for p
    by (auto simp: m_def matched_paths_iff map_of_eq_None_iff)
  note sp = map_of_spend [OF Cons.prems, of m]
  have ok: "distinct (map fst (spend m rem))" "\<forall>(p, n)\<in>set (spend m rem). 0 < n"
    using spend_ok [OF Cons.prems] by simp_all
  have pl: "path_log (e # es) p n = (if touches p e then to_history e # path_log es p (n - 1) else path_log es p n)"
    if "map_of rem p = Some n" for n
    using Cons.prems(2) map_of_SomeD [OF that] by (intro path_log_Cons) auto
  show ?case
  proof (cases "m = []")
    case True
    then have "map_of rem p \<noteq> None \<Longrightarrow> \<not> touches p e" using mi [of p] by auto
    then show ?thesis using True Cons.IH [OF Cons.prems] pl
      by (cases "map_of rem p") (auto simp: m_def [symmetric])
  next
    case False
    show ?thesis
    proof (cases "spend m rem = []")
      case True
      then have "map_of rem p = Some n \<Longrightarrow> p \<in> set m \<and> n = 1" for n using sp [of p] by (auto split: if_splits)
      then show ?thesis using True False pl mi
        by (auto simp: m_def [symmetric] Let_def credit_def path_log_def split: option.splits)
    next
      case ne: False
      show ?thesis using False ne Cons.IH [OF ok, of "credit m (to_history e) res"] sp [of p] mi [of p] pl
        by (auto simp: m_def [symmetric] Let_def credit_def path_log_def split: option.splits if_splits)
    qed
  qed
qed

lemma path_log_filter: "p \<in> set ps \<Longrightarrow> path_log (filter (\<lambda>e. \<exists>p\<in>set ps. touches p e) clog) p n = path_log clog p n"
proof -
  assume "p \<in> set ps"
  then have "filter (touches p) (filter (\<lambda>e. \<exists>p\<in>set ps. touches p e) clog) = filter (touches p) clog"
    by (induction clog) auto
  then show ?thesis by (simp add: path_log_def)
qed

lemma file_histories_spec:
  assumes "walks get_walker clog"
  shows "file_histories get_walker ps limit = Inr (\<lambda>p. if p \<in> set ps then Some (path_log clog p limit) else None)"
proof (cases "ps = [] \<or> limit \<le> 0")
  case True
  then show ?thesis by (auto simp: file_histories_def path_log_def fun_eq_iff)
next
  case False
  let ?rem = "map (\<lambda>p. (p, limit)) (remdups ps)"
  let ?es = "filter (\<lambda>e. \<exists>p\<in>set ps. touches p e) clog"
  have fst: "map fst ?rem = remdups ps" by (simp add: comp_def)
  have w: "get_walker (remdups ps) = (?es, None)" using assms False by (simp add: walks_def)
  have "map_of ?rem p = (if p \<in> set ps then Some limit else None)" for p
    by (auto simp: map_of_eq_None_iff map_of_eq_Some_iff comp_def intro!: map_of_is_SomeI)
  then have "fst (walk_histories ?es ?rem (\<lambda>_. [])) p = (if p \<in> set ps then path_log clog p limit else [])" for p
    using walk_spec [of ?rem ?es "\<lambda>_. []" p] False by (auto simp: comp_def path_log_filter)
  then have "(\<lambda>p. if p \<in> set ps then Some (fst (walk_histories ?es ?rem (\<lambda>_. [])) p) else None) =
      (\<lambda>p. if p \<in> set ps then Some (path_log clog p limit) else None)" by (simp add: fun_eq_iff)
  moreover have "?rem \<noteq> []" using False by simp
  ultimately show ?thesis using False
    unfolding file_histories_def fst Let_def w by (simp add: case_prod_beta cong: if_cong)
qed

subsection \<open>Properties\<close>

text \<open>C35: the shared walk equals the separate walks. For any list of paths and any limit the one
  walk returns, for each path, the newest commits that touch it, at most as many as the limit, which
  is what a walk of its own for that path returns; spent budgets and the early exit lose nothing.\<close>

theorem shared_walk_exact:
  assumes "walks get_walker clog"
  shows "file_histories get_walker ps limit =
      Inr (\<lambda>p. if p \<in> set ps then Some (map to_history (take (nat limit) (filter (touches p) clog))) else None) \<and>
    (\<forall>p\<in>set ps. file_history get_walker p limit = Inr (map to_history (take (nat limit) (filter (touches p) clog))))"
  using file_histories_spec [OF assms] by (simp add: file_history_def path_log_def cong: if_cong)

text \<open>The version check. The expected sha of a write is accepted exactly when it is a non-empty
  prefix of the sha of the newest commit that touches the path; a path without history accepts none.\<close>

theorem expected_sha_check:
  assumes "walks get_walker clog"
  shows "\<exists>cur. current_head_sha get_walker p = Inr cur \<and>
    (sha_is_fresh cur expected \<longleftrightarrow>
       (\<exists>e c cs. expected = Some e \<and> py_strip e \<noteq> [] \<and> filter (touches p) clog = c # cs \<and> prefix (py_strip e) (we_sha c)))"
  using file_histories_spec [OF assms]
  by (cases "filter (touches p) clog")
    (auto simp: current_head_sha_def head_shas_for_paths_def path_log_def to_history_def sha_is_fresh_def Let_def split: option.splits)

subsection \<open>Examples\<close>

definition ex_log :: "walk_entry list" where
  "ex_log =
    [\<lparr>we_sha = ''c3'', we_message = ''edit '', we_author_time = 3, we_changes = [Linear \<lparr>tc_old = Some ''a/n.md'', tc_new = Some ''a/n.md''\<rparr>]\<rparr>,
     \<lparr>we_sha = ''c2'', we_message = ''merge'', we_author_time = 2, we_changes = [Merged [\<lparr>tc_old = None, tc_new = Some ''b.md''\<rparr>]]\<rparr>,
     \<lparr>we_sha = ''c1'', we_message = ''add'', we_author_time = 1, we_changes = [Linear \<lparr>tc_old = None, tc_new = Some ''a/n.md''\<rparr>]\<rparr>]"

definition ex_walker :: walker where
  "ex_walker ps = (filter (\<lambda>e. \<exists>p\<in>set ps. touches p e) ex_log, None)"

lemma ex_walks: "walks ex_walker ex_log"
  by (simp add: walks_def ex_walker_def)

lemma ex_filter: "filter (touches ''a'') ex_log = [ex_log ! 0, ex_log ! 2]"
  "filter (touches ''b.md'') ex_log = [ex_log ! 1]"
  by code_simp+

theorem shared_walk_exact_witness:
  "\<exists>r. file_histories ex_walker [''a'', ''b.md''] 1 = Inr r \<and>
     map_option (map he_sha) (r ''a'') = Some [''c3''] \<and> map_option (map he_sha) (r ''b.md'') = Some [''c2'']"
  using shared_walk_exact [OF ex_walks, of "[''a'', ''b.md'']" 1]
  by (simp add: ex_filter to_history_def) (simp add: ex_log_def)

theorem expected_sha_check_witness:
  "\<exists>cur. current_head_sha ex_walker ''a'' = Inr cur \<and> sha_is_fresh cur (Some '' c3 '')"
proof -
  have "py_strip '' c3 '' = ''c3''" "we_sha (ex_log ! 0) = ''c3''" by code_simp+
  then show ?thesis using expected_sha_check [OF ex_walks, of "''a''" "Some '' c3 ''"] by (simp add: ex_filter)
qed

end
