(* ===== verification/Workspace_Tx.thy ===== *)
theory Workspace_Tx
  imports Prelude
begin

section \<open>Workspace writes: git commit, staged changes, rows and tree\<close>

text \<open>
  Models \<open>GitRepository.commit_changes\<close>, \<open>commit_files\<close> and \<open>delete_files\<close> of
  \<open>repositories/git.py\<close>, all of \<open>services/notes/staged_change.py\<close>, and the file moves and writes
  that \<open>services/notes/folders.py\<close> and \<open>workspace.py\<close> stage with it.

  The working tree is a map from relative file paths to bytes; directories are implicit. The git
  repository proper is dulwich's: its \<open>rm\<close>, \<open>add\<close> and \<open>commit\<close> are parameters that return an exception
  or not and a new repository state. An \<open>apply\<close> callback maps the tree to an exception or not and a new
  tree. Reads and writes of the rollback itself are taken to succeed. The lock around these calls is
  the subject of theory \<open>Workspace_Lock\<close>.
\<close>

subsection \<open>Committing\<close>

type_synonym fs = "string \<rightharpoonup> string"

datatype exn = ExnGit string | ExnOS string | ExnOther string

record 'g git_ops =
  go_rm :: "string list \<Rightarrow> 'g \<Rightarrow> exn option \<times> 'g"
  go_add :: "fs \<Rightarrow> string list \<Rightarrow> 'g \<Rightarrow> exn option \<times> 'g"
  go_commit :: "string \<Rightarrow> 'g \<Rightarrow> exn option \<times> 'g"

text \<open>\<open>w_hook\<close> says that a post-commit notification has been recorded.\<close>

record 'g ws =
  w_files :: fs
  w_git :: 'g
  w_hook :: bool

text \<open>\<open>except GitError: raise\<close>, \<open>except Exception as e: raise GitError(str(e))\<close>.\<close>

fun as_git :: "exn \<Rightarrow> exn" where
  "as_git (ExnGit m) = ExnGit m"
| "as_git (ExnOS m) = ExnGit m"
| "as_git (ExnOther m) = ExnGit m"

definition commit_changes :: "'g git_ops \<Rightarrow> string list \<Rightarrow> string list \<Rightarrow> string \<Rightarrow> 'g ws \<Rightarrow> exn option \<times> 'g ws" where
  "commit_changes ops removed added message w =
     (if removed = [] \<and> added = [] then (None, w)
      else (case find (\<lambda>rel. w_files w rel = None) added of
          Some rel \<Rightarrow> (Some (ExnGit (''File not found: '' @ rel)), w)
        | None \<Rightarrow>
            (case (if removed \<noteq> [] then go_rm ops removed (w_git w) else (None, w_git w)) of
               (Some e, g1) \<Rightarrow> (Some (as_git e), w\<lparr>w_git := g1\<rparr>)
             | (None, g1) \<Rightarrow>
                 (case (if added \<noteq> [] then go_add ops (w_files w) added g1 else (None, g1)) of
                    (Some e, g2) \<Rightarrow> (Some (as_git e), w\<lparr>w_git := g2\<rparr>)
                  | (None, g2) \<Rightarrow>
                      (case go_commit ops message g2 of
                         (Some e, g3) \<Rightarrow> (Some (as_git e), w\<lparr>w_git := g3\<rparr>)
                       | (None, g3) \<Rightarrow> (None, w\<lparr>w_git := g3, w_hook := True\<rparr>))))))"

definition commit_files :: "'g git_ops \<Rightarrow> string list \<Rightarrow> string \<Rightarrow> 'g ws \<Rightarrow> exn option \<times> 'g ws" where
  "commit_files ops relative_paths message w = commit_changes ops [] relative_paths message w"

text \<open>\<open>unlink(missing_ok=True)\<close> of each path; \<open>fault\<close> gives the error of the operating system, if any.\<close>

fun unlink_all :: "(string \<Rightarrow> exn option) \<Rightarrow> string list \<Rightarrow> fs \<Rightarrow> exn option \<times> fs" where
  "unlink_all fault [] f = (None, f)"
| "unlink_all fault (rel # rels) f =
     (case fault rel of Some e \<Rightarrow> (Some e, f) | None \<Rightarrow> unlink_all fault rels (f(rel := None)))"

definition delete_files :: "'g git_ops \<Rightarrow> (string \<Rightarrow> exn option) \<Rightarrow> string list \<Rightarrow> string \<Rightarrow> 'g ws \<Rightarrow> exn option \<times> 'g ws" where
  "delete_files ops fault relative_paths message w =
     (if relative_paths = [] then (None, w)
      else (case unlink_all fault relative_paths (w_files w) of
          (Some e, f) \<Rightarrow> (Some (as_git e), w\<lparr>w_files := f\<rparr>)
        | (None, f) \<Rightarrow> commit_changes ops relative_paths [] message (w\<lparr>w_files := f\<rparr>)))"

subsection \<open>Staged changes\<close>

record staged_change =
  sc_add :: "string option"
  sc_remove :: "string option"
  sc_apply :: "fs \<Rightarrow> exn option \<times> fs"
  sc_known_bytes :: "string option"
  sc_pure_rename :: bool

definition mk_staged_change ::
  "string option \<Rightarrow> string option \<Rightarrow> (fs \<Rightarrow> exn option \<times> fs) \<Rightarrow> string option \<Rightarrow> bool \<Rightarrow> exn + staged_change" where
  "mk_staged_change add remove apply known_bytes pure_rename =
     (if pure_rename \<and> (add = None \<or> remove = None) then Inl (ExnOther ''pure_rename requires both add and remove'')
      else if pure_rename \<and> known_bytes \<noteq> None then Inl (ExnOther ''pure_rename and known_bytes are mutually exclusive'')
      else Inr \<lparr>sc_add = add, sc_remove = remove, sc_apply = apply, sc_known_bytes = known_bytes, sc_pure_rename = pure_rename\<rparr>)"

text \<open>The truthy paths of an item, in the order add, remove.\<close>

definition truthy_paths :: "string option list \<Rightarrow> string list" where
  "truthy_paths ps = filter (\<lambda>p. p \<noteq> []) (List.map_filter (\<lambda>p. p) ps)"

definition item_snapshots :: "fs \<Rightarrow> staged_change \<Rightarrow> (string \<times> string option) list" where
  "item_snapshots f it =
     (if sc_pure_rename it then []
      else let existing_rel = (case sc_remove it of Some r \<Rightarrow> Some r | None \<Rightarrow> sc_add it)
           in map (\<lambda>rel. (rel, if Some rel = existing_rel \<and> sc_known_bytes it \<noteq> None then sc_known_bytes it else f rel))
                (truthy_paths [sc_add it, sc_remove it]))"

definition item_rename :: "staged_change \<Rightarrow> (string \<times> string) list" where
  "item_rename it = (if sc_pure_rename it then [(the (sc_add it), the (sc_remove it))] else [])"

fun apply_all :: "staged_change list \<Rightarrow> fs \<Rightarrow> exn option \<times> fs" where
  "apply_all [] f = (None, f)"
| "apply_all (it # its) f =
     (case sc_apply it f of (Some e, f') \<Rightarrow> (Some e, f') | (None, f') \<Rightarrow> apply_all its f')"

fun restore_bytes :: "(string \<times> string option) list \<Rightarrow> fs \<Rightarrow> fs" where
  "restore_bytes [] f = f"
| "restore_bytes ((rel, data) # snaps) f = restore_bytes snaps (f(rel := data))"

fun restore_renames :: "(string \<times> string) list \<Rightarrow> fs \<Rightarrow> fs" where
  "restore_renames [] f = f"
| "restore_renames ((add, remove) # pairs) f =
     restore_renames pairs (if f add \<noteq> None \<and> f remove = None then f(remove := f add, add := None) else f)"

definition staged_workspace_change :: "'g git_ops \<Rightarrow> staged_change list \<Rightarrow> string \<Rightarrow> 'g ws \<Rightarrow> exn option \<times> 'g ws" where
  "staged_workspace_change ops items message w =
     (let snapshots = concat (map (item_snapshots (w_files w)) items);
          rename_pairs = concat (map item_rename items);
          (e, w') = (case apply_all items (w_files w) of
              (Some e, f) \<Rightarrow> (Some e, w\<lparr>w_files := f\<rparr>)
            | (None, f) \<Rightarrow> commit_changes ops (truthy_paths (map sc_remove items)) (truthy_paths (map sc_add items))
                  message (w\<lparr>w_files := f\<rparr>))
      in case e of
           None \<Rightarrow> (None, w')
         | Some (ExnOther m) \<Rightarrow> (Some (ExnOther m), w')
         | Some x \<Rightarrow> (Some x, w'\<lparr>w_files := restore_renames rename_pairs (restore_bytes snapshots (w_files w'))\<rparr>))"

subsection \<open>Rows first, tree second, COMMIT last\<close>

definition commit_rows_then ::
  "('db \<Rightarrow> exn + 'db) \<Rightarrow> ('db \<Rightarrow> exn option) \<Rightarrow> ('w \<Rightarrow> exn option \<times> 'w) \<Rightarrow> ('db \<Rightarrow> exn option)
   \<Rightarrow> 'db \<times> 'w \<Rightarrow> exn option \<times> 'db \<times> 'w" where
  "commit_rows_then write_rows flush commit_tree commit_db s =
     (case s of (db, w) \<Rightarrow>
       (case write_rows db of
          Inl e \<Rightarrow> (Some e, db, w)
        | Inr db' \<Rightarrow>
            (case flush db' of
               Some e \<Rightarrow> (Some e, db, w)
             | None \<Rightarrow>
                 (case commit_tree w of
                    (Some e, w') \<Rightarrow> (Some e, db, w')
                  | (None, w') \<Rightarrow>
                      (case commit_db db' of Some e \<Rightarrow> (Some e, db, w') | None \<Rightarrow> (None, db', w'))))))"

definition commit_rows_then_tree ::
  "'g git_ops \<Rightarrow> staged_change list \<Rightarrow> string \<Rightarrow> ('db \<Rightarrow> exn + 'db) \<Rightarrow> ('db \<Rightarrow> exn option) \<Rightarrow> ('db \<Rightarrow> exn option)
   \<Rightarrow> 'db \<times> 'g ws \<Rightarrow> exn option \<times> 'db \<times> 'g ws" where
  "commit_rows_then_tree ops items message write_rows flush commit_db =
     commit_rows_then write_rows flush (staged_workspace_change ops items message) commit_db"

subsection \<open>The callbacks the services stage\<close>

text \<open>\<open>write_note_file\<close> replaces the file from a temporary one or fails before that.\<close>

definition write_apply :: "string \<Rightarrow> string \<Rightarrow> exn option \<Rightarrow> fs \<Rightarrow> exn option \<times> fs" where
  "write_apply rel data fault f = (case fault of Some e \<Rightarrow> (Some e, f) | None \<Rightarrow> (None, f(rel := Some data)))"

text \<open>\<open>apply_move\<close>: the file leaves its old path for a fresh temporary name, comes back if the new path
  is taken or cannot be written, and otherwise arrives there. \<open>fault1\<close> is the error of the first
  rename, \<open>fault2\<close> that of \<open>mkdir\<close> or the second.\<close>

definition apply_move :: "string \<Rightarrow> string \<Rightarrow> string option \<Rightarrow> string option \<Rightarrow> fs \<Rightarrow> exn option \<times> fs" where
  "apply_move old_rel new_rel fault1 fault2 f =
     (case (f old_rel, fault1) of
        (None, _) \<Rightarrow> (Some (ExnGit ''No such file''), f)
      | (Some _, Some m) \<Rightarrow> (Some (ExnGit m), f)
      | (Some data, None) \<Rightarrow>
          (let f1 = f(old_rel := None)
           in if f1 new_rel \<noteq> None
              then (Some (ExnOS (''Target file '' @ [CHR 0x27] @ new_rel @ [CHR 0x27] @ '' already exists.'')), f1(old_rel := Some data))
              else (case fault2 of
                  Some m \<Rightarrow> (Some (ExnGit m), f1(old_rel := Some data))
                | None \<Rightarrow> (None, f1(new_rel := Some data)))))"

subsection \<open>Interface: callbacks that can be rolled back\<close>

text \<open>A callback that leaves every path but its own alone; and one that is a plain rename, done or
  not done.\<close>

locale frame_apply =
  fixes touched :: "string set" and app :: "fs \<Rightarrow> exn option \<times> fs"
  assumes frame: "p \<notin> touched \<Longrightarrow> snd (app f) p = f p"

locale rename_apply =
  fixes add :: string and remove :: string and app :: "fs \<Rightarrow> exn option \<times> fs"
  assumes moved: "app f = (None, f') \<Longrightarrow>
      \<exists>d. f remove = Some d \<and> (f(remove := None)) add = None \<and> f' = f(remove := None, add := Some d)"
    and failed: "app f = (Some e, f') \<Longrightarrow> f' = f"

sublocale rename_apply \<subseteq> frame_apply "{add, remove}" app
proof
  fix p f
  assume p: "p \<notin> {add, remove}"
  obtain e f' where a: "app f = (e, f')" by fastforce
  show "snd (app f) p = f p"
  proof (cases e)
    case None
    then obtain d where "f' = f(remove := None, add := Some d)" using a moved by blast
    then show ?thesis using a p by simp
  next
    case (Some x)
    then show ?thesis using a failed [of f x f'] by simp
  qed
qed

context rename_apply
begin

lemma frame_other: "p \<notin> {add, remove} \<Longrightarrow> snd (app f) p = f p"
  by (rule frame)

text \<open>The two ways a rename can have left the tree, and that it cannot leave the second state.\<close>

definition undone :: "fs \<Rightarrow> fs \<Rightarrow> bool" where
  "undone f0 f \<longleftrightarrow> f add = f0 add \<and> f remove = f0 remove"

definition moved_away :: "fs \<Rightarrow> fs \<Rightarrow> bool" where
  "moved_away f0 f \<longleftrightarrow> f add = f0 remove \<and> f remove = None \<and> f0 add = None"

lemma apply_states:
  assumes "add \<noteq> remove" and "undone f0 f \<or> moved_away f0 f"
  shows "undone f0 (snd (app f)) \<or> moved_away f0 (snd (app f))"
proof (cases "app f")
  case (Pair e f')
  show ?thesis
  proof (cases e)
    case None
    then obtain d where d: "f remove = Some d" "f add = None" "f' = f(remove := None, add := Some d)"
      using Pair moved assms(1) by (metis fun_upd_other)
    then have "undone f0 f" using assms(2) by (auto simp: moved_away_def)
    then show ?thesis using d Pair assms(1) by (auto simp: undone_def moved_away_def)
  next
    case (Some x)
    then show ?thesis using Pair failed assms(2) by auto
  qed
qed

end

interpretation wr: frame_apply "{rel}" "write_apply rel data fault" for rel data fault
  by unfold_locales (auto simp: write_apply_def split: option.splits)

interpretation mv: rename_apply new_rel old_rel "apply_move old_rel new_rel fault1 fault2" for old_rel new_rel fault1 fault2
  by unfold_locales (auto simp: apply_move_def Let_def split: option.splits if_splits)

subsection \<open>Rollback restores the tree\<close>

definition touched :: "staged_change \<Rightarrow> string set" where
  "touched it = (if sc_pure_rename it then {the (sc_add it), the (sc_remove it)}
     else set (truthy_paths [sc_add it, sc_remove it]))"

text \<open>What \<open>StagedChange\<close> asks of a caller, for a batch staged on the tree \<open>f0\<close>: a callback stays on
  its own paths; known bytes are those of the file; a pure rename is one, of an existing file, on
  paths no other item has.\<close>

definition item_ok :: "fs \<Rightarrow> staged_change list \<Rightarrow> staged_change \<Rightarrow> bool" where
  "item_ok f0 items it \<longleftrightarrow>
     (if sc_pure_rename it
      then the (sc_add it) \<noteq> the (sc_remove it) \<and> f0 (the (sc_remove it)) \<noteq> None \<and>
        rename_apply (the (sc_add it)) (the (sc_remove it)) (sc_apply it) \<and>
        (\<forall>it'\<in>set items. it' \<noteq> it \<longrightarrow> touched it \<inter> touched it' = {})
      else frame_apply (touched it) (sc_apply it) \<and>
        (\<forall>b. sc_known_bytes it = Some b \<longrightarrow>
           f0 (case sc_remove it of Some r \<Rightarrow> r | None \<Rightarrow> the (sc_add it)) = Some b))"

definition batch_ok :: "fs \<Rightarrow> staged_change list \<Rightarrow> bool" where
  "batch_ok f0 items \<longleftrightarrow> (\<forall>it\<in>set items. item_ok f0 items it)"

text \<open>The trees a batch can pass through: everything outside its paths is as before, and each pure
  rename is undone or done.\<close>

definition partial_batch :: "fs \<Rightarrow> staged_change list \<Rightarrow> fs \<Rightarrow> bool" where
  "partial_batch f0 items f \<longleftrightarrow>
     (\<forall>p. (\<forall>it\<in>set items. p \<notin> touched it) \<longrightarrow> f p = f0 p) \<and>
     (\<forall>it\<in>set items. sc_pure_rename it \<longrightarrow>
        f (the (sc_add it)) = f0 (the (sc_add it)) \<and> f (the (sc_remove it)) = f0 (the (sc_remove it)) \<or>
        f (the (sc_add it)) = f0 (the (sc_remove it)) \<and> f (the (sc_remove it)) = None \<and> f0 (the (sc_add it)) = None)"

lemma item_frame:
  assumes "item_ok f0 items it" and "p \<notin> touched it"
  shows "snd (sc_apply it f) p = f p"
proof (cases "sc_pure_rename it")
  case True
  then have r: "rename_apply (the (sc_add it)) (the (sc_remove it)) (sc_apply it)"
    using assms(1) by (simp add: item_ok_def)
  show ?thesis
    using rename_apply.frame_other [OF r] assms(2) True by (simp add: touched_def)
next
  case False
  then show ?thesis using assms by (auto simp: item_ok_def frame_apply_def)
qed

lemma partial_apply:
  assumes "batch_ok f0 items" and "it \<in> set items" and "partial_batch f0 items f"
  shows "partial_batch f0 items (snd (sc_apply it f))"
  unfolding partial_batch_def
proof (intro conjI allI ballI impI)
  fix p
  assume "\<forall>it\<in>set items. p \<notin> touched it"
  then show "snd (sc_apply it f) p = f0 p"
    using assms item_frame [of f0 items it p f] by (auto simp: batch_ok_def partial_batch_def)
next
  fix j
  assume j: "j \<in> set items" "sc_pure_rename j"
  let ?a = "the (sc_add j)" and ?r = "the (sc_remove j)"
  have jo: "?a \<noteq> ?r" "rename_apply ?a ?r (sc_apply j)" "\<And>k. k \<in> set items \<Longrightarrow> k \<noteq> j \<Longrightarrow> touched j \<inter> touched k = {}"
    using assms(1) j by (auto simp: batch_ok_def item_ok_def)
  have st: "f ?a = f0 ?a \<and> f ?r = f0 ?r \<or> f ?a = f0 ?r \<and> f ?r = None \<and> f0 ?a = None"
    using assms(3) j by (simp add: partial_batch_def)
  show "snd (sc_apply it f) ?a = f0 ?a \<and> snd (sc_apply it f) ?r = f0 ?r \<or>
    snd (sc_apply it f) ?a = f0 ?r \<and> snd (sc_apply it f) ?r = None \<and> f0 ?a = None"
  proof (cases "it = j")
    case True
    then show ?thesis
      using rename_apply.apply_states [OF jo(2,1), of f0 f] st
      by (simp add: rename_apply.undone_def [OF jo(2)] rename_apply.moved_away_def [OF jo(2)])
  next
    case False
    have "touched j = {?a, ?r}" using j by (simp add: touched_def)
    then have "?a \<notin> touched it" "?r \<notin> touched it" using jo(3) [OF assms(2) False] by auto
    then have "snd (sc_apply it f) ?a = f ?a" "snd (sc_apply it f) ?r = f ?r"
      using item_frame [of f0 items it] assms(1,2) by (simp_all add: batch_ok_def)
    then show ?thesis using st by simp
  qed
qed

lemma partial_apply_all:
  assumes "batch_ok f0 items" and "set its \<subseteq> set items" and "partial_batch f0 items f"
  shows "partial_batch f0 items (snd (apply_all its f))"
  using assms(2,3)
proof (induction its arbitrary: f)
  case (Cons it its)
  then have "partial_batch f0 items (snd (sc_apply it f))" using partial_apply [OF assms(1)] by simp
  then show ?case using Cons by (cases "sc_apply it f") (auto split: option.splits)
qed simp

lemma snapshots_true:
  assumes "batch_ok f0 items" and "(p, d) \<in> set (concat (map (item_snapshots f0) items))"
  shows "d = f0 p"
proof -
  from assms(2) obtain it where it: "it \<in> set items" "(p, d) \<in> set (item_snapshots f0 it)" by auto
  then have np: "\<not> sc_pure_rename it" by (auto simp: item_snapshots_def)
  then have "\<forall>b. sc_known_bytes it = Some b \<longrightarrow> f0 (case sc_remove it of Some r \<Rightarrow> r | None \<Rightarrow> the (sc_add it)) = Some b"
    using assms(1) it(1) by (simp add: batch_ok_def item_ok_def)
  then show ?thesis using it(2) np
    by (cases "sc_remove it"; cases "sc_known_bytes it"; cases "sc_add it") (auto simp: item_snapshots_def Let_def split: if_splits)
qed

lemma snapshot_paths:
  "fst ` set (item_snapshots f0 it) = (if sc_pure_rename it then {} else touched it)"
  by (auto simp: item_snapshots_def touched_def Let_def image_image)

lemma restore_bytes_true:
  assumes "\<And>p d. (p, d) \<in> set snaps \<Longrightarrow> d = f0 p"
  shows "restore_bytes snaps f p = (if p \<in> fst ` set snaps then f0 p else f p)"
  using assms by (induction snaps f rule: restore_bytes.induct) auto

text \<open>Renaming back.\<close>

lemma restore_renames_spec:
  assumes "\<And>a r. (a, r) \<in> set pairs \<Longrightarrow> a \<noteq> r \<and> f0 r \<noteq> None"
    and "\<And>a r. (a, r) \<in> set pairs \<Longrightarrow> f a = f0 a \<and> f r = f0 r \<or> f a = f0 r \<and> f r = None \<and> f0 a = None"
    and "\<And>a r a' r'. (a, r) \<in> set pairs \<Longrightarrow> (a', r') \<in> set pairs \<Longrightarrow> (a, r) \<noteq> (a', r') \<Longrightarrow> {a, r} \<inter> {a', r'} = {}"
    and "\<And>p. p \<notin> (\<Union>(a, r)\<in>set pairs. {a, r}) \<Longrightarrow> f p = f0 p"
  shows "restore_renames pairs f = f0"
  using assms
proof (induction pairs arbitrary: f)
  case Nil
  then show ?case by (auto simp: fun_eq_iff)
next
  case (Cons x pairs)
  obtain a r where x: "x = (a, r)" by fastforce
  let ?f = "if f a \<noteq> None \<and> f r = None then f(r := f a, a := None) else f"
  have ar: "a \<noteq> r" "f0 r \<noteq> None" using Cons.prems(1) x by auto
  have bk: "?f a = f0 a \<and> ?f r = f0 r" using Cons.prems(2) [of a r] ar x by auto
  have other: "?f p = f p" if "p \<noteq> a" "p \<noteq> r" for p using that by simp
  have "restore_renames pairs ?f = f0"
  proof (rule Cons.IH)
    fix a' r' assume p: "(a', r') \<in> set pairs"
    show "a' \<noteq> r' \<and> f0 r' \<noteq> None" using p Cons.prems(1) by auto
    show "?f a' = f0 a' \<and> ?f r' = f0 r' \<or> ?f a' = f0 r' \<and> ?f r' = None \<and> f0 a' = None"
    proof (cases "(a', r') = (a, r)")
      case True
      then show ?thesis using bk by simp
    next
      case False
      then have "{a, r} \<inter> {a', r'} = {}" using Cons.prems(3) [of a r a' r'] p x by auto
      then have "?f a' = f a'" "?f r' = f r'" using other by auto
      then show ?thesis using Cons.prems(2) [of a' r'] p by simp
    qed
  next
    fix a' r' a'' r''
    assume "(a', r') \<in> set pairs" "(a'', r'') \<in> set pairs" "(a', r') \<noteq> (a'', r'')"
    then show "{a', r'} \<inter> {a'', r''} = {}" using Cons.prems(3) by (meson list.set_intros(2))
  next
    fix p assume "p \<notin> (\<Union>(a, r)\<in>set pairs. {a, r})"
    then show "?f p = f0 p" using bk other [of p] Cons.prems(4) [of p] x by (cases "p = a \<or> p = r") auto
  qed
  then show ?case by (simp add: x)
qed

lemma restored_bytes:
  assumes "batch_ok f0 items"
  shows "restore_bytes (concat (map (item_snapshots f0) items)) f p =
    (if \<exists>it\<in>set items. \<not> sc_pure_rename it \<and> p \<in> touched it then f0 p else f p)"
proof -
  have "restore_bytes (concat (map (item_snapshots f0) items)) f p =
      (if p \<in> fst ` set (concat (map (item_snapshots f0) items)) then f0 p else f p)"
    by (rule restore_bytes_true) (use snapshots_true [OF assms] in auto)
  moreover have "p \<in> fst ` set (concat (map (item_snapshots f0) items)) \<longleftrightarrow>
      (\<exists>it\<in>set items. p \<in> fst ` set (item_snapshots f0 it))" by auto
  moreover have "\<dots> \<longleftrightarrow> (\<exists>it\<in>set items. \<not> sc_pure_rename it \<and> p \<in> touched it)"
    by (auto simp: snapshot_paths split: if_splits)
  ultimately show ?thesis by (simp only:)
qed

lemma renamed_item:
  assumes "batch_ok f0 items" and "(a, r) \<in> set (concat (map item_rename items))"
  obtains it where "it \<in> set items" "sc_pure_rename it" "a = the (sc_add it)" "r = the (sc_remove it)"
    "touched it = {a, r}" "a \<noteq> r \<and> f0 r \<noteq> None" "\<forall>k\<in>set items. k \<noteq> it \<longrightarrow> touched it \<inter> touched k = {}"
proof -
  from assms(2) obtain it where it: "it \<in> set items" "sc_pure_rename it" "a = the (sc_add it)" "r = the (sc_remove it)"
    by (auto simp: item_rename_def split: if_splits)
  moreover have "touched it = {a, r}" using it by (simp add: touched_def)
  moreover have "item_ok f0 items it" using assms(1) it(1) by (simp add: batch_ok_def)
  ultimately show ?thesis using that [of it] by (simp add: item_ok_def)
qed

lemma rollback_partial:
  assumes ok: "batch_ok f0 items" and f: "partial_batch f0 items f"
  shows "restore_renames (concat (map item_rename items)) (restore_bytes (concat (map (item_snapshots f0) items)) f) = f0"
proof (rule restore_renames_spec)
  note g = restored_bytes [OF ok]
  let ?g = "restore_bytes (concat (map (item_snapshots f0) items)) f"
  fix a r assume p: "(a, r) \<in> set (concat (map item_rename items))"
  from ok p show "a \<noteq> r \<and> f0 r \<noteq> None" by (rule renamed_item)
  from ok p obtain it where it: "it \<in> set items" "sc_pure_rename it" "a = the (sc_add it)" "r = the (sc_remove it)"
    "touched it = {a, r}" and "a \<noteq> r \<and> f0 r \<noteq> None"
    and dis: "\<forall>k\<in>set items. k \<noteq> it \<longrightarrow> touched it \<inter> touched k = {}" by (rule renamed_item)
  have "\<not> (\<exists>k\<in>set items. \<not> sc_pure_rename k \<and> q \<in> touched k)" if q: "q \<in> touched it" for q
  proof
    assume "\<exists>k\<in>set items. \<not> sc_pure_rename k \<and> q \<in> touched k"
    then obtain k where k: "k \<in> set items" "\<not> sc_pure_rename k" "q \<in> touched k" by blast
    then have "k \<noteq> it" using it(2) by metis
    then show False using dis k(1,3) q by (meson disjoint_iff)
  qed
  from this [of a] this [of r] have "?g a = f a" "?g r = f r" unfolding g it(5) by auto
  then show "?g a = f0 a \<and> ?g r = f0 r \<or> ?g a = f0 r \<and> ?g r = None \<and> f0 a = None"
    using f it by (auto simp: partial_batch_def)
  fix a' r' assume p': "(a', r') \<in> set (concat (map item_rename items))" "(a, r) \<noteq> (a', r')"
  from ok p'(1) obtain it' where it': "it' \<in> set items" "sc_pure_rename it'" "a' = the (sc_add it')" "r' = the (sc_remove it')"
    "touched it' = {a', r'}" and "a' \<noteq> r' \<and> f0 r' \<noteq> None"
    and "\<forall>k\<in>set items. k \<noteq> it' \<longrightarrow> touched it' \<inter> touched k = {}" by (rule renamed_item)
  have "it' \<noteq> it" using it it' p'(2) by blast
  then show "{a, r} \<inter> {a', r'} = {}" using dis it'(1) it(5) it'(5) by auto
next
  fix p assume p: "p \<notin> (\<Union>(a, r)\<in>set (concat (map item_rename items)). {a, r})"
  show "restore_bytes (concat (map (item_snapshots f0) items)) f p = f0 p"
  proof (cases "\<exists>it\<in>set items. \<not> sc_pure_rename it \<and> p \<in> touched it")
    case True
    then show ?thesis using restored_bytes [OF ok] by simp
  next
    case False
    have "p \<notin> touched it" if "it \<in> set items" for it
      using that False p by (cases "sc_pure_rename it") (auto simp: touched_def item_rename_def)
    then show ?thesis using False restored_bytes [OF ok] f by (auto simp: partial_batch_def)
  qed
qed

lemma commit_changes_frame:
  "commit_changes ops removed added message w = (e, w') \<Longrightarrow> w_files w' = w_files w \<and> e \<noteq> Some (ExnOther m)"
proof -
  have "as_git x \<noteq> ExnOther m" for x by (cases x) simp_all
  then show "commit_changes ops removed added message w = (e, w') \<Longrightarrow> w_files w' = w_files w \<and> e \<noteq> Some (ExnOther m)"
    by (auto simp: commit_changes_def split: if_splits option.splits prod.splits)
qed

text \<open>How a staged change ends: committed with all callbacks applied, or failed; then the tree is
  rolled back unless the exception is neither \<open>GitError\<close> nor \<open>OSError\<close>.\<close>

lemma staged_cases:
  assumes ok: "batch_ok (w_files w) items" and st: "staged_workspace_change ops items message w = (e, w')"
  shows "case e of
      None \<Rightarrow> apply_all items (w_files w) = (None, w_files w')
    | Some (ExnOther m) \<Rightarrow> apply_all items (w_files w) = (e, w_files w')
    | Some x \<Rightarrow> w_files w' = w_files w"
proof -
  obtain x f where a: "apply_all items (w_files w) = (x, f)" by fastforce
  have "partial_batch (w_files w) items (w_files w)" by (simp add: partial_batch_def)
  then have "partial_batch (w_files w) items f" using partial_apply_all [OF ok subset_refl] a by (metis snd_conv)
  note rb = rollback_partial [OF ok this]
  show ?thesis
  proof (cases x)
    case None
    obtain y u where c: "commit_changes ops (truthy_paths (map sc_remove items)) (truthy_paths (map sc_add items)) message (w\<lparr>w_files := f\<rparr>) = (y, u)"
      by fastforce
    note fr = commit_changes_frame [OF c]
    show ?thesis
    proof (cases y)
      case None
      then show ?thesis using st c a \<open>x = None\<close> fr by (auto simp: staged_workspace_change_def)
    next
      case (Some z)
      then show ?thesis using st c a \<open>x = None\<close> fr rb
        by (cases z) (auto simp: staged_workspace_change_def)
    qed
  next
    case (Some z)
    then show ?thesis using st a rb by (cases z) (auto simp: staged_workspace_change_def)
  qed
qed

subsection \<open>Properties\<close>

text \<open>Rollback is exact. When a batch whose items keep their contract fails with a git or
  operating system error, at whatever item or in the commit, every file is again what it was.\<close>

theorem rollback_exact:
  assumes "batch_ok (w_files w) items"
    and "staged_workspace_change ops items message w = (Some e, w')" and "\<And>m. e \<noteq> ExnOther m"
  shows "w_files w' = w_files w"
  using staged_cases [OF assms(1,2)] assms(3) by (cases e) auto

text \<open>The abstract write: rows and tree change together, or neither does, or only the tree does.\<close>

inductive atomic_write :: "('db \<Rightarrow> exn + 'db) \<Rightarrow> (fs \<Rightarrow> fs) \<Rightarrow> 'db \<times> fs \<Rightarrow> exn option \<Rightarrow> 'db \<times> fs \<Rightarrow> bool"
  for rows tree where
  both: "rows db = Inr db' \<Longrightarrow> atomic_write rows tree (db, f) None (db', tree f)"
| neither: "atomic_write rows tree (db, f) (Some e) (db, f)"
| tree_ahead: "rows db = Inr db' \<Longrightarrow> atomic_write rows tree (db, f) (Some e) (db, tree f)"

lemma apply_all_exn:
  "(\<And>it f m. it \<in> set items \<Longrightarrow> fst (sc_apply it f) \<noteq> Some (ExnOther m)) \<Longrightarrow> fst (apply_all items f) \<noteq> Some (ExnOther m)"
proof (induction items arbitrary: f)
  case (Cons it items)
  then have "fst (sc_apply it f) \<noteq> Some (ExnOther m)" by simp
  moreover have "fst (apply_all items f') \<noteq> Some (ExnOther m)" for f' using Cons by simp
  ultimately show ?case by (auto split: option.splits prod.splits)
qed simp


text \<open>The exception a callback raises decides whether the files it changed come back.\<close>

lemma other_exceptions_keep_files:
  assumes "apply_all items (w_files w) = (Some (ExnOther m), f)"
  shows "\<exists>w'. staged_workspace_change ops items message w = (Some (ExnOther m), w') \<and> w_files w' = f"
  using assms by (simp add: staged_workspace_change_def)

subsection \<open>The index is not rolled back\<close>

text \<open>A repository with an index, the tree of HEAD and a commit that can fail, as git documents
  \<open>rm --cached\<close>, \<open>add\<close> and \<open>commit\<close>.\<close>

record idx_git =
  gi_index :: fs
  gi_head :: fs
  gi_locked :: bool

definition idx_ops :: "idx_git git_ops" where
  "idx_ops = \<lparr>go_rm = (\<lambda>ps g. (None, g\<lparr>gi_index := (\<lambda>p. if p \<in> set ps then None else gi_index g p)\<rparr>)),
     go_add = (\<lambda>f ps g. (None, g\<lparr>gi_index := (\<lambda>p. if p \<in> set ps then f p else gi_index g p)\<rparr>)),
     go_commit = (\<lambda>m g. if gi_locked g then (Some (ExnOther ''ref is locked''), g\<lparr>gi_locked := False\<rparr>)
        else (None, g\<lparr>gi_head := gi_index g\<rparr>))\<rparr>"

definition ex_write :: "string \<Rightarrow> staged_change" where
  "ex_write rel = \<lparr>sc_add = Some rel, sc_remove = None, sc_apply = write_apply rel ''text'' None,
     sc_known_bytes = None, sc_pure_rename = False\<rparr>"

definition ex_ws :: "idx_git ws" where
  "ex_ws = \<lparr>w_files = (\<lambda>_. None), w_git = \<lparr>gi_index = (\<lambda>_. None), gi_head = (\<lambda>_. None), gi_locked = True\<rparr>, w_hook = False\<rparr>"

text \<open>A failed commit leaves its paths staged. The rollback restores the files but not the index,
  so the next commit, of another note, records the note whose creation had failed: it is in HEAD and
  not in the tree.\<close>

theorem failed_commit_stays_staged:
  "\<exists>e w1 w2. staged_workspace_change idx_ops [ex_write ''a.md''] ''m1'' ex_ws = (Some e, w1) \<and> w_files w1 = w_files ex_ws \<and>
     staged_workspace_change idx_ops [ex_write ''b.md''] ''m2'' w1 = (None, w2) \<and>
     w_files w2 ''a.md'' = None \<and> gi_head (w_git w2) ''a.md'' = Some ''text''"
  by (simp add: staged_workspace_change_def ex_write_def ex_ws_def item_snapshots_def item_rename_def truthy_paths_def
      List.map_filter_def write_apply_def commit_changes_def idx_ops_def fun_eq_iff)

subsection \<open>Examples\<close>

definition ex_rename :: staged_change where
  "ex_rename = \<lparr>sc_add = Some ''new.md'', sc_remove = Some ''old.md'', sc_apply = apply_move ''old.md'' ''new.md'' None None,
     sc_known_bytes = None, sc_pure_rename = True\<rparr>"

definition ex_tree :: fs where
  "ex_tree = [''old.md'' \<mapsto> ''x'', ''a.md'' \<mapsto> ''y'']"

lemma ex_touched: "touched ex_rename = {''new.md'', ''old.md''}" "touched (ex_write ''a.md'') = {''a.md''}"
  by (auto simp: touched_def ex_rename_def ex_write_def truthy_paths_def List.map_filter_def)

lemma ex_batch_ok: "batch_ok ex_tree [ex_rename, ex_write ''a.md'']"
proof -
  have "rename_apply ''new.md'' ''old.md'' (apply_move ''old.md'' ''new.md'' None None)" by (rule mv.rename_apply_axioms)
  moreover have "frame_apply {''a.md''} (write_apply ''a.md'' ''text'' None)" by (rule wr.frame_apply_axioms)
  ultimately have "item_ok ex_tree [ex_rename, ex_write ''a.md''] ex_rename" "item_ok ex_tree [ex_rename, ex_write ''a.md''] (ex_write ''a.md'')"
    unfolding item_ok_def by (auto simp: ex_touched) (simp_all add: ex_rename_def ex_write_def ex_tree_def)
  then show ?thesis by (simp add: batch_ok_def)
qed

theorem rollback_exact_witness:
  "\<exists>e w'. staged_workspace_change idx_ops [ex_rename, ex_write ''a.md''] ''m'' (ex_ws\<lparr>w_files := ex_tree\<rparr>) = (Some e, w') \<and>
     w_files w' = ex_tree"
proof -
  let ?w = "ex_ws\<lparr>w_files := ex_tree\<rparr>"
  obtain x w' where s: "staged_workspace_change idx_ops [ex_rename, ex_write ''a.md''] ''m'' ?w = (x, w')" by fastforce
  then have x: "x = Some (ExnGit ''ref is locked'')"
    by (auto simp: staged_workspace_change_def commit_changes_def idx_ops_def ex_ws_def ex_tree_def ex_rename_def ex_write_def
        apply_move_def write_apply_def truthy_paths_def List.map_filter_def)
  show ?thesis using rollback_exact [of ?w, OF _ s [unfolded x]] ex_batch_ok s x by simp
qed


end
