(* ===== verification/Note_Rows.thy ===== *)
theory Note_Rows
  imports Periods Wikilinks "HOL-Library.Multiset"
begin

section \<open>The rows of notes\<close>

text \<open>
  Models \<open>repositories/notes/crud.py\<close> (class \<open>NoteRepository\<close>) over \<open>models.Note\<close>. The table is the list of
  its rows; the JSON column \<open>tags\<close> holds the dumped list. A method that commits is the same function on
  the table. \<open>LIKE\<close> is SQLite's: an escape character, \<open>%\<close>, \<open>_\<close>, and ASCII letters compared without case.
  Rows with equal sort keys come in table order (for \<open>ORDER BY\<close> the order SQLite happens to produce is
  unspecified). Python's limit of 4300 digits in \<open>int()\<close> is not modelled, nor are log lines.
\<close>

subsection \<open>Definitions\<close>

record note_row =
  n_id :: string
  n_workspace :: string
  n_owner :: string
  n_title :: string
  n_folder :: string
  n_tags :: "string list option"
  n_created_at :: string
  n_updated_at :: string
  n_occurred_at :: "string option"
  n_period :: "string option"
  n_index_generation :: int
  n_index_state :: string
  n_indexed_at :: "string option"

lemma num_split_shorter:
  assumes "dropWhile (\<lambda>c. \<not> P c) s \<noteq> []"
  shows "length (dropWhile P (dropWhile (\<lambda>c. \<not> P c) s)) < length s"
proof -
  let ?r = "dropWhile (\<lambda>c. \<not> P c) s"
  obtain c r where r: "?r = c # r" "P c"
    using assms hd_dropWhile [OF assms] by (cases ?r) auto
  have "length ?r \<le> length s" by (rule length_dropWhile_le)
  then show ?thesis using r length_dropWhile_le [of P r] by simp
qed

text \<open>\<open>_NUM_SPLIT.split(title)\<close>: text and digit runs in turn, a text first and last.\<close>

function num_split :: "string \<Rightarrow> string list" where
  "num_split s =
     (let txt = takeWhile (\<lambda>c. \<not> py_isdigit_ascii c) s; rest = dropWhile (\<lambda>c. \<not> py_isdigit_ascii c) s
      in if rest = [] then [txt]
         else txt # takeWhile py_isdigit_ascii rest # num_split (dropWhile py_isdigit_ascii rest))"
  by pat_completeness auto
termination
  by (relation "measure length") (auto simp: num_split_shorter)

declare num_split.simps [simp del]

text \<open>\<open>str.isdigit\<close>: the decimal digits and, below 256, the three superscripts.\<close>

definition py_isdigit :: "char \<Rightarrow> bool" where
  "py_isdigit c \<longleftrightarrow> py_isdigit_ascii c \<or> code_point c \<in> {178, 179, 185}"

datatype nat_part = NInt int | NStr string

definition natural_part :: "string \<Rightarrow> py_error + nat_part" where
  "natural_part part =
     (if part \<noteq> [] \<and> (\<forall>c\<in>set part. py_isdigit c)
      then (case py_int part of Some i \<Rightarrow> Inr (NInt i) | None \<Rightarrow> Inl PyValueError)
      else Inr (NStr (map py_lower part)))"

fun natural_parts :: "string list \<Rightarrow> py_error + nat_part list" where
  "natural_parts [] = Inr []"
| "natural_parts (p # ps) = (case natural_part p of Inl e \<Rightarrow> Inl e
     | Inr x \<Rightarrow> (case natural_parts ps of Inl e \<Rightarrow> Inl e | Inr xs \<Rightarrow> Inr (x # xs)))"

definition folder_sort_key :: "note_row \<Rightarrow> py_error + (nat \<times> nat_part list)" where
  "folder_sort_key note =
     (let is_readme = (if map py_lower (py_strip (n_title note)) = ''readme'' then 0 else 1)
      in case natural_parts (num_split (n_title note)) of Inl e \<Rightarrow> Inl e | Inr natural \<Rightarrow> Inr (is_readme, natural))"

record note_item =
  i_note_id :: string
  i_workspace :: string
  i_owner :: string
  i_title :: string
  i_folder :: string
  i_tags :: "string list"
  i_created_at :: string
  i_updated_at :: string
  i_occurred_at :: "string option"
  i_period :: "string option"

definition note_to_list_item :: "note_row \<Rightarrow> note_item" where
  "note_to_list_item n = \<lparr>i_note_id = n_id n, i_workspace = n_workspace n, i_owner = n_owner n, i_title = n_title n,
     i_folder = n_folder n, i_tags = (case n_tags n of None \<Rightarrow> [] | Some ts \<Rightarrow> ts), i_created_at = n_created_at n,
     i_updated_at = n_updated_at n, i_occurred_at = n_occurred_at n, i_period = n_period n\<rparr>"

definition insert_note :: "note_row \<Rightarrow> note_row list \<Rightarrow> db_error + note_row list" where
  "insert_note note t = sql_insert n_id note t"

definition owned_note :: "string \<Rightarrow> string option \<Rightarrow> note_row \<Rightarrow> bool" where
  "owned_note note_id owner n \<longleftrightarrow> n_id n = note_id \<and> (case owner of None \<Rightarrow> True | Some u \<Rightarrow> n_owner n = u)"

definition get_note :: "string \<Rightarrow> string option \<Rightarrow> note_row list \<Rightarrow> note_row option" where
  "get_note note_id owner t = find (owned_note note_id owner) t"

definition IN_CLAUSE_CHUNK_SIZE :: nat where "IN_CLAUSE_CHUNK_SIZE = 900"

definition get_many :: "string list \<Rightarrow> string \<Rightarrow> note_row list \<Rightarrow> note_row list" where
  "get_many note_ids owner t =
     (if note_ids = [] then []
      else concat (map (\<lambda>chunk. filter (\<lambda>n. n_id n \<in> set chunk \<and> n_owner n = owner) t)
                     (batched IN_CLAUSE_CHUNK_SIZE note_ids)))"

definition in_scope :: "string \<Rightarrow> string \<Rightarrow> note_row \<Rightarrow> bool" where
  "in_scope ws owner n \<longleftrightarrow> n_workspace n = ws \<and> n_owner n = owner"

definition get_by_path :: "string \<Rightarrow> string \<Rightarrow> string \<Rightarrow> string \<Rightarrow> note_row list \<Rightarrow> note_row option" where
  "get_by_path ws owner folder title t =
     find (\<lambda>n. in_scope ws owner n \<and> n_folder n = folder \<and> n_title n = title) t"

text \<open>SQLite's \<open>s LIKE pat ESCAPE esc\<close>, and the pattern of \<open>startswith(p, autoescape=True)\<close>.\<close>

definition ascii_lower :: "char \<Rightarrow> char" where
  "ascii_lower c = (let n = code_point c in if 65 \<le> n \<and> n \<le> 90 then char_of (n + 32) else c)"

fun sqlite_like :: "char \<Rightarrow> string \<Rightarrow> string \<Rightarrow> bool" where
  "sqlite_like esc [] s = (s = [])"
| "sqlite_like esc (p # ps) s =
     (if p = esc then
        (case ps of [] \<Rightarrow> False
         | q # qs \<Rightarrow> s \<noteq> [] \<and> ascii_lower (hd s) = ascii_lower q \<and> sqlite_like esc qs (tl s))
      else if p = CHR ''%'' then (\<exists>k\<in>set [0..<Suc (length s)]. sqlite_like esc ps (drop k s))
      else if p = CHR ''_'' then s \<noteq> [] \<and> sqlite_like esc ps (tl s)
      else s \<noteq> [] \<and> ascii_lower (hd s) = ascii_lower p \<and> sqlite_like esc ps (tl s))"

definition autoescape :: "string \<Rightarrow> string" where
  "autoescape p = concat (map (\<lambda>c. if c \<in> {CHR ''/'', CHR ''%'', CHR ''_''} then [CHR ''/'', c] else [c]) p)"

definition sql_startswith :: "string \<Rightarrow> string \<Rightarrow> bool" where
  "sql_startswith col p = sqlite_like (CHR ''/'') (autoescape p @ ''%'') col"

definition folder_or_below :: "string \<Rightarrow> note_row \<Rightarrow> bool" where
  "folder_or_below folder n \<longleftrightarrow> n_folder n = folder \<or> sql_startswith (n_folder n) (folder @ ''/'')"

definition list_under_folder :: "string \<Rightarrow> string \<Rightarrow> string \<Rightarrow> note_row list \<Rightarrow> note_row list" where
  "list_under_folder ws owner folder t = filter (\<lambda>n. in_scope ws owner n \<and> folder_or_below folder n) t"

definition note_ids_under_folder :: "string \<Rightarrow> string \<Rightarrow> string \<Rightarrow> note_row list \<Rightarrow> string list" where
  "note_ids_under_folder ws owner folder t =
     remdups (map n_id (filter (\<lambda>n. in_scope ws owner n \<and> folder_or_below folder n) t))"

definition list_paths :: "string \<Rightarrow> string \<Rightarrow> note_row list \<Rightarrow> indexed_note list" where
  "list_paths ws owner t =
     map (\<lambda>n. \<lparr>in_note_id = n_id n, in_folder = n_folder n, in_title = n_title n\<rparr>) (filter (in_scope ws owner) t)"

text \<open>\<open>search_metadata\<close>. The join with \<open>note_tags\<close> comes as pairs of note and tag path.\<close>

datatype metadata_match = MFolder | MTag | MTitle

record metadata_hit =
  mh_note_id :: string
  mh_title :: string
  mh_folder :: string
  mh_updated_at :: string
  mh_matched_on :: "metadata_match list"

definition substring :: "string \<Rightarrow> string \<Rightarrow> bool" where
  "substring w s \<longleftrightarrow> find_sub w s \<noteq> None"

fun match_tokens :: "string \<Rightarrow> string \<Rightarrow> string list \<Rightarrow> string list \<Rightarrow> metadata_match list \<Rightarrow> metadata_match list" where
  "match_tokens title folder tags [] acc = acc"
| "match_tokens title folder tags (w # ws) acc =
     (let hits = (if substring w title then [MTitle] else []) @ (if substring w folder then [MFolder] else [])
             @ (if \<exists>t\<in>set tags. substring w t then [MTag] else [])
      in if hits = [] then [] else match_tokens title folder tags ws (acc @ hits))"

definition sorted_matches :: "metadata_match list \<Rightarrow> metadata_match list" where
  "sorted_matches ms = filter (\<lambda>m. m \<in> set ms) [MFolder, MTag, MTitle]"

definition metadata_hits ::
  "(string \<times> string) list \<Rightarrow> string \<Rightarrow> note_row list \<Rightarrow> (metadata_hit \<times> bool \<times> bool) list" where
  "metadata_hits tag_rows query notes =
     (let tokens = py_split_ws (py_casefold query); query_cf = py_casefold query
      in concat (map (\<lambda>n.
           let title_cf = py_casefold (n_title n);
               tags = map (\<lambda>(_, p). py_casefold p) (filter (\<lambda>(i, _). i = n_id n) tag_rows);
               matched = match_tokens title_cf (py_casefold (n_folder n)) tags tokens []
           in if matched = [] then []
              else [(\<lparr>mh_note_id = n_id n, mh_title = n_title n, mh_folder = n_folder n, mh_updated_at = n_updated_at n,
                      mh_matched_on = sorted_matches matched\<rparr>, title_cf = query_cf, prefix query_cf title_cf)]) notes))"

text \<open>\<open>list.sort(key=f, reverse=True)\<close>: stable, greatest key first.\<close>

definition sort_desc :: "('a \<Rightarrow> 'k :: linorder) \<Rightarrow> 'a list \<Rightarrow> 'a list" where
  "sort_desc f xs = rev (sort_key f (rev xs))"

text \<open>\<open>xs[:limit]\<close> and \<open>LIMIT limit\<close>.\<close>

definition py_head :: "int \<Rightarrow> 'a list \<Rightarrow> 'a list" where
  "py_head limit xs = (if limit < 0 then take (nat (int (length xs) + limit)) xs else take (nat limit) xs)"

definition sql_limit :: "int \<Rightarrow> 'a list \<Rightarrow> 'a list" where
  "sql_limit limit xs = (if limit < 0 then xs else take (nat limit) xs)"

definition search_metadata ::
  "(string \<times> string) list \<Rightarrow> string \<Rightarrow> string \<Rightarrow> string \<Rightarrow> int \<Rightarrow> note_row list \<Rightarrow> metadata_hit list" where
  "search_metadata tag_rows ws owner query limit t =
     (if py_split_ws (py_casefold query) = [] then []
      else let hits = metadata_hits tag_rows query (filter (in_scope ws owner) t);
               hits = sort_desc (\<lambda>h. mh_updated_at (fst h)) hits;
               hits = sort_desc (\<lambda>h. snd (snd h)) hits;
               hits = sort_desc (\<lambda>h. fst (snd h)) hits
           in map fst (py_head limit hits))"

text \<open>\<open>update_in_session\<close>: \<^const>\<open>None\<close> is an argument left out; the outer option of the two temporal
  arguments is the sentinel \<open>_UNSET\<close>.\<close>

record note_patch =
  np_title :: "string option"
  np_tags :: "string list option"
  np_updated_at :: string
  np_folder :: "string option"
  np_created_at :: "string option"
  np_occurred_at :: "string option option"
  np_period :: "string option option"
  np_bump :: bool

definition patch_note :: "note_patch \<Rightarrow> note_row \<Rightarrow> note_row" where
  "patch_note p n = n\<lparr>
     n_title := (case np_title p of Some t \<Rightarrow> t | None \<Rightarrow> n_title n),
     n_tags := Some (case np_tags p of Some ts \<Rightarrow> ts | None \<Rightarrow> (case n_tags n of None \<Rightarrow> [] | Some ts \<Rightarrow> ts)),
     n_updated_at := np_updated_at p,
     n_folder := (case np_folder p of Some f \<Rightarrow> f | None \<Rightarrow> n_folder n),
     n_created_at := (case np_created_at p of Some c \<Rightarrow> c | None \<Rightarrow> n_created_at n),
     n_occurred_at := (case np_occurred_at p of Some v \<Rightarrow> v | None \<Rightarrow> n_occurred_at n),
     n_period := (case np_period p of Some v \<Rightarrow> v | None \<Rightarrow> n_period n),
     n_index_generation := (if np_bump p then n_index_generation n + 1 else n_index_generation n)\<rparr>"

definition update_note :: "string \<Rightarrow> string option \<Rightarrow> note_patch \<Rightarrow> note_row list \<Rightarrow> py_error + note_row list" where
  "update_note note_id owner p t =
     (case get_note note_id owner t of
        None \<Rightarrow> Inl PyValueError
      | Some n \<Rightarrow> Inr (sql_update (\<lambda>r. n_id r = n_id n) (patch_note p) t))"

definition delete_note :: "string \<Rightarrow> string option \<Rightarrow> note_row list \<Rightarrow> nat \<times> note_row list" where
  "delete_note note_id owner t = (sql_count (owned_note note_id owner) t, sql_delete (owned_note note_id owner) t)"

datatype note_sort = SortDefault | SortTitle | SortUpdated | SortCreated

fun sort_keys :: "note_row list \<Rightarrow> py_error + ((nat \<times> nat_part list) \<times> note_row) list" where
  "sort_keys [] = Inr []"
| "sort_keys (n # ns) = (case folder_sort_key n of Inl e \<Rightarrow> Inl e
     | Inr k \<Rightarrow> (case sort_keys ns of Inl e \<Rightarrow> Inl e | Inr ks \<Rightarrow> Inr ((k, n) # ks)))"

text \<open>Python compares the parts of two keys position by position; a number never meets a text there
  (lemma \<open>sort_key_shape\<close>), so any order between the two kinds will do.\<close>

instantiation nat_part :: linorder
begin

definition less_eq_nat_part :: "nat_part \<Rightarrow> nat_part \<Rightarrow> bool" where
  "less_eq_nat_part a b \<longleftrightarrow> (case (a, b) of
      (NInt i, NInt j) \<Rightarrow> i \<le> j | (NStr s, NStr t) \<Rightarrow> s \<le> t | (NInt _, NStr _) \<Rightarrow> True | (NStr _, NInt _) \<Rightarrow> False)"

definition less_nat_part :: "nat_part \<Rightarrow> nat_part \<Rightarrow> bool" where
  "less_nat_part a b \<longleftrightarrow> a \<le> b \<and> a \<noteq> b"

instance
  by intro_classes (auto simp: less_eq_nat_part_def less_nat_part_def split: nat_part.splits)

end

definition list_notes ::
  "string \<Rightarrow> string \<Rightarrow> string list option \<Rightarrow> int option \<Rightarrow> string option \<Rightarrow> note_sort \<Rightarrow> note_row list \<Rightarrow>
     py_error + note_item list" where
  "list_notes ws owner allowed limit folder srt t =
     (if allowed = Some [] then Inr []
      else let needs_full_scan = (srt = SortTitle \<or> srt = SortDefault \<and> folder \<noteq> None);
               rows = filter (\<lambda>n. in_scope ws owner n \<and> (case folder of None \<Rightarrow> True | Some f \<Rightarrow> n_folder n = f)
                        \<and> (case allowed of None \<Rightarrow> True | Some ids \<Rightarrow> n_id n \<in> set ids)) t;
               rows = sort_desc (if srt = SortCreated then n_created_at else n_updated_at) rows
           in if needs_full_scan
              then (case sort_keys rows of Inl e \<Rightarrow> Inl e
                    | Inr ks \<Rightarrow> let rows = map snd (sort_key fst ks)
                                in Inr (map note_to_list_item (case limit of None \<Rightarrow> rows | Some l \<Rightarrow> py_head l rows)))
              else Inr (map note_to_list_item (case limit of None \<Rightarrow> rows | Some l \<Rightarrow> sql_limit l rows)))"

text \<open>\<open>entries_in\<close>: the loop over the rows collects the start of each note in the window.\<close>

definition entry_start :: "string \<Rightarrow> string \<Rightarrow> note_row \<Rightarrow> py_error + string option" where
  "entry_start start until n =
     (case n_occurred_at n of
        Some occ \<Rightarrow> Inr (if start \<le> occ \<and> occ < until then Some occ else None)
      | None \<Rightarrow> (case n_period n of
          None \<Rightarrow> Inr None
        | Some key \<Rightarrow> (case parse_period_key key of
            Inl e \<Rightarrow> Inr None
          | Inr p \<Rightarrow> (case p_start p of Inl e \<Rightarrow> Inl e | Inr d \<Rightarrow>
              (case p_next p of Inl e \<Rightarrow> Inl e | Inr q \<Rightarrow>
                (case p_start q of Inl e \<Rightarrow> Inl e | Inr d' \<Rightarrow>
                   Inr (if isoformat d < until \<and> isoformat d' > start then Some (isoformat d) else None)))))))"

fun entry_matches :: "string \<Rightarrow> string \<Rightarrow> note_row list \<Rightarrow> py_error + (string \<times> note_row) list" where
  "entry_matches start until [] = Inr []"
| "entry_matches start until (n # ns) =
     (case entry_start start until n of Inl e \<Rightarrow> Inl e
      | Inr m \<Rightarrow> (case entry_matches start until ns of Inl e \<Rightarrow> Inl e
          | Inr ms \<Rightarrow> Inr ((case m of None \<Rightarrow> [] | Some k \<Rightarrow> [(k, n)]) @ ms)))"

definition entry_rows :: "string \<Rightarrow> string \<Rightarrow> string \<Rightarrow> string \<Rightarrow> string option \<Rightarrow> note_row list \<Rightarrow> note_row list" where
  "entry_rows ws owner start until folder t =
     filter (\<lambda>n. in_scope ws owner n
        \<and> ((case n_occurred_at n of None \<Rightarrow> False | Some occ \<Rightarrow> start \<le> occ \<and> occ < until) \<or> n_period n \<noteq> None)
        \<and> (case folder of None \<Rightarrow> True | Some f \<Rightarrow> folder_or_below f n)) t"

definition entries_in ::
  "string \<Rightarrow> string \<Rightarrow> string \<Rightarrow> string \<Rightarrow> string option \<Rightarrow> note_row list \<Rightarrow> py_error + note_item list" where
  "entries_in ws owner start until folder t =
     (case entry_matches start until (entry_rows ws owner start until folder t) of
        Inl e \<Rightarrow> Inl e
      | Inr ms \<Rightarrow> Inr (map (\<lambda>(_, n). note_to_list_item n) (sort_key (\<lambda>(k, n). (k, n_created_at n)) ms)))"

definition list_folders :: "string \<Rightarrow> string \<Rightarrow> note_row list \<Rightarrow> string list" where
  "list_folders ws owner t = remdups (map n_folder (filter (\<lambda>n. in_scope ws owner n \<and> n_folder n \<noteq> []) t))"

definition workspace_stats :: "string \<Rightarrow> string list \<Rightarrow> note_row list \<Rightarrow> (string \<times> nat \<times> string) list" where
  "workspace_stats owner wss t =
     (if wss = [] then []
      else let rows = filter (\<lambda>n. n_owner n = owner \<and> n_workspace n \<in> set wss) t
           in map (\<lambda>w. let g = filter (\<lambda>n. n_workspace n = w) rows in (w, length g, Max (set (map n_updated_at g))))
                (remdups (map n_workspace rows)))"

definition delete_workspace_notes :: "string \<Rightarrow> string \<Rightarrow> note_row list \<Rightarrow> note_row list" where
  "delete_workspace_notes ws owner t = sql_delete (in_scope ws owner) t"

subsection \<open>Folders by \<open>LIKE\<close>\<close>

lemma like_all: "sqlite_like esc ''%'' s" if "esc \<noteq> CHR ''%''"
  using that by (auto intro: bexI [of _ "length s"])

lemma autoescape_Cons: "autoescape (c # p) = (if c \<in> {CHR ''/'', CHR ''%'', CHR ''_''} then [CHR ''/'', c] else [c]) @ autoescape p"
  by (simp add: autoescape_def)

lemma sql_startswith_iff: "sql_startswith s p \<longleftrightarrow> prefix (map ascii_lower p) (map ascii_lower s)"
proof (induction p arbitrary: s)
  case Nil
  show ?case using like_all [of "CHR ''/''" s] by (simp add: sql_startswith_def autoescape_def)
next
  case (Cons c p)
  have "sql_startswith s (c # p) \<longleftrightarrow> s \<noteq> [] \<and> ascii_lower (hd s) = ascii_lower c \<and> sql_startswith (tl s) p"
    by (simp add: sql_startswith_def autoescape_Cons)
  then show ?case using Cons.IH [of "tl s"] by (cases s) auto
qed

definition below_folder :: "string \<Rightarrow> string \<Rightarrow> bool" where
  "below_folder folder f \<longleftrightarrow> f = folder \<or> prefix (folder @ ''/'') f"

lemma folder_or_below_iff:
  "folder_or_below folder n \<longleftrightarrow> n_folder n = folder \<or>
     prefix (map ascii_lower (folder @ ''/'')) (map ascii_lower (n_folder n))"
  unfolding folder_or_below_def sql_startswith_iff ..

lemma below_folder_listed: "below_folder folder (n_folder n) \<Longrightarrow> folder_or_below folder n"
  by (auto simp: below_folder_def folder_or_below_iff prefix_def)

subsection \<open>ISO dates sort like days\<close>

lemma append_less_append:
  fixes u v x y :: "'a :: linorder list"
  shows "length u = length v \<Longrightarrow> u @ x < v @ y \<longleftrightarrow> u < v \<or> u = v \<and> x < y"
  by (induction u v rule: list_induct2) auto

lemma digits_int_bounds: "all_digits s \<Longrightarrow> 0 \<le> digits_int s \<and> digits_int s < 10 ^ length s"
proof (induction s rule: rev_induct)
  case Nil
  then show ?case by (simp add: digits_int_def)
next
  case (snoc c s)
  then have "all_digits s" "0 \<le> digit_val c" "digit_val c < 10"
    by (auto simp: all_digits_def py_isdigit_ascii_def digit_val_def Let_def)
  with snoc.IH show ?case by (simp add: digits_int_snoc)
qed

lemma digits_int_Cons: "digits_int (c # s) = digit_val c * 10 ^ length s + digits_int s"
  by (induction s rule: rev_induct)
    (simp add: digits_int_def, simp add: digits_int_snoc algebra_simps flip: append_Cons)

lemma digit_val_less: "digit_val c < digit_val d \<longleftrightarrow> c < d"
  by (simp add: digit_val_def less_char_def)

lemma digits_less:
  "length u = length v \<Longrightarrow> all_digits u \<Longrightarrow> all_digits v \<Longrightarrow> u < v \<longleftrightarrow> digits_int u < digits_int v"
proof (induction u v rule: list_induct2)
  case Nil
  then show ?case by simp
next
  case (Cons c u d v)
  have dg: "all_digits u" "all_digits v" using Cons.prems by (simp_all add: all_digits_def)
  have step: "a < b \<Longrightarrow> a * 10 ^ n + x < b * 10 ^ n + y"
    if "0 \<le> x" "x < 10 ^ n" "0 \<le> y" for a b x y :: int and n
  proof -
    assume "a < b"
    then have "(a + 1) * 10 ^ n \<le> b * 10 ^ n" by (intro mult_right_mono) simp_all
    then show ?thesis using that by (simp add: algebra_simps)
  qed
  note b = digits_int_bounds [OF dg(1)] digits_int_bounds [OF dg(2)]
  consider "c < d" | "c = d" | "d < c" by (metis less_linear)
  then show ?case
  proof cases
    case 1
    then show ?thesis
      using step [of "digits_int u" "length u" "digits_int v" "digit_val c" "digit_val d"] b Cons.hyps
      by (simp add: digits_int_Cons digit_val_less)
  next
    case 2
    then show ?thesis using Cons.IH [OF dg] Cons.hyps by (simp add: digits_int_Cons)
  next
    case 3
    then have "\<not> c < d" "c \<noteq> d" by simp_all
    moreover have "digits_int (d # v) < digits_int (c # u)"
      using step [of "digits_int v" "length u" "digits_int u" "digit_val d" "digit_val c"] b 3 Cons.hyps
      by (simp add: digits_int_Cons digit_val_less)
    ultimately show ?thesis by simp
  qed
qed

lemma pad_less:
  assumes "0 \<le> a" "a < 10 ^ w" "0 \<le> b" "b < 10 ^ w" "0 < w"
  shows "pad w (nat a) < pad w (nat b) \<longleftrightarrow> a < b" "pad w (nat a) = pad w (nat b) \<longleftrightarrow> a = b"
    "length (pad w (nat a)) = length (pad w (nat b))"
proof -
  have l: "nat a < 10 ^ w" "nat b < 10 ^ w" using assms by (simp_all add: nat_less_iff)
  show len: "length (pad w (nat a)) = length (pad w (nat b))"
    using l assms(5) pad_facts(4) by simp
  show "pad w (nat a) < pad w (nat b) \<longleftrightarrow> a < b"
    using digits_less [OF len pad_facts(1,1)] pad_facts(3) assms by simp
  show "pad w (nat a) = pad w (nat b) \<longleftrightarrow> a = b" using pad_facts(3) assms by (metis int_nat_eq)
qed

lemma toordinal_less_lex:
  assumes "valid_date d" "valid_date e"
    and "d_year d < d_year e \<or> d_year d = d_year e \<and> (d_month d < d_month e \<or> d_month d = d_month e \<and> d_day d < d_day e)"
  shows "toordinal d < toordinal e"
proof -
  have d: "1 \<le> d_month d" "d_month d \<le> 12" "d_day d \<le> days_in_month (d_year d) (d_month d)"
    and e: "1 \<le> d_month e" "d_month e \<le> 12" "1 \<le> d_day e"
    using assms(1,2) by (simp_all add: date_ok_def)
  consider "d_year d + 1 \<le> d_year e" | "d_year d = d_year e" "d_month d + 1 \<le> d_month e"
    | "d_year d = d_year e" "d_month d = d_month e" "d_day d < d_day e"
    using assms(3) by auto
  then show ?thesis
  proof cases
    case 1
    have "toordinal d \<le> days_before_year (d_year d + 1)" "days_before_year (d_year e) < toordinal e"
      using valid_year_range [OF assms(1)] valid_year_range [OF assms(2)] by (simp_all add: jan1)
    then show ?thesis using days_before_year_mono [OF 1] by simp
  next
    case 2
    then have "days_before_month (d_year d) (d_month d) + d_day d \<le> days_before_month (d_year d) (d_month e)"
      using days_before_month_next [of "d_month d" "d_year d"] days_before_month_mono [of "d_month d + 1" "d_month e" "d_year d"] d
      by simp
    then show ?thesis using 2 e(3) by (simp add: toordinal_def ymd_ordinal_def)
  next
    case 3
    then show ?thesis by (simp add: toordinal_def ymd_ordinal_def)
  qed
qed

lemma isoformat_less:
  assumes "valid_date d" "valid_date e"
  shows "isoformat d < isoformat e \<longleftrightarrow> toordinal d < toordinal e"
proof -
  let ?lex = "\<lambda>a b. d_year a < d_year b \<or> d_year a = d_year b \<and> (d_month a < d_month b \<or> d_month a = d_month b \<and> d_day a < d_day b)"
  have day: "d_day d < 100" "d_day e < 100"
    using assms days_in_month_pos(2) [of "d_year d" "d_month d"] days_in_month_pos(2) [of "d_year e" "d_month e"]
    by (simp_all add: date_ok_def)
  have "isoformat d < isoformat e \<longleftrightarrow> ?lex d e"
    using assms day pad_less [of "d_year d" 4 "d_year e"] pad_less [of "d_month d" 2 "d_month e"] pad_less [of "d_day d" 2 "d_day e"]
    by (simp add: isoformat_def append_less_append date_ok_def)
  also have "\<dots> \<longleftrightarrow> toordinal d < toordinal e"
  proof
    assume "toordinal d < toordinal e"
    then have "\<not> ?lex e d" "d \<noteq> e" using toordinal_less_lex [OF assms(2,1)] by auto
    moreover have "d = e" if "d_year d = d_year e" "d_month d = d_month e" "d_day d = d_day e"
      using that by (cases d; cases e) simp
    ultimately show "?lex d e" by linarith
  qed (rule toordinal_less_lex [OF assms])
  finally show ?thesis .
qed

lemma isoformat_le:
  "valid_date d \<Longrightarrow> valid_date e \<Longrightarrow> isoformat d \<le> isoformat e \<longleftrightarrow> toordinal d \<le> toordinal e"
  using isoformat_less [of e d] by (simp add: linorder_not_less [symmetric])

subsection \<open>Entries of a window\<close>

text \<open>The days of a note, as the first day and the day after the last.\<close>

definition note_span :: "note_row \<Rightarrow> (int \<times> int) option" where
  "note_span n = (case n_occurred_at n of
      Some occ \<Rightarrow> (case fromisoformat occ of Inl _ \<Rightarrow> None | Inr d \<Rightarrow> Some (toordinal d, toordinal d + 1))
    | None \<Rightarrow> (case n_period n of None \<Rightarrow> None | Some key \<Rightarrow>
        (case parse_period_key key of Inl _ \<Rightarrow> None | Inr p \<Rightarrow>
          (case p_start p of Inl _ \<Rightarrow> None | Inr d \<Rightarrow> Some (toordinal d, toordinal d + period_days (p_kind p) d)))))"

definition overlaps :: "date \<Rightarrow> date \<Rightarrow> note_row \<Rightarrow> bool" where
  "overlaps s e n \<longleftrightarrow> (case note_span n of None \<Rightarrow> False
     | Some (a, b) \<Rightarrow> {a..<b} \<inter> {toordinal s..<toordinal e} \<noteq> {})"

definition first_day :: "note_row \<Rightarrow> int" where
  "first_day n = (case note_span n of None \<Rightarrow> 0 | Some (a, _) \<Rightarrow> a)"

text \<open>The last period of its kind in the calendar: \<open>next()\<close> raises.\<close>

definition calendar_end :: "note_row \<Rightarrow> bool" where
  "calendar_end n \<longleftrightarrow> n_occurred_at n = None \<and> (case note_span n of None \<Rightarrow> False | Some (_, b) \<Rightarrow> MAXORDINAL < b)"

definition dated :: "note_row \<Rightarrow> bool" where
  "dated n \<longleftrightarrow> (\<forall>occ. n_occurred_at n = Some occ \<longrightarrow> (\<exists>d. valid_date d \<and> occ = isoformat d))"

definition in_folder_scope :: "string \<Rightarrow> string \<Rightarrow> string option \<Rightarrow> note_row \<Rightarrow> bool" where
  "in_folder_scope ws owner folder n \<longleftrightarrow> in_scope ws owner n \<and>
     (case folder of None \<Rightarrow> True | Some f \<Rightarrow> folder_or_below f n)"

lemma parse_period_key_at:
  assumes "parse_period_key key = Inr p"
  obtains kind d where "p = period_at kind d" "valid_date d" "floor_date kind d = d" "p_start p = Inr d"
proof -
  obtain kind where "mk_period kind key = Inr p"
    using assms by (auto simp: parse_period_key_def split: if_splits)
  then obtain d where "p_start p = Inr d" "valid_date d" "p_kind p = kind" "p_key p = format_key kind d" "floor_date kind d = d"
    by (rule period_start)
  then show ?thesis using that [of kind d] by (cases p) (simp add: period_at_def)
qed

lemma interval_meet:
  "a < b \<Longrightarrow> s < e \<Longrightarrow> {a..<b} \<inter> {s..<e} \<noteq> {} \<longleftrightarrow> a < e \<and> s < (b :: int)"
proof
  assume "a < b" "s < e" "a < e \<and> s < b"
  then have "max a s \<in> {a..<b} \<inter> {s..<e}" by auto
  then show "{a..<b} \<inter> {s..<e} \<noteq> {}" by blast
qed auto

lemma period_days_pos: "0 < period_days kind d"
  using days_in_month_pos(1) [of "d_year d" "d_month d"] by (cases kind) (simp_all add: period_days_def)

lemma entry_start_dated:
  assumes "valid_date s" "valid_date e" "toordinal s < toordinal e" "dated n" "n_occurred_at n = Some occ"
  shows "entry_start (isoformat s) (isoformat e) n =
     Inr (if overlaps s e n then Some (isoformat (ord_date (first_day n))) else None)"
proof -
  obtain d where d: "valid_date d" "occ = isoformat d" using assms(4,5) by (auto simp: dated_def)
  have sp: "note_span n = Some (toordinal d, toordinal d + 1)"
    using assms(5) d isoformat_roundtrip(1) [OF d(1)] by (simp add: note_span_def)
  then have "overlaps s e n \<longleftrightarrow> toordinal s \<le> toordinal d \<and> toordinal d < toordinal e"
    using assms(3) by (auto simp: overlaps_def)
  then show ?thesis
    using assms(5) d sp isoformat_less [OF d(1) assms(2)] isoformat_le [OF assms(1) d(1)] ord_date_toordinal [OF d(1)]
    by (simp add: entry_start_def first_day_def)
qed

lemma entry_start_period:
  assumes "valid_date s" "valid_date e" "toordinal s < toordinal e" "n_occurred_at n = None"
  shows "if calendar_end n then \<exists>err. entry_start (isoformat s) (isoformat e) n = Inl err
     else entry_start (isoformat s) (isoformat e) n =
       Inr (if overlaps s e n then Some (isoformat (ord_date (first_day n))) else None)"
proof (cases "\<exists>key p. n_period n = Some key \<and> parse_period_key key = Inr p")
  case False
  then have "note_span n = None" "entry_start (isoformat s) (isoformat e) n = Inr None"
    using assms(4) by (auto simp: note_span_def entry_start_def split: option.splits sum.splits)
  then show ?thesis by (simp add: calendar_end_def overlaps_def)
next
  case True
  then obtain key p where k: "n_period n = Some key" "parse_period_key key = Inr p" by blast
  from parse_period_key_at [OF k(2)] obtain kind d where
    p: "p = period_at kind d" "valid_date d" "floor_date kind d = d" "p_start p = Inr d" .
  have sp: "note_span n = Some (toordinal d, toordinal d + period_days kind d)"
    using k p assms(4) by (simp add: note_span_def period_at_def)
  show ?thesis
  proof (cases "toordinal d + period_days kind d \<le> MAXORDINAL")
    case False
    then have "MAXORDINAL < toordinal d + period_days kind d" by simp
    from next_end [OF p(2,3) this] obtain err where "p_next p = Inl err" using p(1) by blast
    then show ?thesis using k p(4) assms(4) sp False by (simp add: calendar_end_def entry_start_def)
  next
    case True
    note nx = next_start_cases [OF p(2,3) True]
    have st: "p_start (period_at kind (next_start kind d)) = Inr (next_start kind d)"
      using mk_period_format(2) [OF nx(1,3)] by (simp add: period_at_def)
    have "overlaps s e n \<longleftrightarrow> toordinal d < toordinal e \<and> toordinal s < toordinal (next_start kind d)"
      using sp nx(2) interval_meet [OF _ assms(3)] period_days_pos [of kind d] by (simp add: overlaps_def)
    then show ?thesis
      using k p(1,4) next_eq [OF p(2,3) True] st assms(4) sp True isoformat_less [OF p(2) assms(2)]
        isoformat_less [OF assms(1) nx(1)] ord_date_toordinal [OF p(2)]
      by (simp add: entry_start_def calendar_end_def first_day_def)
  qed
qed

lemma insort_key_cong_order:
  "(\<forall>y\<in>set xs. f x \<le> f y \<longleftrightarrow> g x \<le> g y) \<Longrightarrow> insort_key f x xs = insort_key g x xs"
  by (induction xs) auto

lemma sort_key_cong_order:
  "(\<forall>x\<in>set xs. \<forall>y\<in>set xs. f x \<le> f y \<longleftrightarrow> g x \<le> g y) \<Longrightarrow> sort_key f xs = sort_key g xs"
proof (induction xs)
  case (Cons x xs)
  then show ?case using insort_key_cong_order [of "sort_key g xs" f x g] by simp
qed simp

lemma insort_key_map: "insort_key f (h x) (map h xs) = map h (insort_key (\<lambda>x. f (h x)) x xs)"
  by (induction xs) auto

lemma sort_key_map: "sort_key f (map h xs) = map h (sort_key (\<lambda>x. f (h x)) xs)"
  by (induction xs) (simp_all add: insort_key_map)

lemma entry_matches_eq:
  assumes "\<forall>n\<in>set ns. entry_start a b n = Inr (if P n then Some (K n) else None)"
  shows "entry_matches a b ns = Inr (map (\<lambda>n. (K n, n)) (filter P ns))"
  using assms by (induction ns) auto

lemma entry_matches_raise:
  "(\<exists>n\<in>set ns. \<exists>err. entry_start a b n = Inl err) \<Longrightarrow> \<exists>err. entry_matches a b ns = Inl err"
proof (induction ns)
  case (Cons n ns)
  then show ?case by (cases "entry_start a b n"; cases "entry_matches a b ns") auto
qed simp

lemma entry_start_cases:
  assumes "valid_date s" "valid_date e" "toordinal s < toordinal e" "dated n"
  shows "if calendar_end n then \<exists>err. entry_start (isoformat s) (isoformat e) n = Inl err
     else entry_start (isoformat s) (isoformat e) n =
       Inr (if overlaps s e n then Some (isoformat (ord_date (first_day n))) else None)"
proof (cases "n_occurred_at n")
  case None
  then show ?thesis by (rule entry_start_period [OF assms(1-3)])
next
  case (Some occ)
  then show ?thesis using entry_start_dated [OF assms Some] by (simp add: calendar_end_def)
qed

text \<open>A note that overlaps a window passes the \<open>WHERE\<close> clause.\<close>

lemma overlaps_selected:
  assumes "valid_date s" "valid_date e" "toordinal s < toordinal e" "dated n" "overlaps s e n"
  shows "(case n_occurred_at n of None \<Rightarrow> False | Some occ \<Rightarrow> isoformat s \<le> occ \<and> occ < isoformat e) \<or> n_period n \<noteq> None"
proof (cases "n_occurred_at n")
  case None
  then show ?thesis using assms(5) by (auto simp: overlaps_def note_span_def split: option.splits)
next
  case (Some occ)
  then show ?thesis using entry_start_dated [OF assms(1-4) Some] assms(5) by (simp add: entry_start_def split: if_splits)
qed

lemma filter_entry_rows:
  assumes "valid_date s" "valid_date e" "toordinal s < toordinal e" "\<forall>n\<in>set t. dated n"
  shows "filter (overlaps s e) (entry_rows ws owner (isoformat s) (isoformat e) folder t)
       = filter (\<lambda>n. in_folder_scope ws owner folder n \<and> overlaps s e n) t"
  unfolding entry_rows_def filter_filter
proof (rule filter_cong)
  fix n
  assume "n \<in> set t"
  then show "((in_scope ws owner n \<and>
       ((case n_occurred_at n of None \<Rightarrow> False | Some occ \<Rightarrow> isoformat s \<le> occ \<and> occ < isoformat e) \<or> n_period n \<noteq> None) \<and>
       (case folder of None \<Rightarrow> True | Some f \<Rightarrow> folder_or_below f n)) \<and> overlaps s e n) =
      (in_folder_scope ws owner folder n \<and> overlaps s e n)"
    using overlaps_selected [OF assms(1-3), of n] assms(4) unfolding in_folder_scope_def by blast
qed simp

lemma overlaps_first_day:
  assumes "dated n" "overlaps s e n"
  shows "valid_date (ord_date (first_day n))"
proof (cases "n_occurred_at n")
  case None
  with assms(2) obtain key p where k: "n_period n = Some key" "parse_period_key key = Inr p"
    by (auto simp: overlaps_def note_span_def split: option.splits sum.splits)
  from parse_period_key_at [OF k(2)] obtain kind d where "valid_date d" "p_start p = Inr d" .
  then show ?thesis using None k by (simp add: first_day_def note_span_def ord_date_toordinal)
next
  case (Some occ)
  then obtain d where "valid_date d" "occ = isoformat d" using assms(1) by (auto simp: dated_def)
  then show ?thesis using Some by (simp add: first_day_def note_span_def isoformat_roundtrip ord_date_toordinal)
qed

text \<open>The entries of a window. For a window of whole days and rows whose dates are ISO dates,
  \<open>entries_in\<close> returns exactly the notes of the scope whose day, or whose period's days, meet the window,
  each once, by first day and then by creation time; a period key that does not parse is skipped. The one
  exception is a period at the end of the calendar: a single such row in the scope, wherever the window lies,
  makes the whole query raise.\<close>

theorem entries_in_exact:
  assumes "valid_date s" "valid_date e" "toordinal s < toordinal e" "\<forall>n\<in>set t. dated n"
  shows "if \<exists>n\<in>set t. in_folder_scope ws owner folder n \<and> calendar_end n
     then \<exists>err. entries_in ws owner (isoformat s) (isoformat e) folder t = Inl err
     else entries_in ws owner (isoformat s) (isoformat e) folder t =
       Inr (map note_to_list_item (sort_key (\<lambda>n. (first_day n, n_created_at n))
              (filter (\<lambda>n. in_folder_scope ws owner folder n \<and> overlaps s e n) t)))"
proof (cases "\<exists>n\<in>set t. in_folder_scope ws owner folder n \<and> calendar_end n")
  case True
  then obtain n where n: "n \<in> set t" "in_folder_scope ws owner folder n" "calendar_end n" by blast
  then have "n \<in> set (entry_rows ws owner (isoformat s) (isoformat e) folder t)"
    by (auto simp: entry_rows_def in_folder_scope_def calendar_end_def note_span_def split: option.splits)
  moreover have "\<exists>err. entry_start (isoformat s) (isoformat e) n = Inl err"
    using entry_start_cases [OF assms(1-3), of n] assms(4) n by simp
  ultimately show ?thesis
    using True entry_matches_raise [of "entry_rows ws owner (isoformat s) (isoformat e) folder t"]
    by (fastforce simp: entries_in_def)
next
  case False
  let ?rows = "entry_rows ws owner (isoformat s) (isoformat e) folder t"
  let ?hits = "filter (\<lambda>n. in_folder_scope ws owner folder n \<and> overlaps s e n) t"
  let ?K = "\<lambda>n. isoformat (ord_date (first_day n))"
  have "entry_start (isoformat s) (isoformat e) n = Inr (if overlaps s e n then Some (?K n) else None)" if "n \<in> set ?rows" for n
  proof -
    have "n \<in> set t" "in_folder_scope ws owner folder n"
      using that by (simp_all add: entry_rows_def in_folder_scope_def)
    then show ?thesis using entry_start_cases [OF assms(1-3), of n] assms(4) False by auto
  qed
  then have m: "entry_matches (isoformat s) (isoformat e) ?rows = Inr (map (\<lambda>n. (?K n, n)) ?hits)"
    using entry_matches_eq [of ?rows _ _ "overlaps s e" ?K] filter_entry_rows [OF assms] by simp
  have le: "(?K x, n_created_at x) \<le> (?K y, n_created_at y) \<longleftrightarrow> (first_day x, n_created_at x) \<le> (first_day y, n_created_at y)"
    if "x \<in> set ?hits" "y \<in> set ?hits" for x y
  proof -
    have "valid_date (ord_date (first_day x))" "valid_date (ord_date (first_day y))"
      using that assms(4) by (auto intro: overlaps_first_day)
    then have "?K x < ?K y \<longleftrightarrow> first_day x < first_day y" "?K y < ?K x \<longleftrightarrow> first_day y < first_day x"
      using isoformat_less by simp_all
    then show ?thesis by (simp add: less_eq_prod_simp order.order_iff_strict) (metis not_less_iff_gr_or_eq)
  qed
  have "sort_key (\<lambda>n. (?K n, n_created_at n)) ?hits = sort_key (\<lambda>n. (first_day n, n_created_at n)) ?hits"
    by (rule sort_key_cong_order) (use le in blast)
  then have "entries_in ws owner (isoformat s) (isoformat e) folder t =
      Inr (map note_to_list_item (sort_key (\<lambda>n. (first_day n, n_created_at n)) ?hits))"
    using m by (simp add: entries_in_def sort_key_map o_def)
  then show ?thesis using False by simp
qed

subsection \<open>Natural order of a folder\<close>

definition superscript :: "string \<Rightarrow> bool" where
  "superscript s \<longleftrightarrow> s \<noteq> [] \<and> (\<forall>c\<in>set s. code_point c \<in> {178, 179, 185})"

text \<open>The order meant: README first, then runs of digits by value and texts without case.\<close>

definition natural_key :: "note_row \<Rightarrow> nat \<times> nat_part list" where
  "natural_key n = (if map py_lower (py_strip (n_title n)) = ''readme'' then 0 else 1,
     map (\<lambda>p. if p \<noteq> [] \<and> all_digits p then NInt (digits_int p) else NStr (map py_lower p)) (num_split (n_title n)))"

lemma superscript_code: "code_point c \<in> {178, 179, 185} \<Longrightarrow>
    \<not> py_isspace c \<and> \<not> py_isdigit_ascii c \<and> c \<noteq> CHR ''-'' \<and> c \<noteq> CHR ''+'' \<and> c \<noteq> CHR ''_''"
  by (auto simp: py_isspace_def py_isdigit_ascii_def Let_def)

lemma py_int_superscript:
  assumes "superscript s"
  shows "py_int s = None"
proof -
  obtain c cs where s: "s = c # cs" using assms by (cases s) (auto simp: superscript_def)
  have c: "\<not> py_isspace d \<and> \<not> py_isdigit_ascii d \<and> d \<noteq> CHR ''-'' \<and> d \<noteq> CHR ''+'' \<and> d \<noteq> CHR ''_''" if "d \<in> set s" for d
    using that assms superscript_code unfolding superscript_def by blast
  have "py_strip s = s" using c s by (intro strip_by_id) (metis hd_in_set last_in_set)
  then show ?thesis using c [of c] s by (simp add: py_int_def)
qed

lemma num_split_cases:
  fixes s defines "rest \<equiv> dropWhile (\<lambda>c. \<not> py_isdigit_ascii c) s"
  shows "rest = [] \<Longrightarrow> num_split s = [takeWhile (\<lambda>c. \<not> py_isdigit_ascii c) s]"
    "rest \<noteq> [] \<Longrightarrow> num_split s = takeWhile (\<lambda>c. \<not> py_isdigit_ascii c) s #
        takeWhile py_isdigit_ascii rest # num_split (dropWhile py_isdigit_ascii rest)"
  unfolding rest_def by (simp_all only: num_split.simps [of s] Let_def if_True if_False simp_thms)

lemma num_split_parts:
  "part \<in> set (num_split s) \<Longrightarrow> (\<forall>c\<in>set part. \<not> py_isdigit_ascii c) \<or> part \<noteq> [] \<and> all_digits part"
proof (induction s rule: num_split.induct)
  case (1 s)
  let ?rest = "dropWhile (\<lambda>c. \<not> py_isdigit_ascii c) s"
  have plain: "\<forall>c\<in>set (takeWhile (\<lambda>c. \<not> py_isdigit_ascii c) s). \<not> py_isdigit_ascii c"
    by (auto dest: set_takeWhileD)
  have dig: "takeWhile py_isdigit_ascii ?rest \<noteq> [] \<and> all_digits (takeWhile py_isdigit_ascii ?rest)" if "?rest \<noteq> []"
    using hd_dropWhile [OF that] that by (cases ?rest) (auto simp: all_digits_def dest: set_takeWhileD)
  show ?case
  proof (cases "?rest = []")
    case True
    then show ?thesis using 1(2) plain num_split_cases(1) [of s] by simp
  next
    case False
    have "part = takeWhile (\<lambda>c. \<not> py_isdigit_ascii c) s \<or> part = takeWhile py_isdigit_ascii ?rest
        \<or> part \<in> set (num_split (dropWhile py_isdigit_ascii ?rest))"
      using 1(2) num_split_cases(2) [OF False] by simp
    then show ?thesis using plain dig [OF False] 1(1) [OF refl refl False] by metis
  qed
qed

lemma natural_part_eq:
  assumes "part \<in> set (num_split s)"
  shows "natural_part part = (if superscript part then Inl PyValueError
     else Inr (if part \<noteq> [] \<and> all_digits part then NInt (digits_int part) else NStr (map py_lower part)))"
proof -
  consider (plain) "\<forall>c\<in>set part. \<not> py_isdigit_ascii c" | (dig) "part \<noteq> []" "all_digits part"
    using num_split_parts [OF assms] by blast
  then show ?thesis
  proof cases
    case plain
    have "(part \<noteq> [] \<and> (\<forall>c\<in>set part. py_isdigit c)) \<longleftrightarrow> superscript part"
      using plain by (auto simp: superscript_def py_isdigit_def)
    moreover have "\<not> (part \<noteq> [] \<and> all_digits part)" using plain by (cases part) (auto simp: all_digits_def)
    ultimately show ?thesis by (auto simp: natural_part_def py_int_superscript)
  next
    case dig
    then have "\<not> superscript part" using superscript_code by (cases part) (auto simp: superscript_def all_digits_def)
    moreover have "\<forall>c\<in>set part. py_isdigit c" using dig(2) by (auto simp: all_digits_def py_isdigit_def)
    ultimately show ?thesis using dig py_int_digits [OF dig(2,1)] by (simp add: natural_part_def)
  qed
qed

lemma natural_parts_eq:
  assumes "set ps \<subseteq> set (num_split s)"
  shows "natural_parts ps = (if \<exists>p\<in>set ps. superscript p then Inl PyValueError
     else Inr (map (\<lambda>p. if p \<noteq> [] \<and> all_digits p then NInt (digits_int p) else NStr (map py_lower p)) ps))"
  using assms
proof (induction ps)
  case (Cons p ps)
  then show ?case using natural_part_eq [of p s] by auto
qed simp

lemma folder_sort_key_eq:
  "folder_sort_key n = (if \<exists>p\<in>set (num_split (n_title n)). superscript p then Inl PyValueError else Inr (natural_key n))"
  using natural_parts_eq [of "num_split (n_title n)" "n_title n"] by (simp add: folder_sort_key_def natural_key_def)

text \<open>Keys are comparable: texts at even positions, numbers at odd ones.\<close>

lemma sort_key_shape:
  "i < length (num_split s) \<Longrightarrow> (num_split s ! i \<noteq> [] \<and> all_digits (num_split s ! i)) = odd i"
proof (induction s arbitrary: i rule: num_split.induct)
  case (1 s)
  let ?txt = "takeWhile (\<lambda>c. \<not> py_isdigit_ascii c) s" and ?rest = "dropWhile (\<lambda>c. \<not> py_isdigit_ascii c) s"
  have plain: "\<not> (?txt \<noteq> [] \<and> all_digits ?txt)"
    using set_takeWhileD [of "hd ?txt" "\<lambda>c. \<not> py_isdigit_ascii c" s] by (cases "?txt = []") (auto simp: all_digits_def)
  have dig: "takeWhile py_isdigit_ascii ?rest \<noteq> [] \<and> all_digits (takeWhile py_isdigit_ascii ?rest)" if "?rest \<noteq> []"
    using hd_dropWhile [OF that] that by (cases ?rest) (auto simp: all_digits_def dest: set_takeWhileD)
  consider (A) "i = 0" | (B) "i = 1" | (C) j where "i = Suc (Suc j)" by (metis One_nat_def not0_implies_Suc)
  then show ?case
  proof cases
    case A
    then show ?thesis using plain by (simp add: num_split.simps [of s] Let_def)
  next
    case B
    then have ne: "?rest \<noteq> []" using "1.prems" num_split_cases(1) [of s] by (cases "?rest = []") simp_all
    show ?thesis using B dig [OF ne] num_split_cases(2) [OF ne] by simp
  next
    case (C j)
    then have ne: "?rest \<noteq> []" using "1.prems" num_split_cases(1) [of s] by (cases "?rest = []") simp_all
    show ?thesis using "1.IH" [OF refl refl ne, of j] "1.prems" C num_split_cases(2) [OF ne] by simp
  qed
qed

lemma sort_keys_eq:
  "sort_keys ns = (if \<exists>n\<in>set ns. \<exists>p\<in>set (num_split (n_title n)). superscript p then Inl PyValueError
     else Inr (map (\<lambda>n. (natural_key n, n)) ns))"
  by (induction ns) (auto simp: folder_sort_key_eq)

lemma set_sort_desc [simp]: "set (sort_desc f xs) = set xs"
  by (simp add: sort_desc_def)

definition listed :: "string \<Rightarrow> string \<Rightarrow> string list option \<Rightarrow> string option \<Rightarrow> note_row \<Rightarrow> bool" where
  "listed ws owner allowed folder n \<longleftrightarrow> in_scope ws owner n \<and> (case folder of None \<Rightarrow> True | Some f \<Rightarrow> n_folder n = f)
     \<and> (case allowed of None \<Rightarrow> True | Some ids \<Rightarrow> n_id n \<in> set ids)"

text \<open>Listing a folder. In the natural order, which a folder listing uses by default, the notes come
  README first and then by the numbers and texts of their titles, the more recently updated first among
  equals. The listing fails for the whole folder when one title has a run of superscript digits that
  stands alone or next to a number, as in \<open>m 5\<close> with a superscript two.\<close>

theorem list_notes_natural:
  assumes "allowed \<noteq> Some []" and "srt = SortTitle \<or> srt = SortDefault \<and> folder \<noteq> None"
  shows "list_notes ws owner allowed limit folder srt t =
     (if \<exists>n\<in>set t. listed ws owner allowed folder n \<and> (\<exists>p\<in>set (num_split (n_title n)). superscript p)
      then Inl PyValueError
      else Inr (map note_to_list_item ((case limit of None \<Rightarrow> id | Some l \<Rightarrow> py_head l)
             (sort_key natural_key (sort_desc n_updated_at (filter (listed ws owner allowed folder) t))))))"
proof -
  let ?rows = "sort_desc n_updated_at (filter (listed ws owner allowed folder) t)"
  have srt: "srt \<noteq> SortCreated" using assms(2) by auto
  have rows: "filter (\<lambda>n. in_scope ws owner n \<and> (case folder of None \<Rightarrow> True | Some f \<Rightarrow> n_folder n = f)
      \<and> (case allowed of None \<Rightarrow> True | Some ids \<Rightarrow> n_id n \<in> set ids)) t = filter (listed ws owner allowed folder) t"
    by (rule filter_cong) (simp_all add: listed_def)
  have "list_notes ws owner allowed limit folder srt t = (case sort_keys ?rows of Inl e \<Rightarrow> Inl e
      | Inr ks \<Rightarrow> Inr (map note_to_list_item (case limit of None \<Rightarrow> map snd (sort_key fst ks) | Some l \<Rightarrow> py_head l (map snd (sort_key fst ks)))))"
    using assms srt unfolding list_notes_def rows by (auto simp: Let_def split: sum.split)
  then show ?thesis
    by (cases "\<exists>n\<in>set ?rows. \<exists>p\<in>set (num_split (n_title n)). superscript p"; cases limit)
      (auto simp: sort_keys_eq sort_key_map o_def)
qed

subsection \<open>Search in titles, folders and tags\<close>

text \<open>Where a word occurs in a note: as the source's three tests, without case.\<close>

fun matches_in :: "(string \<times> string) list \<Rightarrow> note_row \<Rightarrow> metadata_match \<Rightarrow> string \<Rightarrow> bool" where
  "matches_in tag_rows n MTitle w = substring w (py_casefold (n_title n))"
| "matches_in tag_rows n MFolder w = substring w (py_casefold (n_folder n))"
| "matches_in tag_rows n MTag w = (\<exists>p. (n_id n, p) \<in> set tag_rows \<and> substring w (py_casefold p))"

definition finds :: "(string \<times> string) list \<Rightarrow> string \<Rightarrow> note_row \<Rightarrow> bool" where
  "finds tag_rows query n \<longleftrightarrow> (\<forall>w\<in>set (py_split_ws (py_casefold query)). \<exists>m. matches_in tag_rows n m w)"

definition hit_for :: "(string \<times> string) list \<Rightarrow> string \<Rightarrow> note_row \<Rightarrow> metadata_hit" where
  "hit_for tag_rows query n = \<lparr>mh_note_id = n_id n, mh_title = n_title n, mh_folder = n_folder n,
     mh_updated_at = n_updated_at n, mh_matched_on =
       filter (\<lambda>m. \<exists>w\<in>set (py_split_ws (py_casefold query)). matches_in tag_rows n m w) [MFolder, MTag, MTitle]\<rparr>"

definition metadata_rank :: "string \<Rightarrow> note_row \<Rightarrow> bool \<times> bool \<times> string" where
  "metadata_rank query n = (py_casefold (n_title n) = py_casefold query,
     prefix (py_casefold query) (py_casefold (n_title n)), n_updated_at n)"

definition token_hits :: "string \<Rightarrow> string \<Rightarrow> string list \<Rightarrow> string \<Rightarrow> metadata_match list" where
  "token_hits title folder tags w = (if substring w title then [MTitle] else []) @ (if substring w folder then [MFolder] else [])
     @ (if \<exists>t\<in>set tags. substring w t then [MTag] else [])"

lemma match_tokens_Cons: "match_tokens title folder tags (w # ws) acc =
    (if token_hits title folder tags w = [] then [] else match_tokens title folder tags ws (acc @ token_hits title folder tags w))"
  by (simp add: Let_def token_hits_def)

lemma match_tokens_eq:
  "match_tokens title folder tags ws acc =
     (if \<exists>w\<in>set ws. token_hits title folder tags w = [] then [] else acc @ concat (map (token_hits title folder tags) ws))"
  by (induction ws arbitrary: acc) (auto simp: match_tokens_Cons simp del: match_tokens.simps(2))

abbreviation cf_tags :: "(string \<times> string) list \<Rightarrow> note_row \<Rightarrow> string list" where
  "cf_tags tag_rows n \<equiv> map (\<lambda>(_, p). py_casefold p) (filter (\<lambda>(i, _). i = n_id n) tag_rows)"

lemma set_token_hits:
  "set (token_hits (py_casefold (n_title n)) (py_casefold (n_folder n)) (cf_tags tag_rows n) w) = {m. matches_in tag_rows n m w}"
proof -
  have tag: "(\<exists>t\<in>set (cf_tags tag_rows n). substring w t) \<longleftrightarrow> matches_in tag_rows n MTag w"
    by force
  have "m \<in> set (token_hits (py_casefold (n_title n)) (py_casefold (n_folder n)) (cf_tags tag_rows n) w) \<longleftrightarrow> matches_in tag_rows n m w" for m
    unfolding token_hits_def tag by (cases m) (auto simp del: matches_in.simps(3))
  then show ?thesis by blast
qed

lemma metadata_hits_eq:
  assumes "py_split_ws (py_casefold query) \<noteq> []"
  shows "metadata_hits tag_rows query ns =
     map (\<lambda>n. (hit_for tag_rows query n, fst (metadata_rank query n), fst (snd (metadata_rank query n)))) (filter (finds tag_rows query) ns)"
proof (induction ns)
  case Nil
  then show ?case by (simp add: metadata_hits_def)
next
  case (Cons n ns)
  let ?ws = "py_split_ws (py_casefold query)"
  let ?th = "token_hits (py_casefold (n_title n)) (py_casefold (n_folder n)) (cf_tags tag_rows n)"
  let ?m = "match_tokens (py_casefold (n_title n)) (py_casefold (n_folder n)) (cf_tags tag_rows n) ?ws []"
  have th: "?th w = [] \<longleftrightarrow> (\<nexists>m. matches_in tag_rows n m w)" for w
    using set_token_hits [of n tag_rows w] by (metis (mono_tags) empty_Collect_eq set_empty)
  have m: "?m = (if finds tag_rows query n then concat (map ?th ?ws) else [])"
    unfolding match_tokens_eq th finds_def by auto
  have ne: "concat (map ?th ?ws) \<noteq> []" if "finds tag_rows query n"
    using that assms th by (cases ?ws) (auto simp: finds_def)
  have hit: "\<lparr>mh_note_id = n_id n, mh_title = n_title n, mh_folder = n_folder n, mh_updated_at = n_updated_at n,
      mh_matched_on = sorted_matches (concat (map ?th ?ws))\<rparr> = hit_for tag_rows query n"
    unfolding sorted_matches_def hit_for_def set_concat by (simp add: set_token_hits del: filter.simps)
  have "metadata_hits tag_rows query (n # ns) = (if ?m = [] then []
      else [(\<lparr>mh_note_id = n_id n, mh_title = n_title n, mh_folder = n_folder n, mh_updated_at = n_updated_at n,
               mh_matched_on = sorted_matches ?m\<rparr>, fst (metadata_rank query n), fst (snd (metadata_rank query n)))])
      @ metadata_hits tag_rows query ns"
    by (simp add: metadata_hits_def Let_def metadata_rank_def)
  then show ?case
    using Cons.IH m ne hit by (cases "finds tag_rows query n") simp_all
qed

lemma sort_key_lex: "sort_key f (sort_key g xs) = sort_key (\<lambda>x. (f x, g x)) xs"
proof (rule properties_for_sort_key)
  show "mset (sort_key (\<lambda>x. (f x, g x)) xs) = mset (sort_key g xs)" by simp
  show "filter (\<lambda>x. f k = f x) (sort_key (\<lambda>x. (f x, g x)) xs) = filter (\<lambda>x. f k = f x) (sort_key g xs)"
    if "k \<in> set (sort_key (\<lambda>x. (f x, g x)) xs)" for k
    by (simp add: filter_sort) (rule sort_key_cong_order, auto)
  show "sorted (map f (sort_key (\<lambda>x. (f x, g x)) xs))"
  proof -
    have "sorted (map (\<lambda>x. (f x, g x)) (sort_key (\<lambda>x. (f x, g x)) xs))" by simp
    then show ?thesis unfolding sorted_map by (rule sorted_wrt_mono_rel [rotated]) auto
  qed
qed

lemma sort_desc_lex: "sort_desc f (sort_desc g xs) = sort_desc (\<lambda>x. (f x, g x)) xs"
  by (simp add: sort_desc_def sort_key_lex)

lemma sort_desc_lex3: "sort_desc f (sort_desc g (sort_desc h xs)) = sort_desc (\<lambda>x. (f x, g x, h x)) xs"
  by (simp only: sort_desc_lex [of g h] sort_desc_lex [of f "\<lambda>x. (g x, h x)"])

lemma sort_desc_map: "sort_desc f (map h xs) = map h (sort_desc (\<lambda>x. f (h x)) xs)"
  by (simp add: sort_desc_def sort_key_map rev_map)

lemma map_py_head: "map f (py_head l xs) = py_head l (map f xs)"
  by (simp add: py_head_def take_map)

text \<open>Search in metadata. A query of at least one word returns the notes of the scope in which every
  word occurs, without case, in the title, the folder or some tag, each with the places where a word
  occurred; first the note whose title is the query, then those whose title begins with it, the more
  recently updated first, cut to the limit.\<close>

theorem search_metadata_exact:
  "search_metadata tag_rows ws owner query limit t =
     (if py_split_ws (py_casefold query) = [] then []
      else map (hit_for tag_rows query) (py_head limit
             (sort_desc (metadata_rank query) (filter (\<lambda>n. in_scope ws owner n \<and> finds tag_rows query n) t))))"
proof (cases "py_split_ws (py_casefold query) = []")
  case False
  let ?ns = "filter (finds tag_rows query) (filter (in_scope ws owner) t)"
  have "search_metadata tag_rows ws owner query limit t = map (hit_for tag_rows query) (py_head limit
      (sort_desc (\<lambda>n. (fst (metadata_rank query n), fst (snd (metadata_rank query n)), n_updated_at n)) ?ns))"
    using False
    unfolding search_metadata_def metadata_hits_eq [OF False] sort_desc_lex3 sort_desc_map Let_def map_py_head [symmetric]
    by (simp add: o_def) (simp add: hit_for_def del: filter.simps)
  moreover have "(\<lambda>n. (fst (metadata_rank query n), fst (snd (metadata_rank query n)), n_updated_at n)) = metadata_rank query"
    by (simp add: metadata_rank_def fun_eq_iff)
  ultimately show ?thesis using False by simp
qed (simp add: search_metadata_def)

subsection \<open>The notes of a subtree\<close>

definition case_variant :: "string \<Rightarrow> string \<Rightarrow> bool" where
  "case_variant a b \<longleftrightarrow> map ascii_lower a = map ascii_lower b"

lemma ascii_lower_slash: "ascii_lower c = CHR ''/'' \<longleftrightarrow> c = CHR ''/''"
proof -
  have "code_point (ascii_lower c) = (if 65 \<le> code_point c \<and> code_point c \<le> 90 then code_point c + 32 else code_point c)"
    by (simp add: ascii_lower_def Let_def)
  then have "code_point (ascii_lower c) = code_point CHR ''/'' \<longleftrightarrow> code_point c = code_point CHR ''/''" by simp
  then show ?thesis by (metis char_of_char)
qed

lemma variant_prefix_iff:
  "prefix (map ascii_lower (folder @ ''/'')) (map ascii_lower f) \<longleftrightarrow>
     (\<exists>g rest. case_variant g folder \<and> f = g @ ''/'' @ rest)" (is "?l \<longleftrightarrow> ?r")
proof
  assume ?l
  then obtain r where "map ascii_lower f = map ascii_lower folder @ [ascii_lower CHR ''/''] @ r"
    by (auto simp: prefix_def)
  then obtain g h where f: "f = g @ h" "map ascii_lower g = map ascii_lower folder" "map ascii_lower h = ascii_lower CHR ''/'' # r"
    by (auto simp: map_eq_append_conv)
  then obtain c rest where "h = c # rest" "ascii_lower c = CHR ''/''"
    using ascii_lower_slash [of "CHR ''/''"] by (cases h) auto
  then show ?r using f by (auto simp: case_variant_def ascii_lower_slash)
next
  assume ?r
  then obtain g rest where g: "case_variant g folder" "f = g @ ''/'' @ rest" by blast
  then show ?l by (auto simp: case_variant_def prefix_def)
qed

text \<open>The notes of a subtree. \<open>list_under_folder\<close> returns the notes of the folder and of everything
  below any folder that equals it up to the case of ASCII letters. So it never misses a note of the subtree,
  and returns only those exactly when no other tree of the scope differs from it in case alone.\<close>

theorem list_under_folder_exact:
  "set (list_under_folder ws owner folder t) = {n \<in> set t. in_scope ws owner n \<and>
       (n_folder n = folder \<or> (\<exists>g rest. case_variant g folder \<and> n_folder n = g @ ''/'' @ rest))} \<and>
   {n \<in> set t. in_scope ws owner n \<and> below_folder folder (n_folder n)} \<subseteq> set (list_under_folder ws owner folder t) \<and>
   (set (list_under_folder ws owner folder t) = {n \<in> set t. in_scope ws owner n \<and> below_folder folder (n_folder n)} \<longleftrightarrow>
      (\<nexists>n g rest. n \<in> set t \<and> in_scope ws owner n \<and> case_variant g folder \<and> g \<noteq> folder \<and> n_folder n = g @ ''/'' @ rest))"
proof (intro conjI)
  let ?L = "set (list_under_folder ws owner folder t)"
  let ?B = "{n \<in> set t. in_scope ws owner n \<and> below_folder folder (n_folder n)}"
  show eq: "?L = {n \<in> set t. in_scope ws owner n \<and>
       (n_folder n = folder \<or> (\<exists>g rest. case_variant g folder \<and> n_folder n = g @ ''/'' @ rest))}"
    unfolding list_under_folder_def folder_or_below_iff variant_prefix_iff by auto
  show sub: "?B \<subseteq> ?L"
    by (auto simp: list_under_folder_def intro: below_folder_listed)
  have other: "below_folder folder (g @ ''/'' @ rest) \<longleftrightarrow> g = folder" if "case_variant g folder" for g rest
  proof -
    have "length g = length folder" using that by (metis case_variant_def length_map)
    then show ?thesis by (auto simp: below_folder_def prefix_def)
  qed
  have "?L - ?B = {n \<in> set t. in_scope ws owner n \<and> (\<exists>g rest. case_variant g folder \<and> g \<noteq> folder \<and> n_folder n = g @ ''/'' @ rest)}"
  proof (intro set_eqI iffI)
    fix n
    assume n: "n \<in> ?L - ?B"
    then have "n_folder n \<noteq> folder" by (auto simp: eq below_folder_def)
    with n obtain g rest where "case_variant g folder" "n_folder n = g @ ''/'' @ rest" by (auto simp: eq)
    with n show "n \<in> {n \<in> set t. in_scope ws owner n \<and> (\<exists>g rest. case_variant g folder \<and> g \<noteq> folder \<and> n_folder n = g @ ''/'' @ rest)}"
      using other unfolding eq by fastforce
  next
    fix n
    assume "n \<in> {n \<in> set t. in_scope ws owner n \<and> (\<exists>g rest. case_variant g folder \<and> g \<noteq> folder \<and> n_folder n = g @ ''/'' @ rest)}"
    then show "n \<in> ?L - ?B" using other unfolding eq by fastforce
  qed
  then show "?L = ?B \<longleftrightarrow>
      (\<nexists>n g rest. n \<in> set t \<and> in_scope ws owner n \<and> case_variant g folder \<and> g \<noteq> folder \<and> n_folder n = g @ ''/'' @ rest)"
    using sub by blast
qed

subsection \<open>Witnesses\<close>

definition ex_row :: "string \<Rightarrow> string \<Rightarrow> string option \<Rightarrow> string option \<Rightarrow> note_row" where
  "ex_row i title occ per = \<lparr>n_id = i, n_workspace = ''w'', n_owner = ''u'', n_title = title, n_folder = [], n_tags = None,
     n_created_at = ''t0'', n_updated_at = ''t0'', n_occurred_at = occ, n_period = per, n_index_generation = 1,
     n_index_state = ''stale'', n_indexed_at = None\<rparr>"

definition ex_until :: date where
  "ex_until = \<lparr>d_year = 2027, d_month = 1, d_day = 3\<rparr>"

definition ex_day :: date where
  "ex_day = \<lparr>d_year = 2026, d_month = 12, d_day = 31\<rparr>"

definition ex_rows :: "note_row list" where
  "ex_rows = [ex_row ''a'' ''x'' (Some ''2026-12-31'') None, ex_row ''b'' ''y'' None (Some ''2026-W53''), ex_row ''c'' ''z'' None (Some ''no key'')]"

lemma ex_iso: "isoformat ex_monday = ''2026-12-28''" "isoformat ex_until = ''2027-01-03''" "isoformat ex_day = ''2026-12-31''"
  "valid_date ex_day" "toordinal ex_monday < toordinal ex_until"
  by (simp add: isoformat_def ex_monday_def pad_def dec.simps digit_char_def, code_simp)
    (simp add: isoformat_def ex_until_def pad_def dec.simps digit_char_def, code_simp,
     simp add: isoformat_def ex_day_def pad_def dec.simps digit_char_def, code_simp,
     simp add: ex_day_def date_ok_def days_in_month_def,
     simp add: toordinal_def ymd_ordinal_def ex_monday_def ex_until_def days_before_year_def days_before_month_13, code_simp)

lemma ex_spans:
  "note_span (ex_row ''a'' ''x'' (Some ''2026-12-31'') None) = Some (739981, 739982)"
  "note_span (ex_row ''b'' ''y'' None (Some ''2026-W53'')) = Some (739978, 739985)"
  "note_span (ex_row ''c'' ''z'' None (Some ''no key'')) = None"
proof -
  have "fromisoformat ''2026-12-31'' = Inr ex_day" using isoformat_roundtrip(1) [OF ex_iso(4)] ex_iso(3) by simp
  moreover have "toordinal ex_day = 739981" by code_simp
  ultimately show "note_span (ex_row ''a'' ''x'' (Some ''2026-12-31'') None) = Some (739981, 739982)"
    by (simp add: note_span_def ex_row_def)
  have "parse_period_key ''2026-W53'' = Inr ex_week" using ex_week_ok by (simp add: parse_period_key_def)
  moreover have "toordinal ex_monday = 739978" by code_simp
  ultimately show "note_span (ex_row ''b'' ''y'' None (Some ''2026-W53'')) = Some (739978, 739985)"
    using ex_week_start by (simp add: note_span_def ex_row_def) (simp add: ex_week_def period_days_def)
  show "note_span (ex_row ''c'' ''z'' None (Some ''no key'')) = None"
    by (simp add: note_span_def ex_row_def parse_period_key_def)
qed

lemma ex_dated: "\<forall>n\<in>set ex_rows. dated n"
proof -
  have "\<exists>d. valid_date d \<and> ''2026-12-31'' = isoformat d" using ex_iso(3,4) by metis
  then show ?thesis by (simp add: ex_rows_def ex_row_def dated_def)
qed

theorem entries_in_exact_witness:
  "entries_in ''w'' ''u'' ''2026-12-28'' ''2027-01-03'' None ex_rows =
     Inr (map note_to_list_item [ex_row ''b'' ''y'' None (Some ''2026-W53''), ex_row ''a'' ''x'' (Some ''2026-12-31'') None])"
proof -
  have v: "valid_date ex_until" using ex_valid(2) by (simp add: ex_until_def)
  have tord: "toordinal ex_monday = 739978" "toordinal ex_until = 739984" by code_simp+
  have ov: "overlaps ex_monday ex_until (ex_row ''a'' ''x'' (Some ''2026-12-31'') None)"
    "overlaps ex_monday ex_until (ex_row ''b'' ''y'' None (Some ''2026-W53''))"
    "\<not> overlaps ex_monday ex_until (ex_row ''c'' ''z'' None (Some ''no key''))"
    by (simp_all add: overlaps_def ex_spans tord interval_meet)
  have "\<not> (\<exists>n\<in>set ex_rows. in_folder_scope ''w'' ''u'' None n \<and> calendar_end n)"
    by (simp add: ex_rows_def calendar_end_def ex_spans MAXORDINAL_def)
  moreover have "in_folder_scope ''w'' ''u'' None (ex_row i x oc p)" for i x oc p
    by (simp add: in_folder_scope_def in_scope_def ex_row_def)
  ultimately show ?thesis
    using entries_in_exact [OF ex_valid(1) v ex_iso(5) ex_dated, of "''w''" "''u''" None] ov
    by (simp add: ex_iso ex_rows_def first_day_def ex_spans)
qed

theorem list_notes_natural_witness:
  "list_notes ''w'' ''u'' None None (Some []) SortDefault [ex_row ''a'' ''10'' None None, ex_row ''b'' ''9'' None None, ex_row ''c'' ''ReadMe'' None None]
     = Inr (map note_to_list_item [ex_row ''c'' ''ReadMe'' None None, ex_row ''b'' ''9'' None None, ex_row ''a'' ''10'' None None])
   \<and> list_notes ''w'' ''u'' None None (Some []) SortDefault [ex_row ''a'' (''5'' @ [char_of (178 :: nat)]) None None] = Inl PyValueError"
proof -
  let ?a = "ex_row ''a'' ''10'' None None" and ?b = "ex_row ''b'' ''9'' None None" and ?c = "ex_row ''c'' ''ReadMe'' None None"
    and ?d = "ex_row ''a'' (''5'' @ [char_of (178 :: nat)]) None None"
  have 1: "\<not> (\<exists>n\<in>set [?a, ?b, ?c]. listed ''w'' ''u'' None (Some []) n \<and> (\<exists>p\<in>set (num_split (n_title n)). superscript p))" by code_simp
  have 2: "sort_key natural_key (sort_desc n_updated_at (filter (listed ''w'' ''u'' None (Some [])) [?a, ?b, ?c])) = [?c, ?b, ?a]"
  proof -
    have k: "natural_key ?a = (1, [NStr [], NInt 10, NStr []])" "natural_key ?b = (1, [NStr [], NInt 9, NStr []])"
      "natural_key ?c = (0, [NStr ''readme''])"
      by code_simp+
    show ?thesis
      by (simp add: sort_desc_def listed_def in_scope_def k) (simp add: ex_row_def less_eq_nat_part_def less_nat_part_def)
  qed
  have 3: "\<exists>n\<in>set [?d]. listed ''w'' ''u'' None (Some []) n \<and> (\<exists>p\<in>set (num_split (n_title n)). superscript p)" by code_simp
  show ?thesis
    using list_notes_natural [of None SortDefault "Some []" "''w''" "''u''" None "[?a, ?b, ?c]"]
      list_notes_natural [of None SortDefault "Some []" "''w''" "''u''" None "[?d]"] 1 2 3
    by (simp del: set_simps filter.simps)
qed

end
