(* ===== verification/Tag_Store.thy ===== *)
theory Tag_Store
  imports Tags Note_Rows
begin

section \<open>The rows of tags\<close>

text \<open>
  Models \<open>repositories/notes/tags.py\<close> (class \<open>NoteTagRepository\<close>) over \<open>models.Tag\<close> and \<open>models.NoteTag\<close>: the
  tree of tag rows of a workspace, the links from notes to the tags they carry, the sweep of orphaned tags,
  and the reads. The \<open>k\<close>-th identifier \<open>nanoid\<close> generates is \<open>gen k\<close>; primary and foreign keys are checked
  and their violation raises. \<open>GLOB\<close> is SQLite's. Operations that commit are the same functions; log lines
  are not modelled.
\<close>

subsection \<open>Definitions\<close>

record tag_row =
  t_id :: string
  t_workspace :: string
  t_owner :: string
  t_path :: string
  t_name :: string
  t_parent :: "string option"
  t_created_at :: string

record note_tag_row =
  nt_note :: string
  nt_tag :: string
  nt_source :: string

record tag_db =
  td_tags :: "tag_row list"
  td_links :: "note_tag_row list"
  td_notes :: "note_row list"

definition tag_in :: "string \<Rightarrow> string \<Rightarrow> tag_row \<Rightarrow> bool" where
  "tag_in ws owner r \<longleftrightarrow> t_workspace r = ws \<and> t_owner r = owner"

definition tag_at :: "string \<Rightarrow> string \<Rightarrow> string \<Rightarrow> tag_row list \<Rightarrow> tag_row option" where
  "tag_at ws owner path tags = find (\<lambda>r. tag_in ws owner r \<and> t_path r = path) tags"

text \<open>\<open>path.rsplit("/", 1)[-1]\<close>.\<close>

definition last_name :: "string \<Rightarrow> string" where
  "last_name path = snd (rpartition (CHR ''/'') path)"

definition new_tag :: "string \<Rightarrow> string \<Rightarrow> string \<Rightarrow> string \<Rightarrow> string \<Rightarrow> string option \<Rightarrow> tag_row" where
  "new_tag tid ws owner now path parent = \<lparr>t_id = tid, t_workspace = ws, t_owner = owner, t_path = path,
     t_name = last_name path, t_parent = parent, t_created_at = now\<rparr>"

text \<open>\<open>_ensure_tag\<close>: the loop over the ancestors of a path, with the parent and the identifier found last.\<close>

fun ensure_chain ::
  "(nat \<Rightarrow> string) \<Rightarrow> string \<Rightarrow> string \<Rightarrow> string \<Rightarrow> string list \<Rightarrow> string option \<Rightarrow> string \<Rightarrow> nat \<Rightarrow> tag_row list \<Rightarrow>
     db_error + string \<times> nat \<times> tag_row list" where
  "ensure_chain gen ws owner now [] parent tid k tags = Inr (tid, k, tags)"
| "ensure_chain gen ws owner now (a # as) parent tid k tags =
     (case tag_at ws owner a tags of
        Some r \<Rightarrow> ensure_chain gen ws owner now as (Some (t_id r)) (t_id r) k tags
      | None \<Rightarrow> (case sql_insert t_id (new_tag (gen k) ws owner now a parent) tags of
          Inl e \<Rightarrow> Inl e
        | Inr tags' \<Rightarrow> ensure_chain gen ws owner now as (Some (gen k)) (gen k) (Suc k) tags'))"

definition ensure_tag ::
  "(nat \<Rightarrow> string) \<Rightarrow> string \<Rightarrow> string \<Rightarrow> string \<Rightarrow> string \<Rightarrow> nat \<Rightarrow> tag_row list \<Rightarrow> db_error + string \<times> nat \<times> tag_row list" where
  "ensure_tag gen ws owner now path k tags = ensure_chain gen ws owner now (ancestors path) None [] k tags"

text \<open>A foreign key: a deleted tag that another row still names as its parent raises.\<close>

definition delete_tags :: "(tag_row \<Rightarrow> bool) \<Rightarrow> tag_row list \<Rightarrow> db_error + tag_row list" where
  "delete_tags P tags =
     (if \<exists>r\<in>set tags. \<not> P r \<and> (\<exists>d\<in>set tags. P d \<and> t_parent r = Some (t_id d)) then Inl IntegrityError
      else Inr (sql_delete P tags))"

text \<open>One pass of the sweep: the leaves of the scope that no note carries.\<close>

definition referenced :: "string \<Rightarrow> string \<Rightarrow> tag_db \<Rightarrow> string list" where
  "referenced ws owner db = map nt_tag (filter (\<lambda>l. \<exists>r\<in>set (td_tags db). t_id r = nt_tag l \<and> tag_in ws owner r) (td_links db))"

definition parents :: "string \<Rightarrow> string \<Rightarrow> tag_db \<Rightarrow> string list" where
  "parents ws owner db = map (\<lambda>r. the (t_parent r)) (filter (\<lambda>r. t_parent r \<noteq> None \<and> tag_in ws owner r) (td_tags db))"

definition sweepable :: "string \<Rightarrow> string \<Rightarrow> tag_db \<Rightarrow> tag_row \<Rightarrow> bool" where
  "sweepable ws owner db r \<longleftrightarrow> tag_in ws owner r \<and> t_id r \<notin> set (referenced ws owner db) \<and> t_id r \<notin> set (parents ws owner db)"

function sweep_orphan_tags :: "string \<Rightarrow> string \<Rightarrow> tag_db \<Rightarrow> db_error + tag_db" where
  "sweep_orphan_tags ws owner db =
     (if sql_count (sweepable ws owner db) (td_tags db) = 0 then Inr db
      else (case delete_tags (sweepable ws owner db) (td_tags db) of
          Inl e \<Rightarrow> Inl e
        | Inr tags \<Rightarrow> sweep_orphan_tags ws owner (db\<lparr>td_tags := tags\<rparr>)))"
  by pat_completeness auto
termination
proof (relation "measure (\<lambda>(ws, owner, db). length (td_tags db))")
  fix ws owner db tags
  assume "sql_count (sweepable ws owner db) (td_tags db) \<noteq> 0" "delete_tags (sweepable ws owner db) (td_tags db) = Inr tags"
  then show "((ws, owner, db\<lparr>td_tags := tags\<rparr>), ws, owner, db) \<in> measure (\<lambda>(ws, owner, db). length (td_tags db))"
    by (auto simp: delete_tags_def sql_count_def sql_delete_def filter_empty_conv intro!: length_filter_less split: if_splits)
qed simp

declare sweep_orphan_tags.simps [simp del]

text \<open>\<open>sync_note_tags_many_in_session\<close>: the loop over the pairs, with the memo of identifiers. The insertion
  of a link checks its primary key and both foreign keys (the tag exists: it was found or inserted).\<close>

fun sync_pairs ::
  "(nat \<Rightarrow> string) \<Rightarrow> string \<Rightarrow> string \<Rightarrow> string \<Rightarrow> (string \<times> string \<times> string) list \<Rightarrow> (string \<times> string) list \<Rightarrow> nat \<Rightarrow> tag_db \<Rightarrow>
     db_error + (string \<times> string) list \<times> nat \<times> tag_db" where
  "sync_pairs gen ws owner now [] memo k db = Inr (memo, k, db)"
| "sync_pairs gen ws owner now ((note, path, source) # ps) memo k db =
     (case (case map_of memo path of
              Some tid \<Rightarrow> Inr (tid, memo, k, td_tags db)
            | None \<Rightarrow> (case ensure_tag gen ws owner now path k (td_tags db) of
                Inl e \<Rightarrow> Inl e
              | Inr (tid, k', tags) \<Rightarrow> Inr (tid, memo @ [(path, tid)], k', tags))) of
        Inl e \<Rightarrow> Inl e
      | Inr (tid, memo', k', tags) \<Rightarrow>
          (if note \<notin> n_id ` set (td_notes db) then Inl IntegrityError
           else (case sql_insert (\<lambda>l. (nt_note l, nt_tag l)) \<lparr>nt_note = note, nt_tag = tid, nt_source = source\<rparr> (td_links db) of
               Inl e \<Rightarrow> Inl e
             | Inr links \<Rightarrow> sync_pairs gen ws owner now ps memo' k' (db\<lparr>td_tags := tags, td_links := links\<rparr>))))"

type_synonym tagged_notes = "(string \<times> (string \<times> string) list) list"

definition tagged_pairs :: "tagged_notes \<Rightarrow> (string \<times> string \<times> string) list" where
  "tagged_pairs tagged = concat (map (\<lambda>(note, ps). map (\<lambda>(path, source). (note, path, source)) ps) tagged)"

definition sync_note_tags_many_in_session ::
  "(nat \<Rightarrow> string) \<Rightarrow> string \<Rightarrow> string \<Rightarrow> string \<Rightarrow> tagged_notes \<Rightarrow> nat \<Rightarrow> tag_db \<Rightarrow> db_error + (string \<times> string) list \<times> nat \<times> tag_db" where
  "sync_note_tags_many_in_session gen ws owner now tagged k db =
     (if tagged = [] then Inr ([], k, db)
      else sync_pairs gen ws owner now (tagged_pairs tagged) [] k
             (db\<lparr>td_links := sql_delete (\<lambda>l. nt_note l \<in> fst ` set tagged) (td_links db)\<rparr>))"

definition sync_note_tags_many ::
  "(nat \<Rightarrow> string) \<Rightarrow> string \<Rightarrow> string \<Rightarrow> string \<Rightarrow> tagged_notes \<Rightarrow> nat \<Rightarrow> tag_db \<Rightarrow> db_error + tag_db" where
  "sync_note_tags_many gen ws owner now tagged k db =
     (if tagged = [] then Inr db
      else (case sync_note_tags_many_in_session gen ws owner now tagged k db of
          Inl e \<Rightarrow> Inl e
        | Inr (_, _, db') \<Rightarrow> sweep_orphan_tags ws owner db'))"

definition sync_note_tags ::
  "(nat \<Rightarrow> string) \<Rightarrow> string \<Rightarrow> string \<Rightarrow> string \<Rightarrow> string \<Rightarrow> (string \<times> string) list \<Rightarrow> nat \<Rightarrow> tag_db \<Rightarrow> db_error + tag_db" where
  "sync_note_tags gen ws owner now note tagged k db = sync_note_tags_many gen ws owner now [(note, tagged)] k db"

definition delete_note_tags_in_session :: "string \<Rightarrow> tag_db \<Rightarrow> tag_db" where
  "delete_note_tags_in_session note db = db\<lparr>td_links := sql_delete (\<lambda>l. nt_note l = note) (td_links db)\<rparr>"

definition delete_note_tags :: "string \<Rightarrow> string \<Rightarrow> string \<Rightarrow> tag_db \<Rightarrow> db_error + tag_db" where
  "delete_note_tags ws owner note db = sweep_orphan_tags ws owner (delete_note_tags_in_session note db)"

definition delete_workspace_tags :: "string \<Rightarrow> string \<Rightarrow> tag_db \<Rightarrow> db_error + tag_db" where
  "delete_workspace_tags ws owner db =
     (let ids = map t_id (filter (tag_in ws owner) (td_tags db));
          links = sql_delete (\<lambda>l. nt_tag l \<in> set ids) (td_links db)
      in case delete_tags (tag_in ws owner) (td_tags db) of
           Inl e \<Rightarrow> Inl e
         | Inr tags \<Rightarrow> Inr (db\<lparr>td_tags := tags, td_links := links\<rparr>))"

text \<open>SQLite's \<open>s GLOB pat\<close>. \<open>glob_class\<close> reads a bracket up to its end: whether the character was seen, and
  the rest of the pattern.\<close>

fun glob_class :: "char \<Rightarrow> bool \<Rightarrow> char option \<Rightarrow> string \<Rightarrow> (bool \<times> string) option" where
  "glob_class c seen prior [] = None"
| "glob_class c seen prior (p # ps) =
     (if p = CHR '']'' then Some (seen, ps)
      else if p = CHR ''-'' \<and> prior \<noteq> None \<and> ps \<noteq> [] \<and> hd ps \<noteq> CHR '']''
      then glob_class c (seen \<or> the prior \<le> c \<and> c \<le> hd ps) None (tl ps)
      else glob_class c (seen \<or> c = p) (Some p) ps)"

lemma glob_class_shorter: "glob_class c seen prior ps = Some (b, rest) \<Longrightarrow> length rest < length ps"
proof (induction c seen prior ps rule: glob_class.induct)
  case (2 c seen prior p ps)
  show ?case
  proof (cases "p = CHR '']''")
    case True
    then show ?thesis using "2.prems" by simp
  next
    case False
    then show ?thesis using 2 by (cases ps) (auto split: if_splits)
  qed
qed simp

definition glob_bracket :: "char \<Rightarrow> string \<Rightarrow> (bool \<times> string) option" where
  "glob_bracket c ps =
     (let (inv, ps1) = (case ps of q # qs \<Rightarrow> if q = CHR ''^'' then (True, qs) else (False, ps) | [] \<Rightarrow> (False, ps));
          (seen, ps2) = (case ps1 of q # qs \<Rightarrow> if q = CHR '']'' then (c = CHR '']'', qs) else (False, ps1) | [] \<Rightarrow> (False, ps1))
      in case glob_class c seen None ps2 of None \<Rightarrow> None | Some (b, rest) \<Rightarrow> Some (b \<noteq> inv, rest))"

lemma glob_bracket_shorter: "glob_bracket c ps = Some (b, rest) \<Longrightarrow> length rest < length ps"
  by (auto simp: glob_bracket_def Let_def split: list.splits if_splits option.splits prod.splits dest!: glob_class_shorter)

function sqlite_glob :: "string \<Rightarrow> string \<Rightarrow> bool" where
  "sqlite_glob [] s = (s = [])"
| "sqlite_glob (p # ps) s =
     (if p = CHR ''*'' then (\<exists>k\<in>set [0..<Suc (length s)]. sqlite_glob ps (drop k s))
      else if p = CHR ''?'' then s \<noteq> [] \<and> sqlite_glob ps (tl s)
      else if p = CHR ''['' then
        (case s of [] \<Rightarrow> False
         | c # cs \<Rightarrow> (case glob_bracket c ps of None \<Rightarrow> False | Some (b, rest) \<Rightarrow> b \<and> sqlite_glob rest cs))
      else s \<noteq> [] \<and> hd s = p \<and> sqlite_glob ps (tl s))"
  by pat_completeness auto
termination
  by (relation "measure (\<lambda>(p, s). length p)") (auto dest: glob_bracket_shorter)

definition descendant_tag_ids :: "string \<Rightarrow> string \<Rightarrow> string \<Rightarrow> bool \<Rightarrow> tag_db \<Rightarrow> string list" where
  "descendant_tag_ids ws owner path include_descendants db =
     map t_id (filter (\<lambda>r. tag_in ws owner r \<and>
        (t_path r = path \<or> include_descendants \<and> sqlite_glob (path @ ''/*'') (t_path r))) (td_tags db))"

definition note_ids_for_tags :: "string \<Rightarrow> string \<Rightarrow> string list \<Rightarrow> bool \<Rightarrow> tag_db \<Rightarrow> string list" where
  "note_ids_for_tags ws owner paths include_descendants db =
     (let ids = concat (map (\<lambda>p. descendant_tag_ids ws owner p include_descendants db) paths)
      in remdups (map nt_note (filter (\<lambda>l. nt_tag l \<in> set ids) (td_links db))))"

text \<open>The inner join of tags and links, as the reads use it.\<close>

definition joined :: "(tag_row \<Rightarrow> bool) \<Rightarrow> tag_db \<Rightarrow> (tag_row \<times> note_tag_row) list" where
  "joined P db = concat (map (\<lambda>r. map (\<lambda>l. (r, l)) (filter (\<lambda>l. nt_tag l = t_id r) (td_links db))) (filter P (td_tags db)))"

definition graph_data ::
  "string \<Rightarrow> string list \<Rightarrow> string list \<Rightarrow> tag_db \<Rightarrow> tag_row list \<times> (string \<times> string) list" where
  "graph_data owner wss note_ids db =
     (if wss = [] \<or> note_ids = [] then ([], [])
      else let P = (\<lambda>r. t_owner r = owner \<and> t_workspace r \<in> set wss)
           in (filter P (td_tags db),
               map (\<lambda>(r, l). (nt_note l, nt_tag l)) (filter (\<lambda>(r, l). nt_note l \<in> set note_ids) (joined P db))))"

record tag_tree_item =
  tt_path :: string
  tt_name :: string
  tt_exact :: nat
  tt_descendants :: nat

definition exact_notes :: "(string \<times> string) list \<Rightarrow> string \<Rightarrow> string list" where
  "exact_notes pairs p = remdups (map snd (filter (\<lambda>(q, n). q = p) pairs))"

definition tag_tree :: "string \<Rightarrow> string \<Rightarrow> tag_db \<Rightarrow> tag_tree_item list" where
  "tag_tree ws owner db =
     (let paths = map t_path (filter (tag_in ws owner) (td_tags db));
          pairs = map (\<lambda>(r, l). (t_path r, nt_note l)) (joined (tag_in ws owner) db)
      in map (\<lambda>p. \<lparr>tt_path = p, tt_name = last_name p, tt_exact = length (exact_notes pairs p),
                   tt_descendants = length (remdups (concat (map (exact_notes pairs)
                      (filter (\<lambda>q. q = p \<or> prefix (p @ ''/'') q) paths))))\<rparr>) (sort paths))"

definition tag_counts :: "string \<Rightarrow> string \<Rightarrow> string option \<Rightarrow> bool \<Rightarrow> tag_db \<Rightarrow> (string \<times> string \<times> nat) list" where
  "tag_counts ws owner folder include_subfolders db =
     (let in_folder = (\<lambda>l. case folder of None \<Rightarrow> True
            | Some f \<Rightarrow> (\<exists>n\<in>set (td_notes db). n_id n = nt_note l \<and> (if include_subfolders then folder_or_below f n else n_folder n = f)));
          pairs = map (\<lambda>(r, l). (t_path r, nt_note l)) (filter (\<lambda>(r, l). in_folder l) (joined (tag_in ws owner) db));
          counts = map (\<lambda>p. (p, length (exact_notes pairs p))) (remdups (map fst pairs))
      in map (\<lambda>(p, c). (p, last_name p, c)) (sort_key (\<lambda>(p, c). (- int c, p)) counts))"

subsection \<open>Chains of ancestors\<close>

definition head_path :: "nat \<Rightarrow> string \<Rightarrow> string" where
  "head_path i p = join ''/'' (take i (path_segments p))"

definition parent_path :: "string \<Rightarrow> string" where
  "parent_path p = head_path (length (path_segments p) - 1) p"

lemma ancestors_heads: "ancestors p = map (\<lambda>i. head_path (Suc i) p) [0..<length (path_segments p)]"
  by (simp add: ancestors_def head_path_def Let_def)

lemma head_path_facts:
  assumes "tag_path p" "0 < i" "i \<le> length (path_segments p)"
  shows "tag_path (head_path i p)" "path_segments (head_path i p) = take i (path_segments p)"
    "length (path_segments (head_path i p)) = i"
proof -
  note seg = tag_path_segments [OF assms(1)]
  let ?t = "take i (path_segments p)"
  have ne: "?t \<noteq> []" using assms(2,3) by (cases "path_segments p") auto
  have "\<forall>s\<in>set ?t. s \<noteq> [] \<and> (CHR ''/'') \<notin> set s" using seg(4) by (auto dest: in_set_takeD)
  then have sp: "split_on (CHR ''/'') (head_path i p) = ?t"
    unfolding head_path_def using split_on_join [OF ne] by simp
  have "\<forall>s\<in>set ?t. s \<noteq> [] \<and> (\<forall>c\<in>set s. tag_seg_char c)"
    using assms(1) seg(1) by (auto simp: tag_path_def dest: in_set_takeD)
  then show tp: "tag_path (head_path i p)" by (simp add: tag_path_def sp)
  show "path_segments (head_path i p) = ?t" using tag_path_segments(1) [OF tp] sp by simp
  then show "length (path_segments (head_path i p)) = i" using assms(3) by simp
qed

lemma head_path_all: "tag_path p \<Longrightarrow> head_path (length (path_segments p)) p = p"
  using tag_path_segments(2) [of p] by (simp add: head_path_def)

lemma segments_pos: "tag_path p \<Longrightarrow> 0 < length (path_segments p)"
  using tag_path_segments(1) [of p] by simp

lemma ancestors_tag_path: "tag_path p \<Longrightarrow> a \<in> set (ancestors p) \<Longrightarrow> tag_path a"
  by (auto simp: ancestors_heads intro: head_path_facts)

lemma ancestors_self: "tag_path p \<Longrightarrow> p \<in> set (ancestors p)"
  by (simp add: ancestors_iff)

lemma ancestors_trans:
  "tag_path c \<Longrightarrow> b \<in> set (ancestors c) \<Longrightarrow> a \<in> set (ancestors b) \<Longrightarrow> a \<in> set (ancestors c)"
  using ancestors_tag_path [of c b] ancestors_tag_path [of b a] ancestors_iff [of b a] ancestors_iff [of c a] ancestors_iff [of c b]
  by (meson prefix_order.trans)

lemma parent_path_head: "tag_path p \<Longrightarrow> 0 < i \<Longrightarrow> Suc i \<le> length (path_segments p) \<Longrightarrow> parent_path (head_path (Suc i) p) = head_path i p"
  using head_path_facts [of p "Suc i"] by (simp add: parent_path_def head_path_def)

lemma parent_path_facts:
  assumes "tag_path p" "1 < length (path_segments p)"
  shows "tag_path (parent_path p)" "parent_path p \<in> set (ancestors p)"
    "length (path_segments (parent_path p)) < length (path_segments p)"
  using head_path_facts [OF assms(1), of "length (path_segments p) - 1"] assms
  by (simp_all add: parent_path_def ancestors_iff take_is_prefix)

lemma ancestors_parent:
  assumes "tag_path p" "a \<in> set (ancestors p)" "a \<noteq> p"
  shows "1 < length (path_segments p) \<and> a \<in> set (ancestors (parent_path p))"
proof -
  obtain i where i: "i < length (path_segments p)" "a = head_path (Suc i) p"
    using assms(2) by (auto simp: ancestors_heads)
  let ?n = "length (path_segments p)"
  have lt: "Suc i < ?n" using i assms(3) head_path_all [OF assms(1)] by (metis Suc_lessI)
  have "path_segments (parent_path p) = take (?n - 1) (path_segments p)"
    using head_path_facts(2) [OF assms(1), of "?n - 1"] lt by (simp add: parent_path_def)
  then have "a = head_path (Suc i) (parent_path p)" "i < length (path_segments (parent_path p))"
    using i lt by (simp add: head_path_def min_def, simp add: less_diff_conv)
  then show ?thesis using lt by (auto simp: ancestors_heads)
qed

subsection \<open>The tag forest\<close>

text \<open>Rows are determined by their identifier and by their path in a workspace; the parent of a row is the
  row of the parent path; links lead to rows, at most one per note and tag.\<close>

definition scope_of :: "tag_row \<Rightarrow> string \<times> string" where
  "scope_of r = (t_workspace r, t_owner r)"

definition parent_ok :: "tag_row list \<Rightarrow> tag_row \<Rightarrow> bool" where
  "parent_ok tags r \<longleftrightarrow>
     (if length (path_segments (t_path r)) \<le> 1 then t_parent r = None
      else \<exists>q\<in>set tags. scope_of q = scope_of r \<and> t_path q = parent_path (t_path r) \<and> t_parent r = Some (t_id q))"

definition forest :: "tag_row list \<Rightarrow> bool" where
  "forest tags \<longleftrightarrow> distinct (map t_id tags) \<and> distinct (map (\<lambda>r. (scope_of r, t_path r)) tags) \<and>
     (\<forall>r\<in>set tags. tag_path (t_path r) \<and> t_name r = last_name (t_path r) \<and> parent_ok tags r)"

definition tag_wf :: "tag_db \<Rightarrow> bool" where
  "tag_wf db \<longleftrightarrow> forest (td_tags db) \<and> distinct (map (\<lambda>l. (nt_note l, nt_tag l)) (td_links db)) \<and>
     (\<forall>l\<in>set (td_links db). nt_tag l \<in> t_id ` set (td_tags db))"

lemma tag_in_scope: "tag_in ws owner r \<longleftrightarrow> scope_of r = (ws, owner)"
  by (auto simp: tag_in_def scope_of_def)

lemma forest_id: "forest tags \<Longrightarrow> r \<in> set tags \<Longrightarrow> q \<in> set tags \<Longrightarrow> t_id r = t_id q \<Longrightarrow> r = q"
  by (auto simp: forest_def distinct_map inj_on_def)

lemma forest_path: "forest tags \<Longrightarrow> r \<in> set tags \<Longrightarrow> q \<in> set tags \<Longrightarrow> scope_of r = scope_of q \<Longrightarrow> t_path r = t_path q \<Longrightarrow> r = q"
  by (auto simp: forest_def distinct_map inj_on_def)

lemma forest_tag_path: "forest tags \<Longrightarrow> r \<in> set tags \<Longrightarrow> tag_path (t_path r)"
  by (simp add: forest_def)

lemma tag_at_iff:
  assumes "forest tags"
  shows "tag_at ws owner p tags = Some r \<longleftrightarrow> r \<in> set tags \<and> scope_of r = (ws, owner) \<and> t_path r = p"
proof
  assume "tag_at ws owner p tags = Some r"
  then show "r \<in> set tags \<and> scope_of r = (ws, owner) \<and> t_path r = p"
    by (auto simp: tag_at_def tag_in_scope find_Some_iff)
next
  assume r: "r \<in> set tags \<and> scope_of r = (ws, owner) \<and> t_path r = p"
  then obtain q where q: "tag_at ws owner p tags = Some q"
    by (cases "tag_at ws owner p tags") (auto simp: tag_at_def tag_in_scope find_None_iff)
  then have "q \<in> set tags \<and> scope_of q = (ws, owner) \<and> t_path q = p"
    by (auto simp: tag_at_def tag_in_scope find_Some_iff)
  then show "tag_at ws owner p tags = Some r" using q r forest_path [OF assms] by metis
qed

lemma tag_at_None: "tag_at ws owner p tags = None \<longleftrightarrow> (\<forall>r\<in>set tags. scope_of r = (ws, owner) \<longrightarrow> t_path r \<noteq> p)"
  by (auto simp: tag_at_def tag_in_scope find_None_iff)

text \<open>The ancestors of a row are rows.\<close>

lemma forest_ancestors:
  assumes "forest tags"
  shows "r \<in> set tags \<Longrightarrow> a \<in> set (ancestors (t_path r)) \<Longrightarrow> \<exists>q\<in>set tags. scope_of q = scope_of r \<and> t_path q = a"
proof (induction "length (path_segments (t_path r))" arbitrary: r rule: less_induct)
  case less
  have tp: "tag_path (t_path r)" using forest_tag_path [OF assms less.prems(1)] .
  show ?case
  proof (cases "a = t_path r")
    case True
    then show ?thesis using less.prems(1) by blast
  next
    case False
    from ancestors_parent [OF tp less.prems(2) False]
    have up: "1 < length (path_segments (t_path r))" "a \<in> set (ancestors (parent_path (t_path r)))" by simp_all
    then have "parent_ok tags r" "\<not> length (path_segments (t_path r)) \<le> 1"
      using assms less.prems(1) by (simp_all add: forest_def)
    then obtain q where q: "q \<in> set tags" "scope_of q = scope_of r" "t_path q = parent_path (t_path r)"
      by (auto simp: parent_ok_def)
    then show ?thesis
      using less.hyps [of q] parent_path_facts(3) [OF tp up(1)] up(2) by auto
  qed
qed

subsection \<open>Inserting a chain\<close>

definition fresh :: "(nat \<Rightarrow> string) \<Rightarrow> nat \<Rightarrow> tag_row list \<Rightarrow> bool" where
  "fresh gen k tags \<longleftrightarrow> inj gen \<and> (\<forall>j\<ge>k. gen j \<notin> t_id ` set tags)"

lemma forest_append:
  assumes "forest tags" "t_id r \<notin> t_id ` set tags" "\<forall>q\<in>set tags. scope_of q = scope_of r \<longrightarrow> t_path q \<noteq> t_path r"
    and "tag_path (t_path r)" "t_name r = last_name (t_path r)" "parent_ok tags r"
  shows "forest (tags @ [r])"
  using assms by (auto simp: forest_def parent_ok_def)

text \<open>What \<open>_ensure_tag\<close> promises: the rows it was given stay, ancestors of the path are added, and the
  identifier returned is that of the row of the path.\<close>

definition extends :: "string \<times> string \<Rightarrow> string \<Rightarrow> tag_row list \<Rightarrow> tag_row list \<Rightarrow> bool" where
  "extends scope p tags tags' \<longleftrightarrow> forest tags' \<and>
     (\<exists>new. tags' = tags @ new \<and> (\<forall>r\<in>set new. scope_of r = scope \<and> t_path r \<in> set (ancestors p)))"

lemma extends_trans: "extends scope p t1 t2 \<Longrightarrow> extends scope p t2 t3 \<Longrightarrow> extends scope p t1 t3"
  by (auto simp: extends_def)

lemma ensure_chain_ok:
  assumes "tag_path p" "forest tags" "fresh gen k tags"
    and "i \<le> length (path_segments p)"
    and "if i = 0 then parent = None else \<exists>q\<in>set tags. scope_of q = (ws, owner) \<and> t_path q = head_path i p \<and> parent = Some (t_id q) \<and> tid = t_id q"
  shows "\<exists>tid' k' tags'. ensure_chain gen ws owner now (map (\<lambda>j. head_path (Suc j) p) [i..<length (path_segments p)]) parent tid k tags
        = Inr (tid', k', tags') \<and> extends (ws, owner) p tags tags' \<and> fresh gen k' tags' \<and>
       (\<exists>q\<in>set tags'. scope_of q = (ws, owner) \<and> t_path q = p \<and> tid' = t_id q)"
  using assms(2-5)
proof (induction "length (path_segments p) - i" arbitrary: i parent tid k tags)
  case 0
  then have i: "i = length (path_segments p)" "i \<noteq> 0" using segments_pos [OF assms(1)] by simp_all
  then have "extends (ws, owner) p tags tags" using 0 by (simp add: extends_def)
  then show ?case using 0 i head_path_all [OF assms(1)] by auto
next
  case (Suc m)
  let ?n = "length (path_segments p)" and ?h = "head_path (Suc i) p"
  have lt: "i < ?n" using Suc.hyps(2) by simp
  have split: "[i..<?n] = i # [Suc i..<?n]" using lt by (simp add: upt_conv_Cons)
  note hp = head_path_facts [OF assms(1), of "Suc i"]
  have m: "m = ?n - Suc i" using Suc.hyps(2) by simp
  show ?case
  proof (cases "tag_at ws owner ?h tags")
    case (Some r)
    then have r: "r \<in> set tags" "scope_of r = (ws, owner)" "t_path r = ?h"
      using tag_at_iff [OF Suc.prems(1)] by auto
    show ?thesis
      using Suc.hyps(1) [OF m Suc.prems(1,2), of "Some (t_id r)" "t_id r"] lt r Some by (auto simp: split)
  next
    case None
    let ?r = "new_tag (gen k) ws owner now ?h parent"
    have new: "gen k \<notin> t_id ` set tags" using Suc.prems(2) by (simp add: fresh_def)
    have pk: "parent_ok tags ?r"
      using Suc.prems(4) hp(3) lt parent_path_head [OF assms(1), of i]
      by (cases "i = 0") (auto simp: parent_ok_def new_tag_def scope_of_def)
    have f: "forest (tags @ [?r])"
      using Suc.prems(1) new None hp(1) lt pk
      by (intro forest_append) (auto simp: new_tag_def tag_at_None scope_of_def)
    have fr: "fresh gen (Suc k) (tags @ [?r])"
      using Suc.prems(2) by (auto simp: fresh_def new_tag_def inj_def) (metis Suc_n_not_le_n)
    have anc: "?h \<in> set (ancestors p)" using lt by (auto simp: ancestors_heads)
    have ext: "extends (ws, owner) p tags (tags @ [?r])"
      using f anc by (simp add: extends_def new_tag_def scope_of_def)
    have ins: "sql_insert t_id ?r tags = Inr (tags @ [?r])" using new by (simp add: sql_insert_def new_tag_def)
    have q: "\<exists>q\<in>set (tags @ [?r]). scope_of q = (ws, owner) \<and> t_path q = ?h \<and> Some (gen k) = Some (t_id q) \<and> gen k = t_id q"
      by (simp add: new_tag_def scope_of_def)
    from Suc.hyps(1) [OF m f fr, of "Some (gen k)" "gen k"] lt q
    obtain tid' k' tags' where e: "ensure_chain gen ws owner now (map (\<lambda>j. head_path (Suc j) p) [Suc i..<?n]) (Some (gen k)) (gen k) (Suc k) (tags @ [?r])
        = Inr (tid', k', tags')" "extends (ws, owner) p (tags @ [?r]) tags'" "fresh gen k' tags'"
       "\<exists>q\<in>set tags'. scope_of q = (ws, owner) \<and> t_path q = p \<and> tid' = t_id q"
      by auto
    have "extends (ws, owner) p tags tags'" by (rule extends_trans [OF ext e(2)])
    moreover have "ensure_chain gen ws owner now (map (\<lambda>j. head_path (Suc j) p) [i..<?n]) parent tid k tags = Inr (tid', k', tags')"
      using e(1) None ins by (simp add: split)
    ultimately show ?thesis using e(3,4) by blast
  qed
qed

lemma ensure_tag_ok:
  assumes "tag_path p" "forest tags" "fresh gen k tags"
  obtains tid k' tags' q where "ensure_tag gen ws owner now p k tags = Inr (tid, k', tags')"
    "extends (ws, owner) p tags tags'" "fresh gen k' tags'" "q \<in> set tags'" "scope_of q = (ws, owner)" "t_path q = p" "tid = t_id q"
  using ensure_chain_ok [OF assms, of 0 None ws owner "[]" now] that
  by (auto simp: ensure_tag_def ancestors_heads)

subsection \<open>Rebuilding the links of notes\<close>

definition grows :: "string \<times> string \<Rightarrow> string set \<Rightarrow> tag_row list \<Rightarrow> tag_row list \<Rightarrow> bool" where
  "grows scope ps tags tags' \<longleftrightarrow> forest tags' \<and>
     (\<exists>new. tags' = tags @ new \<and> (\<forall>r\<in>set new. scope_of r = scope \<and> (\<exists>p\<in>ps. t_path r \<in> set (ancestors p))))"

lemma grows_refl: "forest tags \<Longrightarrow> grows scope ps tags tags"
  by (simp add: grows_def)

lemma grows_trans: "grows scope ps t1 t2 \<Longrightarrow> grows scope ps' t2 t3 \<Longrightarrow> grows scope (ps \<union> ps') t1 t3"
  by (fastforce simp: grows_def)

lemma extends_grows: "extends scope p tags tags' \<Longrightarrow> grows scope {p} tags tags'"
  by (simp add: extends_def grows_def)

lemma grows_sub: "grows scope ps tags tags' \<Longrightarrow> set tags \<subseteq> set tags'"
  by (auto simp: grows_def)

definition tid_of :: "string \<Rightarrow> string \<Rightarrow> tag_row list \<Rightarrow> string \<Rightarrow> string" where
  "tid_of ws owner tags p = t_id (the (tag_at ws owner p tags))"

definition link_of :: "string \<Rightarrow> string \<Rightarrow> tag_row list \<Rightarrow> string \<times> string \<times> string \<Rightarrow> note_tag_row" where
  "link_of ws owner tags x = (case x of (n, p, s) \<Rightarrow> \<lparr>nt_note = n, nt_tag = tid_of ws owner tags p, nt_source = s\<rparr>)"

lemma tag_at_grows: "grows scope ps tags tags' \<Longrightarrow> tag_at ws owner p tags = Some q \<Longrightarrow> tag_at ws owner p tags' = Some q"
proof -
  assume g: "grows scope ps tags tags'" and t: "tag_at ws owner p tags = Some q"
  then have "q \<in> set tags'" "scope_of q = (ws, owner)" "t_path q = p"
    using grows_sub [OF g] by (auto simp: tag_at_def tag_in_scope find_Some_iff)
  then show ?thesis using g tag_at_iff [of tags' ws owner p q] by (simp add: grows_def)
qed

definition memo_ok :: "string \<Rightarrow> string \<Rightarrow> tag_row list \<Rightarrow> (string \<times> string) list \<Rightarrow> bool" where
  "memo_ok ws owner tags memo \<longleftrightarrow>
     (\<forall>p tid. map_of memo p = Some tid \<longrightarrow> (\<exists>q. tag_at ws owner p tags = Some q \<and> t_id q = tid))"

lemma memo_ok_grows: "grows scope ps tags tags' \<Longrightarrow> memo_ok ws owner tags memo \<Longrightarrow> memo_ok ws owner tags' memo"
  using tag_at_grows unfolding memo_ok_def by metis

lemma tid_unique:
  assumes "forest tags" "tag_at ws owner p tags = Some q" "tag_at ws owner p' tags = Some q'" "t_id q = t_id q'"
  shows "p = p'"
  using assms forest_id [OF assms(1), of q q'] tag_at_iff [OF assms(1)] by auto

lemma get_tag_ok:
  assumes "tag_path path" "forest tags" "fresh gen k tags" "memo_ok ws owner tags memo"
  obtains tid memo' k' tags' q where
    "(case map_of memo path of Some tid \<Rightarrow> Inr (tid, memo, k, tags)
      | None \<Rightarrow> (case ensure_tag gen ws owner now path k tags of Inl e \<Rightarrow> Inl e
          | Inr (tid, k', tags') \<Rightarrow> Inr (tid, memo @ [(path, tid)], k', tags'))) = Inr (tid, memo', k', tags')"
    "grows (ws, owner) {path} tags tags'" "fresh gen k' tags'" "memo_ok ws owner tags' memo'"
    "tag_at ws owner path tags' = Some q" "t_id q = tid"
proof (cases "map_of memo path")
  case None
  obtain tid k' tags' q where e: "ensure_tag gen ws owner now path k tags = Inr (tid, k', tags')"
    "extends (ws, owner) path tags tags'" "fresh gen k' tags'" "q \<in> set tags'" "scope_of q = (ws, owner)" "t_path q = path" "tid = t_id q"
    by (rule ensure_tag_ok [OF assms(1-3)])
  have f: "forest tags'" using e(2) by (simp add: extends_def)
  have at: "tag_at ws owner path tags' = Some q" using tag_at_iff [OF f] e by simp
  have "memo_ok ws owner tags' (memo @ [(path, tid)])"
    using memo_ok_grows [OF extends_grows [OF e(2)] assms(4)] at e(7) None
    by (auto simp: memo_ok_def map_add_Some_iff split: if_splits)
  then show ?thesis using that e at None extends_grows [OF e(2)] by simp
next
  case (Some tid)
  then obtain q where "tag_at ws owner path tags = Some q" "t_id q = tid" using assms(4) by (auto simp: memo_ok_def)
  then show ?thesis using that [of tid memo k tags q] Some assms grows_refl by simp
qed

lemma tid_of_Some: "tag_at ws owner p tags = Some q \<Longrightarrow> tid_of ws owner tags p = t_id q"
  by (simp add: tid_of_def)

lemma sync_pairs_ok:
  assumes "tag_wf db" "fresh gen k (td_tags db)" "memo_ok ws owner (td_tags db) memo"
    and "\<forall>(n, p, s)\<in>set pairs. tag_path p \<and> n \<in> n_id ` set (td_notes db)"
    and "distinct (map (\<lambda>(n, p, s). (n, p)) pairs)"
    and "\<forall>(n, p, s)\<in>set pairs. \<forall>q. tag_at ws owner p (td_tags db) = Some q \<longrightarrow> (n, t_id q) \<notin> (\<lambda>l. (nt_note l, nt_tag l)) ` set (td_links db)"
  shows "\<exists>memo' k' db'. sync_pairs gen ws owner now pairs memo k db = Inr (memo', k', db') \<and> tag_wf db' \<and>
     fresh gen k' (td_tags db') \<and> td_notes db' = td_notes db \<and>
     grows (ws, owner) ((\<lambda>(n, p, s). p) ` set pairs) (td_tags db) (td_tags db') \<and>
     (\<forall>(n, p, s)\<in>set pairs. tag_at ws owner p (td_tags db') \<noteq> None) \<and>
     td_links db' = td_links db @ map (link_of ws owner (td_tags db')) pairs"
  using assms
proof (induction pairs arbitrary: memo k db)
  case Nil
  then show ?case by (simp add: grows_refl tag_wf_def)
next
  case (Cons x pairs)
  obtain n p src where x: "x = (n, p, src)" by (cases x)
  have f: "forest (td_tags db)" using Cons.prems(1) by (simp add: tag_wf_def)
  have tp: "tag_path p" and nn: "n \<in> n_id ` set (td_notes db)" using Cons.prems(4) x by simp_all
  obtain tid memo' k' tags' q where g:
    "(case map_of memo p of Some tid \<Rightarrow> Inr (tid, memo, k, td_tags db)
      | None \<Rightarrow> (case ensure_tag gen ws owner now p k (td_tags db) of Inl e \<Rightarrow> Inl e
          | Inr (tid, k', tags') \<Rightarrow> Inr (tid, memo @ [(p, tid)], k', tags'))) = Inr (tid, memo', k', tags')"
    "grows (ws, owner) {p} (td_tags db) tags'" "fresh gen k' tags'" "memo_ok ws owner tags' memo'"
    "tag_at ws owner p tags' = Some q" "t_id q = tid"
    by (rule get_tag_ok [OF tp f Cons.prems(2,3)])
  have f': "forest tags'" using g(2) by (simp add: grows_def)
  let ?key = "\<lambda>l. (nt_note l, nt_tag l)"
  let ?l = "\<lparr>nt_note = n, nt_tag = tid, nt_source = src\<rparr>"
  let ?db = "db\<lparr>td_tags := tags', td_links := td_links db @ [?l]\<rparr>"
  have known: "nt_tag l \<in> t_id ` set (td_tags db)" if "l \<in> set (td_links db)" for l
    using Cons.prems(1) that by (simp add: tag_wf_def)
  have clash: "(m, t_id r) \<notin> ?key ` set (td_links db)"
    if "(m, p', s') \<in> set (x # pairs)" "tag_at ws owner p' tags' = Some r" for m p' s' r
  proof
    assume "(m, t_id r) \<in> ?key ` set (td_links db)"
    then obtain l where l: "l \<in> set (td_links db)" "nt_note l = m" "nt_tag l = t_id r" by auto
    then obtain r0 where r0: "r0 \<in> set (td_tags db)" "t_id r0 = t_id r" using known by fastforce
    have rt: "r \<in> set tags'" "scope_of r = (ws, owner)" "t_path r = p'" using that(2) tag_at_iff [OF f'] by simp_all
    have "r0 = r" using forest_id [OF f'] r0 rt(1) grows_sub [OF g(2)] by blast
    then have "tag_at ws owner p' (td_tags db) = Some r" using r0(1) rt tag_at_iff [OF f] by simp
    then show False using Cons.prems(6) that(1) l by (force simp: image_iff)
  qed
  have ins: "sql_insert ?key ?l (td_links db) = Inr (td_links db @ [?l])"
    using clash [of n p src q] g(5,6) x by (simp add: sql_insert_def)
  have "\<forall>l\<in>set (td_links db). nt_tag l \<in> t_id ` set tags'"
    using known grows_sub [OF g(2)] by blast
  then have wf: "tag_wf ?db"
    using Cons.prems(1) f' clash [of n p src q] g(5,6) x tag_at_iff [OF f', of ws owner p q]
    by (auto simp: tag_wf_def)
  have pairs4: "\<forall>(m, p', s')\<in>set pairs. tag_path p' \<and> m \<in> n_id ` set (td_notes ?db)"
    using Cons.prems(4) by auto
  have dist: "distinct (map (\<lambda>(n, p, s). (n, p)) pairs)" "(n, p) \<notin> set (map (\<lambda>(n, p, s). (n, p)) pairs)"
    using Cons.prems(5) x by auto
  have "(m, t_id r) \<notin> ?key ` set (td_links ?db)"
    if m: "(m, p', s') \<in> set pairs" and r: "tag_at ws owner p' (td_tags ?db) = Some r" for m p' s' r
  proof
    assume "(m, t_id r) \<in> ?key ` set (td_links ?db)"
    then have "(m, t_id r) \<in> ?key ` set (td_links db) \<or> m = n \<and> t_id r = t_id q" using g(6) by auto
    then have mn: "m = n" "t_id r = t_id q" using clash [of m p' s' r] m r by auto
    then have "p' = p" using tid_unique [OF f' _ g(5), of p' r] r by simp
    then show False using dist(2) m mn by (force simp: image_iff)
  qed
  then have free: "\<forall>(m, p', s')\<in>set pairs. \<forall>r. tag_at ws owner p' (td_tags ?db) = Some r \<longrightarrow> (m, t_id r) \<notin> ?key ` set (td_links ?db)"
    by blast
  have db: "fresh gen k' (td_tags ?db)" "memo_ok ws owner (td_tags ?db) memo'" using g(3,4) by simp_all
  from Cons.IH [OF wf db pairs4 dist(1) free]
  obtain memo'' k'' db' where r: "sync_pairs gen ws owner now pairs memo' k' ?db = Inr (memo'', k'', db')" "tag_wf db'"
    "fresh gen k'' (td_tags db')" "td_notes db' = td_notes db"
    "grows (ws, owner) ((\<lambda>(n, p, s). p) ` set pairs) tags' (td_tags db')"
    "\<forall>(n, p, s)\<in>set pairs. tag_at ws owner p (td_tags db') \<noteq> None"
    "td_links db' = (td_links db @ [?l]) @ map (link_of ws owner (td_tags db')) pairs"
    by auto
  have at: "tag_at ws owner p (td_tags db') = Some q" by (rule tag_at_grows [OF r(5) g(5)])
  have "sync_pairs gen ws owner now (x # pairs) memo k db = Inr (memo'', k'', db')"
    using g(1) nn ins r(1) by (simp add: x)
  moreover have "td_links db' = td_links db @ map (link_of ws owner (td_tags db')) (x # pairs)"
    using r(7) tid_of_Some [OF at] g(6) by (simp add: x link_of_def)
  moreover have "grows (ws, owner) ((\<lambda>(n, p, s). p) ` set (x # pairs)) (td_tags db) (td_tags db')"
    using grows_trans [OF g(2) r(5)] by (simp add: x)
  moreover have "\<forall>(n, p, s)\<in>set (x # pairs). tag_at ws owner p (td_tags db') \<noteq> None" using r(6) at x by simp
  ultimately show ?case using r(2-4) by blast
qed

subsection \<open>Sweeping orphans\<close>

definition carried :: "string \<Rightarrow> string \<Rightarrow> tag_db \<Rightarrow> string set" where
  "carried ws owner db = {t_path r | r l. r \<in> set (td_tags db) \<and> l \<in> set (td_links db) \<and> nt_tag l = t_id r \<and> scope_of r = (ws, owner)}"

definition live :: "string \<Rightarrow> string \<Rightarrow> tag_db \<Rightarrow> string \<Rightarrow> bool" where
  "live ws owner db p \<longleftrightarrow> (\<exists>c\<in>carried ws owner db. p \<in> set (ancestors c))"

lemma referenced_iff: "tid \<in> set (referenced ws owner db) \<longleftrightarrow>
    (\<exists>l\<in>set (td_links db). nt_tag l = tid \<and> (\<exists>r\<in>set (td_tags db). t_id r = tid \<and> scope_of r = (ws, owner)))"
  by (auto simp: referenced_def tag_in_scope)

lemma parents_iff: "tid \<in> set (parents ws owner db) \<longleftrightarrow> (\<exists>r\<in>set (td_tags db). t_parent r = Some tid \<and> scope_of r = (ws, owner))"
  by (force simp: parents_def tag_in_scope)

lemma parent_row:
  assumes "forest tags" "r \<in> set tags" "t_parent r = Some tid" "d \<in> set tags" "t_id d = tid"
  shows "scope_of d = scope_of r \<and> t_path d = parent_path (t_path r) \<and> 1 < length (path_segments (t_path r))"
proof -
  have "parent_ok tags r" using assms(1,2) by (simp add: forest_def)
  then obtain q where q: "q \<in> set tags" "scope_of q = scope_of r" "t_path q = parent_path (t_path r)" "tid = t_id q"
    and l: "\<not> length (path_segments (t_path r)) \<le> 1"
    using assms(3) by (auto simp: parent_ok_def split: if_splits)
  have "d = q" using forest_id [OF assms(1)] assms(4,5) q by simp
  then show ?thesis using q l by simp
qed

text \<open>A proper ancestor of a row is the parent of some row.\<close>

lemma chain_child:
  assumes "forest tags"
  shows "r' \<in> set tags \<Longrightarrow> r \<in> set tags \<Longrightarrow> scope_of r = scope_of r' \<Longrightarrow> t_path r \<in> set (ancestors (t_path r')) \<Longrightarrow>
     t_path r \<noteq> t_path r' \<Longrightarrow> \<exists>q\<in>set tags. scope_of q = scope_of r \<and> t_parent q = Some (t_id r)"
proof (induction "length (path_segments (t_path r'))" arbitrary: r' rule: less_induct)
  case less
  have tp: "tag_path (t_path r')" using forest_tag_path [OF assms less.prems(1)] .
  from ancestors_parent [OF tp less.prems(4,5)]
  have up: "1 < length (path_segments (t_path r'))" "t_path r \<in> set (ancestors (parent_path (t_path r')))" by simp_all
  then have "parent_ok tags r'" "\<not> length (path_segments (t_path r')) \<le> 1" using assms less.prems(1) by (simp_all add: forest_def)
  then obtain q where q: "q \<in> set tags" "scope_of q = scope_of r'" "t_path q = parent_path (t_path r')" "t_parent r' = Some (t_id q)"
    by (auto simp: parent_ok_def)
  show ?case
  proof (cases "t_path r = t_path q")
    case True
    then have "r = q" using forest_path [OF assms less.prems(2) q(1)] less.prems(3) q(2) by simp
    then show ?thesis using q less.prems by auto
  next
    case False
    then show ?thesis
      using less.hyps [of q] parent_path_facts(3) [OF tp up(1)] up(2) q less.prems by simp
  qed
qed

lemma live_not_sweepable:
  assumes "tag_wf db" "r \<in> set (td_tags db)" "scope_of r = (ws, owner)" "live ws owner db (t_path r)"
  shows "\<not> sweepable ws owner db r"
proof -
  have f: "forest (td_tags db)" using assms(1) by (simp add: tag_wf_def)
  obtain r' l where r': "r' \<in> set (td_tags db)" "l \<in> set (td_links db)" "nt_tag l = t_id r'" "scope_of r' = (ws, owner)"
    "t_path r \<in> set (ancestors (t_path r'))"
    using assms(4) by (auto simp: live_def carried_def)
  show ?thesis
  proof (cases "t_path r = t_path r'")
    case True
    then have "r = r'" using forest_path [OF f assms(2) r'(1)] assms(3) r'(4) by simp
    then have "t_id r \<in> set (referenced ws owner db)" using r' by (auto simp: referenced_iff)
    then show ?thesis by (simp add: sweepable_def)
  next
    case False
    then have "t_id r \<in> set (parents ws owner db)"
      using chain_child [OF f r'(1) assms(2) _ r'(5)] assms(3) r'(4) by (auto simp: parents_iff)
    then show ?thesis by (simp add: sweepable_def)
  qed
qed

text \<open>When no row can be swept, every row of the scope is an ancestor of a carried path.\<close>

lemma all_live:
  assumes "tag_wf db" "\<forall>r\<in>set (td_tags db). \<not> sweepable ws owner db r" "r \<in> set (td_tags db)" "scope_of r = (ws, owner)"
  shows "live ws owner db (t_path r)"
proof (rule ccontr)
  assume dead: "\<not> live ws owner db (t_path r)"
  have f: "forest (td_tags db)" using assms(1) by (simp add: tag_wf_def)
  let ?P = "\<lambda>r. r \<in> set (td_tags db) \<and> scope_of r = (ws, owner) \<and> \<not> live ws owner db (t_path r)"
  let ?d = "\<lambda>r. length (path_segments (t_path r))"
  have "\<forall>y. ?P y \<longrightarrow> ?d y < Suc (Max (?d ` set (td_tags db)))" by (simp add: less_Suc_eq_le)
  then obtain x where x: "?P x" "\<forall>y. ?P y \<longrightarrow> ?d y \<le> ?d x"
    using ex_has_greatest_nat [of ?P r ?d] dead assms(3,4) by blast
  have "\<not> sweepable ws owner db x" using assms(2) x(1) by blast
  then consider "t_id x \<in> set (referenced ws owner db)" | "t_id x \<in> set (parents ws owner db)"
    using x(1) by (auto simp: sweepable_def tag_in_scope)
  then show False
  proof cases
    case 1
    then obtain l where "l \<in> set (td_links db)" "nt_tag l = t_id x" by (auto simp: referenced_iff)
    then have "t_path x \<in> carried ws owner db" using x(1) by (auto simp: carried_def)
    then have "live ws owner db (t_path x)"
      using ancestors_self forest_tag_path [OF f] x(1) by (auto simp: live_def)
    then show False using x(1) by simp
  next
    case 2
    then obtain q where q: "q \<in> set (td_tags db)" "t_parent q = Some (t_id x)" "scope_of q = (ws, owner)"
      by (auto simp: parents_iff)
    have up: "t_path x = parent_path (t_path q)" "1 < ?d q" using parent_row [OF f q(1,2), of x] x(1) by simp_all
    have tq: "tag_path (t_path q)" using forest_tag_path [OF f q(1)] .
    have "?d x < ?d q" using parent_path_facts(3) [OF tq up(2)] up(1) by simp
    then have "live ws owner db (t_path q)" using x(2) q by (metis not_le)
    then obtain c where c: "c \<in> carried ws owner db" "t_path q \<in> set (ancestors c)" by (auto simp: live_def)
    then have "tag_path c" using forest_tag_path [OF f] by (auto simp: carried_def)
    then have "t_path x \<in> set (ancestors c)"
      using ancestors_trans [OF _ c(2)] parent_path_facts(2) [OF tq up(2)] up(1) by simp
    then show False using c(1) x(1) by (auto simp: live_def)
  qed
qed

lemma swept_parent:
  assumes "forest (td_tags db)" "r \<in> set (td_tags db)" "d \<in> set (td_tags db)" "sweepable ws owner db d"
  shows "t_parent r \<noteq> Some (t_id d)"
proof
  assume p: "t_parent r = Some (t_id d)"
  then have "scope_of r = (ws, owner)" using parent_row [OF assms(1,2) p assms(3)] assms(4) by (simp add: sweepable_def tag_in_scope)
  then have "t_id d \<in> set (parents ws owner db)" using p assms(2) by (auto simp: parents_iff)
  then show False using assms(4) by (simp add: sweepable_def)
qed

lemma delete_swept:
  fixes ws owner :: string
  assumes "tag_wf db"
  defines "db' \<equiv> db\<lparr>td_tags := sql_delete (sweepable ws owner db) (td_tags db)\<rparr>"
  shows "delete_tags (sweepable ws owner db) (td_tags db) = Inr (td_tags db')" "tag_wf db'"
    "carried ws owner db' = carried ws owner db"
proof -
  have f: "forest (td_tags db)" using assms(1) by (simp add: tag_wf_def)
  show "delete_tags (sweepable ws owner db) (td_tags db) = Inr (td_tags db')"
    using swept_parent [OF f] by (auto simp: delete_tags_def db'_def)
  have kept: "r \<in> set (td_tags db')" if "r \<in> set (td_tags db)" "l \<in> set (td_links db)" "nt_tag l = t_id r" for r l
    using that by (auto simp: db'_def sql_simps sweepable_def referenced_iff tag_in_scope)
  have "parent_ok (td_tags db') r" if "r \<in> set (td_tags db')" for r
  proof -
    have r: "r \<in> set (td_tags db)" using that by (simp add: db'_def sql_simps)
    then have "parent_ok (td_tags db) r" using f by (simp add: forest_def)
    moreover have "q \<in> set (td_tags db')" if "q \<in> set (td_tags db)" "t_parent r = Some (t_id q)" for q
      using that swept_parent [OF f r that(1)] by (auto simp: db'_def sql_simps)
    ultimately show ?thesis
      by (cases "length (path_segments (t_path r)) \<le> 1") (simp_all add: parent_ok_def, blast)
  qed
  then have "forest (td_tags db')"
    using f by (auto simp: forest_def db'_def sql_simps distinct_sql_delete)
  moreover have "\<forall>l\<in>set (td_links db). nt_tag l \<in> t_id ` set (td_tags db')"
    using assms(1) kept by (fastforce simp: tag_wf_def)
  ultimately show "tag_wf db'" using assms(1) by (simp add: tag_wf_def db'_def)
  show "carried ws owner db' = carried ws owner db"
    using kept by (fastforce simp: carried_def db'_def sql_simps)
qed

definition swept :: "string \<Rightarrow> string \<Rightarrow> tag_db \<Rightarrow> tag_db" where
  "swept ws owner db = db\<lparr>td_tags := filter (\<lambda>r. scope_of r = (ws, owner) \<longrightarrow> live ws owner db (t_path r)) (td_tags db)\<rparr>"

lemma sweep_ok:
  "tag_wf db \<Longrightarrow> sweep_orphan_tags ws owner db = Inr (swept ws owner db) \<and> tag_wf (swept ws owner db)"
proof (induction ws owner db rule: sweep_orphan_tags.induct)
  case (1 ws owner db)
  let ?keep = "\<lambda>db r. scope_of r = (ws, owner) \<longrightarrow> live ws owner db (t_path r)"
  show ?case
  proof (cases "sql_count (sweepable ws owner db) (td_tags db) = 0")
    case True
    then have "\<forall>r\<in>set (td_tags db). \<not> sweepable ws owner db r" by (simp add: sql_count_0)
    then have "filter (?keep db) (td_tags db) = td_tags db"
      using all_live [OF "1.prems"] by (simp add: filter_id_conv)
    then have "swept ws owner db = db" by (simp add: swept_def)
    then show ?thesis using True "1.prems" by (simp add: sweep_orphan_tags.simps [of ws owner db])
  next
    case False
    let ?db = "db\<lparr>td_tags := sql_delete (sweepable ws owner db) (td_tags db)\<rparr>"
    note d = delete_swept [OF "1.prems", of ws owner]
    have live: "live ws owner ?db = live ws owner db" using d(3) by (simp add: live_def fun_eq_iff)
    have "filter (?keep db) (sql_delete (sweepable ws owner db) (td_tags db)) = filter (?keep db) (td_tags db)"
      using live_not_sweepable [OF "1.prems", of _ ws owner] unfolding sql_delete_def filter_filter
      by (intro filter_cong refl) (auto simp: sweepable_def tag_in_scope)
    then have "swept ws owner ?db = swept ws owner db" by (simp add: swept_def live)
    then show ?thesis
      using "1.IH" [OF False d(1)] d(1,2) False by (simp add: sweep_orphan_tags.simps [of ws owner db])
  qed
qed

lemma carried_row_live:
  assumes "tag_wf db" "r \<in> set (td_tags db)" "l \<in> set (td_links db)" "nt_tag l = t_id r"
  shows "r \<in> set (td_tags (swept ws owner db))"
proof (cases "scope_of r = (ws, owner)")
  case True
  have f: "forest (td_tags db)" using assms(1) by (simp add: tag_wf_def)
  have "t_path r \<in> carried ws owner db" using True assms by (auto simp: carried_def)
  then have "live ws owner db (t_path r)" using ancestors_self forest_tag_path [OF f assms(2)] by (auto simp: live_def)
  then show ?thesis using assms(2) by (simp add: swept_def)
next
  case False
  then show ?thesis using assms(2) by (simp add: swept_def)
qed

subsection \<open>Synchronizing is exact\<close>

definition note_tags :: "string \<Rightarrow> string \<Rightarrow> tag_db \<Rightarrow> (string \<times> string \<times> string) set" where
  "note_tags ws owner db = {(nt_note l, t_path r, nt_source l) | l r.
     l \<in> set (td_links db) \<and> r \<in> set (td_tags db) \<and> nt_tag l = t_id r \<and> scope_of r = (ws, owner)}"

lemma note_tags_iff: "(n, p, s) \<in> note_tags ws owner db \<longleftrightarrow> (\<exists>l\<in>set (td_links db). \<exists>r\<in>set (td_tags db).
    nt_note l = n \<and> nt_source l = s \<and> nt_tag l = t_id r \<and> t_path r = p \<and> scope_of r = (ws, owner))"
  by (auto simp: note_tags_def)

definition tree_paths :: "string \<Rightarrow> string \<Rightarrow> tag_db \<Rightarrow> string set" where
  "tree_paths ws owner db = {t_path r | r. r \<in> set (td_tags db) \<and> scope_of r = (ws, owner)}"

definition syncable :: "tag_db \<Rightarrow> tagged_notes \<Rightarrow> bool" where
  "syncable db tagged \<longleftrightarrow> distinct (map fst tagged) \<and>
     (\<forall>(n, ps)\<in>set tagged. n \<in> n_id ` set (td_notes db) \<and> distinct (map fst ps) \<and> (\<forall>(p, s)\<in>set ps. canonical p))"

lemma carried_note_tags: "carried ws owner db = (\<lambda>(n, p, s). p) ` note_tags ws owner db"
  by (force simp: carried_def note_tags_def)

lemma note_tags_swept: "tag_wf db \<Longrightarrow> note_tags ws owner (swept ws' owner' db) = note_tags ws owner db"
  using carried_row_live [of db _ _ ws' owner'] unfolding note_tags_def
  by (auto simp: swept_def)

lemma tree_paths_swept:
  assumes "tag_wf db"
  shows "tree_paths ws owner (swept ws owner db) = (\<Union>c\<in>carried ws owner db. set (ancestors c))"
proof -
  have f: "forest (td_tags db)" using assms by (simp add: tag_wf_def)
  show ?thesis
  proof (intro set_eqI iffI)
    fix p
    assume "p \<in> (\<Union>c\<in>carried ws owner db. set (ancestors c))"
    then obtain r where r: "r \<in> set (td_tags db)" "scope_of r = (ws, owner)" "t_path r \<in> carried ws owner db" "p \<in> set (ancestors (t_path r))"
      by (auto simp: carried_def)
    then obtain q where "q \<in> set (td_tags db)" "scope_of q = (ws, owner)" "t_path q = p" using forest_ancestors [OF f] by metis
    then show "p \<in> tree_paths ws owner (swept ws owner db)" using r by (auto simp: tree_paths_def swept_def live_def)
  qed (auto simp: tree_paths_def swept_def live_def)
qed

lemma note_tags_delete:
  "note_tags ws owner (db\<lparr>td_links := sql_delete (\<lambda>l. P (nt_note l)) (td_links db)\<rparr>) = {x \<in> note_tags ws owner db. \<not> P (fst x)}"
  by (rule set_eqI) (simp add: note_tags_def sql_simps, metis fst_conv)

lemma distinct_pairs:
  "distinct (map fst tagged) \<Longrightarrow> \<forall>(n, ps)\<in>set tagged. distinct (map fst ps) \<Longrightarrow>
     distinct (map (\<lambda>(n, p, s). (n, p)) (tagged_pairs tagged)) \<and> fst ` set (tagged_pairs tagged) \<subseteq> fst ` set tagged"
proof (induction tagged)
  case Nil
  then show ?case by (simp add: tagged_pairs_def)
next
  case (Cons x tagged)
  obtain n ps where x: "x = (n, ps)" by (cases x)
  have cons: "tagged_pairs (x # tagged) = map (\<lambda>(p, s). (n, p, s)) ps @ tagged_pairs tagged" by (simp add: tagged_pairs_def x)
  have ih: "distinct (map (\<lambda>(n, p, s). (n, p)) (tagged_pairs tagged))" "fst ` set (tagged_pairs tagged) \<subseteq> fst ` set tagged"
    using Cons by simp_all
  have n: "n \<notin> fst ` set (tagged_pairs tagged)" using Cons.prems(1) ih(2) x by auto
  have "map (\<lambda>(n, p, s). (n, p)) (map (\<lambda>(p, s). (n, p, s)) ps) = map (Pair n) (map fst ps)" by (simp add: case_prod_beta)
  moreover have "distinct (map (Pair n) (map fst ps))" using Cons.prems(2) x by (simp add: distinct_map inj_on_def)
  moreover have "set (map (Pair n) (map fst ps)) \<inter> set (map (\<lambda>(n, p, s). (n, p)) (tagged_pairs tagged)) = {}"
    using n by force
  ultimately have "distinct (map (\<lambda>(n, p, s). (n, p)) (tagged_pairs (x # tagged)))"
    using ih(1) unfolding cons map_append distinct_append by metis
  moreover have "fst ` set (tagged_pairs (x # tagged)) \<subseteq> fst ` set (x # tagged)" using ih(2) unfolding cons by (auto simp: x)
  ultimately show ?case by blast
qed

lemma tagged_pairs_iff: "(n, p, s) \<in> set (tagged_pairs tagged) \<longleftrightarrow> (\<exists>ps. (n, ps) \<in> set tagged \<and> (p, s) \<in> set ps)"
  by (force simp: tagged_pairs_def)

text \<open>The links after the pairs have been added.\<close>

lemma note_tags_synced:
  assumes "tag_wf db" "tag_wf db'" "grows (ws, owner) P (td_tags db) (td_tags db')"
    and "\<forall>(n, p, s)\<in>set pairs. tag_at ws owner p (td_tags db') \<noteq> None"
    and "td_links db' = td_links db @ map (link_of ws owner (td_tags db')) pairs"
  shows "note_tags ws owner db' = note_tags ws owner db \<union> set pairs"
proof (intro set_eqI iffI)
  fix x
  have f': "forest (td_tags db')" using assms(2) by (simp add: tag_wf_def)
  {
    assume "x \<in> note_tags ws owner db'"
    then obtain l r where l: "l \<in> set (td_links db')" "r \<in> set (td_tags db')" "nt_tag l = t_id r" "scope_of r = (ws, owner)"
      "x = (nt_note l, t_path r, nt_source l)"
      by (auto simp: note_tags_def)
    consider "l \<in> set (td_links db)" | n p s where "(n, p, s) \<in> set pairs" "l = link_of ws owner (td_tags db') (n, p, s)"
      using l(1) assms(5) by auto
    then show "x \<in> note_tags ws owner db \<union> set pairs"
    proof cases
      case 1
      then obtain r0 where "r0 \<in> set (td_tags db)" "t_id r0 = nt_tag l" using assms(1) by (fastforce simp: tag_wf_def)
      moreover from this have "r0 = r" using forest_id [OF f'] grows_sub [OF assms(3)] l(2,3) by (metis subset_iff)
      ultimately show ?thesis using 1 l by (auto simp: note_tags_def)
    next
      case 2
      then obtain q where q: "tag_at ws owner p (td_tags db') = Some q" using assms(4) by auto
      then have "nt_tag l = t_id q" "q \<in> set (td_tags db')"
        using 2(2) tid_of_Some [OF q] tag_at_iff [OF f'] by (simp_all add: link_of_def)
      then have "q = r" using forest_id [OF f' _ l(2)] l(3) by simp
      then show ?thesis using 2 l q tag_at_iff [OF f'] by (auto simp: link_of_def)
    qed
  }
  {
    assume "x \<in> note_tags ws owner db \<union> set pairs"
    then consider l r where "l \<in> set (td_links db)" "r \<in> set (td_tags db)" "nt_tag l = t_id r" "scope_of r = (ws, owner)"
        "x = (nt_note l, t_path r, nt_source l)"
      | n p s where "x = (n, p, s)" "(n, p, s) \<in> set pairs"
      by (cases x) (auto simp: note_tags_def)
    then show "x \<in> note_tags ws owner db'"
    proof cases
      case 1
      then show ?thesis using grows_sub [OF assms(3)] assms(5) by (auto simp: note_tags_def)
    next
      case 2
      then obtain q where q: "tag_at ws owner p (td_tags db') = Some q" using assms(4) by auto
      let ?l = "link_of ws owner (td_tags db') (n, p, s)"
      have "q \<in> set (td_tags db')" "scope_of q = (ws, owner)" "t_path q = p" using tag_at_iff [OF f'] q by simp_all
      moreover have "?l \<in> set (td_links db')"
        using imageI [OF 2(2), of "link_of ws owner (td_tags db')"] assms(5) by simp
      moreover have "nt_tag ?l = t_id q" "nt_note ?l = n" "nt_source ?l = s"
        using tid_of_Some [OF q] by (simp_all add: link_of_def)
      ultimately show ?thesis unfolding 2(1) note_tags_iff by blast
    qed
  }
qed

text \<open>Synchronizing tags. For a well-formed table and pairs that are deduplicated per note, over existing
  notes and canonical paths, the call succeeds and leaves a well-formed table in which the notes given
  carry exactly the pairs given, every other note carries what it did, and the tag rows of the workspace
  are exactly the carried paths with all their ancestors: the missing ones were created, the orphans swept,
  in however many passes that takes. Rows of other workspaces and owners are untouched.\<close>

theorem sync_note_tags_exact:
  assumes "tag_wf db" "fresh gen k (td_tags db)" "syncable db tagged" "tagged \<noteq> []"
  shows "\<exists>db'. sync_note_tags_many gen ws owner now tagged k db = Inr db' \<and> tag_wf db' \<and>
     note_tags ws owner db' = {x \<in> note_tags ws owner db. fst x \<notin> fst ` set tagged} \<union> set (tagged_pairs tagged) \<and>
     tree_paths ws owner db' = (\<Union>p\<in>carried ws owner db'. set (ancestors p)) \<and>
     filter (\<lambda>r. scope_of r \<noteq> (ws, owner)) (td_tags db') = filter (\<lambda>r. scope_of r \<noteq> (ws, owner)) (td_tags db)"
proof -
  let ?db = "db\<lparr>td_links := sql_delete (\<lambda>l. nt_note l \<in> fst ` set tagged) (td_links db)\<rparr>"
  have wf: "tag_wf ?db" using assms(1) by (auto simp: tag_wf_def sql_simps distinct_sql_delete)
  have m: "memo_ok ws owner (td_tags ?db) []" by (simp add: memo_ok_def)
  have dp: "distinct (map (\<lambda>(n, p, s). (n, p)) (tagged_pairs tagged))" "fst ` set (tagged_pairs tagged) \<subseteq> fst ` set tagged"
    using distinct_pairs [of tagged] assms(3) by (auto simp: syncable_def)
  have ok: "\<forall>(n, p, s)\<in>set (tagged_pairs tagged). tag_path p \<and> n \<in> n_id ` set (td_notes ?db)"
    using assms(3) by (fastforce simp: tagged_pairs_iff syncable_def canonical_def)
  have free: "\<forall>(n, p, s)\<in>set (tagged_pairs tagged). \<forall>q. tag_at ws owner p (td_tags ?db) = Some q \<longrightarrow>
      (n, t_id q) \<notin> (\<lambda>l. (nt_note l, nt_tag l)) ` set (td_links ?db)"
    using dp(2) by (force simp: sql_simps)
  have fr: "fresh gen k (td_tags ?db)" using assms(2) by simp
  from sync_pairs_ok [OF wf fr m ok dp(1) free]
  obtain memo k' db1 where r: "sync_pairs gen ws owner now (tagged_pairs tagged) [] k ?db = Inr (memo, k', db1)" "tag_wf db1"
    "grows (ws, owner) ((\<lambda>(n, p, s). p) ` set (tagged_pairs tagged)) (td_tags ?db) (td_tags db1)"
    "\<forall>(n, p, s)\<in>set (tagged_pairs tagged). tag_at ws owner p (td_tags db1) \<noteq> None"
    "td_links db1 = td_links ?db @ map (link_of ws owner (td_tags db1)) (tagged_pairs tagged)"
    by blast
  let ?db' = "swept ws owner db1"
  have "sync_note_tags_many gen ws owner now tagged k db = Inr ?db'"
    using r(1) sweep_ok [OF r(2)] assms(4) by (simp add: sync_note_tags_many_def sync_note_tags_many_in_session_def)
  moreover have "tag_wf ?db'" using sweep_ok [OF r(2)] by simp
  moreover have nt: "note_tags ws owner ?db' = note_tags ws owner db1" by (rule note_tags_swept [OF r(2)])
  moreover have "note_tags ws owner db1 = {x \<in> note_tags ws owner db. fst x \<notin> fst ` set tagged} \<union> set (tagged_pairs tagged)"
    using note_tags_synced [OF wf r(2-5)] note_tags_delete [of ws owner "\<lambda>n. n \<in> fst ` set tagged" db] by simp
  moreover have "tree_paths ws owner ?db' = (\<Union>p\<in>carried ws owner ?db'. set (ancestors p))"
    using tree_paths_swept [OF r(2)] nt by (simp add: carried_note_tags)
  moreover have "filter (\<lambda>r. scope_of r \<noteq> (ws, owner)) (td_tags ?db') = filter (\<lambda>r. scope_of r \<noteq> (ws, owner)) (td_tags db)"
    using r(3) by (auto simp: grows_def swept_def conj_commute intro: filter_cong)
  ultimately show ?thesis by auto
qed

text \<open>Deleting the tags of a note.\<close>

lemma delete_note_tags_exact:
  assumes "tag_wf db"
  shows "\<exists>db'. delete_note_tags ws owner note db = Inr db' \<and> tag_wf db' \<and>
     note_tags ws owner db' = {x \<in> note_tags ws owner db. fst x \<noteq> note} \<and>
     tree_paths ws owner db' = (\<Union>p\<in>carried ws owner db'. set (ancestors p))"
proof -
  let ?db = "delete_note_tags_in_session note db"
  have wf: "tag_wf ?db"
    using assms by (auto simp: tag_wf_def delete_note_tags_in_session_def sql_simps distinct_sql_delete)
  have nt: "note_tags ws owner (swept ws owner ?db) = note_tags ws owner ?db" by (rule note_tags_swept [OF wf])
  have "note_tags ws owner ?db = {x \<in> note_tags ws owner db. fst x \<noteq> note}"
    unfolding delete_note_tags_in_session_def by (rule note_tags_delete)
  then show ?thesis
    using sweep_ok [OF wf, of ws owner] nt tree_paths_swept [OF wf, of ws owner]
    by (auto simp: delete_note_tags_def carried_note_tags)
qed

subsection \<open>Reads\<close>

text \<open>On tag paths \<open>GLOB\<close> has no wildcard but the one the query appends.\<close>

lemma glob_plain: "(\<forall>c\<in>set p. c \<notin> {CHR ''*'', CHR ''?'', CHR ''[''}) \<Longrightarrow> sqlite_glob (p @ ''*'') s \<longleftrightarrow> prefix p s"
proof (induction p arbitrary: s)
  case Nil
  show ?case by (auto intro: bexI [of _ "length s"])
next
  case (Cons c p)
  then show ?case by (cases s) auto
qed

lemma glob_descendant:
  assumes "tag_path p"
  shows "sqlite_glob (p @ ''/*'') s \<longleftrightarrow> prefix (p @ ''/'') s"
proof -
  have "\<not> tag_char CHR ''*''" "\<not> tag_char CHR ''?''" "\<not> tag_char CHR ''[''"
    by (simp_all add: tag_char_def tag_seg_char_def word_code)
  then have "\<forall>c\<in>set (p @ ''/''). c \<notin> {CHR ''*'', CHR ''?'', CHR ''[''}"
    using tag_path_chars [OF assms] by auto
  from glob_plain [OF this, of s] show ?thesis by simp
qed

text \<open>Notes by tag. For canonical paths \<open>note_ids_for_tags\<close> returns, once each, the notes that carry one of
  the paths or, when descendants are asked for, a path below one of them; with \<open>work\<close> those of \<open>work/x\<close>,
  never those of \<open>workflow\<close>.\<close>

theorem note_ids_for_tags_exact:
  assumes "tag_wf db" "\<forall>p\<in>set paths. canonical p"
  shows "set (note_ids_for_tags ws owner paths deep db) =
      {n. \<exists>p\<in>set paths. \<exists>q s. (n, q, s) \<in> note_tags ws owner db \<and> (if deep then p \<in> set (ancestors q) else q = p)}
    \<and> distinct (note_ids_for_tags ws owner paths deep db)"
proof -
  have f: "forest (td_tags db)" using assms(1) by (simp add: tag_wf_def)
  have hit: "(t_path r = p \<or> deep \<and> sqlite_glob (p @ ''/*'') (t_path r)) \<longleftrightarrow> (if deep then p \<in> set (ancestors (t_path r)) else t_path r = p)"
    if "r \<in> set (td_tags db)" "p \<in> set paths" for r p
  proof -
    have "tag_path p" "tag_path (t_path r)" using assms(2) that forest_tag_path [OF f] by (auto simp: canonical_def)
    then show ?thesis using glob_descendant ancestors_iff covers_iff by auto
  qed
  have "n \<in> set (note_ids_for_tags ws owner paths deep db) \<longleftrightarrow>
      (\<exists>l\<in>set (td_links db). nt_note l = n \<and> (\<exists>p\<in>set paths. nt_tag l \<in> set (descendant_tag_ids ws owner p deep db)))" for n
    by (auto simp: note_ids_for_tags_def Let_def)
  moreover have desc: "nt_tag l \<in> set (descendant_tag_ids ws owner p deep db) \<longleftrightarrow>
      (\<exists>r\<in>set (td_tags db). nt_tag l = t_id r \<and> scope_of r = (ws, owner) \<and> (if deep then p \<in> set (ancestors (t_path r)) else t_path r = p))"
    if "p \<in> set paths" for l p
  proof -
    have "nt_tag l \<in> set (descendant_tag_ids ws owner p deep db) \<longleftrightarrow> (\<exists>r\<in>set (td_tags db). nt_tag l = t_id r \<and>
        scope_of r = (ws, owner) \<and> (t_path r = p \<or> deep \<and> sqlite_glob (p @ ''/*'') (t_path r)))"
      by (auto simp: descendant_tag_ids_def tag_in_scope)
    then show ?thesis using hit [OF _ that] by (simp cong: bex_cong)
  qed
  moreover have "(\<exists>q s. (n, q, s) \<in> note_tags ws owner db \<and> (if deep then p \<in> set (ancestors q) else q = p)) \<longleftrightarrow>
      (\<exists>l\<in>set (td_links db). nt_note l = n \<and> nt_tag l \<in> set (descendant_tag_ids ws owner p deep db))"
    if "p \<in> set paths" for n p
    unfolding desc [OF that] note_tags_iff by blast
  ultimately have "set (note_ids_for_tags ws owner paths deep db) =
      {n. \<exists>p\<in>set paths. \<exists>q s. (n, q, s) \<in> note_tags ws owner db \<and> (if deep then p \<in> set (ancestors q) else q = p)}" by blast
  then show ?thesis by (simp add: note_ids_for_tags_def Let_def)
qed

definition carriers :: "string \<Rightarrow> string \<Rightarrow> tag_db \<Rightarrow> string \<Rightarrow> string set" where
  "carriers ws owner db p = {n. \<exists>s. (n, p, s) \<in> note_tags ws owner db}"

lemma set_joined: "set (joined P db) = {(r, l). r \<in> set (td_tags db) \<and> P r \<and> l \<in> set (td_links db) \<and> nt_tag l = t_id r}"
  by (auto simp: joined_def)

lemma set_exact_notes:
  "set (exact_notes (map (\<lambda>(r, l). (t_path r, nt_note l)) (joined (tag_in ws owner) db)) p) = carriers ws owner db p"
proof (intro set_eqI)
  fix n
  have "n \<in> set (exact_notes (map (\<lambda>(r, l). (t_path r, nt_note l)) (joined (tag_in ws owner) db)) p) \<longleftrightarrow>
      (\<exists>x\<in>set (joined (tag_in ws owner) db). t_path (fst x) = p \<and> nt_note (snd x) = n)"
    by (force simp: exact_notes_def case_prod_beta)
  also have "\<dots> \<longleftrightarrow> n \<in> carriers ws owner db p"
    by (simp add: set_joined carriers_def note_tags_iff tag_in_scope Bex_def) metis
  finally show "n \<in> set (exact_notes (map (\<lambda>(r, l). (t_path r, nt_note l)) (joined (tag_in ws owner) db)) p) \<longleftrightarrow> n \<in> carriers ws owner db p" .
qed

text \<open>The tag tree. It lists every path of the workspace once, in order, with the number of notes that
  carry exactly that path and the number of notes that carry it or a path below it.\<close>

theorem tag_tree_exact:
  assumes "tag_wf db"
  shows "map tt_path (tag_tree ws owner db) = sorted_list_of_set (tree_paths ws owner db) \<and>
     (\<forall>x\<in>set (tag_tree ws owner db). tt_name x = last_name (tt_path x) \<and>
        tt_exact x = card (carriers ws owner db (tt_path x)) \<and>
        tt_descendants x = card {n. \<exists>q. tt_path x \<in> set (ancestors q) \<and> n \<in> carriers ws owner db q})"
proof -
  have f: "forest (td_tags db)" using assms by (simp add: tag_wf_def)
  let ?paths = "map t_path (filter (tag_in ws owner) (td_tags db))"
  let ?pairs = "map (\<lambda>(r, l). (t_path r, nt_note l)) (joined (tag_in ws owner) db)"
  have set_paths: "set ?paths = tree_paths ws owner db" by (auto simp: tree_paths_def tag_in_scope)
  have inj: "inj_on (\<lambda>r. (scope_of r, t_path r)) (set (td_tags db))" "distinct (td_tags db)"
    using f by (simp_all add: forest_def distinct_map)
  have dist: "distinct ?paths"
    unfolding distinct_map using inj by (auto simp: tag_in_scope inj_on_def)
  have paths: "sort ?paths = sorted_list_of_set (tree_paths ws owner db)"
    using dist set_paths by (metis sorted_list_of_set_sort_remdups distinct_remdups_id)
  have desc: "(\<Union>q\<in>{q \<in> set ?paths. q = p \<or> prefix (p @ ''/'') q}. carriers ws owner db q) = {n. \<exists>q. p \<in> set (ancestors q) \<and> n \<in> carriers ws owner db q}"
    if "p \<in> set ?paths" for p
  proof -
    have car: "q \<in> set ?paths" if "n \<in> carriers ws owner db q" for n q
      using that by (auto simp: carriers_def note_tags_iff tag_in_scope)
    have "tag_path q" if "q \<in> set ?paths" for q using that forest_tag_path [OF f] by auto
    then have anc: "(q = p \<or> prefix (p @ ''/'') q) \<longleftrightarrow> p \<in> set (ancestors q)" if "q \<in> set ?paths" for q
      using covers_iff [of q p] ancestors_iff [of q p] \<open>p \<in> set ?paths\<close> that by blast
    show ?thesis using car anc by blast
  qed
  show ?thesis
  proof (intro conjI ballI)
    show "map tt_path (tag_tree ws owner db) = sorted_list_of_set (tree_paths ws owner db)"
      by (simp add: tag_tree_def Let_def paths o_def)
  next
    fix x
    assume "x \<in> set (tag_tree ws owner db)"
    then obtain p where p: "p \<in> set ?paths"
      and x: "x = \<lparr>tt_path = p, tt_name = last_name p, tt_exact = length (exact_notes ?pairs p),
           tt_descendants = length (remdups (concat (map (exact_notes ?pairs) (filter (\<lambda>q. q = p \<or> prefix (p @ ''/'') q) ?paths))))\<rparr>"
      by (auto simp: tag_tree_def Let_def)
    show "tt_name x = last_name (tt_path x)" by (simp add: x)
    have "distinct (exact_notes ?pairs p)" by (simp add: exact_notes_def)
    then show "tt_exact x = card (carriers ws owner db (tt_path x))"
      using distinct_card [of "exact_notes ?pairs p"] set_exact_notes [of ws owner db p] by (simp add: x)
    have "set (concat (map (exact_notes ?pairs) (filter (\<lambda>q. q = p \<or> prefix (p @ ''/'') q) ?paths))) =
        (\<Union>q\<in>{q \<in> set ?paths. q = p \<or> prefix (p @ ''/'') q}. carriers ws owner db q)"
      unfolding set_concat set_map set_filter image_image set_exact_notes by blast
    then show "tt_descendants x = card {n. \<exists>q. tt_path x \<in> set (ancestors q) \<and> n \<in> carriers ws owner db q}"
      unfolding x using desc [OF p] by (simp add: length_remdups_card_conv)
  qed
qed

subsection \<open>Witnesses\<close>

definition ex_gen :: "nat \<Rightarrow> string" where
  "ex_gen k = CHR ''g'' # replicate k CHR ''x''"

definition ex_tag_note :: "string \<Rightarrow> note_row" where
  "ex_tag_note i = \<lparr>n_id = i, n_workspace = ''w'', n_owner = ''u'', n_title = i, n_folder = [], n_tags = None,
     n_created_at = [], n_updated_at = [], n_occurred_at = None, n_period = None, n_index_generation = 1, n_index_state = ''stale'', n_indexed_at = None\<rparr>"

definition ex_tag_db :: tag_db where
  "ex_tag_db = \<lparr>td_tags = [new_tag ''t'' ''w'' ''u'' [] ''old'' None], td_links = [\<lparr>nt_note = ''n'', nt_tag = ''t'', nt_source = ''inline''\<rparr>],
     td_notes = [ex_tag_note ''n'']\<rparr>"

lemma ex_tag_wf: "tag_wf ex_tag_db"
proof -
  have 1: "tag_path ''old''" by code_simp
  have 2: "path_segments ''old'' = [''old'']" by code_simp
  show ?thesis using 1 2 by (simp add: tag_wf_def forest_def ex_tag_db_def new_tag_def parent_ok_def)
qed

lemma ex_fresh_gen: "fresh ex_gen 0 (td_tags ex_tag_db)"
  by (auto simp: fresh_def ex_tag_db_def new_tag_def ex_gen_def inj_def)

theorem sync_note_tags_exact_witness:
  "\<exists>db'. sync_note_tags_many ex_gen ''w'' ''u'' ''now'' [(''n'', [(''work/x'', ''frontmatter'')])] 0 ex_tag_db = Inr db' \<and>
     tag_wf db' \<and> note_tags ''w'' ''u'' db' = {(''n'', ''work/x'', ''frontmatter'')} \<and> tree_paths ''w'' ''u'' db' = {''work'', ''work/x''}"
proof -
  have c: "canonical ''work/x''" by code_simp
  have a: "ancestors ''work/x'' = [''work'', ''work/x'']" by code_simp
  have s: "syncable ex_tag_db [(''n'', [(''work/x'', ''frontmatter'')])]"
    using c by (simp add: syncable_def ex_tag_db_def ex_tag_note_def)
  have old: "{x \<in> note_tags ''w'' ''u'' ex_tag_db. fst x \<noteq> ''n''} = {}"
    by (auto simp: note_tags_def ex_tag_db_def)
  obtain db' where d: "sync_note_tags_many ex_gen ''w'' ''u'' ''now'' [(''n'', [(''work/x'', ''frontmatter'')])] 0 ex_tag_db = Inr db'"
    "tag_wf db'" "note_tags ''w'' ''u'' db' = {(''n'', ''work/x'', ''frontmatter'')}"
    "tree_paths ''w'' ''u'' db' = (\<Union>p\<in>carried ''w'' ''u'' db'. set (ancestors p))"
    using sync_note_tags_exact [OF ex_tag_wf ex_fresh_gen s, of "''w''" "''u''" "''now''"] unfolding tagged_pairs_def
    by (simp add: old) blast
  then show ?thesis by (auto simp: carried_note_tags a)
qed

lemma ex_note_tags: "note_tags ''w'' ''u'' ex_tag_db = {(''n'', ''old'', ''inline'')}"
  by (auto simp: note_tags_def ex_tag_db_def new_tag_def scope_of_def)

theorem note_ids_for_tags_exact_witness: "set (note_ids_for_tags ''w'' ''u'' [''old''] True ex_tag_db) = {''n''}"
proof -
  have c: "canonical ''old''" and a: "ancestors ''old'' = [''old'']" by code_simp+
  have "\<forall>p\<in>set [''old'']. canonical p" using c by simp
  from note_ids_for_tags_exact [OF ex_tag_wf this, of "''w''" "''u''" True] a
  show ?thesis by (simp add: ex_note_tags)
qed

theorem tag_tree_exact_witness: "map tt_path (tag_tree ''w'' ''u'' ex_tag_db) = [''old'']"
proof -
  have "tree_paths ''w'' ''u'' ex_tag_db = {''old''}" by (auto simp: tree_paths_def ex_tag_db_def new_tag_def scope_of_def)
  then show ?thesis using tag_tree_exact [OF ex_tag_wf, of "''w''" "''u''"] by simp
qed

end
