(* ===== verification/Workspace_Lock.thy ===== *)
theory Workspace_Lock
  imports Prelude
begin

section \<open>The workspace lock\<close>

text \<open>
  Models \<open>locking.py\<close> and the transaction machinery of \<open>repositories/git.py\<close>: \<open>PostCommitHooks\<close>,
  \<open>_fire_post_commit\<close>, \<open>_record_post_commit\<close>, \<open>defer_workspace_postprocess\<close>, \<open>_cross_process_lock\<close>,
  \<open>_workspace_lock\<close>. One thread and one workspace: the thread-local dictionary of transaction states
  has at most the entry of that workspace. A run of the code under the lock is a list of actions; what
  the outside sees is a trace of events. Hooks and callbacks are named by numbers.
\<close>

subsection \<open>The file lock\<close>

datatype flock_result = Acquired nat | TimedOut nat

text \<open>The polling loop: \<open>free k\<close> says whether attempt \<open>k\<close> gets the lock, \<open>clock k\<close> is the time read
  after it failed. Nothing bounds the loop but the clock, so it is a partial function.\<close>

partial_function (option) flock_poll :: "(nat \<Rightarrow> bool) \<Rightarrow> (nat \<Rightarrow> rat) \<Rightarrow> rat \<Rightarrow> nat \<Rightarrow> flock_result option" where
  "flock_poll free clock deadline k =
     (if free k then Some (Acquired k)
      else if clock k \<ge> deadline then Some (TimedOut k)
      else flock_poll free clock deadline (Suc k))"

text \<open>\<open>timeout=None\<close> waits in the kernel until the lock is free.\<close>

partial_function (option) flock_block :: "(nat \<Rightarrow> bool) \<Rightarrow> nat \<Rightarrow> flock_result option" where
  "flock_block free k = (if free k then Some (Acquired k) else flock_block free (Suc k))"

definition flock_exclusive :: "(nat \<Rightarrow> bool) \<Rightarrow> (nat \<Rightarrow> rat) \<Rightarrow> rat \<Rightarrow> rat option \<Rightarrow> flock_result option" where
  "flock_exclusive free clock start timeout =
     (case timeout of None \<Rightarrow> flock_block free 0 | Some t \<Rightarrow> flock_poll free clock (start + t) 0)"

lemma flock_poll_until:
  assumes "\<And>i. k \<le> i \<Longrightarrow> i < n \<Longrightarrow> \<not> free i \<and> clock i < deadline" and "k \<le> n"
  shows "flock_poll free clock deadline k = flock_poll free clock deadline n"
  using assms
proof (induction "n - k" arbitrary: k)
  case 0
  then show ?case by simp
next
  case (Suc d)
  have "k < n" using Suc.hyps(2) by simp
  then have "\<not> free k \<and> clock k < deadline" using Suc.prems(1) [of k] by simp
  then have "flock_poll free clock deadline k = flock_poll free clock deadline (Suc k)"
    by (subst flock_poll.simps) simp
  also have "\<dots> = flock_poll free clock deadline n" using Suc.hyps(2) Suc.prems by (intro Suc.hyps(1)) auto
  finally show ?case .
qed

text \<open>Taking the lock ends. When every failed attempt is followed by a sleep of 50 milliseconds,
  the polling loop returns after at most one attempt more than the timeout has such steps: with the
  first attempt that found the lock free, or with a timeout that no attempt so far had, once the
  deadline has passed.\<close>

theorem flock_exclusive_ends:
  assumes "\<And>k. start + of_nat k / 20 \<le> clock k"
  shows "\<exists>r. flock_exclusive free clock start (Some t) = Some r \<and>
    (case r of
       Acquired k \<Rightarrow> free k \<and> (\<forall>i<k. \<not> free i \<and> clock i < start + t)
     | TimedOut k \<Rightarrow> (\<forall>i\<le>k. \<not> free i) \<and> start + t \<le> clock k \<and> (\<forall>i<k. clock i < start + t)) \<and>
    (case r of Acquired k \<Rightarrow> k | TimedOut k \<Rightarrow> k) \<le> nat \<lceil>20 * t\<rceil>"
proof -
  let ?stop = "\<lambda>k. free k \<or> start + t \<le> clock k" and ?N = "nat \<lceil>20 * t\<rceil>"
  have "20 * t \<le> of_nat ?N" by linarith
  then have "start + t \<le> start + of_nat ?N / 20" by simp
  also have "\<dots> \<le> clock ?N" by (rule assms)
  finally have N: "?stop ?N" by simp
  define k where "k = (LEAST k. ?stop k)"
  have k: "?stop k" "k \<le> ?N" "\<And>i. i < k \<Longrightarrow> \<not> free i \<and> clock i < start + t"
  proof -
    show "?stop k" unfolding k_def using N by (rule LeastI)
    show "k \<le> ?N" unfolding k_def using N by (rule Least_le)
    show "\<not> free i \<and> clock i < start + t" if "i < k" for i
      using not_less_Least [OF that [unfolded k_def]] by (simp add: not_le)
  qed
  have "flock_poll free clock (start + t) 0 = flock_poll free clock (start + t) k"
    by (rule flock_poll_until) (use k(3) in auto)
  also have "\<dots> = Some (if free k then Acquired k else TimedOut k)"
    using k(1) by (subst flock_poll.simps) auto
  finally have r: "flock_exclusive free clock start (Some t) = Some (if free k then Acquired k else TimedOut k)"
    by (simp add: flock_exclusive_def)
  show ?thesis
  proof (cases "free k")
    case True
    then show ?thesis using r k(2,3) by simp
  next
    case False
    then have "\<forall>i\<le>k. \<not> free i" using k(3) by (metis le_neq_implies_less)
    then show ?thesis using r k False by simp
  qed
qed

text \<open>Waiting without a timeout ends exactly when the lock becomes free.\<close>

lemma flock_block_ends: "free k \<Longrightarrow> \<exists>r. flock_exclusive free clock start None = Some r"
proof -
  have "i \<le> k \<Longrightarrow> free k \<Longrightarrow> \<exists>r. flock_block free i = Some r" for i
  proof (induction "k - i" arbitrary: i)
    case 0
    then show ?case by (subst flock_block.simps) simp
  next
    case (Suc d)
    then show ?case by (subst flock_block.simps) auto
  qed
  then show "free k \<Longrightarrow> \<exists>r. flock_exclusive free clock start None = Some r"
    by (simp add: flock_exclusive_def)
qed

subsection \<open>Transactions\<close>

text \<open>\<open>_TransactionState\<close>: the hooks of the last commit and the deferred callbacks.\<close>

record tx =
  tx_hooks :: "nat option"
  tx_release :: "nat list"

datatype event = Locked | Unlocked | Fired nat | Ran nat

text \<open>What code does under the lock: a commit records its hooks, derived work is deferred, a nested
  helper opens the lock again (the flag says whether the cross-process lock comes in time), an
  exception is raised.\<close>

datatype act = Commit "nat option" | Defer nat | Within bool "act list" | Raise

definition fire_post_commit :: "nat option \<Rightarrow> event list" where
  "fire_post_commit hooks = (case hooks of None \<Rightarrow> [] | Some h \<Rightarrow> [Fired h])"

definition record_post_commit :: "nat option \<Rightarrow> tx option \<Rightarrow> tx option \<times> event list" where
  "record_post_commit hooks st = (case st of
      None \<Rightarrow> (None, fire_post_commit hooks)
    | Some t \<Rightarrow> (Some (t\<lparr>tx_hooks := hooks\<rparr>), []))"

text \<open>\<open>raises c\<close>: callback \<open>c\<close> raises an exception. The result says whether one was raised.\<close>

definition defer_workspace_postprocess :: "(nat \<Rightarrow> bool) \<Rightarrow> nat \<Rightarrow> tx option \<Rightarrow> bool \<times> tx option \<times> event list" where
  "defer_workspace_postprocess raises c st = (case st of
      None \<Rightarrow> (raises c, None, [Ran c])
    | Some t \<Rightarrow> (False, Some (t\<lparr>tx_release := tx_release t @ [c]\<rparr>), []))"

fun run_release :: "(nat \<Rightarrow> bool) \<Rightarrow> nat list \<Rightarrow> bool \<times> event list" where
  "run_release raises [] = (False, [])"
| "run_release raises (c # cs) =
     (if raises c then (True, [Ran c])
      else case run_release raises cs of (r, evs) \<Rightarrow> (r, Ran c # evs))"

text \<open>The end of \<open>_workspace_lock\<close>, after both locks are released.\<close>

definition after_release :: "(nat \<Rightarrow> bool) \<Rightarrow> tx \<Rightarrow> bool \<times> event list" where
  "after_release raises t =
     (case run_release raises (tx_release t) of (r, evs) \<Rightarrow> (r, fire_post_commit (tx_hooks t) @ evs))"

fun run :: "(nat \<Rightarrow> bool) \<Rightarrow> act \<Rightarrow> tx option \<Rightarrow> bool \<times> tx option \<times> event list"
  and run_list :: "(nat \<Rightarrow> bool) \<Rightarrow> act list \<Rightarrow> tx option \<Rightarrow> bool \<times> tx option \<times> event list" where
  "run raises (Commit hooks) st = (False, record_post_commit hooks st)"
| "run raises (Defer c) st = defer_workspace_postprocess raises c st"
| "run raises Raise st = (True, st, [])"
| "run raises (Within lock_ok acts) (Some t) = run_list raises acts (Some t)"
| "run raises (Within lock_ok acts) None =
     (if \<not> lock_ok then (True, None, [])
      else case run_list raises acts (Some \<lparr>tx_hooks = None, tx_release = []\<rparr>) of
        (raised, st, evs) \<Rightarrow>
          (case after_release raises (the st) of
             (raised', evs') \<Rightarrow> (raised \<or> raised', None, [Locked] @ evs @ [Unlocked] @ evs')))"
| "run_list raises [] st = (False, st, [])"
| "run_list raises (a # as) st =
     (case run raises a st of
        (True, st', evs) \<Rightarrow> (True, st', evs)
      | (False, st', evs) \<Rightarrow> (case run_list raises as st' of (r, st'', evs') \<Rightarrow> (r, st'', evs @ evs')))"

subsection \<open>What runs, and when\<close>

text \<open>The primitive actions executed by the body, nested helpers included, up to an exception.\<close>

fun executed :: "act \<Rightarrow> act list \<times> bool" and executed_list :: "act list \<Rightarrow> act list \<times> bool" where
  "executed (Within lock_ok acts) = executed_list acts"
| "executed Raise = ([], True)"
| "executed (Commit h) = ([Commit h], False)"
| "executed (Defer c) = ([Defer c], False)"
| "executed_list [] = ([], False)"
| "executed_list (a # as) = (case executed a of
      (xs, True) \<Rightarrow> (xs, True)
    | (xs, False) \<Rightarrow> (case executed_list as of (ys, r) \<Rightarrow> (xs @ ys, r)))"

definition commits :: "act list \<Rightarrow> nat option list" where
  "commits xs = concat (map (\<lambda>a. case a of Commit h \<Rightarrow> [h] | _ \<Rightarrow> []) xs)"

definition deferred :: "act list \<Rightarrow> nat list" where
  "deferred xs = concat (map (\<lambda>a. case a of Defer c \<Rightarrow> [c] | _ \<Rightarrow> []) xs)"

definition effect :: "act list \<Rightarrow> tx \<Rightarrow> tx" where
  "effect xs t = \<lparr>tx_hooks = (if commits xs = [] then tx_hooks t else last (commits xs)), tx_release = tx_release t @ deferred xs\<rparr>"

lemma effect_append: "effect (xs @ ys) t = effect ys (effect xs t)"
  by (simp add: effect_def commits_def deferred_def)

lemma effect_Nil: "effect [] t = t"
  by (simp add: effect_def commits_def deferred_def)

text \<open>Inside a transaction nothing is visible: the body only updates the transaction state.\<close>

lemma run_inside:
  "run raises a (Some t) = (snd (executed a), Some (effect (fst (executed a)) t), [])"
  "run_list raises as (Some t) = (snd (executed_list as), Some (effect (fst (executed_list as)) t), [])"
proof (induction a and as arbitrary: t and t rule: executed_executed_list.induct)
  case (6 a as)
  then show ?case by (cases "executed a"; cases "executed_list as") (auto simp: effect_append split: bool.splits)
qed (auto simp: record_post_commit_def defer_workspace_postprocess_def effect_def commits_def deferred_def)

text \<open>Derived work waits for the lock. Whatever a transaction does, nested helpers included, and
  whether it ends with an exception or not, the outside sees the lock taken and released once with
  nothing in between; then the hooks of its last commit fire, at most once; then the deferred callbacks
  run in order, up to the first that raises. The transaction state is gone afterwards.\<close>

theorem derived_work_after_release:
  shows "run raises (Within True acts) None =
    (case executed_list acts of (xs, r) \<Rightarrow>
      (r \<or> (\<exists>c\<in>set (deferred xs). raises c), None,
       [Locked, Unlocked] @ fire_post_commit (if commits xs = [] then None else last (commits xs)) @
       map Ran (takeWhile (\<lambda>c. \<not> raises c) (deferred xs) @
         (case dropWhile (\<lambda>c. \<not> raises c) (deferred xs) of [] \<Rightarrow> [] | c # _ \<Rightarrow> [c]))))"
proof -
  have "run_release raises cs = (\<exists>c\<in>set cs. raises c, map Ran (takeWhile (\<lambda>c. \<not> raises c) cs @
      (case dropWhile (\<lambda>c. \<not> raises c) cs of [] \<Rightarrow> [] | c # _ \<Rightarrow> [c])))" for cs
    by (induction cs) (auto split: list.splits)
  then show ?thesis
    by (cases "executed_list acts") (simp add: run_inside after_release_def effect_def)
qed

text \<open>A transaction that does not get the cross-process lock does nothing; outside a transaction a
  commit notifies at once and derived work runs at once.\<close>

lemma outside_transaction:
  "run raises (Within False acts) None = (True, None, [])"
  "run raises (Commit (Some h)) None = (False, None, [Fired h])"
  "run raises (Defer c) None = (raises c, None, [Ran c])"
  by (simp_all add: record_post_commit_def fire_post_commit_def defer_workspace_postprocess_def)

subsection \<open>Example\<close>

theorem flock_exclusive_ends_witness:
  "\<exists>k. flock_exclusive (\<lambda>k. False) (\<lambda>k. of_nat k / 20) 0 (Some 1) = Some (TimedOut k) \<and> k \<le> 20"
proof -
  have "\<exists>r. flock_exclusive (\<lambda>k. False) (\<lambda>k. of_nat k / 20) 0 (Some 1) = Some r \<and>
    (case r of
       Acquired k \<Rightarrow> False \<and> (\<forall>i<k. \<not> False \<and> (of_nat i / 20 :: rat) < 0 + 1)
     | TimedOut k \<Rightarrow> (\<forall>i\<le>k. \<not> False) \<and> 0 + 1 \<le> (of_nat k / 20 :: rat) \<and> (\<forall>i<k. (of_nat i / 20 :: rat) < 0 + 1)) \<and>
    (case r of Acquired k \<Rightarrow> k | TimedOut k \<Rightarrow> k) \<le> nat \<lceil>20 * (1 :: rat)\<rceil>"
    by (rule flock_exclusive_ends) simp
  then obtain r where "flock_exclusive (\<lambda>k. False) (\<lambda>k. of_nat k / 20) 0 (Some 1) = Some r \<and>
      (case r of Acquired k \<Rightarrow> False | TimedOut k \<Rightarrow> k \<le> 20)"
    by (elim exE) (rename_tac q, case_tac q, simp_all)
  then show ?thesis by (cases r) simp_all
qed

end
