(* ===== verification/Events.thy ===== *)
theory Events
  imports Auth
begin

section \<open>The outbox and the event socket\<close>

text \<open>
  Models \<open>repositories/events.py\<close> (class \<open>EventRepository\<close>) over \<open>models.Event\<close>, and the connection of
  \<open>api/ws.py\<close>: the handshake, the periodic check of the session and the delivery of events with a cursor
  of its own (\<open>ws_endpoint\<close>). A column \<open>payload\<close> that is not JSON is \<^const>\<open>None\<close>. The rest is the transition
  system of one connection, transactions that stage and commit events, and the sweep.
\<close>

subsection \<open>Definitions\<close>

record event_row =
  ev_id :: string
  ev_owner :: string
  ev_kind :: string
  ev_payload :: "json option"
  ev_created_at :: epoch

record outbox_event =
  oe_id :: string
  oe_created_at :: epoch
  oe_payload :: "json option"

definition publish_in_session ::
  "string \<Rightarrow> epoch \<Rightarrow> string \<Rightarrow> string \<Rightarrow> json \<Rightarrow> event_row list \<Rightarrow> db_error + event_row list" where
  "publish_in_session eid now owner kind payload rows =
     sql_insert ev_id \<lparr>ev_id = eid, ev_owner = owner, ev_kind = kind, ev_payload = Some payload, ev_created_at = now\<rparr> rows"

definition publish :: "string \<Rightarrow> epoch \<Rightarrow> string \<Rightarrow> string \<Rightarrow> json \<Rightarrow> event_row list \<Rightarrow> db_error + event_row list" where
  "publish eid now owner kind payload rows = publish_in_session eid now owner kind payload rows"

definition outbox_event_of :: "event_row \<Rightarrow> outbox_event" where
  "outbox_event_of r = \<lparr>oe_id = ev_id r, oe_created_at = ev_created_at r, oe_payload = ev_payload r\<rparr>"

definition read_since :: "string \<Rightarrow> string list \<Rightarrow> epoch \<Rightarrow> string list \<Rightarrow> event_row list \<Rightarrow> outbox_event list" where
  "read_since owner kinds since exclude_ids rows =
     map outbox_event_of (filter (\<lambda>r. ev_id r \<notin> set exclude_ids)
       (sort_key ev_created_at (filter (\<lambda>r. ev_owner r = owner \<and> ev_kind r \<in> set kinds \<and> since \<le> ev_created_at r) rows)))"

definition sweep_events :: "epoch \<Rightarrow> epoch \<Rightarrow> event_row list \<Rightarrow> nat \<times> event_row list" where
  "sweep_events older_than_s now rows =
     (let cutoff = now - older_than_s
      in (sql_count (\<lambda>r. ev_created_at r < cutoff) rows, sql_delete (\<lambda>r. ev_created_at r < cutoff) rows))"

text \<open>The socket. What one turn of the loop meets is a \<open>ws_env\<close>: whether the client disconnected while the
  loop waited, the two clocks, the tables (\<^const>\<open>None\<close>: the read raised) and which sends land.\<close>

definition WS_KINDS :: "string list" where
  "WS_KINDS = [''note_updated'', ''workspace_changed'']"

definition REVALIDATE_INTERVAL_S :: epoch where
  "REVALIDATE_INTERVAL_S = 30"

record ws_conn =
  ws_cookies :: "string \<rightharpoonup> string"
  ws_user :: string
  watermark :: epoch
  sent_at_watermark :: "string list"
  next_revalidate :: epoch
  ws_open :: bool

record ws_env =
  we_disconnected :: bool
  we_monotonic :: epoch
  we_now :: epoch
  we_auth :: "oauth_db option"
  we_events :: "event_row list option"
  we_lands :: "outbox_event \<Rightarrow> bool"

definition ws_accept :: "(string \<rightharpoonup> string) \<Rightarrow> epoch \<Rightarrow> epoch \<Rightarrow> oauth_db \<Rightarrow> ws_conn option" where
  "ws_accept cookies monotonic now db =
     (case resolve_session_user_from_cookies cookies now db of
        None \<Rightarrow> None
      | Some u \<Rightarrow> Some \<lparr>ws_cookies = cookies, ws_user = u_id u, watermark = 0, sent_at_watermark = [],
          next_revalidate = monotonic + REVALIDATE_INTERVAL_S, ws_open = True\<rparr>)"

definition ws_advance :: "outbox_event \<Rightarrow> ws_conn \<Rightarrow> ws_conn" where
  "ws_advance e c =
     (if watermark c < oe_created_at e then c\<lparr>watermark := oe_created_at e, sent_at_watermark := [oe_id e]\<rparr>
      else c\<lparr>sent_at_watermark := sent_at_watermark c @ [oe_id e]\<rparr>)"

fun ws_deliver :: "(outbox_event \<Rightarrow> bool) \<Rightarrow> outbox_event list \<Rightarrow> ws_conn \<Rightarrow> outbox_event list \<times> ws_conn" where
  "ws_deliver lands [] c = ([], c)"
| "ws_deliver lands (e # es) c =
     (if oe_payload e = None then ws_deliver lands es (ws_advance e c)
      else if lands e then (let (sent, c') = ws_deliver lands es (ws_advance e c) in (e # sent, c'))
      else ([], c\<lparr>ws_open := False\<rparr>))"

definition ws_tick :: "ws_env \<Rightarrow> ws_conn \<Rightarrow> outbox_event list \<times> ws_conn" where
  "ws_tick env c =
     (if \<not> ws_open c then ([], c)
      else if we_disconnected env then ([], c\<lparr>ws_open := False\<rparr>)
      else
        (let due = next_revalidate c \<le> we_monotonic env;
             c1 = (if due then c\<lparr>next_revalidate := we_monotonic env + REVALIDATE_INTERVAL_S\<rparr> else c);
             gone = (due \<and> (case we_auth env of None \<Rightarrow> False
                        | Some db \<Rightarrow> resolve_session_user_from_cookies (ws_cookies c) (we_now env) db = None))
         in if gone then ([], c1\<lparr>ws_open := False\<rparr>)
            else (case we_events env of
                None \<Rightarrow> ([], c1)
              | Some rows \<Rightarrow> ws_deliver (we_lands env) (read_since (ws_user c) WS_KINDS (watermark c) (sent_at_watermark c) rows) c1)))"

fun ws_run :: "ws_env list \<Rightarrow> ws_conn \<Rightarrow> outbox_event list list \<times> ws_conn" where
  "ws_run [] c = ([], c)"
| "ws_run (env # envs) c = (let (sent, c1) = ws_tick env c; (rest, c2) = ws_run envs c1 in (sent # rest, c2))"

subsection \<open>The outbox as a transition system\<close>

text \<open>\<open>ob_staged\<close> are events of open transactions: \<open>created_at\<close> is read when the event is staged, before
  the transaction commits. The last fields are histories: every event committed, what this connection
  sent, and the identifiers used. In \<open>outbox_step True\<close> events are committed in the order of \<open>created_at\<close>.\<close>

record outbox =
  ob_rows :: "event_row list"
  ob_staged :: "event_row list"
  ob_conn :: ws_conn
  ob_history :: "event_row list"
  ob_delivered :: "outbox_event list"
  ob_ids :: "string set"

definition outbox_init :: "ws_conn \<Rightarrow> outbox" where
  "outbox_init c = \<lparr>ob_rows = [], ob_staged = [], ob_conn = c, ob_history = [], ob_delivered = [], ob_ids = {}\<rparr>"

inductive outbox_step :: "bool \<Rightarrow> outbox \<Rightarrow> outbox \<Rightarrow> bool" for in_order where
  stage: "ev_id e \<notin> ob_ids s \<Longrightarrow> 0 \<le> ev_created_at e \<Longrightarrow>
     outbox_step in_order s (s\<lparr>ob_staged := e # ob_staged s, ob_ids := insert (ev_id e) (ob_ids s)\<rparr>)"
| commit: "e \<in> set (ob_staged s) \<Longrightarrow> in_order \<longrightarrow> (\<forall>h\<in>set (ob_history s). ev_created_at h \<le> ev_created_at e) \<Longrightarrow>
     sql_insert ev_id e (ob_rows s) = Inr rows \<Longrightarrow>
     outbox_step in_order s (s\<lparr>ob_rows := rows, ob_staged := remove1 e (ob_staged s), ob_history := e # ob_history s\<rparr>)"
| rollback: "e \<in> set (ob_staged s) \<Longrightarrow> outbox_step in_order s (s\<lparr>ob_staged := remove1 e (ob_staged s)\<rparr>)"
| swept: "outbox_step in_order s (s\<lparr>ob_rows := snd (sweep_events older now (ob_rows s))\<rparr>)"
| tick: "we_events env \<in> {None, Some (ob_rows s)} \<Longrightarrow> ws_tick env (ob_conn s) = (sent, c) \<Longrightarrow>
     outbox_step in_order s (s\<lparr>ob_conn := c, ob_delivered := ob_delivered s @ sent\<rparr>)"

subsection \<open>The cursor\<close>

text \<open>The cursor is past an event when a read leaves it out.\<close>

definition past :: "ws_conn \<Rightarrow> string \<Rightarrow> epoch \<Rightarrow> bool" where
  "past c i t \<longleftrightarrow> t < watermark c \<or> t = watermark c \<and> i \<in> set (sent_at_watermark c)"

lemma ws_advance_keeps [simp]: "ws_user (ws_advance e c) = ws_user c" "ws_cookies (ws_advance e c) = ws_cookies c"
  "next_revalidate (ws_advance e c) = next_revalidate c" "ws_open (ws_advance e c) = ws_open c"
  by (simp_all add: ws_advance_def)

lemma fold_advance_keeps [simp]: "ws_user (fold ws_advance es c) = ws_user c" "ws_cookies (fold ws_advance es c) = ws_cookies c"
  "next_revalidate (fold ws_advance es c) = next_revalidate c" "ws_open (fold ws_advance es c) = ws_open c"
  by (induction es arbitrary: c) simp_all

lemma past_advance: "past c i t \<Longrightarrow> past (ws_advance e c) i t"
  by (auto simp: past_def ws_advance_def)

lemma past_advance_self: "watermark c \<le> oe_created_at e \<Longrightarrow> past (ws_advance e c) (oe_id e) (oe_created_at e)"
  by (auto simp: past_def ws_advance_def)

lemma past_fold: "past c i t \<Longrightarrow> past (fold ws_advance es c) i t"
  by (induction es arbitrary: c) (simp_all add: past_advance)

lemma watermark_advance: "watermark (ws_advance e c) = max (watermark c) (oe_created_at e)"
  by (simp add: ws_advance_def)

lemma sent_advance: "set (sent_at_watermark (ws_advance e c)) \<subseteq> insert (oe_id e) (set (sent_at_watermark c))"
  by (auto simp: ws_advance_def)

lemma fold_advance:
  "sorted (map oe_created_at es) \<Longrightarrow> \<forall>e\<in>set es. watermark c \<le> oe_created_at e \<Longrightarrow>
     (\<forall>e\<in>set es. past (fold ws_advance es c) (oe_id e) (oe_created_at e)) \<and>
     watermark (fold ws_advance es c) \<in> insert (watermark c) (oe_created_at ` set es) \<and>
     set (sent_at_watermark (fold ws_advance es c)) \<subseteq> set (sent_at_watermark c) \<union> oe_id ` set es"
proof (induction es arbitrary: c)
  case Nil
  then show ?case by simp
next
  case (Cons e es)
  have le: "\<forall>x\<in>set es. watermark (ws_advance e c) \<le> oe_created_at x"
    using Cons.prems by (simp add: watermark_advance)
  have ps: "past (fold ws_advance es (ws_advance e c)) (oe_id e) (oe_created_at e)"
    using Cons.prems by (intro past_fold past_advance_self) simp
  have wm: "watermark (ws_advance e c) \<in> {watermark c, oe_created_at e}"
    by (simp add: watermark_advance max_def)
  have sd: "sorted (map oe_created_at es)" using Cons.prems(1) by simp
  note ih = Cons.IH [OF sd le]
  show ?case
  proof (intro conjI)
    show "\<forall>x\<in>set (e # es). past (fold ws_advance (e # es) c) (oe_id x) (oe_created_at x)" using ih ps by simp
    show "watermark (fold ws_advance (e # es) c) \<in> insert (watermark c) (oe_created_at ` set (e # es))" 
      using ih [THEN conjunct2, THEN conjunct1] wm by (simp only: fold_simps list.set image_insert) (metis insert_iff empty_iff)
    show "set (sent_at_watermark (fold ws_advance (e # es) c)) \<subseteq> set (sent_at_watermark c) \<union> oe_id ` set (e # es)"
      using ih sent_advance [of e c] by (simp only: fold_simps list.set image_insert) blast
  qed
qed

lemma watermark_fold_mono: "watermark c \<le> watermark (fold ws_advance es c)"
proof (induction es arbitrary: c)
  case (Cons e es)
  from Cons [of "ws_advance e c"] show ?case by (simp add: watermark_advance)
qed simp

text \<open>Delivery handles an initial part of what was read, and all of it if the socket stays open.\<close>

lemma ws_deliver_split:
  "\<exists>es1 es2. es = es1 @ es2 \<and> ws_deliver lands es c =
     (filter (\<lambda>e. oe_payload e \<noteq> None) es1, (fold ws_advance es1 c)\<lparr>ws_open := ws_open c \<and> es2 = []\<rparr>)"
proof (induction es arbitrary: c)
  case Nil
  then show ?case by simp
next
  case (Cons e es)
  from Cons obtain es1 es2 where ih: "es = es1 @ es2" "ws_deliver lands es (ws_advance e c) =
      (filter (\<lambda>e. oe_payload e \<noteq> None) es1, (fold ws_advance es1 (ws_advance e c))\<lparr>ws_open := ws_open c \<and> es2 = []\<rparr>)"
    using Cons.IH [of "ws_advance e c"] unfolding ws_advance_keeps by blast
  show ?case
  proof (cases "oe_payload e = None \<or> lands e")
    case True
    then have "ws_deliver lands (e # es) c = (filter (\<lambda>e. oe_payload e \<noteq> None) (e # es1),
        (fold ws_advance (e # es1) c)\<lparr>ws_open := ws_open c \<and> es2 = []\<rparr>)"
      by (cases "oe_payload e = None") (simp_all add: ih(2))
    then show ?thesis using ih(1) by (metis append_Cons)
  next
    case False
    then have "ws_deliver lands (e # es) c = (filter (\<lambda>e. oe_payload e \<noteq> None) [],
        (fold ws_advance [] c)\<lparr>ws_open := ws_open c \<and> e # es = []\<rparr>)" by auto
    then show ?thesis by (metis append_Nil)
  qed
qed

lemma ws_deliver_all: "\<forall>e\<in>set es. lands e \<Longrightarrow> ws_deliver lands es c = (filter (\<lambda>e. oe_payload e \<noteq> None) es, fold ws_advance es c)"
  by (induction es arbitrary: c) auto

lemma sorted_map_filter_key: "sorted (map f xs) \<Longrightarrow> sorted (map f (filter P xs))"
  by (rule sorted_filter)

lemma read_since_facts:
  "set (read_since owner kinds since ex rows) =
     outbox_event_of ` {r \<in> set rows. ev_owner r = owner \<and> ev_kind r \<in> set kinds \<and> since \<le> ev_created_at r \<and> ev_id r \<notin> set ex}"
  "sorted (map oe_created_at (read_since owner kinds since ex rows))"
  "distinct (map ev_id rows) \<Longrightarrow> distinct (map oe_id (read_since owner kinds since ex rows))"
proof -
  let ?f = "\<lambda>r. ev_owner r = owner \<and> ev_kind r \<in> set kinds \<and> since \<le> ev_created_at r"
  have ids: "map oe_id (map outbox_event_of rs) = map ev_id rs" "map oe_created_at (map outbox_event_of rs) = map ev_created_at rs" for rs
    by (simp_all add: outbox_event_of_def)
  show "set (read_since owner kinds since ex rows) =
     outbox_event_of ` {r \<in> set rows. ev_owner r = owner \<and> ev_kind r \<in> set kinds \<and> since \<le> ev_created_at r \<and> ev_id r \<notin> set ex}"
    by (auto simp: read_since_def)
  show "sorted (map oe_created_at (read_since owner kinds since ex rows))"
    unfolding read_since_def ids by (intro sorted_map_filter_key) simp
  assume "distinct (map ev_id rows)"
  then have "distinct (map ev_id (filter ?f rows))" by (rule distinct_map_filter)
  then have "distinct (map ev_id (sort_key ev_created_at (filter ?f rows)))" by (simp add: distinct_map)
  then show "distinct (map oe_id (read_since owner kinds since ex rows))"
    unfolding read_since_def ids by (rule distinct_map_filter)
qed

subsection \<open>One turn of the loop\<close>

lemma ws_tick_cases:
  assumes "ws_tick env c = (sent, c')"
  obtains (silent) "sent = []" "ws_user c' = ws_user c" "watermark c' = watermark c" "sent_at_watermark c' = sent_at_watermark c"
      "ws_open c' \<Longrightarrow> we_events env = None"
  | (read) rows es1 es2 where "we_events env = Some rows" "ws_open c"
      "read_since (ws_user c) WS_KINDS (watermark c) (sent_at_watermark c) rows = es1 @ es2"
      "sent = filter (\<lambda>e. oe_payload e \<noteq> None) es1" "ws_user c' = ws_user c"
      "watermark c' = watermark (fold ws_advance es1 c)" "sent_at_watermark c' = sent_at_watermark (fold ws_advance es1 c)"
      "ws_open c' \<Longrightarrow> es2 = []"
proof -
  have eq: "watermark (fold ws_advance es (c\<lparr>next_revalidate := t\<rparr>)) = watermark (fold ws_advance es c)"
    "sent_at_watermark (fold ws_advance es (c\<lparr>next_revalidate := t\<rparr>)) = sent_at_watermark (fold ws_advance es c)" for es t
  proof -
    have "fold ws_advance es (c\<lparr>next_revalidate := t\<rparr>) = (fold ws_advance es c)\<lparr>next_revalidate := t\<rparr>"
    proof (induction es arbitrary: c)
      case (Cons e es)
      have "ws_advance e (c\<lparr>next_revalidate := t\<rparr>) = (ws_advance e c)\<lparr>next_revalidate := t\<rparr>" by (simp add: ws_advance_def)
      then show ?case using Cons by simp
    qed simp
    then show "watermark (fold ws_advance es (c\<lparr>next_revalidate := t\<rparr>)) = watermark (fold ws_advance es c)"
      "sent_at_watermark (fold ws_advance es (c\<lparr>next_revalidate := t\<rparr>)) = sent_at_watermark (fold ws_advance es c)" by simp_all
  qed
  define c1 where "c1 = (if next_revalidate c \<le> we_monotonic env then c\<lparr>next_revalidate := we_monotonic env + REVALIDATE_INTERVAL_S\<rparr> else c)"
  have c1: "ws_user c1 = ws_user c" "watermark c1 = watermark c" "sent_at_watermark c1 = sent_at_watermark c"
    "watermark (fold ws_advance es c1) = watermark (fold ws_advance es c)"
    "sent_at_watermark (fold ws_advance es c1) = sent_at_watermark (fold ws_advance es c)" for es
    by (simp_all add: c1_def eq)
  have "(sent, c') = ([], c) \<and> \<not> ws_open c \<or> (sent, c') = ([], c\<lparr>ws_open := False\<rparr>) \<or> (sent, c') = ([], c1\<lparr>ws_open := False\<rparr>) \<or> (sent, c') = ([], c1) \<and> we_events env = None
      \<or> (\<exists>rows. we_events env = Some rows \<and> ws_open c \<and> (sent, c') = ws_deliver (we_lands env)
           (read_since (ws_user c) WS_KINDS (watermark c) (sent_at_watermark c) rows) c1)"
    using assms unfolding ws_tick_def Let_def c1_def [symmetric] by (auto split: if_splits option.splits)
  then consider "sent = []" "c' \<in> {c, c\<lparr>ws_open := False\<rparr>, c1\<lparr>ws_open := False\<rparr>, c1}" "ws_open c' \<Longrightarrow> we_events env = None"
    | rows where "we_events env = Some rows" "ws_open c"
        "(sent, c') = ws_deliver (we_lands env) (read_since (ws_user c) WS_KINDS (watermark c) (sent_at_watermark c) rows) c1"
    by auto
  then show thesis
  proof cases
    case 1
    then show thesis using silent c1 by auto
  next
    case (2 rows)
    obtain es1 es2 where d: "read_since (ws_user c) WS_KINDS (watermark c) (sent_at_watermark c) rows = es1 @ es2"
      "(sent, c') = (filter (\<lambda>e. oe_payload e \<noteq> None) es1, (fold ws_advance es1 c1)\<lparr>ws_open := ws_open c1 \<and> es2 = []\<rparr>)"
      using ws_deliver_split [of _ "we_lands env" c1] 2(3) by metis
    show thesis
      by (rule read [OF 2(1,2) d(1)]) (use d(2) c1 in simp_all)
  qed
qed

subsection \<open>The invariant of a connection\<close>

definition event_for :: "string \<Rightarrow> event_row \<Rightarrow> bool" where
  "event_for u r \<longleftrightarrow> ev_owner r = u \<and> ev_kind r \<in> set WS_KINDS"

definition outbox_inv :: "string \<Rightarrow> outbox \<Rightarrow> bool" where
  "outbox_inv u s \<longleftrightarrow> ws_user (ob_conn s) = u
     \<and> distinct (map ev_id (ob_staged s @ ob_history s)) \<and> ev_id ` set (ob_staged s @ ob_history s) \<subseteq> ob_ids s
     \<and> (\<forall>r\<in>set (ob_staged s @ ob_history s). 0 \<le> ev_created_at r)
     \<and> set (ob_rows s) \<subseteq> set (ob_history s) \<and> distinct (map ev_id (ob_rows s))
     \<and> distinct (map oe_id (ob_delivered s)) \<and> sorted (map oe_created_at (ob_delivered s))
     \<and> (\<forall>d\<in>set (ob_delivered s). past (ob_conn s) (oe_id d) (oe_created_at d))
     \<and> set (ob_delivered s) \<subseteq> outbox_event_of ` {h \<in> set (ob_history s). event_for u h}
     \<and> set (sent_at_watermark (ob_conn s)) \<subseteq> ev_id ` {h \<in> set (ob_history s). ev_created_at h \<le> watermark (ob_conn s)}
     \<and> watermark (ob_conn s) \<in> insert 0 (ev_created_at ` set (ob_history s))"

lemma outbox_invD:
  assumes "outbox_inv u s"
  shows "ws_user (ob_conn s) = u" "distinct (map ev_id (ob_staged s @ ob_history s))"
    "ev_id ` set (ob_staged s @ ob_history s) \<subseteq> ob_ids s" "\<forall>r\<in>set (ob_staged s @ ob_history s). 0 \<le> ev_created_at r"
    "set (ob_rows s) \<subseteq> set (ob_history s)" "distinct (map ev_id (ob_rows s))" "distinct (map oe_id (ob_delivered s))"
    "sorted (map oe_created_at (ob_delivered s))" "\<forall>d\<in>set (ob_delivered s). past (ob_conn s) (oe_id d) (oe_created_at d)"
    "set (ob_delivered s) \<subseteq> outbox_event_of ` {h \<in> set (ob_history s). event_for u h}"
    "set (sent_at_watermark (ob_conn s)) \<subseteq> ev_id ` {h \<in> set (ob_history s). ev_created_at h \<le> watermark (ob_conn s)}"
    "watermark (ob_conn s) \<in> insert 0 (ev_created_at ` set (ob_history s))"
  using assms unfolding outbox_inv_def by blast+

lemma outbox_init_inv: "ws_user c = u \<Longrightarrow> watermark c = 0 \<Longrightarrow> sent_at_watermark c = [] \<Longrightarrow> outbox_inv u (outbox_init c)"
  by (simp add: outbox_inv_def outbox_init_def)

lemma oe_of [simp]: "oe_id (outbox_event_of r) = ev_id r" "oe_created_at (outbox_event_of r) = ev_created_at r"
  "oe_payload (outbox_event_of r) = ev_payload r"
  by (simp_all add: outbox_event_of_def)

lemma unread:
  assumes "outbox_inv u s" "e \<in> set (read_since (ws_user (ob_conn s)) WS_KINDS (watermark (ob_conn s)) (sent_at_watermark (ob_conn s)) (ob_rows s))"
  shows "e \<in> outbox_event_of ` {h \<in> set (ob_history s). event_for u h}" "watermark (ob_conn s) \<le> oe_created_at e"
    "oe_id e \<notin> set (sent_at_watermark (ob_conn s))" "oe_id e \<notin> oe_id ` set (ob_delivered s)"
proof -
  obtain r where r: "r \<in> set (ob_rows s)" "event_for u r" "watermark (ob_conn s) \<le> ev_created_at r"
    "ev_id r \<notin> set (sent_at_watermark (ob_conn s))" "e = outbox_event_of r"
    using assms unfolding read_since_facts(1) by (auto simp: outbox_inv_def event_for_def)
  have h: "r \<in> set (ob_history s)" using r(1) assms(1) by (auto simp: outbox_inv_def)
  show "e \<in> outbox_event_of ` {h \<in> set (ob_history s). event_for u h}" "watermark (ob_conn s) \<le> oe_created_at e"
    "oe_id e \<notin> set (sent_at_watermark (ob_conn s))"
    using h r by auto
  show "oe_id e \<notin> oe_id ` set (ob_delivered s)"
  proof
    assume "oe_id e \<in> oe_id ` set (ob_delivered s)"
    then obtain d where d: "d \<in> set (ob_delivered s)" "oe_id d = ev_id r" using r(5) by auto
    then obtain h where h': "h \<in> set (ob_history s)" "d = outbox_event_of h"
      using assms(1) by (auto simp: outbox_inv_def)
    have "inj_on ev_id (set (ob_history s))" using assms(1) by (simp add: outbox_inv_def distinct_map)
    then have "h = r" using h h' d by (auto dest: inj_onD)
    then have "past (ob_conn s) (ev_id r) (ev_created_at r)" using d h' assms(1) by (auto simp: outbox_inv_def)
    then show False using r by (auto simp: past_def)
  qed
qed

lemma outbox_tick_inv:
  assumes inv: "outbox_inv u s" and env: "we_events env \<in> {None, Some (ob_rows s)}" and t: "ws_tick env (ob_conn s) = (sent, c')"
  shows "outbox_inv u (s\<lparr>ob_conn := c', ob_delivered := ob_delivered s @ sent\<rparr>)"
  using t
proof (cases rule: ws_tick_cases)
  case silent
  then show ?thesis using inv by (simp add: outbox_inv_def past_def)
next
  case (read rows es1 es2)
  let ?c = "ob_conn s"
  have rows: "rows = ob_rows s" using env read(1) by auto
  note un = unread [OF inv, folded rows]
  have es: "set es1 \<subseteq> set (es1 @ es2)" by simp
  have facts: "sorted (map oe_created_at es1)" "distinct (map oe_id es1)"
  proof -
    have "sorted (map oe_created_at (es1 @ es2))" using read_since_facts(2) read(3) by metis
    then show "sorted (map oe_created_at es1)" by (simp add: sorted_append)
    have "distinct (map ev_id rows)" using inv rows by (simp add: outbox_inv_def)
    then have "distinct (map oe_id (es1 @ es2))" using read_since_facts(3) read(3) by metis
    then show "distinct (map oe_id es1)" by simp
  qed
  have low: "\<forall>e\<in>set es1. watermark ?c \<le> oe_created_at e" using un(2) read(3) by simp
  have fa: "\<forall>e\<in>set es1. past (fold ws_advance es1 ?c) (oe_id e) (oe_created_at e)"
    "watermark (fold ws_advance es1 ?c) \<in> insert (watermark ?c) (oe_created_at ` set es1)"
    "set (sent_at_watermark (fold ws_advance es1 ?c)) \<subseteq> set (sent_at_watermark ?c) \<union> oe_id ` set es1"
    using fold_advance [OF facts(1) low] by blast+
  have past_c': "past c' i t \<longleftrightarrow> past (fold ws_advance es1 ?c) i t" for i t by (simp add: past_def read)
  have hist: "set es1 \<subseteq> outbox_event_of ` {h \<in> set (ob_history s). event_for u h}" using un(1) read(3) by auto
  have ids: "oe_id ` set es1 \<subseteq> ev_id ` set (ob_history s)" "oe_created_at ` set es1 \<subseteq> ev_created_at ` set (ob_history s)"
    using hist by fastforce+
  have sub: "set sent \<subseteq> set es1" using read(4) by auto
  have new: "oe_id ` set sent \<inter> oe_id ` set (ob_delivered s) = {}" using un(4) read(3) sub by auto
  have old_low: "\<forall>d\<in>set (ob_delivered s). oe_created_at d \<le> watermark ?c" using inv by (auto simp: outbox_inv_def past_def)
  note iv = outbox_invD [OF inv]
  have ds: "distinct (map oe_id (ob_delivered s @ sent))"
    using iv(7) new distinct_map_filter [OF facts(2)] read(4) by (simp add: Int_commute)
  have st: "sorted (map oe_created_at (ob_delivered s @ sent))"
  proof -
    have "sorted (map oe_created_at sent)" unfolding read(4) using facts(1) by (rule sorted_map_filter_key)
    moreover have "oe_created_at d \<le> oe_created_at e" if "d \<in> set (ob_delivered s)" "e \<in> set sent" for d e
      using that old_low low sub by (meson order_trans subsetD)
    ultimately show ?thesis using iv(8) by (auto simp: sorted_append)
  qed
  have pt: "\<forall>d\<in>set (ob_delivered s @ sent). past c' (oe_id d) (oe_created_at d)"
  proof
    fix d assume "d \<in> set (ob_delivered s @ sent)"
    then consider "d \<in> set (ob_delivered s)" | "d \<in> set es1" using sub by auto
    then show "past c' (oe_id d) (oe_created_at d)"
      unfolding past_c' using iv(9) fa(1) past_fold by cases blast+
  qed
  have hi: "set (ob_delivered s @ sent) \<subseteq> outbox_event_of ` {h \<in> set (ob_history s). event_for u h}"
    using iv(10) hist sub by (simp only: set_append Un_subset_iff) blast
  have sa: "set (sent_at_watermark c') \<subseteq> ev_id ` {h \<in> set (ob_history s). ev_created_at h \<le> watermark c'}"
  proof
    fix i assume "i \<in> set (sent_at_watermark c')"
    then consider "i \<in> set (sent_at_watermark ?c)" | e where "e \<in> set es1" "i = oe_id e"
      unfolding read(7) using fa(3) by blast
    then show "i \<in> ev_id ` {h \<in> set (ob_history s). ev_created_at h \<le> watermark c'}"
    proof cases
      case 1
      then show ?thesis using iv(11) watermark_fold_mono [of ?c es1] unfolding read(6) by fastforce
    next
      case 2
      have "past c' (oe_id e) (oe_created_at e)" unfolding past_c' using fa(1) 2(1) by blast
      then have "oe_created_at e \<le> watermark c'" by (auto simp: past_def)
      moreover obtain h where "h \<in> set (ob_history s)" "e = outbox_event_of h" using hist 2 by auto
      ultimately show ?thesis using 2 by auto
    qed
  qed
  have wm: "watermark c' \<in> insert 0 (ev_created_at ` set (ob_history s))"
    unfolding read(6) using fa(2) ids(2) iv(12) by (metis insert_iff subsetD)
  show ?thesis
    unfolding outbox_inv_def using iv(1-6) read(5) ds st pt hi sa wm by simp
qed

lemma remove_staged:
  assumes "distinct (map ev_id (staged @ history))" "e \<in> set staged"
  shows "set (remove1 e staged) = set staged - {e}" "distinct (map ev_id (remove1 e staged))" "ev_id e \<notin> ev_id ` set (remove1 e staged)"
proof -
  have d: "distinct staged" "inj_on ev_id (set staged)" using assms(1) by (simp_all add: distinct_map)
  then show s: "set (remove1 e staged) = set staged - {e}" by simp
  show "distinct (map ev_id (remove1 e staged))" using d by (auto simp: distinct_map inj_on_def)
  show "ev_id e \<notin> ev_id ` set (remove1 e staged)" unfolding s using d(2) assms(2) by (auto dest: inj_onD)
qed

lemma outbox_step_inv: "outbox_step in_order s s' \<Longrightarrow> outbox_inv u s \<Longrightarrow> outbox_inv u s'"
proof (induction rule: outbox_step.induct)
  case (stage e s)
  then show ?case by (auto simp: outbox_inv_def)
next
  case (commit e s rows)
  then have e: "e \<in> set (ob_staged s)" and rows: "rows = ob_rows s @ [e]" "ev_id e \<notin> ev_id ` set (ob_rows s)"
    by (auto simp: sql_insert_Inr)
  note iv = outbox_invD [OF commit.prems]
  note st = remove_staged [OF iv(2) e]
  show ?case
    unfolding outbox_inv_def
  proof (intro conjI)
    let ?s = "s\<lparr>ob_rows := rows, ob_staged := remove1 e (ob_staged s), ob_history := e # ob_history s\<rparr>"
    show "distinct (map ev_id (ob_staged ?s @ ob_history ?s))" using st iv(2) e by auto
    show "ev_id ` set (ob_staged ?s @ ob_history ?s) \<subseteq> ob_ids ?s" using st(1) iv(3) e by auto
    show "\<forall>r\<in>set (ob_staged ?s @ ob_history ?s). 0 \<le> ev_created_at r" using st(1) iv(4) e by auto
    show "distinct (map ev_id (ob_rows ?s))" using rows iv(6) by simp
    show "set (ob_delivered ?s) \<subseteq> outbox_event_of ` {h \<in> set (ob_history ?s). event_for u h}" using iv(10) by auto
  qed (use iv rows in auto)
next
  case (rollback e s)
  note iv = outbox_invD [OF rollback.prems]
  note st = remove_staged [OF iv(2) rollback.hyps]
  show ?case
    unfolding outbox_inv_def
  proof (intro conjI)
    let ?s = "s\<lparr>ob_staged := remove1 e (ob_staged s)\<rparr>"
    show "distinct (map ev_id (ob_staged ?s @ ob_history ?s))" using st iv(2) by auto
    show "ev_id ` set (ob_staged ?s @ ob_history ?s) \<subseteq> ob_ids ?s" using st(1) iv(3) by auto
    show "\<forall>r\<in>set (ob_staged ?s @ ob_history ?s). 0 \<le> ev_created_at r" using st(1) iv(4) by auto
  qed (use iv in auto)
next
  case (swept s older now)
  then show ?case by (auto simp: outbox_inv_def sweep_events_def Let_def sql_simps distinct_sql_delete)
next
  case (tick env s sent c)
  then show ?case using outbox_tick_inv by blast
qed

subsection \<open>The interface of a connection\<close>

text \<open>A freshly accepted connection.\<close>

definition fresh_conn :: "ws_conn \<Rightarrow> bool" where
  "fresh_conn c \<longleftrightarrow> watermark c = 0 \<and> sent_at_watermark c = [] \<and> ws_open c"

lemma ws_accept_fresh: "ws_accept cookies m now db = Some c \<Longrightarrow> fresh_conn c"
  by (auto simp: ws_accept_def fresh_conn_def split: option.splits)

definition idle_conn :: "string \<Rightarrow> ws_conn" where
  "idle_conn u = \<lparr>ws_cookies = Map.empty, ws_user = u, watermark = 0, sent_at_watermark = [], next_revalidate = 0, ws_open = True\<rparr>"

interpretation outbox: inv_machine "outbox_init (idle_conn u)" "outbox_step in_order" "outbox_inv u"
proof unfold_locales
  show "outbox_inv u (outbox_init (idle_conn u))" by (rule outbox_init_inv) (simp_all add: idle_conn_def)
  show "outbox_inv u s'" if "outbox_step in_order s s'" "outbox_inv u s" for s s'
    using that by (rule outbox_step_inv)
qed

lemma outbox_reach:
  assumes "(outbox_step in_order)\<^sup>*\<^sup>* (outbox_init c) s" "fresh_conn c"
  shows "outbox_inv (ws_user c) s"
  using outbox.steps_inv [OF assms(1)] outbox_init_inv [of c "ws_user c"] assms(2) by (simp add: fresh_conn_def)


subsection \<open>Complete delivery\<close>

text \<open>When events are committed in the order of \<open>created_at\<close>, the cursor is past nothing that was not handled.\<close>

definition caught_up :: "string \<Rightarrow> outbox \<Rightarrow> bool" where
  "caught_up u s \<longleftrightarrow> (\<forall>r\<in>set (ob_rows s). event_for u r \<and> ev_payload r \<noteq> None \<and> past (ob_conn s) (ev_id r) (ev_created_at r) \<longrightarrow>
     outbox_event_of r \<in> set (ob_delivered s))"

lemma sent_ids_old:
  assumes "outbox_inv u s" "r \<in> set (ob_history s)" "ev_id r \<in> set (sent_at_watermark (ob_conn s))"
  shows "ev_created_at r \<le> watermark (ob_conn s)"
proof -
  obtain h where h: "h \<in> set (ob_history s)" "ev_created_at h \<le> watermark (ob_conn s)" "ev_id h = ev_id r"
    using outbox_invD(11) [OF assms(1)] assms(3) by fastforce
  moreover have "inj_on ev_id (set (ob_history s))" using outbox_invD(2) [OF assms(1)] by (simp add: distinct_map)
  ultimately show ?thesis using assms(2) by (auto dest: inj_onD)
qed

lemma unread_iff:
  assumes "outbox_inv u s" "r \<in> set (ob_rows s)" "event_for u r"
  shows "outbox_event_of r \<in> set (read_since (ws_user (ob_conn s)) WS_KINDS (watermark (ob_conn s)) (sent_at_watermark (ob_conn s)) (ob_rows s))
     \<longleftrightarrow> \<not> past (ob_conn s) (ev_id r) (ev_created_at r)"
proof
  assume "outbox_event_of r \<in> set (read_since (ws_user (ob_conn s)) WS_KINDS (watermark (ob_conn s)) (sent_at_watermark (ob_conn s)) (ob_rows s))"
  from unread(2,3) [OF assms(1) this] show "\<not> past (ob_conn s) (ev_id r) (ev_created_at r)" by (auto simp: past_def)
next
  assume np: "\<not> past (ob_conn s) (ev_id r) (ev_created_at r)"
  have h: "r \<in> set (ob_history s)" using outbox_invD(5) [OF assms(1)] assms(2) by blast
  have "ev_id r \<notin> set (sent_at_watermark (ob_conn s))"
    using sent_ids_old [OF assms(1) h] np by (auto simp: past_def)
  then show "outbox_event_of r \<in> set (read_since (ws_user (ob_conn s)) WS_KINDS (watermark (ob_conn s)) (sent_at_watermark (ob_conn s)) (ob_rows s))"
    unfolding read_since_facts(1) using np assms(2,3) outbox_invD(1) [OF assms(1)] by (auto simp: event_for_def past_def not_less)
qed

lemma caught_up_tick:
  assumes inv: "outbox_inv u s" and cu: "caught_up u s"
    and env: "we_events env \<in> {None, Some (ob_rows s)}" and t: "ws_tick env (ob_conn s) = (sent, c')"
  shows "caught_up u (s\<lparr>ob_conn := c', ob_delivered := ob_delivered s @ sent\<rparr>)"
  using t
proof (cases rule: ws_tick_cases)
  case silent
  then show ?thesis using cu by (simp add: caught_up_def past_def)
next
  case (read rows es1 es2)
  let ?c = "ob_conn s"
  let ?es = "read_since (ws_user ?c) WS_KINDS (watermark ?c) (sent_at_watermark ?c) (ob_rows s)"
  have es: "?es = es1 @ es2" using env read(1,3) by auto
  note un = unread [OF inv]
  have sorted: "sorted (map oe_created_at (es1 @ es2))" and dist: "distinct (map oe_id (es1 @ es2))"
    using read_since_facts(2,3) outbox_invD(6) [OF inv] es by metis+
  have low: "\<forall>e\<in>set es1. watermark ?c \<le> oe_created_at e" using un(2) es by simp
  have srt1: "sorted (map oe_created_at es1)" using sorted by (simp add: sorted_append)
  note fa = fold_advance [OF srt1 low]
  show ?thesis
    unfolding caught_up_def
  proof (intro ballI impI)
    let ?s = "s\<lparr>ob_conn := c', ob_delivered := ob_delivered s @ sent\<rparr>"
    fix h
    assume "h \<in> set (ob_rows ?s)"
      and h: "event_for u h \<and> ev_payload h \<noteq> None \<and> past (ob_conn ?s) (ev_id h) (ev_created_at h)"
    then have hh: "h \<in> set (ob_rows s)" by simp
    show "outbox_event_of h \<in> set (ob_delivered ?s)"
    proof (cases "past ?c (ev_id h) (ev_created_at h)")
      case True
      then show ?thesis using cu h hh by (auto simp: caught_up_def)
    next
      case False
      then have in_es: "outbox_event_of h \<in> set ?es" using unread_iff [OF inv hh] h by blast
      have "outbox_event_of h \<notin> set es2"
      proof
        assume e2: "outbox_event_of h \<in> set es2"
        have "oe_created_at e \<le> ev_created_at h" if "e \<in> set es1" for e
          using sorted e2 that by (force simp: sorted_append)
        moreover have "watermark ?c \<le> ev_created_at h" using un(2) [OF in_es] by simp
        ultimately have "watermark c' \<le> ev_created_at h"
          unfolding read(6) using fa [THEN conjunct2, THEN conjunct1] by (metis imageE insert_iff)
        then have "ev_id h \<in> set (sent_at_watermark c')" using h by (auto simp: past_def)
        then have "ev_id h \<in> set (sent_at_watermark ?c) \<union> oe_id ` set es1" unfolding read(7) using fa by blast
        moreover have "ev_id h \<notin> oe_id ` set es1"
        proof -
          have "ev_id h \<in> oe_id ` set es2" using imageI [OF e2, of oe_id] by simp
          moreover have "oe_id ` set es1 \<inter> oe_id ` set es2 = {}" using dist by simp
          ultimately show ?thesis by blast
        qed
        ultimately show False using un(3) [OF in_es] by simp
      qed
      then have "outbox_event_of h \<in> set es1" using in_es es by auto
      then show ?thesis using h read(4) by auto
    qed
  qed
qed

lemma caught_up_step: "outbox_step True s s' \<Longrightarrow> outbox_inv u s \<Longrightarrow> caught_up u s \<Longrightarrow> caught_up u s'"
proof (induction rule: outbox_step.induct)
  case (commit e s rows)
  note iv = outbox_invD [OF commit.prems(1)]
  have rows: "rows = ob_rows s @ [e]" using commit.hyps(3) by (simp add: sql_insert_Inr)
  have "\<not> past (ob_conn s) (ev_id e) (ev_created_at e)"
  proof
    assume p: "past (ob_conn s) (ev_id e) (ev_created_at e)"
    have "0 \<le> ev_created_at e" using iv(4) commit.hyps(1) by simp
    then have "watermark (ob_conn s) \<le> ev_created_at e" using iv(12) commit.hyps(2) by auto
    then have "ev_id e \<in> ev_id ` set (ob_history s)" using p iv(11) by (auto simp: past_def)
    then show False using iv(2) commit.hyps(1) by auto
  qed
  then show ?case using commit.prems(2) rows by (auto simp: caught_up_def)
next
  case (swept s older now)
  then show ?case by (auto simp: caught_up_def sweep_events_def Let_def sql_simps)
next
  case (tick env s sent c)
  then show ?case using caught_up_tick by blast
qed (auto simp: caught_up_def)


subsection \<open>Events committed late\<close>

lemma watermark_tick: "ws_tick env c = (sent, c') \<Longrightarrow> watermark c \<le> watermark c'"
  by (cases rule: ws_tick_cases) (auto simp: watermark_fold_mono)

lemma late_stays_lost:
  assumes "outbox_step in_order s s'" "outbox_inv u s"
    and "r \<in> set (ob_history s)" "ev_created_at r < watermark (ob_conn s)" "outbox_event_of r \<notin> set (ob_delivered s)"
  shows "r \<in> set (ob_history s') \<and> ev_created_at r < watermark (ob_conn s') \<and> outbox_event_of r \<notin> set (ob_delivered s')"
  using assms
proof (induction rule: outbox_step.induct)
  case (tick env s sent c)
  have "outbox_event_of r \<notin> set sent"
  proof
    assume *: "outbox_event_of r \<in> set sent"
    from tick.hyps(2) show False
    proof (cases rule: ws_tick_cases)
      case silent
      then show False using * by simp
    next
      case (read rows es1 es2)
      have "rows = ob_rows s" using tick.hyps(1) read(1) by auto
      then have "outbox_event_of r \<in> set (read_since (ws_user (ob_conn s)) WS_KINDS (watermark (ob_conn s)) (sent_at_watermark (ob_conn s)) (ob_rows s))"
        using * read(3,4) by simp
      from unread(2) [OF tick.prems(1) this] show False using tick.prems(3) by simp
    qed
  qed
  then show ?case using tick watermark_tick [OF tick.hyps(2)] by auto
qed auto

definition lost_row :: "string \<Rightarrow> string \<Rightarrow> epoch \<Rightarrow> event_row" where
  "lost_row u i t = \<lparr>ev_id = i, ev_owner = u, ev_kind = ''note_updated'', ev_payload = Some JNull, ev_created_at = t\<rparr>"


subsection \<open>A revoked session\<close>

lemma ws_deliver_keeps: "ws_deliver lands es c = (sent, c') \<Longrightarrow> next_revalidate c' = next_revalidate c \<and> ws_cookies c' = ws_cookies c"
proof -
  assume "ws_deliver lands es c = (sent, c')"
  moreover obtain es1 es2 where "es = es1 @ es2" "ws_deliver lands es c =
      (filter (\<lambda>e. oe_payload e \<noteq> None) es1, (fold ws_advance es1 c)\<lparr>ws_open := ws_open c \<and> es2 = []\<rparr>)"
    using ws_deliver_split [of es lands c] by blast
  ultimately show ?thesis by auto
qed

lemma ws_tick_clock:
  assumes "ws_tick env c = (sent, c')"
  shows "ws_cookies c' = ws_cookies c" "next_revalidate c' \<le> max (next_revalidate c) (we_monotonic env + 30)"
  using assms
  by (auto simp: ws_tick_def Let_def REVALIDATE_INTERVAL_S_def split: if_splits option.splits dest!: ws_deliver_keeps)

lemma ws_run_append: "ws_run (envs1 @ envs2) c =
    (let (a, c1) = ws_run envs1 c; (b, c2) = ws_run envs2 c1 in (a @ b, c2))"
  by (induction envs1 arbitrary: c) (simp_all add: Let_def split: prod.splits)

lemma ws_run_clock:
  "ws_run envs c = (out, c') \<Longrightarrow> sorted (m # map we_monotonic envs) \<Longrightarrow> next_revalidate c \<le> m + 30 \<Longrightarrow>
     length out = length envs \<and> ws_cookies c' = ws_cookies c \<and> next_revalidate c' \<le> last (m # map we_monotonic envs) + 30"
proof (induction envs arbitrary: c out c' m)
  case Nil
  then show ?case by simp
next
  case (Cons env envs)
  obtain sent c1 where t: "ws_tick env c = (sent, c1)" by fastforce
  obtain rest where r: "ws_run envs c1 = (rest, c')" "out = sent # rest"
    using Cons.prems(1) t by (auto split: prod.splits)
  have le: "next_revalidate c1 \<le> we_monotonic env + 30"
    using ws_tick_clock(2) [OF t] Cons.prems(2,3) by simp
  have srt: "sorted (we_monotonic env # map we_monotonic envs)" using Cons.prems(2) by simp
  show ?case using Cons.IH [OF r(1) srt le] ws_tick_clock(1) [OF t] r(2) by simp
qed

lemma ws_run_closed: "\<not> ws_open c \<Longrightarrow> fst (ws_run envs c) = map (\<lambda>_. []) envs"
  by (induction envs) (simp_all add: ws_tick_def split_beta)

lemma ws_run_revoked:
  "\<forall>env\<in>set envs. \<exists>db. we_auth env = Some db \<and> resolve_session_user_from_cookies (ws_cookies c) (we_now env) db = None \<Longrightarrow>
     i < length envs \<Longrightarrow> next_revalidate c \<le> we_monotonic (envs ! i) \<Longrightarrow> fst (ws_run envs c) ! i = []"
proof (induction envs arbitrary: c i)
  case Nil
  then show ?case by simp
next
  case (Cons env envs)
  obtain sent c1 where t: "ws_tick env c = (sent, c1)" by fastforce
  obtain db where db: "we_auth env = Some db" "resolve_session_user_from_cookies (ws_cookies c) (we_now env) db = None"
    using Cons.prems(1) by auto
  show ?case
  proof (cases "ws_open c \<and> \<not> we_disconnected env \<and> \<not> next_revalidate c \<le> we_monotonic env")
    case True
    have nr: "next_revalidate c1 = next_revalidate c"
      using t True by (auto simp: ws_tick_def Let_def split: option.splits dest!: ws_deliver_keeps)
    obtain j where j: "i = Suc j" using True Cons.prems(3) by (cases i) auto
    show ?thesis
      using Cons.IH [of c1 j] Cons.prems ws_tick_clock(1) [OF t] nr t j by (simp add: split_beta)
  next
    case False
    then have "sent = [] \<and> \<not> ws_open c1"
      using t db by (auto simp: ws_tick_def Let_def split: if_splits)
    then show ?thesis using t ws_run_closed [of c1 envs] Cons.prems(2) by (cases i) (simp_all add: split_beta)
  qed
qed

text \<open>A socket does not outlive its session. If from some turn on the session of an open socket is gone and
  the table of sessions can be read, then every turn 30 seconds after the last turn before that (on the
  monotonic clock) sends nothing.\<close>

theorem revoked_session_stops:
  assumes "ws_accept cookies m now db = Some c" "sorted (m # map we_monotonic (envs1 @ envs2))"
    and "\<forall>env\<in>set envs2. \<exists>db. we_auth env = Some db \<and> resolve_session_user_from_cookies cookies (we_now env) db = None"
    and "i < length envs2" "last (m # map we_monotonic envs1) + 30 \<le> we_monotonic (envs2 ! i)"
  shows "fst (ws_run (envs1 @ envs2) c) ! (length envs1 + i) = []"
proof -
  obtain out c1 where r: "ws_run envs1 c = (out, c1)" by fastforce
  have c: "next_revalidate c \<le> m + 30" "ws_cookies c = cookies"
    using assms(1) by (auto simp: ws_accept_def REVALIDATE_INTERVAL_S_def split: option.splits)
  have srt: "sorted (m # map we_monotonic envs1)" using assms(2) by (auto simp: sorted_append)
  note cl = ws_run_clock [OF r srt c(1)]
  have "fst (ws_run envs2 c1) ! i = []"
    using assms(3-5) cl c(2) by (intro ws_run_revoked) auto
  then show ?thesis using cl by (simp add: ws_run_append r split_beta nth_append)
qed

subsection \<open>Witnesses\<close>

definition ex_ws_db :: oauth_db where
  "ex_ws_db = empty_db\<lparr>od_users := ex_users, od_sessions := [\<lparr>ss_token = ''t'', ss_user_id = ''u1'', ss_expires_at = 100\<rparr>]\<rparr>"

definition ex_cookies :: "string \<rightharpoonup> string" where
  "ex_cookies = [''kajet_session'' \<mapsto> ''t'']"

definition ex_conn :: ws_conn where
  "ex_conn = \<lparr>ws_cookies = ex_cookies, ws_user = ''u1'', watermark = 0, sent_at_watermark = [], next_revalidate = 30, ws_open = True\<rparr>"

lemma ex_accept: "ws_accept ex_cookies 0 0 ex_ws_db = Some ex_conn"
  by (simp add: ws_accept_def resolve_session_user_from_cookies_def session_token_from_cookies_def resolve_session_user_def
      session_get_user_def ex_ws_db_def ex_cookies_def ex_conn_def ex_users_def REVALIDATE_INTERVAL_S_def)

definition ex_env :: "epoch \<Rightarrow> event_row list \<Rightarrow> ws_env" where
  "ex_env t rows = \<lparr>we_disconnected = False, we_monotonic = t, we_now = t, we_auth = Some empty_db, we_events = Some rows, we_lands = (\<lambda>_. True)\<rparr>"

definition ex_event :: event_row where
  "ex_event = lost_row ''u1'' ''a'' 1"

definition ex_outbox :: outbox where
  "ex_outbox = \<lparr>ob_rows = [ex_event], ob_staged = [], ob_conn = ex_conn, ob_history = [ex_event], ob_delivered = [], ob_ids = {''a''}\<rparr>"

lemma ex_outbox_reach: "(outbox_step ord)\<^sup>*\<^sup>* (outbox_init ex_conn) ex_outbox"
proof -
  let ?s0 = "outbox_init ex_conn"
  let ?s1 = "?s0\<lparr>ob_staged := [ex_event], ob_ids := {''a''}\<rparr>"
  have "outbox_step ord ?s0 ?s1"
    using outbox_step.stage [of ex_event ?s0 ord] by (simp add: outbox_init_def ex_event_def lost_row_def)
  moreover have "outbox_step ord ?s1 ex_outbox"
    using outbox_step.commit [of ex_event ?s1 ord "[ex_event]"] by (simp add: outbox_init_def ex_outbox_def sql_insert_def)
  ultimately show ?thesis by (meson converse_rtranclp_into_rtranclp rtranclp.rtrancl_refl)
qed

lemma ex_tick: "ws_tick (ex_env 1 [ex_event]) ex_conn = ([outbox_event_of ex_event], ex_conn\<lparr>watermark := 1, sent_at_watermark := [''a'']\<rparr>)"
  by (simp add: ws_tick_def ex_env_def ex_conn_def read_since_def ex_event_def lost_row_def WS_KINDS_def ws_advance_def outbox_event_of_def)




theorem revoked_session_stops_witness: "fst (ws_run ([] @ [ex_env 30 [ex_event]]) ex_conn) ! (length ([] :: ws_env list) + 0) = []"
proof -
  have "resolve_session_user_from_cookies ex_cookies 30 empty_db = None"
    by (simp add: resolve_session_user_from_cookies_def session_token_from_cookies_def resolve_session_user_def
        session_get_user_def ex_cookies_def empty_db_def)
  then show ?thesis
    using revoked_session_stops [OF ex_accept, of "[]" "[ex_env 30 [ex_event]]" 0] by (simp add: ex_env_def)
qed

end
