(* ===== verification/Notices.thy ===== *)
theory Notices
  imports Events
begin

section \<open>Notices\<close>

text \<open>
  Models \<open>repositories/notices.py\<close> (class \<open>NoticeRepository\<close>) over \<open>models.Notice\<close> and
  \<open>services/notices.py\<close>: the payloads with their keys and messages, \<open>NoticeService\<close>, whose writes commit
  together with the outbox event that announces them, and the best-effort producer
  \<open>EmbeddingKeyNotices\<close>. A failed operation leaves the tables as they were.
\<close>

subsection \<open>Definitions\<close>

record notice_row =
  no_id :: string
  no_user :: string
  no_kind :: string
  no_key :: string
  no_payload :: "json option"
  no_count :: nat
  no_first_seen_at :: epoch
  no_last_seen_at :: epoch
  no_resolved_at :: "epoch option"
  no_acknowledged_at :: "epoch option"
  no_last_delivered_at :: "epoch option"

record notice_db =
  nd_users :: "string list"
  nd_notices :: "notice_row list"
  nd_events :: "event_row list"

datatype notice_error = NoticeDb db_error | NoticeValidation | NoticeNotFoundError string

definition notice_at :: "string \<Rightarrow> string \<Rightarrow> notice_row \<Rightarrow> bool" where
  "notice_at user key r \<longleftrightarrow> no_user r = user \<and> no_key r = key"

text \<open>The \<open>set_\<close> clause of the upsert; every expression reads the old row.\<close>

definition notice_again :: "string \<Rightarrow> json \<Rightarrow> epoch \<Rightarrow> notice_row \<Rightarrow> notice_row" where
  "notice_again kind payload now r =
     (let reopening = (no_resolved_at r \<noteq> None)
      in r\<lparr>no_kind := kind, no_payload := Some payload, no_last_seen_at := now, no_resolved_at := None,
           no_count := (if reopening then 1 else no_count r + 1),
           no_first_seen_at := (if reopening then now else no_first_seen_at r),
           no_acknowledged_at := (if reopening then None else no_acknowledged_at r),
           no_last_delivered_at := (if reopening then None else no_last_delivered_at r)\<rparr>)"

definition raise_in_session ::
  "string list \<Rightarrow> string \<Rightarrow> string \<Rightarrow> string \<Rightarrow> string \<Rightarrow> json \<Rightarrow> epoch \<Rightarrow> notice_row list \<Rightarrow>
     db_error + (string \<times> nat) \<times> notice_row list" where
  "raise_in_session users nid user kind key payload now rows =
     (if nid \<in> no_id ` set rows \<or> user \<notin> set users then Inl IntegrityError
      else (case find (notice_at user key) rows of
          Some r \<Rightarrow> Inr ((no_id r, no_count (notice_again kind payload now r)),
                      sql_update (notice_at user key) (notice_again kind payload now) rows)
        | None \<Rightarrow> Inr ((nid, 1), rows @ [\<lparr>no_id = nid, no_user = user, no_kind = kind, no_key = key, no_payload = Some payload,
             no_count = 1, no_first_seen_at = now, no_last_seen_at = now, no_resolved_at = None,
             no_acknowledged_at = None, no_last_delivered_at = None\<rparr>])))"

definition raised_opened :: "string \<times> nat \<Rightarrow> bool" where
  "raised_opened raised \<longleftrightarrow> snd raised = 1"

definition active_at :: "string \<Rightarrow> string \<Rightarrow> notice_row \<Rightarrow> bool" where
  "active_at user key r \<longleftrightarrow> no_user r = user \<and> no_key r = key \<and> no_resolved_at r = None"

definition resolve_in_session :: "string \<Rightarrow> string \<Rightarrow> epoch \<Rightarrow> notice_row list \<Rightarrow> bool \<times> notice_row list" where
  "resolve_in_session user key now rows =
     (sql_count (active_at user key) rows = 1, sql_update (active_at user key) (\<lambda>r. r\<lparr>no_resolved_at := Some now\<rparr>) rows)"

definition owned_active :: "string \<Rightarrow> string \<Rightarrow> notice_row \<Rightarrow> bool" where
  "owned_active user nid r \<longleftrightarrow> no_id r = nid \<and> no_user r = user \<and> no_resolved_at r = None"

definition acknowledge_in_session ::
  "string \<Rightarrow> string \<Rightarrow> epoch \<Rightarrow> notice_row list \<Rightarrow> notice_error + bool \<times> notice_row list" where
  "acknowledge_in_session user nid now rows =
     (let P = (\<lambda>r. owned_active user nid r \<and> no_acknowledged_at r = None);
          rows' = sql_update P (\<lambda>r. r\<lparr>no_acknowledged_at := Some now\<rparr>) rows
      in if sql_count P rows = 1 then Inr (True, rows')
         else if find (owned_active user nid) rows' = None then Inl (NoticeNotFoundError nid)
         else Inr (False, rows'))"

definition find_active_id :: "string \<Rightarrow> string \<Rightarrow> notice_row list \<Rightarrow> string option" where
  "find_active_id user key rows = map_option no_id (find (active_at user key) rows)"

definition list_active_rows :: "string \<Rightarrow> notice_row list \<Rightarrow> notice_row list" where
  "list_active_rows user rows =
     sort_key (\<lambda>r. (no_first_seen_at r, no_id r)) (filter (\<lambda>r. no_user r = user \<and> no_resolved_at r = None) rows)"

text \<open>Payloads. A notice identifier matches \<open>^[A-Za-z0-9_-]{1,64}$\<close>.\<close>

datatype notice_payload = EmbeddingAuthNotice string

definition notice_id_char :: "char \<Rightarrow> bool" where
  "notice_id_char c \<longleftrightarrow> (let n = code_point c in (65 \<le> n \<and> n \<le> 90) \<or> (97 \<le> n \<and> n \<le> 122) \<or> (48 \<le> n \<and> n \<le> 57) \<or> n = 95 \<or> n = 45)"

definition notice_id :: "string \<Rightarrow> bool" where
  "notice_id s \<longleftrightarrow> 1 \<le> length s \<and> length s \<le> 64 \<and> (\<forall>c\<in>set s. notice_id_char c)"

fun payload_valid :: "notice_payload \<Rightarrow> bool" where
  "payload_valid (EmbeddingAuthNotice profile_id) = notice_id profile_id"

fun payload_kind :: "notice_payload \<Rightarrow> string" where
  "payload_kind (EmbeddingAuthNotice profile_id) = ''embedding_auth''"

fun payload_dump :: "notice_payload \<Rightarrow> (string \<times> json) list" where
  "payload_dump (EmbeddingAuthNotice profile_id) = [(''profile_id'', JStr profile_id)]"

fun payload_key :: "notice_payload \<Rightarrow> string" where
  "payload_key (EmbeddingAuthNotice profile_id) = join '':'' [''embedding_auth'', profile_id]"

fun payload_message :: "notice_payload \<Rightarrow> string" where
  "payload_message (EmbeddingAuthNotice profile_id) =
     ''The embedding API rejected the API key of embedding profile '' @ profile_id @ ''. Semantic search runs keyword-only and new notes are not embedded until the key is updated.''"

text \<open>\<open>_PAYLOADS[NoticeKind(kind)].model_validate(json.loads(payload))\<close>; any failure is \<^const>\<open>None\<close>.\<close>

definition payload_validate :: "string \<Rightarrow> json option \<Rightarrow> notice_payload option" where
  "payload_validate kind payload =
     (if kind \<noteq> ''embedding_auth'' then None
      else (case payload of
          Some (JObj m) \<Rightarrow>
            (if fst ` set m = {''profile_id''}
             then (case map_of (rev m) ''profile_id'' of
                 Some (JStr p) \<Rightarrow> if notice_id p then Some (EmbeddingAuthNotice p) else None
               | _ \<Rightarrow> None)
             else None)
        | _ \<Rightarrow> None))"

text \<open>The service.\<close>

definition publish_changed :: "string \<Rightarrow> epoch \<Rightarrow> string \<Rightarrow> notice_db \<Rightarrow> notice_error + notice_db" where
  "publish_changed eid now user db =
     (case publish_in_session eid now user ''notices_changed''
             (JObj [(''type'', JStr ''notices_changed''), (''owner_id'', JStr user)]) (nd_events db) of
        Inl e \<Rightarrow> Inl (NoticeDb e)
      | Inr events \<Rightarrow> Inr (db\<lparr>nd_events := events\<rparr>))"

definition raise_notice ::
  "string \<Rightarrow> string \<Rightarrow> epoch \<Rightarrow> epoch \<Rightarrow> string \<Rightarrow> notice_payload \<Rightarrow> notice_db \<Rightarrow> notice_error + notice_db" where
  "raise_notice nid eid now now' user payload db =
     (if \<not> payload_valid payload then Inl NoticeValidation
      else (case raise_in_session (nd_users db) nid user (payload_kind payload) (payload_key payload) (JObj (payload_dump payload)) now (nd_notices db) of
          Inl e \<Rightarrow> Inl (NoticeDb e)
        | Inr (raised, rows) \<Rightarrow>
            (let db' = db\<lparr>nd_notices := rows\<rparr>
             in if raised_opened raised then publish_changed eid now' user db' else Inr db')))"

text \<open>\<open>resolve\<close> probes in a session of its own; \<open>probed\<close> is the table it saw.\<close>

definition resolve_notice ::
  "notice_row list \<Rightarrow> string \<Rightarrow> epoch \<Rightarrow> epoch \<Rightarrow> string \<Rightarrow> notice_payload \<Rightarrow> notice_db \<Rightarrow> notice_error + notice_db" where
  "resolve_notice probed eid now now' user payload db =
     (if \<not> payload_valid payload then Inl NoticeValidation
      else if find_active_id user (payload_key payload) probed = None then Inr db
      else (case resolve_in_session user (payload_key payload) now (nd_notices db) of
          (resolved, rows) \<Rightarrow>
            (let db' = db\<lparr>nd_notices := rows\<rparr>
             in if resolved then publish_changed eid now' user db' else Inr db')))"

definition acknowledge_notice ::
  "string \<Rightarrow> epoch \<Rightarrow> epoch \<Rightarrow> string \<Rightarrow> string \<Rightarrow> notice_db \<Rightarrow> notice_error + notice_db" where
  "acknowledge_notice eid now now' user nid db =
     (case acknowledge_in_session user nid now (nd_notices db) of
        Inl e \<Rightarrow> Inl e
      | Inr (changed, rows) \<Rightarrow>
          (let db' = db\<lparr>nd_notices := rows\<rparr>
           in if changed then publish_changed eid now' user db' else Inr db'))"

record active_notice =
  an_id :: string
  an_kind :: string
  an_payload :: notice_payload
  an_message :: string
  an_count :: nat
  an_first_seen_at :: epoch
  an_last_seen_at :: epoch
  an_acknowledged_at :: "epoch option"

definition parse_notice :: "notice_row \<Rightarrow> active_notice option" where
  "parse_notice r =
     (case payload_validate (no_kind r) (no_payload r) of
        None \<Rightarrow> None
      | Some p \<Rightarrow> Some \<lparr>an_id = no_id r, an_kind = payload_kind p, an_payload = p, an_message = payload_message p, an_count = no_count r,
          an_first_seen_at = no_first_seen_at r, an_last_seen_at = no_last_seen_at r, an_acknowledged_at = no_acknowledged_at r\<rparr>)"

definition list_active :: "string \<Rightarrow> notice_db \<Rightarrow> active_notice list" where
  "list_active user db = List.map_filter parse_notice (list_active_rows user (nd_notices db))"

text \<open>The producer: \<open>_apply\<close> with the action of \<open>rejected\<close> or \<open>clear\<close>.\<close>

definition apply_key_notice ::
  "(string \<Rightarrow> notice_payload \<Rightarrow> notice_db \<Rightarrow> notice_error + notice_db) \<Rightarrow> string \<Rightarrow> string option \<Rightarrow> notice_db \<Rightarrow> notice_db" where
  "apply_key_notice action user profile_id db =
     (case profile_id of
        None \<Rightarrow> db
      | Some p \<Rightarrow> if \<not> payload_valid (EmbeddingAuthNotice p) then db
          else (case action user (EmbeddingAuthNotice p) db of Inl e \<Rightarrow> db | Inr db' \<Rightarrow> db'))"

definition key_rejected :: "bool \<Rightarrow> string \<Rightarrow> string \<Rightarrow> epoch \<Rightarrow> epoch \<Rightarrow> string \<Rightarrow> string option \<Rightarrow> notice_db \<Rightarrow> notice_db" where
  "key_rejected enabled nid eid now now' user profile_id db =
     (if enabled then apply_key_notice (raise_notice nid eid now now') user profile_id db else db)"

definition key_clear :: "bool \<Rightarrow> notice_row list \<Rightarrow> string \<Rightarrow> epoch \<Rightarrow> epoch \<Rightarrow> string \<Rightarrow> string option \<Rightarrow> notice_db \<Rightarrow> notice_db" where
  "key_clear enabled probed eid now now' user profile_id db =
     (if enabled then apply_key_notice (resolve_notice probed eid now now') user profile_id db else db)"

subsection \<open>The standing conditions of a user\<close>

text \<open>What a client shows: the active keys of a user and whether each is acknowledged.\<close>

definition standing :: "string \<Rightarrow> notice_row list \<Rightarrow> string \<rightharpoonup> bool" where
  "standing user rows key = map_option (\<lambda>r. no_acknowledged_at r \<noteq> None) (find (active_at user key) rows)"

definition notice_of :: "notice_payload \<Rightarrow> notice_row \<Rightarrow> bool" where
  "notice_of p r \<longleftrightarrow> payload_valid p \<and> no_kind r = payload_kind p \<and> no_key r = payload_key p \<and> no_payload r = Some (JObj (payload_dump p))"

definition notices_wf :: "notice_row list \<Rightarrow> bool" where
  "notices_wf rows \<longleftrightarrow> distinct (map no_id rows) \<and> distinct (map (\<lambda>r. (no_user r, no_key r)) rows)
     \<and> (\<forall>r\<in>set rows. 1 \<le> no_count r \<and> (\<exists>p. notice_of p r))"

inductive notice_step :: "string \<Rightarrow> notice_db \<Rightarrow> notice_db \<Rightarrow> bool" for user where
  raised: "raise_notice nid eid now now' user payload db = Inr db' \<Longrightarrow> notice_step user db db'"
| resolved: "resolve_notice probed eid now now' user payload db = Inr db' \<Longrightarrow> notice_step user db db'"
| acknowledged: "acknowledge_notice eid now now' user nid db = Inr db' \<Longrightarrow> notice_step user db db'"

subsection \<open>Rows found by a unique index\<close>

lemma find_unique:
  assumes "\<And>x y. x \<in> set rows \<Longrightarrow> y \<in> set rows \<Longrightarrow> P x \<Longrightarrow> P y \<Longrightarrow> x = y"
  shows "find P rows = Some r \<longleftrightarrow> r \<in> set rows \<and> P r"
proof
  assume "find P rows = Some r"
  then show "r \<in> set rows \<and> P r" by (auto simp: find_Some_iff)
next
  assume r: "r \<in> set rows \<and> P r"
  then obtain q where "find P rows = Some q" using find_None_iff [of P rows] by (cases "find P rows") auto
  moreover from this have "q \<in> set rows" "P q" by (auto simp: find_Some_iff)
  ultimately show "find P rows = Some r" using assms r by blast
qed

lemma notice_at_unique:
  assumes "notices_wf rows" "x \<in> set rows" "y \<in> set rows" "notice_at u k x" "notice_at u k y"
  shows "x = y"
  using assms by (auto simp: notices_wf_def notice_at_def distinct_map inj_on_def)

lemma find_notice_at: "notices_wf rows \<Longrightarrow> find (notice_at u k) rows = Some r \<longleftrightarrow> r \<in> set rows \<and> notice_at u k r"
  by (rule find_unique) (blast intro: notice_at_unique)

lemma active_notice_at: "active_at u k r \<longleftrightarrow> notice_at u k r \<and> no_resolved_at r = None"
  by (simp add: active_at_def notice_at_def)

lemma standing_iff:
  assumes "notices_wf rows"
  shows "standing u rows k = Some a \<longleftrightarrow> (\<exists>r\<in>set rows. active_at u k r \<and> a = (no_acknowledged_at r \<noteq> None))"
proof -
  have "find (active_at u k) rows = Some r \<longleftrightarrow> r \<in> set rows \<and> active_at u k r" for r
    by (rule find_unique) (use notice_at_unique [OF assms] in \<open>auto simp: active_notice_at\<close>)
  then show ?thesis by (auto simp: standing_def)
qed

lemma standing_None: "standing u rows k = None \<longleftrightarrow> (\<forall>r\<in>set rows. \<not> active_at u k r)"
  by (auto simp: standing_def find_None_iff)

lemma option_eq_by_Some: "(\<And>a. x = Some a \<longleftrightarrow> y = Some a) \<Longrightarrow> x = y"
  by (metis option.exhaust)

text \<open>An update of the one row of an index entry.\<close>

lemma standing_update:
  assumes wf: "notices_wf rows" "notices_wf (sql_update P f rows)" and r: "r \<in> set rows" "notice_at u k r"
    and P: "\<And>x. x \<in> set rows \<Longrightarrow> P x \<longleftrightarrow> x = r" and f: "notice_at u k (f r)"
  shows "standing v (sql_update P f rows) j =
     (if v = u \<and> j = k then (if no_resolved_at (f r) = None then Some (no_acknowledged_at (f r) \<noteq> None) else None)
      else standing v rows j)"
proof (rule option_eq_by_Some)
  fix a
  have set: "x \<in> set (sql_update P f rows) \<longleftrightarrow> x = f r \<or> x \<in> set rows \<and> x \<noteq> r" for x
    using P r(1) by (auto simp: sql_simps)
  have other: "x \<in> set rows \<Longrightarrow> x \<noteq> r \<Longrightarrow> \<not> notice_at u k x" for x
    using notice_at_unique [OF wf(1) _ r(1)] r(2) by blast
  show "standing v (sql_update P f rows) j = Some a \<longleftrightarrow>
     (if v = u \<and> j = k then (if no_resolved_at (f r) = None then Some (no_acknowledged_at (f r) \<noteq> None) else None)
      else standing v rows j) = Some a"
  proof (cases "v = u \<and> j = k")
    case True
    then show ?thesis
      using other f by (auto simp: standing_iff [OF wf(2)] set active_notice_at)
  next
    case False
    then have "\<not> notice_at v j (f r)" "\<not> notice_at v j r" using f r(2) by (auto simp: notice_at_def)
    then have "(\<exists>x\<in>set (sql_update P f rows). active_at v j x \<and> a = (no_acknowledged_at x \<noteq> None)) \<longleftrightarrow>
        (\<exists>x\<in>set rows. active_at v j x \<and> a = (no_acknowledged_at x \<noteq> None))"
      unfolding set active_notice_at Bex_def by blast
    then show ?thesis unfolding if_not_P [OF False] standing_iff [OF wf(1)] standing_iff [OF wf(2)] .
  qed
qed

lemma wf_update:
  assumes "notices_wf rows"
    and "\<And>x. x \<in> set rows \<Longrightarrow> P x \<Longrightarrow> no_id (f x) = no_id x \<and> no_user (f x) = no_user x \<and> no_key (f x) = no_key x"
    and "\<And>x. x \<in> set rows \<Longrightarrow> P x \<Longrightarrow> 1 \<le> no_count (f x) \<and> (\<exists>p. notice_of p (f x))"
  shows "notices_wf (sql_update P f rows)"
proof -
  have "map no_id (sql_update P f rows) = map no_id rows" "map (\<lambda>r. (no_user r, no_key r)) (sql_update P f rows) = map (\<lambda>r. (no_user r, no_key r)) rows"
    using assms(2) by (auto simp: sql_update_def)
  then show ?thesis using assms(1,3) by (auto simp: notices_wf_def sql_simps)
qed

lemma sql_count_unique:
  assumes "distinct rows" "\<And>x. x \<in> set rows \<Longrightarrow> P x \<longleftrightarrow> x = r" "r \<in> set rows"
  shows "sql_count P rows = 1"
proof -
  have "filter P rows = filter (\<lambda>x. x = r) rows" using assms(2) by (auto intro: filter_cong)
  moreover have "length (filter (\<lambda>x. x = r) rows) = 1"
    using assms(1,3) by (induction rows) (auto simp: filter_empty_conv)
  ultimately show ?thesis by (simp add: sql_count_def)
qed

lemma wf_distinct: "notices_wf rows \<Longrightarrow> distinct rows"
  by (simp add: notices_wf_def distinct_map)

subsection \<open>What an operation does to the standing conditions\<close>

lemma raise_in_session_standing:
  assumes wf: "notices_wf rows" and p: "payload_valid p"
    and e: "raise_in_session users nid u (payload_kind p) (payload_key p) (JObj (payload_dump p)) now rows = Inr (raised, rows')"
  shows "notices_wf rows' \<and> raised_opened raised = (standing u rows (payload_key p) = None) \<and>
    standing v rows' j = (if v = u \<and> j = payload_key p then Some (standing u rows j = Some True) else standing v rows j)"
proof -
  let ?k = "payload_key p" and ?f = "notice_again (payload_kind p) (JObj (payload_dump p)) now"
  have fresh: "nid \<notin> no_id ` set rows" using e by (auto simp: raise_in_session_def split: if_splits)
  show ?thesis
  proof (cases "find (notice_at u ?k) rows")
    case None
    define row where "row = \<lparr>no_id = nid, no_user = u, no_kind = payload_kind p, no_key = ?k, no_payload = Some (JObj (payload_dump p)),
             no_count = 1, no_first_seen_at = now, no_last_seen_at = now, no_resolved_at = None,
             no_acknowledged_at = None, no_last_delivered_at = None\<rparr>"
    have r: "rows' = rows @ [row]" "raised = (nid, 1)"
      using e None by (auto simp: raise_in_session_def row_def split: if_splits)
    have none: "\<forall>r\<in>set rows. \<not> notice_at u ?k r" using None by (simp add: find_None_iff)
    have wf': "notices_wf rows'"
      using wf fresh none p unfolding r notices_wf_def
      by (auto simp: row_def notice_at_def notice_of_def intro!: exI [of _ p])
    have st: "standing u rows ?k = None" using none by (simp add: standing_None active_notice_at)
    have "standing v rows' j = (if v = u \<and> j = ?k then Some False else standing v rows j)"
    proof (rule option_eq_by_Some)
      fix a
      have "active_at v j row \<longleftrightarrow> v = u \<and> j = ?k" by (auto simp: active_at_def row_def)
      moreover have "no_acknowledged_at row = None" by (simp add: row_def)
      ultimately show "standing v rows' j = Some a \<longleftrightarrow> (if v = u \<and> j = ?k then Some False else standing v rows j) = Some a"
        using none unfolding r(1) standing_iff [OF wf' [unfolded r(1)]] by (auto simp: standing_iff [OF wf] active_notice_at)
    qed
    then show ?thesis using wf' st r(2) by (simp add: raised_opened_def)
  next
    case (Some q)
    then have q: "q \<in> set rows" "notice_at u ?k q" by (simp_all add: find_notice_at [OF wf])
    have r: "rows' = sql_update (notice_at u ?k) ?f rows" "raised = (no_id q, no_count (?f q))"
      using e Some by (auto simp: raise_in_session_def split: if_splits)
    have P: "notice_at u ?k x \<longleftrightarrow> x = q" if "x \<in> set rows" for x using notice_at_unique [OF wf that q(1)] q(2) by blast
    have wf': "notices_wf rows'"
      unfolding r
    proof (rule wf_update [OF wf])
      fix x assume x: "x \<in> set rows" "notice_at u ?k x"
      then have "notice_of p (?f x)" using p by (auto simp: notice_again_def Let_def notice_of_def notice_at_def)
      then show "1 \<le> no_count (?f x) \<and> (\<exists>p. notice_of p (?f x))" by (auto simp: notice_again_def Let_def)
    qed (auto simp: notice_again_def Let_def)
    have st: "standing u rows ?k = (if no_resolved_at q = None then Some (no_acknowledged_at q \<noteq> None) else None)"
      by (rule option_eq_by_Some) (use P q in \<open>auto simp: standing_iff [OF wf] active_notice_at\<close>)
    have "standing v rows' j = (if v = u \<and> j = ?k then Some (no_acknowledged_at (?f q) \<noteq> None) else standing v rows j)"
    proof -
      have "notice_at u ?k (?f q)" "no_resolved_at (?f q) = None" using q(2) by (simp_all add: notice_again_def Let_def notice_at_def)
      then show ?thesis unfolding r using standing_update [OF wf wf' [unfolded r] q P, of v j] by simp
    qed
    moreover have "1 \<le> no_count q" using wf q(1) by (auto simp: notices_wf_def)
    ultimately show ?thesis
      using wf' st r(2) by (auto simp: raised_opened_def notice_again_def Let_def)
  qed
qed

lemma sql_count_none: "\<forall>x\<in>set rows. \<not> P x \<Longrightarrow> sql_count P rows = 0"
  by (simp add: sql_count_0)

lemma standing_at:
  assumes "notices_wf rows" "q \<in> set rows" "active_at u k q"
  shows "standing u rows k = Some (no_acknowledged_at q \<noteq> None)"
  using assms by (auto simp: standing_iff)

lemma resolve_in_session_standing:
  assumes wf: "notices_wf rows" and e: "resolve_in_session u k now rows = (resolved, rows')"
  shows "notices_wf rows' \<and> resolved = (standing u rows k \<noteq> None) \<and>
    standing v rows' j = (if v = u \<and> j = k then None else standing v rows j)"
proof -
  let ?f = "\<lambda>r. r\<lparr>no_resolved_at := Some now\<rparr>"
  have rows': "rows' = sql_update (active_at u k) ?f rows" "resolved = (sql_count (active_at u k) rows = 1)"
    using e by (auto simp: resolve_in_session_def)
  show ?thesis
  proof (cases "standing u rows k")
    case None
    then have n: "\<forall>x\<in>set rows. \<not> active_at u k x" by (simp add: standing_None)
    then have "rows' = rows" unfolding rows' by (rule sql_update_none)
    then show ?thesis using wf None sql_count_none [OF n] rows'(2) by auto
  next
    case (Some a)
    then obtain q where q: "q \<in> set rows" "active_at u k q" by (auto simp: standing_iff [OF wf])
    then have qn: "notice_at u k q" by (simp add: active_notice_at)
    have P: "active_at u k x \<longleftrightarrow> x = q" if "x \<in> set rows" for x
      using notice_at_unique [OF wf that q(1)] q(2) by (auto simp: active_notice_at)
    have wf': "notices_wf rows'"
      unfolding rows' by (rule wf_update [OF wf]) (use wf in \<open>auto simp: notices_wf_def notice_of_def\<close>)
    have "standing v rows' j = (if v = u \<and> j = k then None else standing v rows j)"
    proof -
      have "notice_at u k (?f q)" using qn by (simp add: notice_at_def)
      then show ?thesis unfolding rows'(1) using standing_update [OF wf wf' [unfolded rows'(1)] q(1) qn P, of v j] by simp
    qed
    moreover have "sql_count (active_at u k) rows = 1" by (rule sql_count_unique [OF wf_distinct [OF wf] P q(1)])
    ultimately show ?thesis using wf' Some rows'(2) by simp
  qed
qed

lemma id_unique: "notices_wf rows \<Longrightarrow> x \<in> set rows \<Longrightarrow> y \<in> set rows \<Longrightarrow> no_id x = no_id y \<Longrightarrow> x = y"
  by (auto simp: notices_wf_def distinct_map inj_on_def)

lemma acknowledge_in_session_standing:
  assumes wf: "notices_wf rows" and q: "q \<in> set rows" "owned_active u nid q"
  obtains rows' where "acknowledge_in_session u nid now rows = Inr (no_acknowledged_at q = None, rows')" "notices_wf rows'"
    "\<And>v j. standing v rows' j = (if v = u \<and> j = no_key q then Some True else standing v rows j)"
proof -
  let ?P = "\<lambda>r. owned_active u nid r \<and> no_acknowledged_at r = None" and ?f = "\<lambda>r. r\<lparr>no_acknowledged_at := Some now\<rparr>"
  let ?rows = "sql_update ?P ?f rows"
  have qn: "notice_at u (no_key q) q" "active_at u (no_key q) q" using q(2) by (simp_all add: notice_at_def active_at_def owned_active_def)
  have uniq: "owned_active u nid x \<longleftrightarrow> x = q" if "x \<in> set rows" for x
    using id_unique [OF wf that q(1)] q(2) by (auto simp: owned_active_def)
  have wf': "notices_wf ?rows"
    by (rule wf_update [OF wf]) (use wf in \<open>auto simp: notices_wf_def notice_of_def\<close>)
  show thesis
  proof (cases "no_acknowledged_at q")
    case None
    then have P: "?P x \<longleftrightarrow> x = q" if "x \<in> set rows" for x using uniq [OF that] by auto
    have "sql_count ?P rows = 1" by (rule sql_count_unique [OF wf_distinct [OF wf] P q(1)])
    then have "acknowledge_in_session u nid now rows = Inr (no_acknowledged_at q = None, ?rows)"
      using None by (simp add: acknowledge_in_session_def)
    moreover have "standing v ?rows j = (if v = u \<and> j = no_key q then Some True else standing v rows j)" for v j
    proof -
      have "notice_at u (no_key q) (?f q)" "no_resolved_at (?f q) = None" using q(2) by (simp_all add: notice_at_def owned_active_def)
      then show ?thesis using standing_update [OF wf wf' q(1) qn(1) P, of v j] by simp
    qed
    ultimately show thesis using that wf' by blast
  next
    case (Some t)
    have n: "\<forall>x\<in>set rows. \<not> ?P x" using Some uniq by auto
    have same: "?rows = rows" by (rule sql_update_none [OF n])
    have "find (owned_active u nid) rows \<noteq> None" using q by (auto simp: find_None_iff)
    then have "acknowledge_in_session u nid now rows = Inr (no_acknowledged_at q = None, rows)"
      using Some sql_count_none [OF n] same by (simp add: acknowledge_in_session_def)
    moreover have "standing u rows (no_key q) = Some True" using standing_at [OF wf q(1) qn(2)] Some by simp
    ultimately show thesis using that [OF _ wf] by auto
  qed
qed

lemma acknowledge_in_session_error:
  assumes "\<forall>r\<in>set rows. \<not> owned_active u nid r"
  shows "acknowledge_in_session u nid now rows = Inl (NoticeNotFoundError nid)"
proof -
  have n: "\<forall>x\<in>set rows. \<not> (owned_active u nid x \<and> no_acknowledged_at x = None)" using assms by simp
  have "find (owned_active u nid) rows = None" using assms by (simp add: find_None_iff)
  then show ?thesis by (simp add: acknowledge_in_session_def Let_def sql_update_none [OF n] sql_count_none [OF n])
qed

subsection \<open>Announcements\<close>

text \<open>The outbox grows by an event for \<open>u\<close> when its standing conditions changed, and by nothing else.\<close>

definition announced :: "string \<Rightarrow> notice_db \<Rightarrow> notice_db \<Rightarrow> bool" where
  "announced u db db' \<longleftrightarrow> (\<exists>new. nd_events db' = nd_events db @ new \<and>
     map (\<lambda>e. (ev_owner e, ev_kind e)) new = (if standing u (nd_notices db') = standing u (nd_notices db) then [] else [(u, ''notices_changed'')]))"

lemma publish_changed_Inr:
  assumes "publish_changed eid now u db = Inr db'"
  obtains e where "nd_events db' = nd_events db @ [e]" "ev_owner e = u" "ev_kind e = ''notices_changed''"
    "nd_notices db' = nd_notices db" "nd_users db' = nd_users db"
  using assms by (auto simp: publish_changed_def publish_in_session_def sql_insert_Inr split: sum.splits)

lemma announce:
  assumes "(if changed then publish_changed eid now u (db\<lparr>nd_notices := rows\<rparr>) else Inr (db\<lparr>nd_notices := rows\<rparr>)) = Inr db'"
    and "changed = (standing u rows \<noteq> standing u (nd_notices db))"
  shows "nd_notices db' = rows \<and> announced u db db'"
proof (cases changed)
  case True
  then obtain e where "nd_events db' = nd_events db @ [e]" "ev_owner e = u" "ev_kind e = ''notices_changed''" "nd_notices db' = rows"
    using assms(1) publish_changed_Inr [of eid now u "db\<lparr>nd_notices := rows\<rparr>" db'] by auto
  then show ?thesis using True assms(2) by (auto simp: announced_def)
next
  case False
  then show ?thesis using assms by (auto simp: announced_def)
qed

text \<open>What each operation makes of the standing conditions.\<close>

lemma raise_notice_step:
  assumes wf: "notices_wf (nd_notices db)" and e: "raise_notice nid eid now now' u p db = Inr db'"
  shows "notices_wf (nd_notices db') \<and> announced u db db' \<and>
    standing v (nd_notices db') j = (if v = u \<and> j = payload_key p then Some (standing u (nd_notices db) j = Some True) else standing v (nd_notices db) j)"
proof -
  have p: "payload_valid p" using e by (auto simp: raise_notice_def split: if_splits)
  obtain raised rows where r: "raise_in_session (nd_users db) nid u (payload_kind p) (payload_key p) (JObj (payload_dump p)) now (nd_notices db) = Inr (raised, rows)"
    "(if raised_opened raised then publish_changed eid now' u (db\<lparr>nd_notices := rows\<rparr>) else Inr (db\<lparr>nd_notices := rows\<rparr>)) = Inr db'"
    using e p by (auto simp: raise_notice_def Let_def split: sum.splits prod.splits)
  note st = raise_in_session_standing [OF wf p r(1)]
  have "raised_opened raised = (standing u rows \<noteq> standing u (nd_notices db))"
  proof -
    have "standing u rows = standing u (nd_notices db) \<longleftrightarrow> standing u (nd_notices db) (payload_key p) \<noteq> None"
    proof
      assume "standing u rows = standing u (nd_notices db)"
      then show "standing u (nd_notices db) (payload_key p) \<noteq> None" using st [of u "payload_key p"] by auto
    next
      assume "standing u (nd_notices db) (payload_key p) \<noteq> None"
      then show "standing u rows = standing u (nd_notices db)" using st [of u] by (auto simp: fun_eq_iff)
    qed
    then show ?thesis using st [of u "payload_key p"] by simp
  qed
  from announce [OF r(2) this] show ?thesis using st by auto
qed

lemma resolve_notice_step:
  assumes wf: "notices_wf (nd_notices db)" and e: "resolve_notice probed eid now now' u p db = Inr db'"
  shows "notices_wf (nd_notices db') \<and> announced u db db' \<and>
    standing v (nd_notices db') j = (if v = u \<and> j = payload_key p \<and> find_active_id u (payload_key p) probed \<noteq> None then None else standing v (nd_notices db) j)"
proof (cases "find_active_id u (payload_key p) probed = None")
  case True
  then have "db' = db" using e by (auto simp: resolve_notice_def split: if_splits)
  then show ?thesis using wf True by (auto simp: announced_def)
next
  case False
  obtain resolved rows where r: "resolve_in_session u (payload_key p) now (nd_notices db) = (resolved, rows)"
    "(if resolved then publish_changed eid now' u (db\<lparr>nd_notices := rows\<rparr>) else Inr (db\<lparr>nd_notices := rows\<rparr>)) = Inr db'"
    using e False by (auto simp: resolve_notice_def Let_def split: prod.splits if_splits)
  note st = resolve_in_session_standing [OF wf r(1)]
  have "resolved = (standing u rows \<noteq> standing u (nd_notices db))"
  proof -
    have "standing u rows = standing u (nd_notices db) \<longleftrightarrow> standing u (nd_notices db) (payload_key p) = None"
    proof
      assume "standing u rows = standing u (nd_notices db)"
      then show "standing u (nd_notices db) (payload_key p) = None" using st [of u "payload_key p"] by auto
    next
      assume "standing u (nd_notices db) (payload_key p) = None"
      then show "standing u rows = standing u (nd_notices db)" using st [of u] by (auto simp: fun_eq_iff)
    qed
    then show ?thesis using st [of u "payload_key p"] by simp
  qed
  from announce [OF r(2) this] show ?thesis using st False by auto
qed

lemma acknowledge_notice_step:
  assumes wf: "notices_wf (nd_notices db)" and e: "acknowledge_notice eid now now' u nid db = Inr db'"
  shows "notices_wf (nd_notices db') \<and> announced u db db' \<and>
    (\<exists>q\<in>set (nd_notices db). owned_active u nid q \<and>
       (\<forall>v j. standing v (nd_notices db') j = (if v = u \<and> j = no_key q then Some True else standing v (nd_notices db) j)))"
proof -
  have "\<not> (\<forall>q\<in>set (nd_notices db). \<not> owned_active u nid q)"
  proof
    assume "\<forall>q\<in>set (nd_notices db). \<not> owned_active u nid q"
    from acknowledge_in_session_error [OF this] show False using e by (simp add: acknowledge_notice_def)
  qed
  then obtain q where q: "q \<in> set (nd_notices db)" "owned_active u nid q" by blast
  obtain rows where r: "acknowledge_in_session u nid now (nd_notices db) = Inr (no_acknowledged_at q = None, rows)" "notices_wf rows"
    "\<And>v j. standing v rows j = (if v = u \<and> j = no_key q then Some True else standing v (nd_notices db) j)"
    using acknowledge_in_session_standing [OF wf q] by metis
  have at: "standing u (nd_notices db) (no_key q) = Some (no_acknowledged_at q \<noteq> None)"
    by (rule standing_at [OF wf q(1)]) (use q(2) in \<open>simp add: owned_active_def active_at_def\<close>)
  have "(no_acknowledged_at q = None) = (standing u rows \<noteq> standing u (nd_notices db))"
  proof
    assume "no_acknowledged_at q = None"
    then have "standing u rows (no_key q) \<noteq> standing u (nd_notices db) (no_key q)" using at r(3) by simp
    then show "standing u rows \<noteq> standing u (nd_notices db)" by auto
  next
    assume "standing u rows \<noteq> standing u (nd_notices db)"
    then obtain j where "standing u rows j \<noteq> standing u (nd_notices db) j" by (auto simp: fun_eq_iff)
    then show "no_acknowledged_at q = None" using at r(3) by (auto split: if_splits)
  qed
  moreover have "(if no_acknowledged_at q = None then publish_changed eid now' u (db\<lparr>nd_notices := rows\<rparr>) else Inr (db\<lparr>nd_notices := rows\<rparr>)) = Inr db'"
    using e r(1) by (simp add: acknowledge_notice_def Let_def)
  ultimately have "nd_notices db' = rows \<and> announced u db db'" by (rule announce [rotated])
  then show ?thesis using r q by auto
qed

lemma notice_step_effect:
  assumes "notice_step u db db'" "notices_wf (nd_notices db)"
  shows "notices_wf (nd_notices db') \<and> announced u db db' \<and> (\<forall>v. v \<noteq> u \<longrightarrow> standing v (nd_notices db') = standing v (nd_notices db))"
  using assms
proof (induction rule: notice_step.induct)
  case (raised nid eid now now' p db db')
  then show ?case using raise_notice_step [OF raised(2,1)] by (auto simp: fun_eq_iff)
next
  case (resolved probed eid now now' p db db')
  then show ?case using resolve_notice_step [OF resolved(2,1)] by (auto simp: fun_eq_iff)
next
  case (acknowledged eid now now' nid db db')
  then show ?case using acknowledge_notice_step [OF acknowledged(2,1)] by (auto simp: fun_eq_iff)
qed

definition any_notice_step :: "notice_db \<Rightarrow> notice_db \<Rightarrow> bool" where
  "any_notice_step db db' \<longleftrightarrow> (\<exists>u. notice_step u db db')"

definition no_notices :: "string list \<Rightarrow> event_row list \<Rightarrow> notice_db" where
  "no_notices users events = \<lparr>nd_users = users, nd_notices = [], nd_events = events\<rparr>"

interpretation notices: inv_machine "no_notices users events" any_notice_step "\<lambda>db. notices_wf (nd_notices db)"
proof unfold_locales
  show "notices_wf (nd_notices (no_notices users events))" by (simp add: no_notices_def notices_wf_def)
  show "notices_wf (nd_notices db')" if "any_notice_step db db'" "notices_wf (nd_notices db)" for db db'
    using that notice_step_effect by (auto simp: any_notice_step_def)
qed

text \<open>C17: announcements. In every reachable state, an operation on behalf of a user appends to the outbox exactly one
  \<open>notices_changed\<close> event of that user if it changed what the user sees (the active notices and which of them
  are acknowledged), and no event if it did not; other users' notices never change.\<close>

theorem notices_announced_exactly:
  assumes "any_notice_step\<^sup>*\<^sup>* (no_notices users events) db" "notice_step u db db'"
  shows "announced u db db' \<and> (\<forall>v. v \<noteq> u \<longrightarrow> standing v (nd_notices db') = standing v (nd_notices db))"
  using notice_step_effect [OF assms(2) notices.reach_inv [OF assms(1)]] by blast

subsection \<open>Episodes\<close>

definition occurrences :: "string \<Rightarrow> string \<Rightarrow> notice_row list \<Rightarrow> nat" where
  "occurrences u k rows = (case find (active_at u k) rows of None \<Rightarrow> 0 | Some r \<Rightarrow> no_count r)"

lemma occurrences_at: "notices_wf rows \<Longrightarrow> q \<in> set rows \<Longrightarrow> active_at u k q \<Longrightarrow> occurrences u k rows = no_count q"
proof -
  assume a: "notices_wf rows" "q \<in> set rows" "active_at u k q"
  have "find (active_at u k) rows = Some q"
    using a by (subst find_unique) (auto simp: active_notice_at dest: notice_at_unique)
  then show ?thesis by (simp add: occurrences_def)
qed

lemma occurrences_none: "\<forall>r\<in>set rows. \<not> active_at u k r \<Longrightarrow> occurrences u k rows = 0"
proof -
  assume "\<forall>r\<in>set rows. \<not> active_at u k r"
  then have "find (active_at u k) rows = None" by (simp add: find_None_iff)
  then show ?thesis by (simp add: occurrences_def)
qed

lemma raise_counts:
  assumes wf: "notices_wf rows" and p: "payload_valid p"
    and e: "raise_in_session users nid u (payload_kind p) (payload_key p) (JObj (payload_dump p)) now rows = Inr (raised, rows')"
  shows "occurrences u (payload_key p) rows' = Suc (occurrences u (payload_key p) rows)"
proof -
  let ?k = "payload_key p" and ?f = "notice_again (payload_kind p) (JObj (payload_dump p)) now"
  have wf': "notices_wf rows'" using raise_in_session_standing [OF wf p e] by blast
  show ?thesis
  proof (cases "find (notice_at u ?k) rows")
    case None
    then have n: "\<forall>r\<in>set rows. \<not> active_at u ?k r" by (auto simp: find_None_iff active_notice_at)
    obtain row where "rows' = rows @ [row]" "active_at u ?k row" "no_count row = 1"
      using e None by (auto simp: raise_in_session_def active_at_def split: if_splits)
    then show ?thesis using occurrences_at [OF wf', of row] occurrences_none [OF n] by simp
  next
    case (Some q)
    then have q: "q \<in> set rows" "notice_at u ?k q" by (simp_all add: find_notice_at [OF wf])
    have r: "rows' = sql_update (notice_at u ?k) ?f rows" using e Some by (auto simp: raise_in_session_def split: if_splits)
    have "?f q \<in> set rows'" using q by (auto simp: r sql_simps)
    moreover have "active_at u ?k (?f q)" using q(2) by (simp add: notice_again_def Let_def active_at_def notice_at_def)
    ultimately have new: "occurrences u ?k rows' = no_count (?f q)" by (rule occurrences_at [OF wf'])
    show ?thesis
    proof (cases "no_resolved_at q")
      case None
      then have "occurrences u ?k rows = no_count q" using q by (intro occurrences_at [OF wf]) (simp_all add: active_notice_at)
      then show ?thesis using new None by (simp add: notice_again_def)
    next
      case (Some t)
      have "\<forall>r\<in>set rows. \<not> active_at u ?k r" using notice_at_unique [OF wf _ q(1)] q(2) Some by (fastforce simp: active_notice_at)
      then show ?thesis using new Some occurrences_none by (simp add: notice_again_def)
    qed
  qed
qed

text \<open>A producer that raises the same notice again and again, each time with its own identifiers and clock.\<close>

fun raise_each :: "(string \<times> string \<times> epoch \<times> epoch) list \<Rightarrow> string \<Rightarrow> notice_payload \<Rightarrow> notice_db \<Rightarrow> notice_error + notice_db" where
  "raise_each [] u p db = Inr db"
| "raise_each ((nid, eid, now, now') # rs) u p db =
     (case raise_notice nid eid now now' u p db of Inl e \<Rightarrow> Inl e | Inr db' \<Rightarrow> raise_each rs u p db')"

lemma raise_notice_counts:
  assumes "notices_wf (nd_notices db)" "raise_notice nid eid now now' u p db = Inr db'"
  shows "occurrences u (payload_key p) (nd_notices db') = Suc (occurrences u (payload_key p) (nd_notices db))"
proof -
  have p: "payload_valid p" using assms(2) by (auto simp: raise_notice_def split: if_splits)
  obtain raised rows where r: "raise_in_session (nd_users db) nid u (payload_kind p) (payload_key p) (JObj (payload_dump p)) now (nd_notices db) = Inr (raised, rows)"
    "(if raised_opened raised then publish_changed eid now' u (db\<lparr>nd_notices := rows\<rparr>) else Inr (db\<lparr>nd_notices := rows\<rparr>)) = Inr db'"
    using assms(2) p by (auto simp: raise_notice_def Let_def split: sum.splits prod.splits)
  have "nd_notices db' = rows"
    using r(2) publish_changed_Inr [of eid now' u "db\<lparr>nd_notices := rows\<rparr>" db'] by (auto split: if_splits)
  then show ?thesis using raise_counts [OF assms(1) p r(1)] by simp
qed

lemma raise_each_effect:
  "raise_each rs u p db = Inr db' \<Longrightarrow> notices_wf (nd_notices db) \<Longrightarrow>
     notices_wf (nd_notices db') \<and> occurrences u (payload_key p) (nd_notices db') = occurrences u (payload_key p) (nd_notices db) + length rs \<and>
     (rs \<noteq> [] \<longrightarrow> standing u (nd_notices db') (payload_key p) = Some (standing u (nd_notices db) (payload_key p) = Some True)) \<and>
     length (nd_events db') = length (nd_events db) + (if rs \<noteq> [] \<and> standing u (nd_notices db) (payload_key p) = None then 1 else 0)"
proof (induction rs arbitrary: db)
  case Nil
  then show ?case by simp
next
  case (Cons r rs)
  obtain nid eid now now' where rr: "r = (nid, eid, now, now')" by (cases r)
  obtain db1 where d: "raise_notice nid eid now now' u p db = Inr db1" "raise_each rs u p db1 = Inr db'"
    using Cons.prems(1) rr by (auto split: sum.splits)
  note st = raise_notice_step [OF Cons.prems(2) d(1)]
  let ?k = "payload_key p"
  have s1: "standing u (nd_notices db1) ?k = Some (standing u (nd_notices db) ?k = Some True)" using st [of u ?k] by simp
  have "standing u (nd_notices db1) = standing u (nd_notices db) \<longleftrightarrow> standing u (nd_notices db) ?k \<noteq> None"
  proof
    assume "standing u (nd_notices db1) = standing u (nd_notices db)"
    then show "standing u (nd_notices db) ?k \<noteq> None" using s1 by auto
  next
    assume "standing u (nd_notices db) ?k \<noteq> None"
    then show "standing u (nd_notices db1) = standing u (nd_notices db)" using st [of u] by (auto simp: fun_eq_iff)
  qed
  moreover have "announced u db db1" using st by simp
  ultimately have ev: "length (nd_events db1) = length (nd_events db) + (if standing u (nd_notices db) ?k = None then 1 else 0)"
    by (auto simp: announced_def dest!: arg_cong [where f = length] split: if_splits)
  have wf1: "notices_wf (nd_notices db1)" using st by simp
  show ?case
    using Cons.IH [OF d(2) wf1] raise_notice_counts [OF Cons.prems(2) d(1)] ev s1 d(2) by (cases "rs = []") auto
qed

text \<open>One notice and one event. Raising a notice that is not active any number of times opens one episode: one
  event is published, one active notice is left, not acknowledged, and it counts the occurrences.\<close>

theorem many_occurrences_one_notice:
  assumes "any_notice_step\<^sup>*\<^sup>* (no_notices users events) db" "standing u (nd_notices db) (payload_key p) = None"
    and "raise_each rs u p db = Inr db'" "rs \<noteq> []"
  shows "length (nd_events db') = length (nd_events db) + 1 \<and> standing u (nd_notices db') (payload_key p) = Some False \<and>
    occurrences u (payload_key p) (nd_notices db') = length rs"
proof -
  have wf: "notices_wf (nd_notices db)" by (rule notices.reach_inv [OF assms(1)])
  have "occurrences u (payload_key p) (nd_notices db) = 0"
    using assms(2) by (intro occurrences_none) (simp add: standing_None)
  then show ?thesis using raise_each_effect [OF assms(3) wf] assms(2,4) by simp
qed

subsection \<open>Listing\<close>

lemma payload_roundtrip: "notice_of p r \<Longrightarrow> payload_validate (no_kind r) (no_payload r) = Some p"
  by (cases p) (simp add: notice_of_def payload_validate_def)

lemma parse_notice_of:
  assumes "notice_of p r"
  shows "\<exists>x. parse_notice r = Some x \<and> an_id x = no_id r \<and> an_payload x = p \<and> payload_key p = no_key r \<and> an_acknowledged_at x = no_acknowledged_at r"
  using payload_roundtrip [OF assms] assms by (simp add: parse_notice_def notice_of_def)

lemma map_filter_all: "\<forall>x\<in>set xs. f x \<noteq> None \<Longrightarrow> List.map_filter f xs = map (\<lambda>x. the (f x)) xs"
  by (induction xs) (auto simp: List.map_filter_simps)

text \<open>The list of notices. It shows every active notice of the user exactly once, with its acknowledgement:
  what was stored always parses back to the payload it was raised with.\<close>

theorem list_active_shows_standing:
  assumes "any_notice_step\<^sup>*\<^sup>* (no_notices users events) db"
  shows "distinct (map (\<lambda>x. payload_key (an_payload x)) (list_active u db)) \<and>
    (\<forall>k a. standing u (nd_notices db) k = Some a \<longleftrightarrow>
       (\<exists>x\<in>set (list_active u db). payload_key (an_payload x) = k \<and> (an_acknowledged_at x \<noteq> None) = a))"
proof -
  let ?rows = "nd_notices db"
  let ?act = "list_active_rows u ?rows"
  have wf: "notices_wf ?rows" by (rule notices.reach_inv [OF assms])
  have act: "x \<in> set ?act \<longleftrightarrow> x \<in> set ?rows \<and> no_user x = u \<and> no_resolved_at x = None" for x
    by (auto simp: list_active_rows_def)
  have parse: "\<exists>y. parse_notice x = Some y \<and> payload_key (an_payload y) = no_key x \<and> an_acknowledged_at y = no_acknowledged_at x"
    if "x \<in> set ?act" for x
  proof -
    have "x \<in> set ?rows" using that act by blast
    then obtain p where "notice_of p x" using wf unfolding notices_wf_def by blast
    from parse_notice_of [OF this] show ?thesis by auto
  qed
  then have la: "list_active u db = map (\<lambda>x. the (parse_notice x)) ?act"
    unfolding list_active_def by (intro map_filter_all) fastforce
  have key: "payload_key (an_payload (the (parse_notice x))) = no_key x" "an_acknowledged_at (the (parse_notice x)) = no_acknowledged_at x"
    if "x \<in> set ?act" for x using parse [OF that] by auto
  have "map (\<lambda>x. payload_key (an_payload x)) (list_active u db) = map no_key ?act"
    unfolding la by (simp add: key)
  moreover have "distinct (map no_key ?act)"
  proof -
    have "inj_on no_key (set ?act)"
      using wf by (auto simp: inj_on_def act intro: notice_at_unique [where u = u] simp: notice_at_def)
    moreover have "distinct ?act" using wf_distinct [OF wf] by (simp add: list_active_rows_def)
    ultimately show ?thesis by (simp add: distinct_map)
  qed
  moreover have "standing u ?rows k = Some a \<longleftrightarrow>
       (\<exists>x\<in>set (list_active u db). payload_key (an_payload x) = k \<and> (an_acknowledged_at x \<noteq> None) = a)" for k a
  proof -
    have "(\<exists>x\<in>set (list_active u db). payload_key (an_payload x) = k \<and> (an_acknowledged_at x \<noteq> None) = a) \<longleftrightarrow>
        (\<exists>x\<in>set ?act. no_key x = k \<and> (no_acknowledged_at x \<noteq> None) = a)"
      unfolding la by (simp add: key cong: bex_cong)
    also have "\<dots> \<longleftrightarrow> (\<exists>x\<in>set ?rows. active_at u k x \<and> a = (no_acknowledged_at x \<noteq> None))"
      unfolding Bex_def act active_at_def by blast
    finally show ?thesis unfolding standing_iff [OF wf] by (rule sym)
  qed
  ultimately show ?thesis by simp
qed

subsection \<open>Witnesses\<close>

definition ex_notice_db :: notice_db where
  "ex_notice_db = no_notices [''u''] []"

definition ex_profile :: notice_payload where
  "ex_profile = EmbeddingAuthNotice ''p1''"

definition ex_raised :: notice_db where
  "ex_raised = (case raise_each [(''n1'', ''e1'', 1, 1), (''n2'', ''e2'', 2, 2)] ''u'' ex_profile ex_notice_db of Inr db \<Rightarrow> db | Inl e \<Rightarrow> ex_notice_db)"

lemma ex_payload_valid: "payload_valid ex_profile"
  by (simp add: ex_profile_def notice_id_def notice_id_char_def Let_def)

lemmas ex_notice_simps = ex_notice_db_def no_notices_def raise_notice_def ex_payload_valid raise_in_session_def raised_opened_def
  publish_changed_def publish_in_session_def sql_insert_def notice_again_def Let_def notice_at_def

lemma ex_raise: "raise_each [(''n1'', ''e1'', 1, 1), (''n2'', ''e2'', 2, 2)] ''u'' ex_profile ex_notice_db = Inr ex_raised"
  by (simp add: ex_raised_def ex_notice_simps)

lemma ex_notice_reach: "any_notice_step\<^sup>*\<^sup>* (no_notices [''u''] []) ex_notice_db"
  by (simp add: ex_notice_db_def)

lemma ex_raise_first: "\<exists>db. raise_notice ''n1'' ''e1'' 1 1 ''u'' ex_profile ex_notice_db = Inr db"
  by (simp add: ex_notice_simps)

theorem notices_announced_exactly_witness: "\<exists>db. notice_step ''u'' ex_notice_db db \<and> announced ''u'' ex_notice_db db"
proof -
  obtain db where "raise_notice ''n1'' ''e1'' 1 1 ''u'' ex_profile ex_notice_db = Inr db" using ex_raise_first by blast
  then have "notice_step ''u'' ex_notice_db db" by (rule notice_step.raised)
  from this notices_announced_exactly [OF ex_notice_reach this] show ?thesis by blast
qed

theorem many_occurrences_one_notice_witness:
  "length (nd_events ex_raised) = 1 \<and> standing ''u'' (nd_notices ex_raised) (payload_key ex_profile) = Some False \<and>
    occurrences ''u'' (payload_key ex_profile) (nd_notices ex_raised) = 2"
proof -
  have n: "standing ''u'' (nd_notices ex_notice_db) (payload_key ex_profile) = None"
    by (simp add: ex_notice_db_def no_notices_def standing_def)
  show ?thesis using many_occurrences_one_notice [OF ex_notice_reach n ex_raise] by (simp add: ex_notice_db_def no_notices_def)
qed

theorem list_active_shows_standing_witness: "distinct (map (\<lambda>x. payload_key (an_payload x)) (list_active ''u'' ex_notice_db))"
  using list_active_shows_standing [OF ex_notice_reach] by blast

end
