(* ===== verification/Share_Links.thy ===== *)
theory Share_Links
  imports Note_Rows
begin

section \<open>Share links\<close>

text \<open>
  Models \<open>repositories/note_share_link.py\<close> (class \<open>NoteShareLinkRepository\<close>) over \<open>models.NoteShareLink\<close> and
  \<open>models.NoteShareLinkVisit\<close>, with \<open>_mutate_or_none\<close> of \<open>repositories/__init__.py\<close>, the views of
  \<open>services/notes/share_links.py\<close> and the public read of \<open>api/public_notes.py\<close>. Foreign keys are checked.
  What the public read renders is a parameter: the content of a note, or nothing.
\<close>

subsection \<open>Definitions\<close>

record share_link =
  sl_token :: string
  sl_note :: string
  sl_workspace :: string
  sl_owner :: string
  sl_created_at :: string
  sl_revoked_at :: "string option"
  sl_preview :: bool

datatype visit_kind = ContentVisit | PageVisit

record link_visit =
  lv_id :: nat
  lv_kind :: visit_kind
  lv_token :: string
  lv_ip :: "string option"
  lv_user_agent :: "string option"
  lv_created_at :: string

record share_db =
  sd_users :: "string list"
  sd_notes :: "string list"
  sd_links :: "share_link list"
  sd_visits :: "link_visit list"

record visit_summary =
  vs_link :: share_link
  vs_visit_count :: nat
  vs_last_visited_at :: "string option"
  vs_page_view_count :: nat
  vs_last_page_viewed_at :: "string option"

definition create_link ::
  "string \<Rightarrow> string \<Rightarrow> string \<Rightarrow> string \<Rightarrow> string \<Rightarrow> bool \<Rightarrow> share_db \<Rightarrow> db_error + share_link \<times> share_db" where
  "create_link token now note_id workspace owner_id preview_description db =
     (let link = \<lparr>sl_token = token, sl_note = note_id, sl_workspace = workspace, sl_owner = owner_id,
                  sl_created_at = now, sl_revoked_at = None, sl_preview = preview_description\<rparr>
      in if note_id \<notin> set (sd_notes db) \<or> owner_id \<notin> set (sd_users db) then Inl IntegrityError
         else (case sql_insert sl_token link (sd_links db) of
             Inl e \<Rightarrow> Inl e
           | Inr links \<Rightarrow> Inr (link, db\<lparr>sd_links := links\<rparr>)))"

definition resolve_link :: "string \<Rightarrow> share_db \<Rightarrow> share_link option" where
  "resolve_link token db =
     (case sql_get sl_token token (sd_links db) of
        None \<Rightarrow> None
      | Some link \<Rightarrow> if sl_revoked_at link = None then Some link else None)"

definition links_for_note :: "string \<Rightarrow> share_db \<Rightarrow> share_link list" where
  "links_for_note note_id db = sort_key sl_created_at (filter (\<lambda>l. sl_note l = note_id) (sd_links db))"

definition links_for_user :: "string \<Rightarrow> share_db \<Rightarrow> share_link list" where
  "links_for_user owner_id db = sort_key sl_created_at (filter (\<lambda>l. sl_owner l = owner_id) (sd_links db))"

text \<open>\<open>count(id) filter (...)\<close> and \<open>max(created_at) filter (...)\<close> over the visits joined to a link.\<close>

definition kind_visits :: "visit_kind \<Rightarrow> string \<Rightarrow> share_db \<Rightarrow> link_visit list" where
  "kind_visits k token db = filter (\<lambda>v. lv_token v = token \<and> lv_kind v = k) (sd_visits db)"

definition sql_max :: "string list \<Rightarrow> string option" where
  "sql_max xs = (if xs = [] then None else Some (fold max (tl xs) (hd xs)))"

definition active_with_visit_summary :: "string \<Rightarrow> share_db \<Rightarrow> visit_summary list" where
  "active_with_visit_summary note_id db =
     map (\<lambda>l. \<lparr>vs_link = l,
               vs_visit_count = length (kind_visits ContentVisit (sl_token l) db),
               vs_last_visited_at = sql_max (map lv_created_at (kind_visits ContentVisit (sl_token l) db)),
               vs_page_view_count = length (kind_visits PageVisit (sl_token l) db),
               vs_last_page_viewed_at = sql_max (map lv_created_at (kind_visits PageVisit (sl_token l) db))\<rparr>)
       (sort_key sl_created_at (filter (\<lambda>l. sl_note l = note_id \<and> sl_revoked_at l = None) (sd_links db)))"

text \<open>The identifier of a visit is SQLite's: one more than the greatest.\<close>

definition next_rowid :: "link_visit list \<Rightarrow> nat" where
  "next_rowid visits = Suc (fold max (map lv_id visits) 0)"

definition record_visit ::
  "string \<Rightarrow> string option \<Rightarrow> string option \<Rightarrow> visit_kind \<Rightarrow> string \<Rightarrow> share_db \<Rightarrow> db_error + share_db" where
  "record_visit token ip user_agent kind now db =
     (if token \<notin> sl_token ` set (sd_links db) then Inl IntegrityError
      else Inr (db\<lparr>sd_visits := sd_visits db @ [\<lparr>lv_id = next_rowid (sd_visits db), lv_kind = kind, lv_token = token,
             lv_ip = ip, lv_user_agent = user_agent, lv_created_at = now\<rparr>]\<rparr>))"

definition sweep_visits :: "string \<Rightarrow> share_db \<Rightarrow> nat \<times> share_db" where
  "sweep_visits cutoff db =
     (sql_count (\<lambda>v. lv_created_at v < cutoff) (sd_visits db),
      db\<lparr>sd_visits := sql_delete (\<lambda>v. lv_created_at v < cutoff) (sd_visits db)\<rparr>)"

text \<open>\<open>_mutate_or_none\<close>: fetch by primary key, guard, mutate the row.\<close>

definition mutate_or_none ::
  "('r \<Rightarrow> 'k) \<Rightarrow> 'k \<Rightarrow> ('r \<Rightarrow> 'r) \<Rightarrow> ('r \<Rightarrow> bool) \<Rightarrow> 'r list \<Rightarrow> bool \<times> 'r list" where
  "mutate_or_none key pk f guard rows =
     (case sql_get key pk rows of
        None \<Rightarrow> (False, rows)
      | Some row \<Rightarrow> if \<not> guard row then (False, rows) else (True, sql_update (\<lambda>r. key r = pk) f rows))"

definition link_guard :: "string \<Rightarrow> string \<Rightarrow> share_link \<Rightarrow> bool" where
  "link_guard owner_id note_id link \<longleftrightarrow> sl_owner link = owner_id \<and> sl_note link = note_id \<and> sl_revoked_at link = None"

definition revoke_link :: "string \<Rightarrow> string \<Rightarrow> string \<Rightarrow> string \<Rightarrow> share_db \<Rightarrow> bool \<times> share_db" where
  "revoke_link now owner_id note_id token db =
     (case mutate_or_none sl_token token (\<lambda>l. l\<lparr>sl_revoked_at := Some now\<rparr>) (link_guard owner_id note_id) (sd_links db) of
        (ok, links) \<Rightarrow> (ok, db\<lparr>sd_links := links\<rparr>))"

definition set_preview_description :: "string \<Rightarrow> string \<Rightarrow> string \<Rightarrow> bool \<Rightarrow> share_db \<Rightarrow> bool \<times> share_db" where
  "set_preview_description owner_id note_id token value db =
     (case mutate_or_none sl_token token (\<lambda>l. l\<lparr>sl_preview := value\<rparr>) (link_guard owner_id note_id) (sd_links db) of
        (ok, links) \<Rightarrow> (ok, db\<lparr>sd_links := links\<rparr>))"

text \<open>Deleting links fails while a visit names one of them.\<close>

definition delete_links_where :: "(share_link \<Rightarrow> bool) \<Rightarrow> share_db \<Rightarrow> db_error + share_db" where
  "delete_links_where P db =
     (if \<exists>l\<in>set (sd_links db). P l \<and> (\<exists>v\<in>set (sd_visits db). lv_token v = sl_token l) then Inl IntegrityError
      else Inr (db\<lparr>sd_links := sql_delete P (sd_links db)\<rparr>))"

definition delete_visits_where :: "(share_link \<Rightarrow> bool) \<Rightarrow> share_db \<Rightarrow> share_db" where
  "delete_visits_where P db =
     db\<lparr>sd_visits := sql_delete (\<lambda>v. lv_token v \<in> sl_token ` {l \<in> set (sd_links db). P l}) (sd_visits db)\<rparr>"

definition delete_links_for_note :: "string \<Rightarrow> share_db \<Rightarrow> db_error + share_db" where
  "delete_links_for_note note_id db = delete_links_where (\<lambda>l. sl_note l = note_id) db"

definition delete_visits_for_note :: "string \<Rightarrow> share_db \<Rightarrow> share_db" where
  "delete_visits_for_note note_id db = delete_visits_where (\<lambda>l. sl_note l = note_id) db"

definition delete_links_for_workspace :: "string \<Rightarrow> string \<Rightarrow> share_db \<Rightarrow> db_error + share_db" where
  "delete_links_for_workspace workspace owner_id db = delete_links_where (\<lambda>l. sl_workspace l = workspace \<and> sl_owner l = owner_id) db"

definition delete_visits_for_workspace :: "string \<Rightarrow> string \<Rightarrow> share_db \<Rightarrow> share_db" where
  "delete_visits_for_workspace workspace owner_id db = delete_visits_where (\<lambda>l. sl_workspace l = workspace \<and> sl_owner l = owner_id) db"

text \<open>The service and the public read.\<close>

record link_view =
  lw_token :: string
  lw_created_at :: string
  lw_visit_count :: nat
  lw_last_visited_at :: "string option"
  lw_page_view_count :: nat
  lw_last_page_viewed_at :: "string option"
  lw_preview :: bool

definition link_view_of :: "visit_summary \<Rightarrow> link_view" where
  "link_view_of s = \<lparr>lw_token = sl_token (vs_link s), lw_created_at = sl_created_at (vs_link s), lw_visit_count = vs_visit_count s,
     lw_last_visited_at = vs_last_visited_at s, lw_page_view_count = vs_page_view_count s,
     lw_last_page_viewed_at = vs_last_page_viewed_at s, lw_preview = sl_preview (vs_link s)\<rparr>"

definition service_create_link ::
  "string \<Rightarrow> string \<Rightarrow> string \<Rightarrow> string \<Rightarrow> string \<Rightarrow> bool \<Rightarrow> share_db \<Rightarrow> db_error + link_view \<times> share_db" where
  "service_create_link token now note_id workspace owner_id preview_description db =
     (case create_link token now note_id workspace owner_id preview_description db of
        Inl e \<Rightarrow> Inl e
      | Inr (link, db') \<Rightarrow> Inr (link_view_of \<lparr>vs_link = link, vs_visit_count = 0, vs_last_visited_at = None,
          vs_page_view_count = 0, vs_last_page_viewed_at = None\<rparr>, db'))"

definition list_active_links :: "string \<Rightarrow> share_db \<Rightarrow> link_view list" where
  "list_active_links note_id db = map link_view_of (active_with_visit_summary note_id db)"

definition resolve_shared_note :: "(share_link \<Rightarrow> 'c option) \<Rightarrow> string \<Rightarrow> share_db \<Rightarrow> (share_link \<times> 'c) option" where
  "resolve_shared_note read token db =
     (case resolve_link token db of
        None \<Rightarrow> None
      | Some link \<Rightarrow> (case read link of None \<Rightarrow> None | Some note \<Rightarrow> Some (link, note)))"

definition load_public_note ::
  "(share_link \<Rightarrow> 'c option) \<Rightarrow> string \<Rightarrow> string option \<Rightarrow> string option \<Rightarrow> string \<Rightarrow> share_db \<Rightarrow> db_error + 'c option \<times> share_db" where
  "load_public_note read token ip user_agent now db =
     (case resolve_shared_note read token db of
        None \<Rightarrow> Inr (None, db)
      | Some (link, note) \<Rightarrow>
          (case record_visit token ip user_agent ContentVisit now db of
             Inl e \<Rightarrow> Inl e
           | Inr db' \<Rightarrow> Inr (Some note, db')))"

subsection \<open>The life of a token\<close>

text \<open>\<open>secrets.token_urlsafe\<close> does not repeat a value: the state keeps the tokens handed out.\<close>

record share_state =
  ss_db :: share_db
  ss_issued :: "string set"

inductive share_step :: "share_state \<Rightarrow> share_state \<Rightarrow> bool" where
  created: "token \<notin> ss_issued s \<Longrightarrow> create_link token now note_id workspace owner_id preview (ss_db s) = Inr (link, db) \<Longrightarrow>
     share_step s (s\<lparr>ss_db := db, ss_issued := insert token (ss_issued s)\<rparr>)"
| visited: "record_visit token ip user_agent kind now (ss_db s) = Inr db \<Longrightarrow> share_step s (s\<lparr>ss_db := db\<rparr>)"
| swept: "share_step s (s\<lparr>ss_db := snd (sweep_visits cutoff (ss_db s))\<rparr>)"
| revoked: "revoke_link now owner_id note_id token (ss_db s) = (ok, db) \<Longrightarrow> share_step s (s\<lparr>ss_db := db\<rparr>)"
| previewed: "set_preview_description owner_id note_id token value (ss_db s) = (ok, db) \<Longrightarrow> share_step s (s\<lparr>ss_db := db\<rparr>)"
| visits_deleted: "share_step s (s\<lparr>ss_db := delete_visits_where P (ss_db s)\<rparr>)"
| links_deleted: "delete_links_where P (ss_db s) = Inr db \<Longrightarrow> share_step s (s\<lparr>ss_db := db\<rparr>)"

definition share_inv :: "share_state \<Rightarrow> bool" where
  "share_inv s \<longleftrightarrow> distinct (map sl_token (sd_links (ss_db s))) \<and> sl_token ` set (sd_links (ss_db s)) \<subseteq> ss_issued s
     \<and> lv_token ` set (sd_visits (ss_db s)) \<subseteq> sl_token ` set (sd_links (ss_db s))"

definition no_shares :: "string list \<Rightarrow> string list \<Rightarrow> share_state" where
  "no_shares users notes = \<lparr>ss_db = \<lparr>sd_users = users, sd_notes = notes, sd_links = [], sd_visits = []\<rparr>, ss_issued = {}\<rparr>"

lemma mutate_or_none_cases:
  assumes "mutate_or_none key pk f guard rows = (ok, rows')"
  shows "(\<not> ok \<and> rows' = rows \<and> (\<forall>r. sql_get key pk rows = Some r \<longrightarrow> \<not> guard r))
     \<or> (ok \<and> rows' = sql_update (\<lambda>r. key r = pk) f rows \<and> (\<exists>r. sql_get key pk rows = Some r \<and> guard r))"
  using assms by (auto simp: mutate_or_none_def split: option.splits if_splits)

lemma mutate_or_none_map: "(\<And>r. g (f r) = g r) \<Longrightarrow> map g (snd (mutate_or_none key pk f guard rows)) = map g rows"
  by (simp add: mutate_or_none_def map_key_sql_update split: option.splits)

lemma sql_get_update:
  assumes "\<And>r. key (f r) = key r"
  shows "sql_get key k (sql_update (\<lambda>r. key r = k') f rows) = (if k = k' then map_option f (sql_get key k rows) else sql_get key k rows)"
  using assms by (induction rows) (auto simp: sql_get_def)

lemma share_step_inv: "share_step s s' \<Longrightarrow> share_inv s \<Longrightarrow> share_inv s'"
proof (induction rule: share_step.induct)
  case (created token s now note_id workspace owner_id preview link db)
  then show ?case
    by (auto simp: share_inv_def create_link_def Let_def sql_insert_Inr image_subset_iff split: if_splits sum.splits)
next
  case (visited token ip ua kind now s db)
  then have "db = (ss_db s)\<lparr>sd_visits := sd_visits db\<rparr>" "lv_token ` set (sd_visits db) = insert token (lv_token ` set (sd_visits (ss_db s)))"
    "token \<in> sl_token ` set (sd_links (ss_db s))" "sd_links db = sd_links (ss_db s)"
    by (auto simp: record_visit_def split: if_splits)
  then show ?case using visited(2) by (simp add: share_inv_def)
next
  case (swept s cutoff)
  then show ?case by (auto simp: share_inv_def sweep_visits_def sql_simps)
next
  case (revoked now owner_id note_id token s ok db)
  obtain links where m: "mutate_or_none sl_token token (\<lambda>l. l\<lparr>sl_revoked_at := Some now\<rparr>) (link_guard owner_id note_id) (sd_links (ss_db s)) = (ok, links)"
    "db = (ss_db s)\<lparr>sd_links := links\<rparr>" using revoked(1) by (auto simp: revoke_link_def split: prod.splits)
  have "map sl_token (snd (mutate_or_none sl_token token (\<lambda>l. l\<lparr>sl_revoked_at := Some now\<rparr>) (link_guard owner_id note_id) (sd_links (ss_db s)))) = map sl_token (sd_links (ss_db s))"
    by (rule mutate_or_none_map) simp
  then show ?case using revoked(2) m by (simp add: share_inv_def flip: set_map)
next
  case (previewed owner_id note_id token val s ok db)
  obtain links where m: "mutate_or_none sl_token token (\<lambda>l. l\<lparr>sl_preview := val\<rparr>) (link_guard owner_id note_id) (sd_links (ss_db s)) = (ok, links)"
    "db = (ss_db s)\<lparr>sd_links := links\<rparr>" using previewed(1) by (auto simp: set_preview_description_def split: prod.splits)
  have "map sl_token (snd (mutate_or_none sl_token token (\<lambda>l. l\<lparr>sl_preview := val\<rparr>) (link_guard owner_id note_id) (sd_links (ss_db s)))) = map sl_token (sd_links (ss_db s))"
    by (rule mutate_or_none_map) simp
  then show ?case using previewed(2) m by (simp add: share_inv_def flip: set_map)
next
  case (visits_deleted s P)
  then show ?case by (auto simp: share_inv_def delete_visits_where_def sql_simps)
next
  case (links_deleted P s db)
  then have free: "\<forall>l\<in>set (sd_links (ss_db s)). P l \<longrightarrow> sl_token l \<notin> lv_token ` set (sd_visits (ss_db s))"
    and db: "db = (ss_db s)\<lparr>sd_links := sql_delete P (sd_links (ss_db s))\<rparr>"
    unfolding delete_links_where_def by (metis (mono_tags, lifting) imageE sum.distinct(1), metis sum.inject(2) sum.distinct(1))
  have "lv_token ` set (sd_visits (ss_db s)) \<subseteq> sl_token ` {l \<in> set (sd_links (ss_db s)). \<not> P l}"
  proof
    fix t assume t: "t \<in> lv_token ` set (sd_visits (ss_db s))"
    then have "t \<in> sl_token ` set (sd_links (ss_db s))" using links_deleted(2) unfolding share_inv_def by (meson subsetD)
    then obtain l where l: "l \<in> set (sd_links (ss_db s))" "t = sl_token l" by (rule imageE)
    then have "\<not> P l" using free t by meson
    then show "t \<in> sl_token ` {l \<in> set (sd_links (ss_db s)). \<not> P l}" using l by simp
  qed
  then show ?case using links_deleted(2) unfolding share_inv_def db
    by (intro conjI) (simp_all add: sql_simps distinct_sql_delete image_subset_iff)
qed

interpretation shares: inv_machine "no_shares users notes" share_step share_inv
proof unfold_locales
  show "share_inv (no_shares users notes)" by (simp add: no_shares_def share_inv_def)
  show "share_inv s'" if "share_step s s'" "share_inv s" for s s' using that by (rule share_step_inv)
qed

lemma resolve_link_Some: "resolve_link t db = Some l \<longleftrightarrow> sql_get sl_token t (sd_links db) = Some l \<and> sl_revoked_at l = None"
  by (auto simp: resolve_link_def split: option.splits)

lemma resolve_link_None: "resolve_link t db = None \<longleftrightarrow> (\<forall>l. sql_get sl_token t (sd_links db) = Some l \<longrightarrow> sl_revoked_at l \<noteq> None)"
  by (auto simp: resolve_link_def split: option.splits)

text \<open>A token that was handed out and no longer resolves never resolves again.\<close>

lemma dead_stays_dead:
  assumes "share_step s s'" "share_inv s" "token \<in> ss_issued s" "resolve_link token (ss_db s) = None"
  shows "token \<in> ss_issued s' \<and> resolve_link token (ss_db s') = None"
  using assms
proof (induction rule: share_step.induct)
  case (created tok s now note_id workspace owner_id preview link db)
  then have ne: "tok \<noteq> token" by auto
  show ?case
  proof -
    have "sql_get sl_token token (sd_links db) = sql_get sl_token token (sd_links (ss_db s))"
      using created(2) ne
      by (auto simp: create_link_def Let_def sql_insert_Inr sql_get_append split: if_splits sum.splits option.splits) (auto simp: sql_get_def)
    then show ?thesis using created.prems by (simp add: resolve_link_None)
  qed
next
  case (visited tok ip ua kind now s db)
  then show ?case by (auto simp: resolve_link_def record_visit_def split: if_splits)
next
  case (swept s cutoff)
  then show ?case by (simp add: resolve_link_def sweep_visits_def)
next
  case (revoked now owner_id note_id tok s ok db)
  obtain links where m: "mutate_or_none sl_token tok (\<lambda>l. l\<lparr>sl_revoked_at := Some now\<rparr>) (link_guard owner_id note_id) (sd_links (ss_db s)) = (ok, links)"
    "db = (ss_db s)\<lparr>sd_links := links\<rparr>" using revoked(1) by (auto simp: revoke_link_def split: prod.splits)
  from mutate_or_none_cases [OF m(1)] show ?case
    using revoked m(2) by (auto simp: resolve_link_def sql_get_update split: option.splits if_splits)
next
  case (previewed owner_id note_id tok val s ok db)
  obtain links where m: "mutate_or_none sl_token tok (\<lambda>l. l\<lparr>sl_preview := val\<rparr>) (link_guard owner_id note_id) (sd_links (ss_db s)) = (ok, links)"
    "db = (ss_db s)\<lparr>sd_links := links\<rparr>" using previewed(1) by (auto simp: set_preview_description_def split: prod.splits)
  from mutate_or_none_cases [OF m(1)] show ?case
    using previewed m(2) by (auto simp: resolve_link_def sql_get_update split: option.splits if_splits)
next
  case (visits_deleted s P)
  then show ?case by (simp add: resolve_link_def delete_visits_where_def)
next
  case (links_deleted P s db)
  have d: "distinct (map sl_token (sd_links (ss_db s)))" using links_deleted.prems(1) by (simp add: share_inv_def)
  have "sql_get sl_token token (sql_delete P (sd_links (ss_db s))) = Some l \<Longrightarrow> sql_get sl_token token (sd_links (ss_db s)) = Some l" for l
    using sql_get_Some_iff [OF d] sql_get_Some_iff [OF distinct_sql_delete [OF d]] by (auto simp: sql_simps)
  then show ?case using links_deleted by (auto simp: resolve_link_def delete_links_where_def split: option.splits if_splits)
qed

text \<open>C19: revocation is final. A successful \<open>revoke\<close> kills the token at once and for ever: whatever is created,
  deleted, swept or edited afterwards, a public read with it finds nothing and counts nothing.\<close>

theorem revocation_is_final:
  assumes "share_step\<^sup>*\<^sup>* (no_shares users notes) s" "revoke_link now owner_id note_id token (ss_db s) = (True, db)"
    and "share_step\<^sup>*\<^sup>* (s\<lparr>ss_db := db\<rparr>) s'"
  shows "load_public_note read token ip user_agent now' (ss_db s') = Inr (None, ss_db s')"
proof -
  have inv: "share_inv s" by (rule shares.reach_inv [OF assms(1)])
  have step: "share_step s (s\<lparr>ss_db := db\<rparr>)" by (rule share_step.revoked [OF assms(2)])
  obtain links where m: "mutate_or_none sl_token token (\<lambda>l. l\<lparr>sl_revoked_at := Some now\<rparr>) (link_guard owner_id note_id) (sd_links (ss_db s)) = (True, links)"
    "db = (ss_db s)\<lparr>sd_links := links\<rparr>" using assms(2) by (auto simp: revoke_link_def split: prod.splits)
  obtain r where r: "links = sql_update (\<lambda>l. sl_token l = token) (\<lambda>l. l\<lparr>sl_revoked_at := Some now\<rparr>) (sd_links (ss_db s))"
    "sql_get sl_token token (sd_links (ss_db s)) = Some r"
    using mutate_or_none_cases [OF m(1)] by auto
  have dead: "resolve_link token db = None" using r m(2) by (simp add: resolve_link_def sql_get_update)
  have issued: "token \<in> ss_issued s" using sql_get_SomeD [OF r(2)] inv by (auto simp: share_inv_def)
  have "share_inv s' \<and> token \<in> ss_issued s' \<and> resolve_link token (ss_db s') = None"
    using assms(3)
  proof (induction rule: rtranclp_induct)
    case base
    show ?case using share_step_inv [OF step inv] issued dead by simp
  next
    case (step s1 s2)
    then show ?case using dead_stays_dead share_step_inv by blast
  qed
  then show ?thesis by (simp add: load_public_note_def resolve_shared_note_def)
qed

text \<open>Guards. \<open>revoke\<close> succeeds exactly on a link of that owner and that note that is not revoked, so a
  token of another note or owner is not accepted, and it leaves every other token as it was.\<close>

theorem revoke_guarded:
  assumes "revoke_link now owner_id note_id token db = (ok, db')"
  shows "(ok \<longleftrightarrow> (\<exists>l. resolve_link token db = Some l \<and> sl_owner l = owner_id \<and> sl_note l = note_id))
    \<and> (\<not> ok \<longrightarrow> db' = db) \<and> (\<forall>t. t \<noteq> token \<longrightarrow> resolve_link t db' = resolve_link t db)"
proof -
  obtain links where m: "mutate_or_none sl_token token (\<lambda>l. l\<lparr>sl_revoked_at := Some now\<rparr>) (link_guard owner_id note_id) (sd_links db) = (ok, links)"
    "db' = db\<lparr>sd_links := links\<rparr>" using assms by (auto simp: revoke_link_def split: prod.splits)
  have "ok \<longleftrightarrow> (\<exists>l. resolve_link token db = Some l \<and> sl_owner l = owner_id \<and> sl_note l = note_id)" "\<not> ok \<longrightarrow> db' = db"
    using mutate_or_none_cases [OF m(1)] m(2) by (auto simp: resolve_link_Some link_guard_def)
  moreover have "resolve_link t db' = resolve_link t db" if "t \<noteq> token" for t
    using mutate_or_none_cases [OF m(1)] m(2) that by (auto simp: resolve_link_def sql_get_update)
  ultimately show ?thesis by blast
qed

subsection \<open>Counting and teardown\<close>

lemma kind_visits_record:
  assumes "record_visit token ip user_agent kind now db = Inr db'"
  shows "length (kind_visits k t db') = length (kind_visits k t db) + (if k = kind \<and> t = token then 1 else 0)" "sd_links db' = sd_links db"
  using assms by (auto simp: record_visit_def kind_visits_def split: if_splits)

text \<open>Reads are counted. A public read serves a note exactly if the token resolves and the note can be read; it
  then adds one content visit to that link and to no other, and a page view to none.\<close>

theorem public_read_counted:
  assumes "load_public_note read token ip user_agent now db = Inr (served, db')"
  shows "served = Option.bind (resolve_link token db) read \<and>
    (\<forall>t. length (kind_visits ContentVisit t db') = length (kind_visits ContentVisit t db) + (if served \<noteq> None \<and> t = token then 1 else 0)) \<and>
    (\<forall>t. length (kind_visits PageVisit t db') = length (kind_visits PageVisit t db)) \<and> (\<forall>t. resolve_link t db' = resolve_link t db)"
proof (cases "resolve_shared_note read token db")
  case None
  then have "Option.bind (resolve_link token db) read = None" by (auto simp: resolve_shared_note_def split: option.splits)
  then show ?thesis using assms None by (auto simp: load_public_note_def)
next
  case (Some p)
  obtain link content where p: "p = (link, content)" by fastforce
  have b: "Option.bind (resolve_link token db) read = Some content"
    using Some p by (auto simp: resolve_shared_note_def split: option.splits)
  obtain db1 where r: "record_visit token ip user_agent ContentVisit now db = Inr db1" "served = Some content" "db' = db1"
    using assms Some p by (auto simp: load_public_note_def split: sum.splits)
  have "resolve_link t db' = resolve_link t db" for t
    using kind_visits_record(2) [OF r(1)] r(3) by (simp add: resolve_link_def)
  then show ?thesis using b r kind_visits_record(1) [OF r(1)] by simp
qed

text \<open>Teardown: the visits first, then the links.\<close>

lemma teardown_links:
  assumes "share_inv s"
  shows "\<exists>db. delete_links_where P (delete_visits_where P (ss_db s)) = Inr db \<and> sd_links db = sql_delete P (sd_links (ss_db s)) \<and>
    share_inv (s\<lparr>ss_db := db\<rparr>)"
proof -
  let ?d = "delete_visits_where P (ss_db s)"
  have ok: "\<not> (\<exists>l\<in>set (sd_links ?d). P l \<and> (\<exists>v\<in>set (sd_visits ?d). lv_token v = sl_token l))"
    by (auto simp: delete_visits_where_def sql_simps)
  then have d: "delete_links_where P ?d = Inr (?d\<lparr>sd_links := sql_delete P (sd_links ?d)\<rparr>)" by (simp add: delete_links_where_def)
  have "share_step s (s\<lparr>ss_db := ?d\<rparr>)" by (rule share_step.visits_deleted)
  moreover have "share_step (s\<lparr>ss_db := ?d\<rparr>) (s\<lparr>ss_db := ?d\<rparr>\<lparr>ss_db := ?d\<lparr>sd_links := sql_delete P (sd_links ?d)\<rparr>\<rparr>)"
    using share_step.links_deleted [of P "s\<lparr>ss_db := ?d\<rparr>"] d by simp
  ultimately have "share_inv (s\<lparr>ss_db := ?d\<lparr>sd_links := sql_delete P (sd_links ?d)\<rparr>\<rparr>)" using assms share_step_inv by fastforce
  then show ?thesis using d by (auto simp: delete_visits_where_def)
qed

text \<open>Teardown. Deleting the visits of a note and then its links always succeeds, no token of the note
  resolves afterwards, and the links of other notes are as they were.\<close>

theorem note_links_torn_down:
  assumes "share_step\<^sup>*\<^sup>* (no_shares users notes) s"
  shows "\<exists>db. delete_links_for_note note_id (delete_visits_for_note note_id (ss_db s)) = Inr db \<and>
    (\<forall>t l. resolve_link t db = Some l \<longleftrightarrow> resolve_link t (ss_db s) = Some l \<and> sl_note l \<noteq> note_id)"
proof -
  have inv: "share_inv s" by (rule shares.reach_inv [OF assms])
  from teardown_links [OF inv, of "\<lambda>l. sl_note l = note_id"] obtain db where d:
    "delete_links_where (\<lambda>l. sl_note l = note_id) (delete_visits_where (\<lambda>l. sl_note l = note_id) (ss_db s)) = Inr db"
    "sd_links db = sql_delete (\<lambda>l. sl_note l = note_id) (sd_links (ss_db s))" by blast
  have k: "distinct (map sl_token (sd_links (ss_db s)))" using inv by (simp add: share_inv_def)
  have "resolve_link t db = Some l \<longleftrightarrow> resolve_link t (ss_db s) = Some l \<and> sl_note l \<noteq> note_id" for t l
    unfolding resolve_link_Some d(2) sql_get_Some_iff [OF k] sql_get_Some_iff [OF distinct_sql_delete [OF k]] by (auto simp: sql_simps)
  then show ?thesis using d(1) by (auto simp: delete_links_for_note_def delete_visits_for_note_def)
qed

subsection \<open>Witnesses\<close>

definition ex_link :: share_link where
  "ex_link = \<lparr>sl_token = ''tok'', sl_note = ''n'', sl_workspace = ''w'', sl_owner = ''u'', sl_created_at = ''d'', sl_revoked_at = None, sl_preview = False\<rparr>"

definition ex_share :: share_state where
  "ex_share = \<lparr>ss_db = \<lparr>sd_users = [''u''], sd_notes = [''n''], sd_links = [ex_link], sd_visits = []\<rparr>, ss_issued = {''tok''}\<rparr>"

lemma ex_share_reach: "share_step\<^sup>*\<^sup>* (no_shares [''u''] [''n'']) ex_share"
proof -
  have "create_link ''tok'' ''d'' ''n'' ''w'' ''u'' False (ss_db (no_shares [''u''] [''n''])) = Inr (ex_link, ss_db ex_share)"
    by (simp add: create_link_def no_shares_def ex_share_def ex_link_def sql_insert_def Let_def)
  from share_step.created [OF _ this] have "share_step (no_shares [''u''] [''n'']) ex_share"
    by (simp add: no_shares_def ex_share_def)
  then show ?thesis by blast
qed

theorem revocation_is_final_witness:
  "\<exists>db. revoke_link ''t'' ''u'' ''n'' ''tok'' (ss_db ex_share) = (True, db) \<and>
     load_public_note (\<lambda>_. Some ()) ''tok'' None None ''x'' db = Inr (None, db)"
proof -
  obtain db where r: "revoke_link ''t'' ''u'' ''n'' ''tok'' (ss_db ex_share) = (True, db)"
    by (simp add: revoke_link_def mutate_or_none_def sql_get_def ex_share_def ex_link_def link_guard_def)
  from revocation_is_final [OF ex_share_reach r rtranclp.rtrancl_refl, of "\<lambda>_. Some ()" None None "''x''"] r show ?thesis by auto
qed

theorem revoke_guarded_witness: "fst (revoke_link ''t'' ''u'' ''other'' ''tok'' (ss_db ex_share)) = False"
proof -
  obtain ok db where r: "revoke_link ''t'' ''u'' ''other'' ''tok'' (ss_db ex_share) = (ok, db)" by fastforce
  from revoke_guarded [OF r] show ?thesis using r by (auto simp: resolve_link_def sql_get_def ex_share_def ex_link_def)
qed

theorem public_read_counted_witness:
  "\<exists>db. load_public_note (\<lambda>_. Some ()) ''tok'' None None ''x'' (ss_db ex_share) = Inr (Some (), db) \<and> length (kind_visits ContentVisit ''tok'' db) = 1"
proof -
  obtain db where r: "load_public_note (\<lambda>_. Some ()) ''tok'' None None ''x'' (ss_db ex_share) = Inr (Some (), db)"
    by (simp add: load_public_note_def resolve_shared_note_def resolve_link_def record_visit_def sql_get_def ex_share_def ex_link_def)
  from public_read_counted [OF r] show ?thesis using r by (auto simp: kind_visits_def ex_share_def)
qed

theorem note_links_torn_down_witness: "\<exists>db. delete_links_for_note ''n'' (delete_visits_for_note ''n'' (ss_db ex_share)) = Inr db \<and> resolve_link ''tok'' db = None"
proof -
  from note_links_torn_down [OF ex_share_reach, of "''n''"] obtain db where
    "delete_links_for_note ''n'' (delete_visits_for_note ''n'' (ss_db ex_share)) = Inr db"
    "\<forall>t l. resolve_link t db = Some l \<longleftrightarrow> resolve_link t (ss_db ex_share) = Some l \<and> sl_note l \<noteq> ''n''" by blast
  moreover have "\<forall>l. resolve_link ''tok'' (ss_db ex_share) = Some l \<longrightarrow> sl_note l = ''n''"
    by (simp add: resolve_link_def sql_get_def ex_share_def ex_link_def)
  ultimately have "\<forall>l. resolve_link ''tok'' db \<noteq> Some l" by simp
  then have "resolve_link ''tok'' db = None" by (cases "resolve_link ''tok'' db") simp_all
  then show ?thesis using \<open>delete_links_for_note ''n'' (delete_visits_for_note ''n'' (ss_db ex_share)) = Inr db\<close> by blast
qed

end
