(* ===== verification/Ranking.thy ===== *)
theory Ranking
  imports Note_Rows "HOL-Library.AList"
begin

section \<open>Ranking of search results and related notes\<close>

text \<open>
  Models \<open>services/notes/fusion.py\<close> (reciprocal rank fusion of keyword, vector and metadata matches, with a
  cap per note) and \<open>services/notes/related_ranking.py\<close>. Python dictionaries keep insertion order: they are
  association lists, \<open>d[k] = v\<close> is \<^const>\<open>AList.update\<close>. Scores and distances are exact.
\<close>

subsection \<open>Fusion: definitions\<close>

record chunk_hit =
  ch_chunk_id :: "string option"
  ch_note_id :: string
  ch_title :: string
  ch_folder :: string
  ch_updated_at :: string
  ch_header_path :: "string list"
  ch_content :: string
  ch_score :: rat
  ch_matched_on :: "metadata_match list option"

datatype fuse_error = ChunkIdAssertion

definition NARROWED_CANDIDATE_LIMIT :: int where "NARROWED_CANDIDATE_LIMIT = 200"

definition DEFAULT_CANDIDATE_LIMIT :: int where "DEFAULT_CANDIDATE_LIMIT = 50"

definition RRF_K :: nat where "RRF_K = 60"

definition rrf :: "nat \<Rightarrow> rat" where
  "rrf rank = 1 / of_nat (RRF_K + rank)"

type_synonym scores = "(string \<times> rat) list"

definition dict_or :: "'v \<Rightarrow> ('k \<times> 'v) list \<Rightarrow> 'k \<Rightarrow> 'v" where
  "dict_or d m k = (case map_of m k of None \<Rightarrow> d | Some v \<Rightarrow> v)"

definition setdefault :: "'k \<Rightarrow> 'v \<Rightarrow> ('k \<times> 'v) list \<Rightarrow> ('k \<times> 'v) list" where
  "setdefault k v m = (if map_of m k = None then m @ [(k, v)] else m)"

definition allowed_hits :: "('h \<Rightarrow> string) \<Rightarrow> string set option \<Rightarrow> 'h list \<Rightarrow> 'h list" where
  "allowed_hits note_of allowed hits = (case allowed of None \<Rightarrow> hits | Some A \<Rightarrow> filter (\<lambda>h. note_of h \<in> A) hits)"

text \<open>One candidate list, from rank \<open>rank\<close> on.\<close>

fun fuse_leg :: "nat \<Rightarrow> chunk_hit list \<Rightarrow> scores \<times> (string \<times> chunk_hit) list \<Rightarrow> fuse_error + scores \<times> (string \<times> chunk_hit) list" where
  "fuse_leg rank [] (sc, by_id) = Inr (sc, by_id)"
| "fuse_leg rank (h # hs) (sc, by_id) =
     (case ch_chunk_id h of
        None \<Rightarrow> Inl ChunkIdAssertion
      | Some c \<Rightarrow> fuse_leg (Suc rank) hs (AList.update c (dict_or 0 sc c + rrf rank) sc, setdefault c h by_id))"

text \<open>\<open>by_id[chunk_id]\<close> of a scored chunk is always present.\<close>

definition hit_of :: "(string \<times> chunk_hit) list \<Rightarrow> string \<Rightarrow> chunk_hit" where
  "hit_of by_id c = the (map_of by_id c)"

fun best_chunks :: "(string \<times> chunk_hit) list \<Rightarrow> scores \<Rightarrow> (string \<times> rat \<times> string) list \<Rightarrow> (string \<times> rat \<times> string) list" where
  "best_chunks by_id [] best = best"
| "best_chunks by_id ((c, s) # sc) best =
     (let n = ch_note_id (hit_of by_id c)
      in best_chunks by_id sc
           (if (case map_of best n of None \<Rightarrow> True | Some (s', _) \<Rightarrow> s' < s) then AList.update n (s, c) best else best))"

definition meta_id :: "string \<Rightarrow> string" where
  "meta_id n = ''meta:'' @ n"

definition meta_chunk :: "metadata_hit \<Rightarrow> chunk_hit" where
  "meta_chunk h = \<lparr>ch_chunk_id = None, ch_note_id = mh_note_id h, ch_title = mh_title h, ch_folder = mh_folder h,
     ch_updated_at = mh_updated_at h, ch_header_path = [], ch_content = [], ch_score = 0, ch_matched_on = None\<rparr>"

fun fuse_meta ::
  "(string \<times> rat \<times> string) list \<Rightarrow> nat \<Rightarrow> metadata_hit list \<Rightarrow> scores \<times> (string \<times> chunk_hit) list \<times> (string \<times> metadata_match list) list \<Rightarrow>
     scores \<times> (string \<times> chunk_hit) list \<times> (string \<times> metadata_match list) list" where
  "fuse_meta best rank [] (sc, by_id, matched) = (sc, by_id, matched)"
| "fuse_meta best rank (h # hs) (sc, by_id, matched) =
     (let n = mh_note_id h;
          matched' = AList.update n (dict_or [] matched n @ mh_matched_on h) matched
      in case map_of best n of
           Some (_, c) \<Rightarrow> fuse_meta best (Suc rank) hs (AList.update c (dict_or 0 sc c + rrf rank) sc, by_id, matched')
         | None \<Rightarrow> fuse_meta best (Suc rank) hs
             (AList.update (meta_id n) (dict_or 0 sc (meta_id n) + rrf rank) sc, setdefault (meta_id n) (meta_chunk h) by_id, matched'))"

definition ranked_hits :: "scores \<Rightarrow> (string \<times> chunk_hit) list \<Rightarrow> (string \<times> metadata_match list) list \<Rightarrow> chunk_hit list" where
  "ranked_hits sc by_id matched =
     map (\<lambda>(c, s). (hit_of by_id c)\<lparr>ch_score := s, ch_matched_on := map_of matched (ch_note_id (hit_of by_id c))\<rparr>) (sort_desc snd sc)"

fun cap_hits :: "int \<Rightarrow> int \<Rightarrow> chunk_hit list \<Rightarrow> (string \<times> int) list \<Rightarrow> chunk_hit list \<Rightarrow> chunk_hit list" where
  "cap_hits cap limit [] per_note capped = capped"
| "cap_hits cap limit (h # hs) per_note capped =
     (if cap \<le> dict_or 0 per_note (ch_note_id h) then cap_hits cap limit hs per_note capped
      else let capped' = capped @ [h]
           in if limit \<le> int (length capped') then capped'
              else cap_hits cap limit hs (AList.update (ch_note_id h) (dict_or 0 per_note (ch_note_id h) + 1) per_note) capped')"

definition fuse_hybrid ::
  "chunk_hit list \<Rightarrow> chunk_hit list \<Rightarrow> metadata_hit list \<Rightarrow> int \<Rightarrow> int \<Rightarrow> string set option \<Rightarrow> fuse_error + chunk_hit list" where
  "fuse_hybrid fts vec meta limit per_note_cap allowed =
     (case fuse_leg 0 (allowed_hits ch_note_id allowed fts) ([], []) of
        Inl e \<Rightarrow> Inl e
      | Inr leg1 \<Rightarrow>
          (case fuse_leg 0 (allowed_hits ch_note_id allowed vec) leg1 of
             Inl e \<Rightarrow> Inl e
           | Inr (sc, by_id) \<Rightarrow>
               (case fuse_meta (best_chunks by_id sc []) 0 (allowed_hits mh_note_id allowed meta) (sc, by_id, []) of
                  (sc', by_id', matched) \<Rightarrow> Inr (cap_hits per_note_cap limit (ranked_hits sc' by_id' matched) [] []))))"

subsection \<open>Related notes: definitions\<close>

record related_evidence =
  re_source_chunk_id :: string
  re_target_note_id :: string
  re_target_chunk_id :: string
  re_distance :: rat

definition HEAD :: nat where "HEAD = 10"

definition COVERAGE_WEIGHT :: rat where "COVERAGE_WEIGHT = 1 / 10"

record ranked_note =
  rn_note_id :: string
  rn_source_chunk_id :: string
  rn_best_chunk_id :: string
  rn_best_distance :: rat
  rn_hub_margin :: rat
  rn_coverage :: rat
  rn_is_head :: bool
  rn_score :: rat

record margin_entry =
  me_margin :: rat
  me_source :: string
  me_chunk :: string
  me_distance :: rat

fun group_by_source :: "related_evidence list \<Rightarrow> (string \<times> related_evidence list) list \<Rightarrow> (string \<times> related_evidence list) list" where
  "group_by_source [] g = g"
| "group_by_source (r # rs) g =
     group_by_source rs (AList.update (re_source_chunk_id r) (dict_or [] g (re_source_chunk_id r) @ [r]) g)"

definition margin_entry_of :: "rat \<Rightarrow> related_evidence \<Rightarrow> margin_entry" where
  "margin_entry_of r_s row = 
     \<lparr>me_margin = r_s - re_distance row, me_source = re_source_chunk_id row, me_chunk = re_target_chunk_id row, me_distance = re_distance row\<rparr>"

definition better_margin :: "rat \<Rightarrow> (string \<times> margin_entry) list \<Rightarrow> related_evidence \<Rightarrow> bool" where
  "better_margin r_s m row =
     (case map_of m (re_target_note_id row) of None \<Rightarrow> True | Some e \<Rightarrow> me_margin e < r_s - re_distance row)"

fun rank_head :: "rat \<Rightarrow> related_evidence list \<Rightarrow> (string \<times> margin_entry) list \<times> (string \<times> nat) list \<Rightarrow> (string \<times> margin_entry) list \<times> (string \<times> nat) list" where
  "rank_head r_s [] (best, hits) = (best, hits)"
| "rank_head r_s (row # rows) (best, hits) =
     rank_head r_s rows
       (if better_margin r_s best row then AList.update (re_target_note_id row) (margin_entry_of r_s row) best else best,
        AList.update (re_target_note_id row) (dict_or 0 hits (re_target_note_id row) + 1) hits)"

fun rank_tail :: "rat \<Rightarrow> (string \<times> margin_entry) list \<Rightarrow> related_evidence list \<Rightarrow> (string \<times> margin_entry) list \<Rightarrow> (string \<times> margin_entry) list" where
  "rank_tail r_s best [] tail_map = tail_map"
| "rank_tail r_s best (row # rows) tail_map =
     rank_tail r_s best rows
       (if map_of best (re_target_note_id row) = None \<and> better_margin r_s tail_map row
        then AList.update (re_target_note_id row) (margin_entry_of r_s row) tail_map else tail_map)"

definition mean_distance :: "related_evidence list \<Rightarrow> rat" where
  "mean_distance rows = sum_list (map re_distance rows) / of_nat (length rows)"

definition nearest :: "related_evidence list \<Rightarrow> related_evidence list" where
  "nearest rows = sort_key (\<lambda>r. (re_distance r, re_target_note_id r)) rows"

fun rank_sources ::
  "(string \<times> related_evidence list) list \<Rightarrow> (string \<times> margin_entry) list \<times> (string \<times> nat) list \<times> (string \<times> margin_entry) list \<Rightarrow>
     (string \<times> margin_entry) list \<times> (string \<times> nat) list \<times> (string \<times> margin_entry) list" where
  "rank_sources [] st = st"
| "rank_sources ((_, rows) # gs) (best, hits, tail_map) =
     (let near = nearest rows; head_rows = take HEAD near; r_s = mean_distance head_rows;
          (best', hits') = rank_head r_s head_rows (best, hits)
      in rank_sources gs (best', hits', rank_tail r_s best' (drop HEAD near) tail_map))"

definition by_score :: "ranked_note list \<Rightarrow> ranked_note list" where
  "by_score ns = sort_key (\<lambda>n. (- rn_score n, rn_note_id n)) ns"

definition head_note :: "(string \<times> nat) list \<Rightarrow> int \<Rightarrow> string \<times> margin_entry \<Rightarrow> ranked_note" where
  "head_note hits n_sources p = (case p of (n, e) \<Rightarrow>
     \<lparr>rn_note_id = n, rn_source_chunk_id = me_source e, rn_best_chunk_id = me_chunk e, rn_best_distance = me_distance e, rn_hub_margin = me_margin e,
      rn_coverage = of_nat (dict_or 0 hits n) / of_int n_sources, rn_is_head = True,
      rn_score = me_margin e + COVERAGE_WEIGHT * of_nat (dict_or 0 hits n) / of_int n_sources\<rparr>)"

definition tail_note :: "string \<times> margin_entry \<Rightarrow> ranked_note" where
  "tail_note p = (case p of (n, e) \<Rightarrow>
     \<lparr>rn_note_id = n, rn_source_chunk_id = me_source e, rn_best_chunk_id = me_chunk e, rn_best_distance = me_distance e, rn_hub_margin = me_margin e,
      rn_coverage = 0, rn_is_head = False, rn_score = me_margin e\<rparr>)"

definition rank_related :: "related_evidence list \<Rightarrow> int \<Rightarrow> ranked_note list" where
  "rank_related evidence n_sources =
     (if evidence = [] \<or> n_sources \<le> 0 then []
      else (case rank_sources (group_by_source evidence []) ([], [], []) of
          (best, hits, tail_map) \<Rightarrow>
            by_score (map (head_note hits n_sources) best) @
            by_score (map tail_note (filter (\<lambda>p. map_of best (fst p) = None) tail_map))))"

subsection \<open>Dictionaries\<close>

lemma update_present:
  "distinct (map fst m) \<Longrightarrow> c \<in> fst ` set m \<Longrightarrow> AList.update c v m = map (\<lambda>(k, w). (k, if k = c then v else w)) m"
proof (induction m)
  case Nil
  then show ?case by simp
next
  case (Cons p m)
  obtain k w where p: "p = (k, w)" by (cases p)
  have id: "map (\<lambda>(k, w). (k, if k = c then v else w)) m = m" if "c \<notin> fst ` set m"
    using that by (intro map_idI) force
  show ?case
  proof (cases "k = c")
    case True
    then have "c \<notin> fst ` set m" using Cons.prems(1) p by simp
    then show ?thesis using True p id by simp
  next
    case False
    then show ?thesis using Cons p by auto
  qed
qed

lemma update_absent: "c \<notin> fst ` set m \<Longrightarrow> AList.update c v m = m @ [(c, v)]"
  by (induction m) auto

lemma map_of_update: "map_of (AList.update k v m) x = (if x = k then Some v else map_of m x)"
  by (simp add: update_conv')

lemma dict_or_update: "dict_or d (AList.update k v m) x = (if x = k then v else dict_or d m x)"
  by (simp add: dict_or_def map_of_update)

subsection \<open>Tracking the best entry per key\<close>

text \<open>\<open>m\<close> holds, for every key of \<open>N\<close>, a greatest entry among those seen.\<close>

definition tracks :: "string set \<Rightarrow> (string \<times> margin_entry) list \<Rightarrow> (string \<times> margin_entry) list \<Rightarrow> bool" where
  "tracks N m seen \<longleftrightarrow> (\<forall>n\<in>N. case map_of m n of
       None \<Rightarrow> n \<notin> fst ` set seen
     | Some e \<Rightarrow> (n, e) \<in> set seen \<and> (\<forall>e'. (n, e') \<in> set seen \<longrightarrow> me_margin e' \<le> me_margin e))"

lemma tracksD:
  assumes "tracks N m seen" "n \<in> N"
  shows "map_of m n = None \<longleftrightarrow> n \<notin> fst ` set seen"
    and "map_of m n = Some e \<Longrightarrow> (n, e) \<in> set seen \<and> me_margin e = Max {me_margin e' |e'. (n, e') \<in> set seen}"
proof -
  have t: "case map_of m n of None \<Rightarrow> n \<notin> fst ` set seen | Some e \<Rightarrow> (n, e) \<in> set seen \<and> (\<forall>e'. (n, e') \<in> set seen \<longrightarrow> me_margin e' \<le> me_margin e)"
    using assms by (simp add: tracks_def)
  then show "map_of m n = None \<longleftrightarrow> n \<notin> fst ` set seen" by (force split: option.splits)
  assume e: "map_of m n = Some e"
  have "finite {me_margin e' |e'. (n, e') \<in> set seen}"
    by (rule finite_subset [of _ "(\<lambda>p. me_margin (snd p)) ` set seen"]) force+
  then have "me_margin e = Max {me_margin e' |e'. (n, e') \<in> set seen}" using t e by (intro Max_eqI [symmetric]) auto
  then show "(n, e) \<in> set seen \<and> me_margin e = Max {me_margin e' |e'. (n, e') \<in> set seen}" using t e by simp
qed

lemma tracks_step:
  assumes "tracks N m seen" and "n \<in> N \<Longrightarrow> c = (case map_of m n of None \<Rightarrow> True | Some e' \<Rightarrow> me_margin e' < me_margin e)"
  shows "tracks N (if c then AList.update n e m else m) (seen @ [(n, e)])"
  unfolding tracks_def
proof
  fix x
  assume x: "x \<in> N"
  have old: "case map_of m x of None \<Rightarrow> x \<notin> fst ` set seen | Some e \<Rightarrow> (x, e) \<in> set seen \<and> (\<forall>e'. (x, e') \<in> set seen \<longrightarrow> me_margin e' \<le> me_margin e)"
    using assms(1) x by (simp add: tracks_def)
  show "case map_of (if c then AList.update n e m else m) x of None \<Rightarrow> x \<notin> fst ` set (seen @ [(n, e)])
     | Some e' \<Rightarrow> (x, e') \<in> set (seen @ [(n, e)]) \<and> (\<forall>e''. (x, e'') \<in> set (seen @ [(n, e)]) \<longrightarrow> me_margin e'' \<le> me_margin e')"
  proof (cases "x = n")
    case False
    then show ?thesis using old by (auto simp: map_of_update split: option.splits)
  next
    case True
    show ?thesis
    proof (cases "map_of m n")
      case None
      then show ?thesis using old True assms(2) x by (force simp: map_of_update)
    next
      case (Some e')
      then show ?thesis using old True assms(2) x by (force simp: map_of_update)
    qed
  qed
qed

subsection \<open>Related notes: the head and the tail\<close>

definition entries :: "rat \<Rightarrow> related_evidence list \<Rightarrow> (string \<times> margin_entry) list" where
  "entries r_s rows = map (\<lambda>r. (re_target_note_id r, margin_entry_of r_s r)) rows"

lemma rank_head_tracks:
  "tracks N best seen \<Longrightarrow> rank_head r_s rows (best, hits) = (best', hits') \<Longrightarrow>
     tracks N best' (seen @ entries r_s rows) \<and>
     (\<forall>n. dict_or 0 hits' n = dict_or 0 hits n + length (filter (\<lambda>r. re_target_note_id r = n) rows)) \<and>
     (distinct (map fst best) \<longrightarrow> distinct (map fst best'))"
proof (induction rows arbitrary: best hits seen)
  case Nil
  then show ?case by (simp add: entries_def)
next
  case (Cons row rows)
  let ?n = "re_target_note_id row" and ?e = "margin_entry_of r_s row"
  let ?best = "if better_margin r_s best row then AList.update ?n ?e best else best"
  have t: "tracks N ?best (seen @ [(?n, ?e)])"
    by (rule tracks_step [OF Cons.prems(1)]) (simp add: better_margin_def margin_entry_of_def split: option.split)
  from Cons.IH [OF t] Cons.prems(2) show ?case
    by (auto simp: entries_def dict_or_update distinct_update)
qed

lemma rank_tail_tracks:
  "tracks N m seen \<Longrightarrow> \<forall>n\<in>N. map_of best n = None \<Longrightarrow> tracks N (rank_tail r_s best rows m) (seen @ entries r_s rows)"
proof (induction rows arbitrary: m seen)
  case Nil
  then show ?case by (simp add: entries_def)
next
  case (Cons row rows)
  let ?n = "re_target_note_id row" and ?e = "margin_entry_of r_s row"
  have "tracks N (if map_of best ?n = None \<and> better_margin r_s m row then AList.update ?n ?e m else m) (seen @ [(?n, ?e)])"
    by (rule tracks_step [OF Cons.prems(1)]) (use Cons.prems(2) in \<open>simp add: better_margin_def margin_entry_of_def split: option.split\<close>)
  from Cons.IH [OF this Cons.prems(2)] show ?case by (simp add: entries_def)
qed

lemma rank_tail_keys:
  "fst ` set (rank_tail r_s best rows m) \<subseteq> fst ` set m \<union> re_target_note_id ` set rows \<and> (distinct (map fst m) \<longrightarrow> distinct (map fst (rank_tail r_s best rows m)))"
proof (induction rows arbitrary: m)
  case Nil
  then show ?case by simp
next
  case (Cons row rows)
  let ?m = "if map_of best (re_target_note_id row) = None \<and> better_margin r_s m row then AList.update (re_target_note_id row) (margin_entry_of r_s row) m else m"
  have k: "fst ` set ?m \<subseteq> insert (re_target_note_id row) (fst ` set m)" by (auto simp: dom_update)
  have d: "distinct (map fst m) \<longrightarrow> distinct (map fst ?m)" by (simp add: distinct_update)
  have eq: "rank_tail r_s best (row # rows) m = rank_tail r_s best rows ?m" by simp
  note ih = Cons.IH [of ?m, THEN conjunct1] Cons.IH [of ?m, THEN conjunct2]
  note ih(1)
  also have "fst ` set ?m \<union> re_target_note_id ` set rows \<subseteq> insert (re_target_note_id row) (fst ` set m) \<union> re_target_note_id ` set rows"
    by (rule Un_mono [OF k subset_refl])
  also have "\<dots> = fst ` set m \<union> re_target_note_id ` set (row # rows)" by simp
  finally have "fst ` set (rank_tail r_s best rows ?m) \<subseteq> fst ` set m \<union> re_target_note_id ` set (row # rows)" .
  then show ?case unfolding eq using d ih(2) by simp
qed

definition head_rows :: "related_evidence list \<Rightarrow> related_evidence list" where
  "head_rows rows = take HEAD (nearest rows)"

definition rest_rows :: "related_evidence list \<Rightarrow> related_evidence list" where
  "rest_rows rows = drop HEAD (nearest rows)"

definition typical :: "related_evidence list \<Rightarrow> rat" where
  "typical rows = mean_distance (head_rows rows)"

definition head_entries :: "(string \<times> related_evidence list) list \<Rightarrow> (string \<times> margin_entry) list" where
  "head_entries gs = concat (map (\<lambda>(_, rows). entries (typical rows) (head_rows rows)) gs)"

definition rest_entries :: "(string \<times> related_evidence list) list \<Rightarrow> (string \<times> margin_entry) list" where
  "rest_entries gs = concat (map (\<lambda>(_, rows). entries (typical rows) (rest_rows rows)) gs)"

lemma rank_sources_tracks:
  "rank_sources gs (best, hits, tm) = (best', hits', tm') \<Longrightarrow> tracks UNIV best seen \<Longrightarrow> tracks N tm tseen \<Longrightarrow>
     N \<inter> fst ` set (head_entries gs) = {} \<Longrightarrow> \<forall>n\<in>N. map_of best n = None \<Longrightarrow> distinct (map fst best) \<Longrightarrow> distinct (map fst tm) \<Longrightarrow>
     tracks UNIV best' (seen @ head_entries gs) \<and> tracks N tm' (tseen @ rest_entries gs) \<and>
     (\<forall>n. dict_or 0 hits' n = dict_or 0 hits n + length (filter (\<lambda>p. fst p = n) (head_entries gs))) \<and>
     distinct (map fst best') \<and> distinct (map fst tm') \<and> fst ` set tm' \<subseteq> fst ` set tm \<union> fst ` set (rest_entries gs)"
proof (induction gs arbitrary: best hits tm seen tseen)
  case Nil
  then show ?case by (simp add: head_entries_def rest_entries_def)
next
  case (Cons g gs)
  obtain src rows where g: "g = (src, rows)" by (cases g)
  obtain best1 hits1 where h: "rank_head (typical rows) (head_rows rows) (best, hits) = (best1, hits1)" by fastforce
  let ?tm = "rank_tail (typical rows) best1 (rest_rows rows) tm"
  have rs: "rank_sources gs (best1, hits1, ?tm) = (best', hits', tm')"
    using Cons.prems(1) h by (simp add: g Let_def head_rows_def rest_rows_def typical_def)
  have he: "head_entries (g # gs) = entries (typical rows) (head_rows rows) @ head_entries gs"
    and re: "rest_entries (g # gs) = entries (typical rows) (rest_rows rows) @ rest_entries gs"
    by (simp_all add: head_entries_def rest_entries_def g)
  note hd = rank_head_tracks [OF Cons.prems(2) h]
  have none: "\<forall>n\<in>N. map_of best1 n = None"
  proof
    fix n assume n: "n \<in> N"
    then have "n \<notin> fst ` set seen" using Cons.prems(5) tracksD(1) [OF Cons.prems(2), of n] by simp
    moreover have "n \<notin> fst ` set (entries (typical rows) (head_rows rows))" using n Cons.prems(4) he by auto
    ultimately show "map_of best1 n = None" using tracksD(1) [of UNIV best1 _ n] hd by (metis UNIV_I UnE image_Un set_append)
  qed
  have tt: "tracks N ?tm (tseen @ entries (typical rows) (rest_rows rows))" by (rule rank_tail_tracks [OF Cons.prems(3) none])
  have len: "length (filter (\<lambda>p. fst p = n) (entries r xs)) = length (filter (\<lambda>r. re_target_note_id r = n) xs)" for n r xs
    by (simp add: entries_def filter_map o_def)
  have keys: "fst ` set ?tm \<subseteq> fst ` set tm \<union> fst ` set (entries (typical rows) (rest_rows rows))" "distinct (map fst ?tm)"
    using rank_tail_keys [of "typical rows" best1 "rest_rows rows" tm] Cons.prems(7) by (force simp: entries_def image_image)+
  have N: "N \<inter> fst ` set (head_entries gs) = {}" using Cons.prems(4) he by auto
  have d1: "distinct (map fst best1)" using hd Cons.prems(6) by blast
  note ih = Cons.IH [OF rs conjunct1 [OF hd] tt N none d1 keys(2)]
  have "fst ` set tm' \<subseteq> fst ` set tm \<union> fst ` set (rest_entries (g # gs))"
    unfolding re set_append image_Un using ih keys(1) by blast
  moreover have "\<forall>n. dict_or 0 hits' n = dict_or 0 hits n + length (filter (\<lambda>p. fst p = n) (head_entries (g # gs)))"
    unfolding he using ih hd by (simp add: len)
  ultimately show ?case using ih unfolding he re by simp
qed

subsection \<open>Related notes: the ranking\<close>

definition source_rows :: "related_evidence list \<Rightarrow> string \<Rightarrow> related_evidence list" where
  "source_rows ev s = filter (\<lambda>r. re_source_chunk_id r = s) ev"

definition sources :: "related_evidence list \<Rightarrow> string set" where
  "sources ev = re_source_chunk_id ` set ev"

lemma group_by_source_dict:
  "distinct (map fst g) \<Longrightarrow> distinct (map fst (group_by_source rs g)) \<and>
     fst ` set (group_by_source rs g) = fst ` set g \<union> re_source_chunk_id ` set rs \<and>
     (\<forall>s. dict_or [] (group_by_source rs g) s = dict_or [] g s @ source_rows rs s)"
proof (induction rs arbitrary: g)
  case Nil
  then show ?case by (simp add: source_rows_def)
next
  case (Cons r rs)
  let ?g = "AList.update (re_source_chunk_id r) (dict_or [] g (re_source_chunk_id r) @ [r]) g"
  have "distinct (map fst ?g)" using Cons.prems by (simp add: distinct_update)
  note ih = Cons.IH [OF this]
  have "fst ` set ?g = insert (re_source_chunk_id r) (fst ` set g)" by (simp add: dom_update)
  then show ?case using ih by (auto simp: dict_or_update source_rows_def)
qed

lemma groups:
  defines "G \<equiv> \<lambda>ev. group_by_source ev []"
  shows "distinct (map fst (G ev))" "G ev = map (\<lambda>s. (s, source_rows ev s)) (map fst (G ev))" "set (map fst (G ev)) = sources ev"
proof -
  have g: "distinct (map fst (G ev))" "fst ` set (G ev) = sources ev" "dict_or [] (G ev) s = source_rows ev s" for s
    using group_by_source_dict [of "[]" ev] by (simp_all add: G_def sources_def dict_or_def)
  show "distinct (map fst (G ev))" "set (map fst (G ev)) = sources ev" using g by simp_all
  have "p = (fst p, source_rows ev (fst p))" if "p \<in> set (G ev)" for p
  proof -
    have "map_of (G ev) (fst p) = Some (snd p)" using that g(1) by (intro map_of_is_SomeI) simp_all
    then have "source_rows ev (fst p) = snd p" using g(3) [of "fst p"] by (simp add: dict_or_def)
    then show ?thesis by simp
  qed
  then show "G ev = map (\<lambda>s. (s, source_rows ev s)) (map fst (G ev))" by (simp add: list_eq_iff_nth_eq)
qed

lemma set_nearest [simp]: "set (nearest rows) = set rows"
  by (simp add: nearest_def)

lemma head_rest: "set (head_rows rows) \<union> set (rest_rows rows) = set rows"
  by (metis append_take_drop_id head_rows_def rest_rows_def set_append set_nearest)

lemma set_head_entries:
  "(n, e) \<in> set (head_entries (group_by_source ev [])) \<longleftrightarrow>
     (\<exists>s\<in>sources ev. \<exists>r\<in>set (head_rows (source_rows ev s)). n = re_target_note_id r \<and> e = margin_entry_of (typical (source_rows ev s)) r)"
proof -
  have "set (head_entries (group_by_source ev [])) = (\<Union>s\<in>sources ev. set (entries (typical (source_rows ev s)) (head_rows (source_rows ev s))))"
    unfolding head_entries_def by (subst groups(2)) (simp flip: groups(3) add: image_image)
  then show ?thesis by (auto simp: entries_def)
qed

lemma set_rest_entries:
  "(n, e) \<in> set (rest_entries (group_by_source ev [])) \<longleftrightarrow>
     (\<exists>s\<in>sources ev. \<exists>r\<in>set (rest_rows (source_rows ev s)). n = re_target_note_id r \<and> e = margin_entry_of (typical (source_rows ev s)) r)"
proof -
  have "set (rest_entries (group_by_source ev [])) = (\<Union>s\<in>sources ev. set (entries (typical (source_rows ev s)) (rest_rows (source_rows ev s))))"
    unfolding rest_entries_def by (subst groups(2)) (simp flip: groups(3) add: image_image)
  then show ?thesis by (auto simp: entries_def)
qed

text \<open>The sources whose head reaches a note; the margins a note earns there, or anywhere.\<close>

definition reaching :: "related_evidence list \<Rightarrow> string \<Rightarrow> string set" where
  "reaching ev n = {s \<in> sources ev. n \<in> re_target_note_id ` set (head_rows (source_rows ev s))}"

definition head_margins :: "related_evidence list \<Rightarrow> string \<Rightarrow> rat set" where
  "head_margins ev n = {typical (source_rows ev s) - re_distance r |s r. s \<in> sources ev \<and> r \<in> set (head_rows (source_rows ev s)) \<and> re_target_note_id r = n}"

definition all_margins :: "related_evidence list \<Rightarrow> string \<Rightarrow> rat set" where
  "all_margins ev n = {typical (source_rows ev s) - re_distance r |s r. s \<in> sources ev \<and> r \<in> set (source_rows ev s) \<and> re_target_note_id r = n}"

definition one_per_pair :: "related_evidence list \<Rightarrow> bool" where
  "one_per_pair ev \<longleftrightarrow> distinct (map (\<lambda>r. (re_source_chunk_id r, re_target_note_id r)) ev)"

lemma distinct_head_targets:
  assumes "one_per_pair ev"
  shows "distinct (map re_target_note_id (head_rows (source_rows ev s)))"
proof -
  have "distinct (map (\<lambda>r. (re_source_chunk_id r, re_target_note_id r)) (source_rows ev s))"
    using assms unfolding one_per_pair_def source_rows_def by (rule distinct_map_filter)
  then have "distinct (source_rows ev s)" "inj_on re_target_note_id (set (source_rows ev s))"
    by (auto simp: distinct_map inj_on_def source_rows_def)
  then have "distinct (map re_target_note_id (nearest (source_rows ev s)))" by (simp add: distinct_map nearest_def)
  then show ?thesis unfolding head_rows_def take_map [symmetric] by (rule distinct_take)
qed

lemma count_true: "sum_list (map (\<lambda>s. if P s then 1 else 0) ks) = length (filter P ks)"
  by (induction ks) simp_all

lemma count_head_entries:
  assumes "one_per_pair ev"
  shows "length (filter (\<lambda>p. fst p = n) (head_entries (group_by_source ev []))) = card (reaching ev n)"
proof -
  let ?ks = "map fst (group_by_source ev [])"
  have one: "length (filter (\<lambda>p. fst p = n) (entries r xs)) = (if n \<in> re_target_note_id ` set xs then 1 else 0)"
    if "distinct (map re_target_note_id xs)" for r xs
    using that by (induction xs) (auto simp: entries_def filter_empty_conv)
  have "length (filter (\<lambda>p. fst p = n) (head_entries (group_by_source ev []))) =
      sum_list (map (\<lambda>s. length (filter (\<lambda>p. fst p = n) (entries (typical (source_rows ev s)) (head_rows (source_rows ev s))))) ?ks)"
    unfolding head_entries_def by (subst groups(2)) (simp add: filter_concat length_concat o_def)
  also have "\<dots> = sum_list (map (\<lambda>s. if n \<in> re_target_note_id ` set (head_rows (source_rows ev s)) then 1 else 0) ?ks)"
    by (simp add: one [OF distinct_head_targets [OF assms]])
  also have "\<dots> = length (filter (\<lambda>s. n \<in> re_target_note_id ` set (head_rows (source_rows ev s))) ?ks)"
    by (rule count_true)
  also have "\<dots> = card (set ?ks \<inter> {s. n \<in> re_target_note_id ` set (head_rows (source_rows ev s))})"
    using distinct_length_filter [OF groups(1) [of ev]] by (simp only: Int_commute)
  also have "\<dots> = card (reaching ev n)" unfolding groups(3) by (simp add: reaching_def Int_def)
  finally show ?thesis .
qed

definition score_order :: "ranked_note \<Rightarrow> rat \<times> string" where
  "score_order n = (- rn_score n, rn_note_id n)"

definition ranked_right :: "related_evidence list \<Rightarrow> int \<Rightarrow> ranked_note \<Rightarrow> bool" where
  "ranked_right ev n_sources x \<longleftrightarrow>
     (let n = rn_note_id x in
        rn_is_head x = (reaching ev n \<noteq> {}) \<and>
        rn_hub_margin x = Max (if rn_is_head x then head_margins ev n else all_margins ev n) \<and>
        rn_coverage x = of_nat (card (reaching ev n)) / of_int n_sources \<and>
        rn_score x = rn_hub_margin x + COVERAGE_WEIGHT * rn_coverage x)"

lemma head_margins_entries:
  "{me_margin e' |e'. (n, e') \<in> set (head_entries (group_by_source ev []))} = head_margins ev n"
  unfolding set_head_entries head_margins_def by (force simp: margin_entry_of_def)

lemma rest_margins_entries:
  assumes "reaching ev n = {}"
  shows "{me_margin e' |e'. (n, e') \<in> set (rest_entries (group_by_source ev []))} = all_margins ev n"
proof -
  have rest: "r \<in> set (rest_rows (source_rows ev s)) \<longleftrightarrow> r \<in> set (source_rows ev s)" if "re_target_note_id r = n" "s \<in> sources ev" for r s
    using assms that head_rest [of "source_rows ev s"] by (auto simp: reaching_def)
  show ?thesis
  proof (intro set_eqI iffI)
    fix m assume "m \<in> {me_margin e' |e'. (n, e') \<in> set (rest_entries (group_by_source ev []))}"
    then obtain s r where "s \<in> sources ev" "r \<in> set (rest_rows (source_rows ev s))" "n = re_target_note_id r"
      "m = typical (source_rows ev s) - re_distance r" unfolding set_rest_entries by (auto simp: margin_entry_of_def)
    then show "m \<in> all_margins ev n" unfolding all_margins_def using rest by blast
  next
    fix m assume "m \<in> all_margins ev n"
    then obtain s r where r: "s \<in> sources ev" "r \<in> set (rest_rows (source_rows ev s))" "n = re_target_note_id r"
      "m = typical (source_rows ev s) - re_distance r" unfolding all_margins_def using rest by blast
    then have "(n, margin_entry_of (typical (source_rows ev s)) r) \<in> set (rest_entries (group_by_source ev []))"
      "m = me_margin (margin_entry_of (typical (source_rows ev s)) r)"
      unfolding set_rest_entries by (auto simp: margin_entry_of_def)
    then show "m \<in> {me_margin e' |e'. (n, e') \<in> set (rest_entries (group_by_source ev []))}" by blast
  qed
qed

lemma head_keys: "n \<in> fst ` set (head_entries (group_by_source ev [])) \<longleftrightarrow> reaching ev n \<noteq> {}"
proof -
  have "n \<in> fst ` set (head_entries (group_by_source ev [])) \<longleftrightarrow> (\<exists>e. (n, e) \<in> set (head_entries (group_by_source ev [])))" by force
  then show ?thesis unfolding set_head_entries reaching_def by auto
qed

lemma rest_keys: "n \<in> fst ` set (rest_entries (group_by_source ev [])) \<Longrightarrow> n \<in> re_target_note_id ` set ev"
proof -
  assume "n \<in> fst ` set (rest_entries (group_by_source ev []))"
  then obtain e where "(n, e) \<in> set (rest_entries (group_by_source ev []))" by force
  then obtain s r where r: "r \<in> set (rest_rows (source_rows ev s))" "n = re_target_note_id r" unfolding set_rest_entries by blast
  then have "r \<in> set (source_rows ev s)" using head_rest by blast
  then show ?thesis using r(2) by (auto simp: source_rows_def)
qed

lemma unreached_rest: "r \<in> set ev \<Longrightarrow> reaching ev (re_target_note_id r) = {} \<Longrightarrow> re_target_note_id r \<in> fst ` set (rest_entries (group_by_source ev []))"
proof -
  assume r: "r \<in> set ev" "reaching ev (re_target_note_id r) = {}"
  let ?s = "re_source_chunk_id r"
  have s: "?s \<in> sources ev" "r \<in> set (source_rows ev ?s)" using r(1) by (auto simp: sources_def source_rows_def)
  then have "r \<in> set (rest_rows (source_rows ev ?s))" using r(2) head_rest [of "source_rows ev ?s"] by (auto simp: reaching_def)
  then have "(re_target_note_id r, margin_entry_of (typical (source_rows ev ?s)) r) \<in> set (rest_entries (group_by_source ev []))"
    using s(1) unfolding set_rest_entries by blast
  then show ?thesis by force
qed

text \<open>Related notes. For evidence with one row per source chunk and target note, the result lists every
  target once. Notes that some source has among its ten nearest come first, by greatest margin over the mean
  distance of that source's ten nearest plus a tenth of the share of sources that reach them; the other notes
  follow, by greatest margin alone; ties are broken by identifier.\<close>

theorem rank_related_exact:
  assumes "one_per_pair ev" "ev \<noteq> []" "0 < n_sources"
  shows "\<exists>hs ts. rank_related ev n_sources = hs @ ts \<and> (\<forall>x\<in>set hs. rn_is_head x) \<and> (\<forall>x\<in>set ts. \<not> rn_is_head x) \<and>
     sorted (map score_order hs) \<and> sorted (map score_order ts) \<and>
     distinct (map rn_note_id (hs @ ts)) \<and> rn_note_id ` set (hs @ ts) = re_target_note_id ` set ev \<and>
     (\<forall>x\<in>set (hs @ ts). ranked_right ev n_sources x)"
proof -
  let ?G = "group_by_source ev []"
  define N where "N = - fst ` set (head_entries ?G)"
  obtain best hits tm where rs: "rank_sources ?G ([], [], []) = (best, hits, tm)" by (metis prod_cases3)
  have t0: "tracks UNIV [] []" "tracks N [] []" by (simp_all add: tracks_def)
  have tr: "tracks UNIV best (head_entries ?G)" "tracks N tm (rest_entries ?G)"
    "\<forall>n. dict_or 0 hits n = length (filter (\<lambda>p. fst p = n) (head_entries ?G))"
    "distinct (map fst best)" "distinct (map fst tm)" "fst ` set tm \<subseteq> fst ` set (rest_entries ?G)"
    using rank_sources_tracks [OF rs t0] by (simp_all add: N_def dict_or_def)
  have hits: "dict_or 0 hits n = card (reaching ev n)" for n using tr(3) count_head_entries [OF assms(1)] by simp
  have best_None: "map_of best n = None \<longleftrightarrow> reaching ev n = {}" for n using tracksD(1) [OF tr(1), of n] head_keys [of n ev] by auto
  let ?hs = "map (head_note hits n_sources) best"
  let ?tm = "filter (\<lambda>p. map_of best (fst p) = None) tm"
  let ?ts = "map tail_note ?tm"
  have res: "rank_related ev n_sources = by_score ?hs @ by_score ?ts" using assms(2,3) rs by (simp add: rank_related_def)
  have set_bs: "set (by_score xs) = set xs" and map_bs: "distinct (map f (by_score xs)) = distinct (map f xs)" for xs and f :: "ranked_note \<Rightarrow> string"
    by (simp_all add: by_score_def distinct_map)
  have ids: "rn_note_id (head_note hits n_sources p) = fst p" "rn_note_id (tail_note p) = fst p" for p
    by (simp_all add: head_note_def tail_note_def split: prod.splits)
  have keys: "fst ` set best = {n. reaching ev n \<noteq> {}}" using best_None by (auto simp: map_of_eq_None_iff)
  have tkeys: "fst ` set ?tm = {n. reaching ev n = {} \<and> n \<in> re_target_note_id ` set ev}"
  proof (intro set_eqI iffI)
    fix n assume "n \<in> fst ` set ?tm"
    then have "map_of best n = None" "n \<in> fst ` set tm" by auto
    then show "n \<in> {n. reaching ev n = {} \<and> n \<in> re_target_note_id ` set ev}" using best_None tr(6) rest_keys by blast
  next
    fix n assume "n \<in> {n. reaching ev n = {} \<and> n \<in> re_target_note_id ` set ev}"
    then obtain r where r: "r \<in> set ev" "n = re_target_note_id r" "reaching ev n = {}" by blast
    then have "n \<in> N" "n \<in> fst ` set (rest_entries ?G)" using head_keys [of n ev] unreached_rest [OF r(1)] by (auto simp: N_def)
    then have "map_of tm n \<noteq> None" using tracksD(1) [OF tr(2)] by blast
    then obtain e where "(n, e) \<in> set tm" using map_of_SomeD by fast
    then have "(n, e) \<in> set ?tm" using r(3) best_None by simp
    then show "n \<in> fst ` set ?tm" by (rule image_eqI [rotated]) simp
  qed
  have tgt: "reaching ev n \<noteq> {} \<Longrightarrow> n \<in> re_target_note_id ` set ev" for n
  proof -
    assume "reaching ev n \<noteq> {}"
    then obtain s r where "r \<in> set (head_rows (source_rows ev s))" "n = re_target_note_id r" by (auto simp: reaching_def)
    then show "n \<in> re_target_note_id ` set ev" using head_rest [of "source_rows ev s"] by (auto simp: source_rows_def)
  qed
  have "distinct (map rn_note_id (by_score ?hs @ by_score ?ts))"
  proof -
    have eq: "map rn_note_id ?hs = map fst best" "map rn_note_id ?ts = map fst ?tm" by (simp_all add: ids)
    have 1: "distinct (map fst ?tm)" using tr(5) by (rule distinct_map_filter)
    have 2: "set (map fst best) \<inter> set (map fst ?tm) = {}" unfolding set_map keys tkeys by blast
    have sb: "set (map rn_note_id (by_score xs)) = set (map rn_note_id xs)" for xs by (simp add: set_bs)
    show ?thesis unfolding map_append distinct_append map_bs sb eq using tr(4) 1 2 by blast
  qed
  moreover have "rn_note_id ` set (by_score ?hs @ by_score ?ts) = re_target_note_id ` set ev"
  proof -
    have "rn_note_id ` set (by_score ?hs @ by_score ?ts) = fst ` set best \<union> fst ` set ?tm"
      by (simp only: set_append image_Un set_bs set_map image_image ids)
    then show ?thesis unfolding keys tkeys using tgt by blast
  qed
  moreover have "\<forall>x\<in>set (by_score ?hs). rn_is_head x \<and> ranked_right ev n_sources x"
  proof
    fix x assume "x \<in> set (by_score ?hs)"
    then obtain n e where p: "(n, e) \<in> set best" "x = head_note hits n_sources (n, e)" by (auto simp: set_bs)
    then have m: "map_of best n = Some e" using tr(4) by simp
    have "me_margin e = Max (head_margins ev n)" using tracksD(2) [OF tr(1) UNIV_I m] by (simp add: head_margins_entries)
    moreover have "reaching ev n \<noteq> {}" using best_None m by (metis option.distinct(1))
    ultimately show "rn_is_head x \<and> ranked_right ev n_sources x"
      using p(2) by (simp add: ranked_right_def head_note_def Let_def hits)
  qed
  moreover have "\<forall>x\<in>set (by_score ?ts). \<not> rn_is_head x \<and> ranked_right ev n_sources x"
  proof
    fix x assume "x \<in> set (by_score ?ts)"
    then obtain n e where p: "(n, e) \<in> set tm" "map_of best n = None" "x = tail_note (n, e)" by (auto simp: set_bs)
    then have m: "map_of tm n = Some e" using tr(5) by simp
    have r: "reaching ev n = {}" using best_None p(2) by blast
    then have "n \<in> N" using head_keys [of n ev] by (simp add: N_def)
    then have "me_margin e = Max (all_margins ev n)" using tracksD(2) [OF tr(2) _ m] by (simp add: rest_margins_entries [OF r])
    then show "\<not> rn_is_head x \<and> ranked_right ev n_sources x"
      using p(3) r by (simp add: ranked_right_def tail_note_def Let_def)
  qed
  moreover have "sorted (map score_order (by_score xs))" for xs
  proof -
    have "score_order = (\<lambda>n. (- rn_score n, rn_note_id n))" by (simp add: fun_eq_iff score_order_def)
    then show ?thesis by (simp add: by_score_def)
  qed
  ultimately show ?thesis unfolding res by (intro exI conjI) (rule refl, auto)
qed

theorem rank_related_exact_witness:
  "\<exists>ev hs ts. rank_related ev 2 = hs @ ts \<and> (\<forall>x\<in>set hs. rn_is_head x) \<and> rn_note_id ` set (hs @ ts) = {''n1'', ''n2''} \<and>
     (\<forall>x\<in>set (hs @ ts). ranked_right ev 2 x)"
proof -
  let ?ev = "[\<lparr>re_source_chunk_id = ''s'', re_target_note_id = ''n1'', re_target_chunk_id = ''a'', re_distance = 1 / 2\<rparr>,
     \<lparr>re_source_chunk_id = ''s'', re_target_note_id = ''n2'', re_target_chunk_id = ''b'', re_distance = 1 / 4\<rparr>,
     \<lparr>re_source_chunk_id = ''t'', re_target_note_id = ''n1'', re_target_chunk_id = ''a'', re_distance = 1 / 8\<rparr>]"
  have "one_per_pair ?ev" by (simp add: one_per_pair_def)
  then obtain hs ts where r: "rank_related ?ev 2 = hs @ ts" "\<forall>x\<in>set hs. rn_is_head x"
    "rn_note_id ` set (hs @ ts) = re_target_note_id ` set ?ev" "\<forall>x\<in>set (hs @ ts). ranked_right ?ev 2 x"
    using rank_related_exact [of ?ev 2] by (smt (verit) list.distinct(1) zero_less_numeral)
  have "re_target_note_id ` set ?ev = {''n1'', ''n2''}" by auto
  then show ?thesis using r by metis
qed

subsection \<open>Fusion: a reference\<close>

text \<open>The score a candidate list gives to a chunk: the sum over its ranks there. The chunks in order of first
  appearance. The chunk of a note that takes its metadata boost: the first with the greatest score.\<close>

definition leg_score :: "chunk_hit list \<Rightarrow> string \<Rightarrow> rat" where
  "leg_score hits c = sum_list (map (\<lambda>(i, h). if ch_chunk_id h = Some c then rrf i else 0) (enumerate 0 hits))"

fun firsts :: "'a list \<Rightarrow> 'a list \<Rightarrow> 'a list" where
  "firsts seen [] = []"
| "firsts seen (x # xs) = (if x \<in> set seen then firsts seen xs else x # firsts (x # seen) xs)"

definition chunk_ids :: "chunk_hit list \<Rightarrow> string list" where
  "chunk_ids hits = map (\<lambda>h. the (ch_chunk_id h)) hits"

definition base_score :: "chunk_hit list \<Rightarrow> chunk_hit list \<Rightarrow> string \<Rightarrow> rat" where
  "base_score fts vec c = leg_score fts c + leg_score vec c"

definition first_hit :: "chunk_hit list \<Rightarrow> string \<Rightarrow> chunk_hit" where
  "first_hit hits c = the (find (\<lambda>h. ch_chunk_id h = Some c) hits)"

definition champion :: "chunk_hit list \<Rightarrow> chunk_hit list \<Rightarrow> string \<Rightarrow> string option" where
  "champion fts vec n = find (\<lambda>c. ch_note_id (first_hit (fts @ vec) c) = n \<and>
     (\<forall>c'\<in>set (chunk_ids (fts @ vec)). ch_note_id (first_hit (fts @ vec) c') = n \<longrightarrow> base_score fts vec c' \<le> base_score fts vec c))
     (chunk_ids (fts @ vec))"

definition boost_of :: "metadata_hit list \<Rightarrow> string \<Rightarrow> rat" where
  "boost_of meta n = sum_list (map (\<lambda>(i, h). if mh_note_id h = n then rrf i else 0) (enumerate 0 meta))"

definition matched_of :: "metadata_hit list \<Rightarrow> string \<Rightarrow> metadata_match list option" where
  "matched_of meta n = map_option mh_matched_on (find (\<lambda>h. mh_note_id h = n) meta)"

definition reference_hits :: "chunk_hit list \<Rightarrow> chunk_hit list \<Rightarrow> metadata_hit list \<Rightarrow> chunk_hit list" where
  "reference_hits fts vec meta =
     map (\<lambda>c. let h = first_hit (fts @ vec) c; n = ch_note_id h
              in h\<lparr>ch_score := base_score fts vec c + (if champion fts vec n = Some c then boost_of meta n else 0),
                   ch_matched_on := matched_of meta n\<rparr>) (firsts [] (chunk_ids (fts @ vec)))
   @ map (\<lambda>m. (meta_chunk m)\<lparr>ch_score := boost_of meta (mh_note_id m), ch_matched_on := Some (mh_matched_on m)\<rparr>)
       (filter (\<lambda>m. mh_note_id m \<notin> ch_note_id ` set (fts @ vec)) meta)"

text \<open>At most \<open>cap\<close> hits of each note, the first ones.\<close>

fun at_most :: "nat \<Rightarrow> string list \<Rightarrow> chunk_hit list \<Rightarrow> chunk_hit list" where
  "at_most cap seen [] = []"
| "at_most cap seen (h # hs) =
     (if cap \<le> count_list seen (ch_note_id h) then at_most cap seen hs else h # at_most cap (ch_note_id h # seen) hs)"

subsection \<open>Fusion: the cap\<close>

lemma cap_hits_ref:
  assumes "\<forall>n. dict_or 0 per_note n = int (count_list seen n)" "int (length capped) < max 1 limit" "0 \<le> cap"
  shows "cap_hits cap limit hs per_note capped = capped @ take (nat (max 1 limit) - length capped) (at_most (nat cap) seen hs)"
  using assms(1,2)
proof (induction hs arbitrary: per_note seen capped)
  case Nil
  then show ?case by simp
next
  case (Cons h hs)
  let ?n = "ch_note_id h"
  show ?case
  proof (cases "cap \<le> dict_or 0 per_note ?n")
    case True
    then have "nat cap \<le> count_list seen ?n" using Cons.prems(1) by simp
    then show ?thesis using True Cons by simp
  next
    case False
    then have c: "\<not> nat cap \<le> count_list seen ?n" using Cons.prems(1) assms(3) by simp
    let ?per = "AList.update ?n (dict_or 0 per_note ?n + 1) per_note"
    have per: "\<forall>x. dict_or 0 ?per x = int (count_list (?n # seen) x)" using Cons.prems(1) by (simp add: dict_or_update)
    obtain k where k: "nat (max 1 limit) - length capped = Suc k" using Cons.prems(2) by (cases "nat (max 1 limit) - length capped") auto
    show ?thesis
    proof (cases "limit \<le> int (length (capped @ [h]))")
      case True
      then have "k = 0" using k by auto
      then show ?thesis using False c True k by simp
    next
      case l: False
      then have "int (length (capped @ [h])) < max 1 limit" by simp
      moreover have "nat (max 1 limit) - length (capped @ [h]) = k" using k by simp
      ultimately have "cap_hits cap limit hs ?per (capped @ [h]) = (capped @ [h]) @ take k (at_most (nat cap) (?n # seen) hs)"
        using Cons.IH [OF per] by metis
      then show ?thesis using False l c k by (simp add: Let_def)
    qed
  qed
qed

lemma at_most_count: "count_list (map ch_note_id (at_most cap seen hs)) n \<le> cap - count_list seen n"
proof (induction cap seen hs rule: at_most.induct)
  case (2 cap seen h hs)
  then show ?case by (cases "cap \<le> count_list seen (ch_note_id h)") auto
qed simp

lemma at_most_subseq: "subseq (at_most cap seen hs) hs"
proof (induction cap seen hs rule: at_most.induct)
  case (2 cap seen h hs)
  then show ?case by (cases "cap \<le> count_list seen (ch_note_id h)") auto
qed simp

subsection \<open>Fusion: the candidate lists\<close>

lemma firsts_snoc: "firsts seen (xs @ [x]) = firsts seen xs @ (if x \<in> set seen \<union> set xs then [] else [x])"
  by (induction seen xs rule: firsts.induct) auto

lemma set_firsts: "set (firsts seen xs) = set xs - set seen"
  by (induction seen xs rule: firsts.induct) auto

lemma distinct_firsts: "distinct (firsts seen xs)"
  by (induction seen xs rule: firsts.induct) (auto simp: set_firsts)

lemma find_firsts: "\<forall>x\<in>set seen. \<not> P x \<Longrightarrow> find P (firsts seen xs) = find P xs"
  by (induction seen xs rule: firsts.induct) auto

lemma find_append: "find P (xs @ ys) = (case find P xs of None \<Rightarrow> find P ys | Some x \<Rightarrow> Some x)"
  by (induction xs) auto

lemma dict_list: "distinct (map fst m) \<Longrightarrow> m = map (\<lambda>k. (k, dict_or d m k)) (map fst m)"
  by (rule nth_equalityI) (auto simp: dict_or_def intro!: prod_eqI split: option.splits simp: map_of_eq_None_iff nth_mem,
      metis map_of_is_SomeI nth_mem option.inject prod.collapse)

definition leg_from :: "nat \<Rightarrow> chunk_hit list \<Rightarrow> string \<Rightarrow> rat" where
  "leg_from r hits c = sum_list (map (\<lambda>(i, h). if ch_chunk_id h = Some c then rrf i else 0) (enumerate r hits))"

lemma leg_from_Cons: "leg_from r (h # hs) c = (if ch_chunk_id h = Some c then rrf r else 0) + leg_from (Suc r) hs c"
  by (simp add: leg_from_def)

definition scored :: "chunk_hit list \<Rightarrow> (string \<Rightarrow> rat) \<Rightarrow> scores \<times> (string \<times> chunk_hit) list \<Rightarrow> bool" where
  "scored H f st \<longleftrightarrow> map fst (fst st) = firsts [] (chunk_ids H) \<and> (\<forall>c. dict_or 0 (fst st) c = f c) \<and>
     map_of (snd st) = (\<lambda>c. find (\<lambda>h. ch_chunk_id h = Some c) H)"

lemma chunk_ids_snoc [simp]: "chunk_ids (H @ [h]) = chunk_ids H @ [the (ch_chunk_id h)]"
  by (simp add: chunk_ids_def)

lemma map_of_setdefault: "map_of (setdefault k v m) x = (if x = k \<and> map_of m k = None then Some v else map_of m x)"
  by (auto simp: setdefault_def map_add_def split: option.splits)

lemma map_fst_update: "map fst (AList.update k v m) = map fst m @ (if k \<in> fst ` set m then [] else [k])"
  by (induction m) auto

lemma fuse_leg_scored:
  "scored H f (sc, by_id) \<Longrightarrow> \<forall>h\<in>set (H @ hs). ch_chunk_id h \<noteq> None \<Longrightarrow>
     \<exists>st. fuse_leg r hs (sc, by_id) = Inr st \<and> scored (H @ hs) (\<lambda>c. f c + leg_from r hs c) st"
proof (induction hs arbitrary: r H f sc by_id)
  case Nil
  then show ?case by (simp add: leg_from_def)
next
  case (Cons h hs)
  obtain c where c: "ch_chunk_id h = Some c" using Cons.prems(2) by auto
  have all: "\<forall>h\<in>set H. ch_chunk_id h \<noteq> None" using Cons.prems(2) by simp
  have ids: "c \<in> set (chunk_ids H) \<longleftrightarrow> find (\<lambda>h. ch_chunk_id h = Some c) H \<noteq> None" for c
    using all by (auto simp: chunk_ids_def find_None_iff image_iff) (metis option.sel)
  have dom: "fst ` set sc = set (chunk_ids H)"
    using Cons.prems(1) set_firsts [of "[]" "chunk_ids H"] unfolding scored_def by (metis Diff_empty empty_set fst_conv list.set_map)
  have "scored (H @ [h]) (\<lambda>k. f k + (if k = c then rrf r else 0)) (AList.update c (dict_or 0 sc c + rrf r) sc, setdefault c h by_id)"
    using Cons.prems(1) c ids [of c] dom
    by (auto simp: scored_def map_fst_update firsts_snoc dict_or_update map_of_setdefault find_append fun_eq_iff split: option.splits)
  from Cons.IH [OF this] Cons.prems(2) c obtain st where
    "fuse_leg (Suc r) hs (AList.update c (dict_or 0 sc c + rrf r) sc, setdefault c h by_id) = Inr st"
    "scored ((H @ [h]) @ hs) (\<lambda>k. f k + (if k = c then rrf r else 0) + leg_from (Suc r) hs k) st" by fastforce
  moreover have "(\<lambda>k. f k + (if k = c then rrf r else 0) + leg_from (Suc r) hs k) = (\<lambda>k. f k + leg_from r (h # hs) k)"
    using c by (auto simp: leg_from_Cons fun_eq_iff)
  ultimately show ?case using c by simp
qed

lemma fuse_leg_assertion: "\<exists>h\<in>set hs. ch_chunk_id h = None \<Longrightarrow> fuse_leg r hs st = Inl ChunkIdAssertion"
proof (induction hs arbitrary: r st)
  case (Cons h hs)
  then show ?case by (cases st; cases "ch_chunk_id h") auto
qed simp

subsection \<open>Fusion: the best chunk of a note\<close>

definition champ :: "(string \<Rightarrow> string) \<Rightarrow> (string \<Rightarrow> rat) \<Rightarrow> string list \<Rightarrow> string \<Rightarrow> string option" where
  "champ note_of b ks n = find (\<lambda>c. note_of c = n \<and> (\<forall>c'\<in>set ks. note_of c' = n \<longrightarrow> b c' \<le> b c)) ks"

lemma champ_None: "champ note_of b ks n = None \<longleftrightarrow> (\<forall>c\<in>set ks. note_of c \<noteq> n)"
proof
  assume none: "champ note_of b ks n = None"
  show "\<forall>c\<in>set ks. note_of c \<noteq> n"
  proof (rule ccontr)
    let ?S = "b ` {c \<in> set ks. note_of c = n}"
    assume "\<not> (\<forall>c\<in>set ks. note_of c \<noteq> n)"
    then have ne: "finite ?S" "?S \<noteq> {}" by auto
    have "Max ?S \<in> ?S" using ne by (rule Max_in)
    then obtain c where c: "Max ?S = b c" "c \<in> {c \<in> set ks. note_of c = n}" by (rule imageE)
    moreover have "b c' \<le> Max ?S" if "c' \<in> set ks" "note_of c' = n" for c' using ne that by (intro Max_ge) auto
    ultimately have "note_of c = n \<and> (\<forall>c'\<in>set ks. note_of c' = n \<longrightarrow> b c' \<le> b c)" "c \<in> set ks" by simp_all
    then show False using none unfolding champ_def find_None_iff by blast
  qed
qed (auto simp: champ_def find_None_iff)

lemma champ_Some: "champ note_of b ks n = Some c \<Longrightarrow> c \<in> set ks \<and> note_of c = n \<and> (\<forall>c'\<in>set ks. note_of c' = n \<longrightarrow> b c' \<le> b c)"
  by (auto simp: champ_def find_Some_iff)

lemma champ_snoc:
  "champ note_of b (ks @ [x]) n =
     (if note_of x \<noteq> n then champ note_of b ks n
      else (case champ note_of b ks n of None \<Rightarrow> Some x | Some c \<Rightarrow> if b c < b x then Some x else Some c))"
proof (cases "note_of x = n")
  case False
  have "find (\<lambda>c. note_of c = n \<and> (\<forall>c'\<in>set (ks @ [x]). note_of c' = n \<longrightarrow> b c' \<le> b c)) ks = champ note_of b ks n"
    unfolding champ_def by (rule find_cong) (use False in auto)
  then show ?thesis using False by (simp add: champ_def find_append split: option.split)
next
  case True
  let ?Q = "\<lambda>c. note_of c = n \<and> (\<forall>c'\<in>set (ks @ [x]). note_of c' = n \<longrightarrow> b c' \<le> b c)"
  show ?thesis
  proof (cases "champ note_of b ks n")
    case None
    then have n: "\<forall>c\<in>set ks. note_of c \<noteq> n" by (simp add: champ_None)
    then have "find ?Q ks = None" by (auto simp: find_None_iff)
    moreover have "?Q x"
    proof (intro conjI ballI impI)
      show "b c' \<le> b x" if "c' \<in> set (ks @ [x])" "note_of c' = n" for c' using that n by auto
    qed (rule True)
    ultimately show ?thesis using True None by (simp add: champ_def find_append)
  next
    case (Some c)
    note c = champ_Some [OF Some]
    show ?thesis
    proof (cases "b c < b x")
      case lt: True
      have "\<not> ?Q d" if "d \<in> set ks" for d using c that lt True by force
      then have "find ?Q ks = None" by (simp add: find_None_iff)
      moreover have "?Q x" using c lt True by force
      ultimately show ?thesis using True Some lt by (simp add: champ_def find_append)
    next
      case ge: False
      have eq: "?Q d \<longleftrightarrow> note_of d = n \<and> (\<forall>c'\<in>set ks. note_of c' = n \<longrightarrow> b c' \<le> b d)" if "d \<in> set ks" for d
        using c that ge True by force
      have "find ?Q ks = champ note_of b ks n" unfolding champ_def by (rule find_cong) (use eq in auto)
      then show ?thesis using True Some ge by (simp add: champ_def find_append)
    qed
  qed
qed

lemma best_chunks_champ:
  assumes "\<And>n. map_of best n = map_option (\<lambda>c. (b c, c)) (champ (\<lambda>c. ch_note_id (hit_of by_id c)) b ps n)"
  shows "map_of (best_chunks by_id (map (\<lambda>c. (c, b c)) ks) best) n =
     map_option (\<lambda>c. (b c, c)) (champ (\<lambda>c. ch_note_id (hit_of by_id c)) b (ps @ ks) n)"
  using assms
proof (induction ks arbitrary: ps best)
  case Nil
  then show ?case by simp
next
  case (Cons k ks)
  let ?nt = "\<lambda>c. ch_note_id (hit_of by_id c)"
  let ?best = "if (case map_of best (?nt k) of None \<Rightarrow> True | Some (s', _) \<Rightarrow> s' < b k) then AList.update (?nt k) (b k, k) best else best"
  have "map_of ?best n = map_option (\<lambda>c. (b c, c)) (champ ?nt b (ps @ [k]) n)" for n
    unfolding champ_snoc using Cons.prems [of n] Cons.prems [of "?nt k"]
    by (auto simp: map_of_update split: option.splits)
  from Cons.IH [OF this] show ?case by (simp add: Let_def)
qed

subsection \<open>Fusion: the metadata matches\<close>

definition meta_key :: "(string \<times> rat \<times> string) list \<Rightarrow> string \<Rightarrow> string" where
  "meta_key best n = (case map_of best n of Some (_, c) \<Rightarrow> c | None \<Rightarrow> meta_id n)"

definition boost_from :: "(metadata_hit \<Rightarrow> bool) \<Rightarrow> nat \<Rightarrow> metadata_hit list \<Rightarrow> rat" where
  "boost_from P r ms = sum_list (map (\<lambda>(i, h). if P h then rrf i else 0) (enumerate r ms))"

lemma boost_from_Cons: "boost_from P r (m # ms) = (if P m then rrf r else 0) + boost_from P (Suc r) ms"
  by (simp add: boost_from_def)

lemma boost_from_cong: "(\<And>m. m \<in> set ms \<Longrightarrow> P m = Q m) \<Longrightarrow> boost_from P r ms = boost_from Q r ms"
  by (induction ms arbitrary: r) (simp_all add: boost_from_Cons boost_from_def)

lemma fuse_meta_effect:
  assumes "fuse_meta best r hs (sc, by_id, matched) = (sc', by_id', matched')"
    and "distinct (map mh_note_id hs)" "\<forall>h\<in>set hs. map_of matched (mh_note_id h) = None"
    and "\<forall>h\<in>set hs. map_of best (mh_note_id h) \<noteq> None \<longrightarrow> meta_key best (mh_note_id h) \<in> fst ` set sc"
    and "\<forall>h\<in>set hs. map_of best (mh_note_id h) = None \<longrightarrow> meta_id (mh_note_id h) \<notin> fst ` set sc \<and> map_of by_id (meta_id (mh_note_id h)) = None"
  shows "map fst sc' = map fst sc @ map (\<lambda>h. meta_id (mh_note_id h)) (filter (\<lambda>h. map_of best (mh_note_id h) = None) hs) \<and>
     (\<forall>k. dict_or 0 sc' k = dict_or 0 sc k + boost_from (\<lambda>h. meta_key best (mh_note_id h) = k) r hs) \<and>
     (\<forall>k. map_of by_id' k = (case map_of by_id k of Some x \<Rightarrow> Some x
        | None \<Rightarrow> map_option meta_chunk (find (\<lambda>h. map_of best (mh_note_id h) = None \<and> meta_id (mh_note_id h) = k) hs))) \<and>
     (\<forall>n. map_of matched' n = (case map_of matched n of Some x \<Rightarrow> Some x | None \<Rightarrow> matched_of hs n))"
  using assms
proof (induction hs arbitrary: r sc by_id matched)
  case Nil
  then show ?case by (auto simp: boost_from_def matched_of_def split: option.splits)
next
  case (Cons h hs)
  let ?n = "mh_note_id h" and ?k = "meta_key best (mh_note_id h)"
  let ?sc = "AList.update ?k (dict_or 0 sc ?k + rrf r) sc"
  let ?ma = "AList.update ?n (mh_matched_on h) matched"
  let ?by = "if map_of best ?n = None then setdefault ?k (meta_chunk h) by_id else by_id"
  have inj: "meta_id a = meta_id b \<longleftrightarrow> a = b" for a b by (simp add: meta_id_def)
  have ma: "dict_or [] matched ?n = []" using Cons.prems(3) by (simp add: dict_or_def)
  have run: "fuse_meta best (Suc r) hs (?sc, ?by, ?ma) = (sc', by_id', matched')"
    using Cons.prems(1) ma by (auto simp: meta_key_def Let_def split: option.splits)
  have other: "mh_note_id m \<noteq> ?n" if "m \<in> set hs" for m
  proof -
    have "?n \<notin> mh_note_id ` set hs" using Cons.prems(2) by simp
    moreover have "mh_note_id m \<in> mh_note_id ` set hs" using that by (rule imageI)
    ultimately show ?thesis by metis
  qed
  have keys: "fst ` set ?sc = insert ?k (fst ` set sc)" by (simp add: dom_update)
  have p3: "\<forall>m\<in>set hs. map_of ?ma (mh_note_id m) = None" using Cons.prems(3) other by (simp add: map_of_update)
  have p4: "\<forall>m\<in>set hs. map_of best (mh_note_id m) \<noteq> None \<longrightarrow> meta_key best (mh_note_id m) \<in> fst ` set ?sc" using Cons.prems(4) keys by auto
  have p5: "\<forall>m\<in>set hs. map_of best (mh_note_id m) = None \<longrightarrow> meta_id (mh_note_id m) \<notin> fst ` set ?sc \<and> map_of ?by (meta_id (mh_note_id m)) = None"
  proof (intro ballI impI)
    fix m assume m: "m \<in> set hs" "map_of best (mh_note_id m) = None"
    have "meta_id (mh_note_id m) \<noteq> ?k"
    proof (cases "map_of best ?n")
      case None
      then show ?thesis using other [OF m(1)] by (simp add: meta_key_def inj)
    next
      case (Some p)
      then have "?k \<in> fst ` set sc" using Cons.prems(4) by simp
      moreover have "meta_id (mh_note_id m) \<notin> fst ` set sc" using Cons.prems(5) m by simp
      ultimately show ?thesis by metis
    qed
    then show "meta_id (mh_note_id m) \<notin> fst ` set ?sc \<and> map_of ?by (meta_id (mh_note_id m)) = None"
      using Cons.prems(5) m keys by (auto simp: setdefault_def)
  qed
  have d: "distinct (map mh_note_id hs)" using Cons.prems(2) by simp
  note ih = Cons.IH [OF run d p3 p4 p5]
  have k1: "map fst ?sc = map fst sc @ (if map_of best ?n = None then [meta_id ?n] else [])"
    using Cons.prems(4,5) by (auto simp: map_fst_update meta_key_def split: option.splits)
  have k2: "map_of ?by k = (case map_of by_id k of Some x \<Rightarrow> Some x | None \<Rightarrow> if map_of best ?n = None \<and> meta_id ?n = k then Some (meta_chunk h) else None)" for k
    by (auto simp: map_of_setdefault meta_key_def split: option.splits)
  have k3: "map_of ?ma n = (case map_of matched n of Some x \<Rightarrow> Some x | None \<Rightarrow> if n = ?n then Some (mh_matched_on h) else None)" for n
    using Cons.prems(3) by (auto simp: map_of_update split: option.splits)
  show ?case
  proof (intro conjI allI)
    show "map fst sc' = map fst sc @ map (\<lambda>h. meta_id (mh_note_id h)) (filter (\<lambda>h. map_of best (mh_note_id h) = None) (h # hs))"
      using ih k1 by simp
    show "dict_or 0 sc' k = dict_or 0 sc k + boost_from (\<lambda>h. meta_key best (mh_note_id h) = k) r (h # hs)" for k
      using ih by (auto simp: dict_or_update boost_from_Cons)
    show "map_of by_id' k = (case map_of by_id k of Some x \<Rightarrow> Some x
        | None \<Rightarrow> map_option meta_chunk (find (\<lambda>h. map_of best (mh_note_id h) = None \<and> meta_id (mh_note_id h) = k) (h # hs)))" for k
      using ih k2 [of k] by (auto split: option.splits)
    show "map_of matched' n = (case map_of matched n of Some x \<Rightarrow> Some x | None \<Rightarrow> matched_of (h # hs) n)" for n
      using ih k3 [of n] by (auto simp: matched_of_def split: option.splits)
  qed
qed

subsection \<open>Fusion: the whole\<close>

text \<open>What the candidate lists of the repositories satisfy: chunks have identifiers of their own, a chunk belongs to
  one note, a note matches once.\<close>

definition candidates :: "chunk_hit list \<Rightarrow> metadata_hit list \<Rightarrow> bool" where
  "candidates hits meta \<longleftrightarrow> (\<forall>h\<in>set hits. ch_chunk_id h \<noteq> None) \<and>
     (\<forall>h\<in>set hits. \<forall>n. ch_chunk_id h \<noteq> Some (meta_id n)) \<and>
     (\<forall>h\<in>set hits. \<forall>h'\<in>set hits. ch_chunk_id h = ch_chunk_id h' \<longrightarrow> ch_note_id h = ch_note_id h') \<and>
     distinct (map mh_note_id meta)"

lemma leg_score_from: "leg_score hits = leg_from 0 hits"
  by (simp add: leg_score_def leg_from_def fun_eq_iff)

lemma fuse_legs:
  assumes "\<forall>h\<in>set (fts @ vec). ch_chunk_id h \<noteq> None"
  obtains sc1 by1 sc by_id where "fuse_leg 0 fts ([], []) = Inr (sc1, by1)" "fuse_leg 0 vec (sc1, by1) = Inr (sc, by_id)"
    "scored (fts @ vec) (base_score fts vec) (sc, by_id)"
proof -
  have "scored [] (\<lambda>c. 0) ([], [])" by (simp add: scored_def chunk_ids_def dict_or_def fun_eq_iff)
  from fuse_leg_scored [OF this, of fts 0] assms obtain st1 where 1: "fuse_leg 0 fts ([], []) = Inr st1"
    "scored fts (\<lambda>c. 0 + leg_from 0 fts c) st1" by auto
  obtain sc1 by1 where st1: "st1 = (sc1, by1)" by (cases st1)
  from fuse_leg_scored [OF 1(2) [unfolded st1], of vec 0] assms obtain st where 2: "fuse_leg 0 vec (sc1, by1) = Inr st"
    "scored (fts @ vec) (\<lambda>c. 0 + leg_from 0 fts c + leg_from 0 vec c) st" by auto
  obtain sc by_id where st: "st = (sc, by_id)" by (cases st)
  have "(\<lambda>c. 0 + leg_from 0 fts c + leg_from 0 vec c) = base_score fts vec" by (simp add: base_score_def leg_score_from fun_eq_iff)
  then show thesis using that 1(1) 2 st1 st by simp
qed

lemma set_chunk_ids: "\<forall>h\<in>set hits. ch_chunk_id h \<noteq> None \<Longrightarrow> c \<in> set (chunk_ids hits) \<longleftrightarrow> (\<exists>h\<in>set hits. ch_chunk_id h = Some c)"
  by (force simp: chunk_ids_def)

lemma first_hit_note:
  assumes "candidates hits meta" "c \<in> set (chunk_ids hits)"
  shows "first_hit hits c \<in> set hits" "ch_chunk_id (first_hit hits c) = Some c"
    "find (\<lambda>h. ch_chunk_id h = Some c) hits = Some (first_hit hits c)"
proof -
  obtain h where "h \<in> set hits" "ch_chunk_id h = Some c" using assms by (auto simp: set_chunk_ids candidates_def)
  then have "find (\<lambda>h. ch_chunk_id h = Some c) hits \<noteq> None" by (auto simp: find_None_iff)
  then obtain x where x: "find (\<lambda>h. ch_chunk_id h = Some c) hits = Some x" by blast
  have 1: "first_hit hits c = x" unfolding first_hit_def x by (rule option.sel)
  have 2: "x \<in> set hits \<and> ch_chunk_id x = Some c" using x unfolding find_Some_iff by (metis nth_mem)
  show "first_hit hits c \<in> set hits" unfolding 1 using 2 ..
  show "ch_chunk_id (first_hit hits c) = Some c" unfolding 1 using 2 ..
  show "find (\<lambda>h. ch_chunk_id h = Some c) hits = Some (first_hit hits c)" unfolding 1 by (rule x)
qed

lemma champion_champ:
  "champion fts vec n = champ (\<lambda>c. ch_note_id (first_hit (fts @ vec) c)) (base_score fts vec) (firsts [] (chunk_ids (fts @ vec))) n"
  unfolding champ_def champion_def by (subst find_firsts) (simp_all add: set_firsts)

lemma champion_None:
  assumes "candidates (fts @ vec) meta"
  shows "champion fts vec n = None \<longleftrightarrow> n \<notin> ch_note_id ` set (fts @ vec)"
proof -
  let ?H = "fts @ vec"
  have "n \<in> ch_note_id ` set ?H \<longleftrightarrow> (\<exists>c\<in>set (chunk_ids ?H). ch_note_id (first_hit ?H c) = n)"
  proof
    assume "n \<in> ch_note_id ` set ?H"
    then obtain h where h: "h \<in> set ?H" "n = ch_note_id h" by (rule imageE)
    have some: "\<forall>h\<in>set ?H. ch_chunk_id h \<noteq> None" and same: "\<forall>h\<in>set ?H. \<forall>h'\<in>set ?H. ch_chunk_id h = ch_chunk_id h' \<longrightarrow> ch_note_id h = ch_note_id h'"
      using assms unfolding candidates_def by blast+
    obtain c where c: "ch_chunk_id h = Some c" using some h(1) by blast
    have m: "c \<in> set (chunk_ids ?H)" unfolding set_chunk_ids [OF some] using h(1) c by (rule bexI [rotated])
    have "ch_note_id (first_hit ?H c) = ch_note_id h"
      by (rule same [rule_format, OF first_hit_note(1) [OF assms m] h(1)]) (simp only: first_hit_note(2) [OF assms m] c)
    then show "\<exists>c\<in>set (chunk_ids ?H). ch_note_id (first_hit ?H c) = n" using m h(2) by metis
  next
    assume "\<exists>c\<in>set (chunk_ids ?H). ch_note_id (first_hit ?H c) = n"
    then obtain c where c: "c \<in> set (chunk_ids ?H)" "ch_note_id (first_hit ?H c) = n" ..
    show "n \<in> ch_note_id ` set ?H" unfolding c(2) [symmetric] by (rule imageI) (rule first_hit_note(1) [OF assms c(1)])
  qed
  moreover have "champion fts vec n = None \<longleftrightarrow> \<not> (\<exists>c\<in>set (chunk_ids ?H). ch_note_id (first_hit ?H c) = n)"
    unfolding champion_champ champ_None set_firsts by simp
  ultimately show ?thesis by simp
qed

lemma boost_of_from: "boost_of meta n = boost_from (\<lambda>h. mh_note_id h = n) 0 meta"
  by (simp add: boost_of_def boost_from_def)

lemma boost_from_False: "boost_from (\<lambda>h. False) r ms = 0"
  by (induction ms arbitrary: r) (simp_all add: boost_from_Cons boost_from_def)

lemma find_distinct:
  assumes "distinct (map f xs)" "x \<in> set xs" "P x" "\<And>y. y \<in> set xs \<Longrightarrow> P y \<Longrightarrow> f y = f x"
  shows "find P xs = Some x"
proof (cases "find P xs")
  case None
  then show ?thesis using assms(2,3) unfolding find_None_iff by blast
next
  case (Some y)
  then have y: "y \<in> set xs" "P y" unfolding find_Some_iff by (metis nth_mem)+
  have "inj_on f (set xs)" using assms(1) unfolding distinct_map ..
  then have "y = x" using assms(4) [OF y] y(1) assms(2) by (rule inj_onD)
  then show ?thesis using Some by simp
qed

text \<open>The state of the fusion once the keyword and vector lists and then the metadata matches are in.\<close>

lemma fused_rows:
  assumes cand: "candidates (F @ V) M" and sc: "scored (F @ V) (base_score F V) (sc, by_id)"
    and run: "fuse_meta (best_chunks by_id sc []) 0 M (sc, by_id, []) = (sc', by_id', matched)"
  shows "map (\<lambda>(c, s). (hit_of by_id' c)\<lparr>ch_score := s, ch_matched_on := map_of matched (ch_note_id (hit_of by_id' c))\<rparr>) sc' =
     reference_hits F V M"
proof -
  let ?H = "F @ V" and ?b = "base_score F V"
  define ids where "ids = firsts [] (chunk_ids ?H)"
  define best where "best = best_chunks by_id sc []"
  let ?fr = "filter (\<lambda>h. map_of best (mh_note_id h) = None) M"
  have some: "\<forall>h\<in>set ?H. ch_chunk_id h \<noteq> None" and nometa: "\<forall>h\<in>set ?H. \<forall>n. ch_chunk_id h \<noteq> Some (meta_id n)"
    and dM: "distinct (map mh_note_id M)" using cand unfolding candidates_def by blast+
  have keys: "map fst sc = ids" and val: "dict_or 0 sc c = ?b c" and by_id: "map_of by_id = (\<lambda>c. find (\<lambda>h. ch_chunk_id h = Some c) ?H)" for c
    using sc by (simp_all add: scored_def ids_def)
  have set_ids: "set ids = set (chunk_ids ?H)" by (simp add: ids_def set_firsts)
  have dids: "distinct ids" by (simp add: ids_def distinct_firsts)
  have sc_list: "sc = map (\<lambda>c. (c, ?b c)) ids" using dict_list [of sc 0] keys dids val by simp
  have hit: "hit_of by_id = first_hit ?H" by (simp add: hit_of_def first_hit_def by_id fun_eq_iff)
  have "map_of best n = map_option (\<lambda>c. (?b c, c)) (champ (\<lambda>c. ch_note_id (hit_of by_id c)) ?b ([] @ ids) n)" for n
    unfolding best_def sc_list by (rule best_chunks_champ) (simp add: champ_def)
  then have best: "map_of best n = map_option (\<lambda>c. (?b c, c)) (champion F V n)" for n
    unfolding champion_champ hit ids_def by simp
  have champ: "c \<in> set ids \<and> ch_note_id (first_hit ?H c) = n" if "champion F V n = Some c" for c n
    using champ_Some [OF that [unfolded champion_champ]] by (simp add: ids_def)
  have meta_no: "meta_id n \<notin> set ids" for n unfolding set_ids set_chunk_ids [OF some] using nometa by blast
  have key: "meta_key best n = (case champion F V n of Some c \<Rightarrow> c | None \<Rightarrow> meta_id n)" for n
    by (simp add: meta_key_def best split: option.split)
  have none: "map_of best n = None \<longleftrightarrow> champion F V n = None" for n by (simp add: best)
  have fst_sc: "fst ` set sc = set ids" using keys by (metis list.set_map)
  have by_none: "map_of by_id (meta_id n) = None" for n unfolding by_id find_None_iff using nometa by blast
  have eff: "map fst sc' = ids @ map (\<lambda>h. meta_id (mh_note_id h)) ?fr"
    "dict_or 0 sc' k = ?b k + boost_from (\<lambda>h. meta_key best (mh_note_id h) = k) 0 M"
    "map_of by_id' k = (case map_of by_id k of Some x \<Rightarrow> Some x
        | None \<Rightarrow> map_option meta_chunk (find (\<lambda>h. map_of best (mh_note_id h) = None \<and> meta_id (mh_note_id h) = k) M))"
    "map_of matched n = matched_of M n" for k n
    using fuse_meta_effect [OF run [folded best_def] dM] champ meta_no by_none
    by (simp_all add: fst_sc none key keys val split: option.split)
  have inj: "meta_id a = meta_id b \<longleftrightarrow> a = b" for a b by (simp add: meta_id_def)
  have dsc: "distinct (map fst sc')"
  proof -
    have "distinct (map mh_note_id ?fr)" using dM by (rule distinct_map_filter)
    then have "distinct (map meta_id (map mh_note_id ?fr))" by (simp only: distinct_map [of meta_id]) (simp add: inj_on_def inj)
    then have "distinct (map (\<lambda>h. meta_id (mh_note_id h)) ?fr)" by (simp add: comp_def)
    then show ?thesis unfolding eff(1) using dids meta_no by auto
  qed
  define v where "v k = ?b k + boost_from (\<lambda>h. meta_key best (mh_note_id h) = k) 0 M" for k
  define g where "g = (\<lambda>(c, s). (hit_of by_id' c)\<lparr>ch_score := s, ch_matched_on := map_of matched (ch_note_id (hit_of by_id' c))\<rparr>)"
  have sc': "sc' = map (\<lambda>k. (k, v k)) (ids @ map (\<lambda>h. meta_id (mh_note_id h)) ?fr)"
    using dict_list [OF dsc, of 0] unfolding eff(1) eff(2) v_def .
  have chunk: "g (c, v c) = (let h = first_hit ?H c; n = ch_note_id h
              in h\<lparr>ch_score := ?b c + (if champion F V n = Some c then boost_of M n else 0), ch_matched_on := matched_of M n\<rparr>)"
    if c: "c \<in> set ids" for c
  proof -
    let ?n = "ch_note_id (first_hit ?H c)"
    have "map_of by_id c = Some (first_hit ?H c)" unfolding by_id by (rule first_hit_note(3) [OF cand]) (use c set_ids in simp)
    then have h: "hit_of by_id' c = first_hit ?H c" by (simp add: hit_of_def eff(3))
    have k: "meta_key best n = c \<longleftrightarrow> champion F V ?n = Some c \<and> n = ?n" for n
    proof (cases "champion F V n")
      case None
      then show ?thesis using meta_no [of n] c by (auto simp: key)
    next
      case (Some d)
      then show ?thesis using champ [of n c] by (auto simp: key)
    qed
    have "v c = ?b c + (if champion F V ?n = Some c then boost_of M ?n else 0)"
      by (simp add: v_def k boost_of_from boost_from_False)
    then show ?thesis by (simp add: g_def h eff(4) Let_def)
  qed
  have metas: "g (meta_id (mh_note_id m), v (meta_id (mh_note_id m))) =
      (meta_chunk m)\<lparr>ch_score := boost_of M (mh_note_id m), ch_matched_on := Some (mh_matched_on m)\<rparr>"
    if m: "m \<in> set M" "champion F V (mh_note_id m) = None" for m
  proof -
    let ?n = "mh_note_id m"
    have "find (\<lambda>h. map_of best (mh_note_id h) = None \<and> meta_id (mh_note_id h) = meta_id ?n) M = Some m"
      by (rule find_distinct [OF dM m(1)]) (use m(2) none inj in \<open>simp, metis\<close>)
    then have h: "hit_of by_id' (meta_id ?n) = meta_chunk m" by (simp add: hit_of_def eff(3) by_none)
    have k: "meta_key best n = meta_id ?n \<longleftrightarrow> n = ?n" for n
      using champ [of n] meta_no [of ?n] m(2) by (auto simp: key inj split: option.split)
    have "meta_id ?n \<notin> fst ` set sc" unfolding fst_sc by (rule meta_no)
    then have "dict_or 0 sc (meta_id ?n) = 0" by (simp add: dict_or_def map_of_eq_None_iff split: option.split) (metis weak_map_of_SomeI map_of_eq_None_iff option.distinct(1))
    then have "?b (meta_id ?n) = 0" using val by simp
    then have vm: "v (meta_id ?n) = boost_of M ?n" by (simp add: v_def k boost_of_from)
    have "matched_of M ?n = Some (mh_matched_on m)"
      unfolding matched_of_def by (subst find_distinct [OF dM m(1)]) (simp, blast, simp)
    then show ?thesis using vm by (simp add: g_def h eff(4) meta_chunk_def)
  qed
  have frs: "?fr = filter (\<lambda>m. mh_note_id m \<notin> ch_note_id ` set ?H) M"
    by (rule filter_cong [OF refl]) (simp only: none champion_None [OF cand])
  have "map g sc' = map (\<lambda>c. g (c, v c)) ids @ map (\<lambda>m. g (meta_id (mh_note_id m), v (meta_id (mh_note_id m)))) ?fr"
    unfolding sc' by (simp add: comp_def)
  also have "map (\<lambda>c. g (c, v c)) ids = map (\<lambda>c. let h = first_hit ?H c; n = ch_note_id h
              in h\<lparr>ch_score := ?b c + (if champion F V n = Some c then boost_of M n else 0), ch_matched_on := matched_of M n\<rparr>) ids"
    by (rule map_cong [OF refl]) (rule chunk)
  also have "map (\<lambda>m. g (meta_id (mh_note_id m), v (meta_id (mh_note_id m)))) ?fr =
      map (\<lambda>m. (meta_chunk m)\<lparr>ch_score := boost_of M (mh_note_id m), ch_matched_on := Some (mh_matched_on m)\<rparr>) ?fr"
    by (rule map_cong [OF refl]) (use metas none in simp)
  finally show ?thesis unfolding g_def frs reference_hits_def ids_def .
qed

text \<open>C18: fusion. For candidate lists whose chunks have identifiers and belong to one note each, and metadata matches
  of distinct notes, the result is the ranking the policy describes: every allowed chunk scored by its reciprocal
  ranks in both lists, a note's metadata boost added to its best chunk only, a note without a chunk represented by a
  hit of its own, the hits by falling score (ties in order of appearance), the first \<open>per_note_cap\<close> of each note, and
  of those the first \<open>max 1 limit\<close>.\<close>

theorem fuse_hybrid_exact:
  assumes "F = allowed_hits ch_note_id allowed fts" "V = allowed_hits ch_note_id allowed vec" "M = allowed_hits mh_note_id allowed meta"
    and "candidates (F @ V) M" "0 \<le> cap"
  shows "fuse_hybrid fts vec meta limit cap allowed =
     Inr (take (nat (max 1 limit)) (at_most (nat cap) [] (sort_desc ch_score (reference_hits F V M))))"
proof -
  have "\<forall>h\<in>set (F @ V). ch_chunk_id h \<noteq> None" using assms(4) by (simp add: candidates_def)
  then obtain sc1 by1 sc by_id where legs: "fuse_leg 0 F ([], []) = Inr (sc1, by1)" "fuse_leg 0 V (sc1, by1) = Inr (sc, by_id)"
    "scored (F @ V) (base_score F V) (sc, by_id)" by (rule fuse_legs)
  obtain sc' by_id' matched where m: "fuse_meta (best_chunks by_id sc []) 0 M (sc, by_id, []) = (sc', by_id', matched)"
    by (metis prod_cases3)
  let ?g = "\<lambda>(c, s). (hit_of by_id' c)\<lparr>ch_score := s, ch_matched_on := map_of matched (ch_note_id (hit_of by_id' c))\<rparr>"
  have "(\<lambda>p. ch_score (?g p)) = snd" by (simp add: fun_eq_iff split: prod.split)
  then have "ranked_hits sc' by_id' matched = sort_desc ch_score (map ?g sc')" by (simp add: ranked_hits_def sort_desc_map)
  also have "\<dots> = sort_desc ch_score (reference_hits F V M)" by (simp only: fused_rows [OF assms(4) legs(3) m])
  finally have r: "ranked_hits sc' by_id' matched = sort_desc ch_score (reference_hits F V M)" .
  have "cap_hits cap limit hs [] [] = take (nat (max 1 limit)) (at_most (nat cap) [] hs)" for hs
    using cap_hits_ref [of "[]" "[]" "[]" limit cap hs] assms(5) by (simp add: dict_or_def)
  then show ?thesis unfolding fuse_hybrid_def using legs m r by (simp add: assms(1-3) [symmetric])
qed

text \<open>The error case: a candidate without a chunk identifier fails the assertion.\<close>

lemma fuse_hybrid_assertion:
  assumes "\<exists>h\<in>set (allowed_hits ch_note_id allowed (fts @ vec)). ch_chunk_id h = None"
  shows "fuse_hybrid fts vec meta limit cap allowed = Inl ChunkIdAssertion"
proof (cases "\<exists>h\<in>set (allowed_hits ch_note_id allowed fts). ch_chunk_id h = None")
  case True
  then show ?thesis by (simp add: fuse_hybrid_def fuse_leg_assertion)
next
  case False
  then have "\<exists>h\<in>set (allowed_hits ch_note_id allowed vec). ch_chunk_id h = None"
    using assms by (auto simp: allowed_hits_def split: option.splits)
  then show ?thesis by (auto simp: fuse_hybrid_def fuse_leg_assertion split: sum.split) (metis fuse_error.exhaust)
qed

theorem fuse_hybrid_exact_witness:
  "\<exists>fts vec meta. map ch_note_id fts = [''n1'', ''n2'', ''x''] \<and> map ch_chunk_id vec = [Some ''c2''] \<and> map mh_note_id meta = [''n3''] \<and>
     fuse_hybrid fts vec meta 2 3 (Some {''n1'', ''n2'', ''n3''}) =
     Inr (take 2 (at_most 3 [] (sort_desc ch_score (reference_hits (take 2 fts) vec meta)))) \<and> length (reference_hits (take 2 fts) vec meta) = 3"
proof -
  let ?h = "\<lambda>c n. \<lparr>ch_chunk_id = Some c, ch_note_id = n, ch_title = [], ch_folder = [], ch_updated_at = [], ch_header_path = [],
     ch_content = [], ch_score = 0, ch_matched_on = None\<rparr>"
  let ?f = "[?h ''c1'' ''n1'', ?h ''c2'' ''n2'', ?h ''c3'' ''x'']" and ?v = "[?h ''c2'' ''n2'']"
  let ?m = "[\<lparr>mh_note_id = ''n3'', mh_title = [], mh_folder = [], mh_updated_at = [], mh_matched_on = [MTag]\<rparr>]"
  let ?A = "Some {''n1'', ''n2'', ''n3''}"
  have f: "take 2 ?f = allowed_hits ch_note_id ?A ?f" by (simp add: allowed_hits_def)
  have v: "?v = allowed_hits ch_note_id ?A ?v" and m: "?m = allowed_hits mh_note_id ?A ?m" by (simp_all add: allowed_hits_def)
  have "candidates (take 2 ?f @ ?v) ?m" by (simp add: candidates_def meta_id_def)
  then have "fuse_hybrid ?f ?v ?m 2 3 ?A = Inr (take 2 (at_most 3 [] (sort_desc ch_score (reference_hits (take 2 ?f) ?v ?m))))"
    using fuse_hybrid_exact [OF f v m, of 3 2] by simp
  moreover have "length (reference_hits (take 2 ?f) ?v ?m) = 3" by (simp add: reference_hits_def chunk_ids_def)
  ultimately show ?thesis by (intro exI [of _ ?f] exI [of _ ?v] exI [of _ ?m] conjI) (simp_all only: list.map chunk_hit.simps metadata_hit.simps)
qed

end
