(* ===== verification/Targets.thy ===== *)
theory Targets
  imports Note_Rows
begin

section \<open>Authorized targets\<close>

text \<open>
  Models \<open>repositories/workspaces.py\<close> (the table \<open>workspace_access\<close>) and \<open>services/targets.py\<close>: the one
  place that turns a user and a note or workspace name into a target a write may touch. A
  \<open>TargetResolutionError\<close> is the failure it carries.
\<close>

subsection \<open>Definitions\<close>

record workspace_access =
  wa_user :: string
  wa_workspace :: string
  wa_role :: string

definition access_of :: "string \<Rightarrow> string \<Rightarrow> workspace_access \<Rightarrow> bool" where
  "access_of user ws r \<longleftrightarrow> wa_user r = user \<and> wa_workspace r = ws"

definition grant_access :: "string \<Rightarrow> string \<Rightarrow> string \<Rightarrow> workspace_access list \<Rightarrow> workspace_access list" where
  "grant_access user ws role t =
     (case find (access_of user ws) t of
        Some _ \<Rightarrow> t
      | None \<Rightarrow> t @ [\<lparr>wa_user = user, wa_workspace = ws, wa_role = role\<rparr>])"

definition revoke_access :: "string \<Rightarrow> string \<Rightarrow> workspace_access list \<Rightarrow> workspace_access list" where
  "revoke_access user ws t = sql_delete (access_of user ws) t"

definition list_user_workspaces :: "string \<Rightarrow> workspace_access list \<Rightarrow> string list" where
  "list_user_workspaces user t = map wa_workspace (sort_key wa_workspace (filter (\<lambda>r. wa_user r = user) t))"

definition has_access :: "string \<Rightarrow> string \<Rightarrow> workspace_access list \<Rightarrow> bool" where
  "has_access user ws t \<longleftrightarrow> find (access_of user ws) t \<noteq> None"

datatype target_error = NOT_FOUND | ACCESS_DENIED | INVALID_INPUT | MIXED_WORKSPACES

datatype target_reason = MissingRow | WrongOwner | WorkspaceAccessDenied | WorkspaceMismatch
  | EmptyBatch | OversizedBatch | MalformedId | DuplicateId | MixedWorkspaces

record target_failure =
  tf_index :: "nat option"
  tf_error :: target_error
  tf_reason :: target_reason

record workspace_target =
  wt_owner_id :: string
  wt_name :: string
  wt_path :: pure_path

record resolved_target =
  tg_note_id :: string
  tg_workspace :: workspace_target

definition MAX_BATCH :: nat where "MAX_BATCH = 50"

definition is_denial :: "target_reason \<Rightarrow> bool" where
  "is_denial r \<longleftrightarrow> r \<in> {MissingRow, WrongOwner, WorkspaceAccessDenied, WorkspaceMismatch}"

text \<open>The audit record, if one is written, and the returned flag.\<close>

definition audit_denied :: "target_failure \<Rightarrow> string \<Rightarrow> string \<Rightarrow> string \<Rightarrow> bool \<times> (string \<times> string \<times> string \<times> target_reason) option" where
  "audit_denied failure action resource caller =
     (if is_denial (tf_reason failure) then (True, Some (action, resource, caller, tf_reason failure)) else (False, None))"

definition resolve_workspace :: "string \<Rightarrow> workspace_access list \<Rightarrow> string \<Rightarrow> string \<Rightarrow> target_failure + workspace_target" where
  "resolve_workspace base acc user name =
     (if \<not> has_access user name acc
      then Inl \<lparr>tf_index = None, tf_error = ACCESS_DENIED, tf_reason = WorkspaceAccessDenied\<rparr>
      else Inr \<lparr>wt_owner_id = user, wt_name = name, wt_path = py_path (workspace_path name base user)\<rparr>)"

definition resolve_note :: "string \<Rightarrow> workspace_access list \<Rightarrow> note_row list \<Rightarrow> string \<Rightarrow> string \<Rightarrow> target_failure + resolved_target" where
  "resolve_note base acc t user note_id =
     (case get_note note_id None t of
        None \<Rightarrow> Inl \<lparr>tf_index = None, tf_error = NOT_FOUND, tf_reason = MissingRow\<rparr>
      | Some n \<Rightarrow>
          if n_owner n \<noteq> user then Inl \<lparr>tf_index = None, tf_error = NOT_FOUND, tf_reason = WrongOwner\<rparr>
          else (case resolve_workspace base acc user (n_workspace n) of
              Inl _ \<Rightarrow> Inl \<lparr>tf_index = None, tf_error = NOT_FOUND, tf_reason = WorkspaceAccessDenied\<rparr>
            | Inr w \<Rightarrow> Inr \<lparr>tg_note_id = note_id, tg_workspace = w\<rparr>))"

definition missing_reason :: "note_row list \<Rightarrow> string \<Rightarrow> target_reason" where
  "missing_reason t note_id = (case get_note note_id None t of None \<Rightarrow> MissingRow | Some _ \<Rightarrow> WrongOwner)"

text \<open>\<open>{n.id: n for n in get_many(ids, user)}\<close>: the last row of an identifier wins.\<close>

definition owned_rows :: "note_row list \<Rightarrow> string \<Rightarrow> string list \<Rightarrow> string \<Rightarrow> note_row option" where
  "owned_rows t user ids = map_of (rev (map (\<lambda>n. (n_id n, n)) (get_many ids user t)))"

fun resolve_each ::
  "string \<Rightarrow> workspace_access list \<Rightarrow> note_row list \<Rightarrow> string \<Rightarrow> (string \<Rightarrow> note_row option) \<Rightarrow> nat \<Rightarrow> string list \<Rightarrow>
     (string \<rightharpoonup> target_failure + workspace_target) \<Rightarrow> (target_failure + resolved_target) list" where
  "resolve_each base acc t user owned i [] cache = []"
| "resolve_each base acc t user owned i (note_id # ids) cache =
     (case owned note_id of
        None \<Rightarrow> Inl \<lparr>tf_index = Some i, tf_error = NOT_FOUND, tf_reason = missing_reason t note_id\<rparr>
          # resolve_each base acc t user owned (Suc i) ids cache
      | Some n \<Rightarrow>
          (let cached = (case cache (n_workspace n) of
                 Some c \<Rightarrow> c
               | None \<Rightarrow> (case resolve_workspace base acc user (n_workspace n) of
                     Inl _ \<Rightarrow> Inl \<lparr>tf_index = Some i, tf_error = NOT_FOUND, tf_reason = WorkspaceAccessDenied\<rparr>
                   | Inr w \<Rightarrow> Inr w))
           in (case cached of
                 Inl f \<Rightarrow> Inl \<lparr>tf_index = Some i, tf_error = tf_error f, tf_reason = tf_reason f\<rparr>
               | Inr w \<Rightarrow> Inr \<lparr>tg_note_id = note_id, tg_workspace = w\<rparr>)
              # resolve_each base acc t user owned (Suc i) ids (cache(n_workspace n \<mapsto> cached))))"

definition resolve_notes :: "string \<Rightarrow> workspace_access list \<Rightarrow> note_row list \<Rightarrow> string \<Rightarrow> string list \<Rightarrow> (target_failure + resolved_target) list" where
  "resolve_notes base acc t user ids = resolve_each base acc t user (owned_rows t user ids) 0 ids (\<lambda>_. None)"

text \<open>The two validation passes of a write batch.\<close>

fun id_failures :: "nat \<Rightarrow> string list \<Rightarrow> string list \<Rightarrow> target_failure list" where
  "id_failures i [] seen = []"
| "id_failures i (x # xs) seen =
     (if x = [] \<or> py_strip x = [] then \<lparr>tf_index = Some i, tf_error = INVALID_INPUT, tf_reason = MalformedId\<rparr> # id_failures (Suc i) xs seen
      else if x \<in> set seen then \<lparr>tf_index = Some i, tf_error = INVALID_INPUT, tf_reason = DuplicateId\<rparr> # id_failures (Suc i) xs seen
      else id_failures (Suc i) xs (x # seen))"

fun row_failures :: "note_row list \<Rightarrow> (string \<Rightarrow> note_row option) \<Rightarrow> nat \<Rightarrow> string list \<Rightarrow> target_failure list" where
  "row_failures t owned i [] = []"
| "row_failures t owned i (x # xs) =
     (case owned x of
        None \<Rightarrow> \<lparr>tf_index = Some i, tf_error = NOT_FOUND, tf_reason = missing_reason t x\<rparr> # row_failures t owned (Suc i) xs
      | Some _ \<Rightarrow> row_failures t owned (Suc i) xs)"

definition workspaces_seen :: "(string \<Rightarrow> note_row option) \<Rightarrow> string list \<Rightarrow> string list" where
  "workspaces_seen owned ids = remdups (List.map_filter (\<lambda>x. map_option n_workspace (owned x)) ids)"

definition batch_failure :: "target_error \<Rightarrow> target_reason \<Rightarrow> target_failure list" where
  "batch_failure e r = [\<lparr>tf_index = None, tf_error = e, tf_reason = r\<rparr>]"

definition notes_in_one_workspace ::
  "string \<Rightarrow> workspace_access list \<Rightarrow> note_row list \<Rightarrow> string \<Rightarrow> string list \<Rightarrow> target_failure list + workspace_target \<times> resolved_target list" where
  "notes_in_one_workspace base acc t user ids =
     (if ids = [] then Inl (batch_failure INVALID_INPUT EmptyBatch)
      else if MAX_BATCH < length ids then Inl (batch_failure INVALID_INPUT OversizedBatch)
      else if id_failures 0 ids [] \<noteq> [] then Inl (id_failures 0 ids [])
      else (let owned = owned_rows t user ids in
        if row_failures t owned 0 ids \<noteq> [] then Inl (row_failures t owned 0 ids)
        else if 1 < length (workspaces_seen owned ids) then Inl (batch_failure MIXED_WORKSPACES MixedWorkspaces)
        else (case resolve_workspace base acc user (hd (workspaces_seen owned ids)) of
            Inl _ \<Rightarrow> Inl (batch_failure NOT_FOUND WorkspaceAccessDenied)
          | Inr w \<Rightarrow> Inr (w, map (\<lambda>x. \<lparr>tg_note_id = x, tg_workspace = w\<rparr>) ids))))"

subsection \<open>Access rows\<close>

lemma has_access_iff: "has_access user ws t \<longleftrightarrow> (\<exists>r\<in>set t. access_of user ws r)"
  by (auto simp: has_access_def find_None_iff)

lemma has_access_grant: "has_access u w (grant_access user ws role t) \<longleftrightarrow> (u, w) = (user, ws) \<or> has_access u w t"
  unfolding has_access_iff grant_access_def by (auto simp: access_of_def find_Some_iff split: option.split)

lemma has_access_revoke: "has_access u w (revoke_access user ws t) \<longleftrightarrow> (u, w) \<noteq> (user, ws) \<and> has_access u w t"
  unfolding has_access_iff revoke_access_def by (auto simp: access_of_def sql_delete_def)

lemma set_list_user_workspaces: "set (list_user_workspaces user t) = {w. has_access user w t}"
  unfolding has_access_iff by (auto simp: list_user_workspaces_def access_of_def)

subsection \<open>Rows\<close>

lemma get_note_unique:
  assumes "distinct (map n_id t)"
  shows "get_note x None t = Some n \<longleftrightarrow> n \<in> set t \<and> n_id n = x"
  using sql_get_Some_iff [OF assms, of x n] by (simp add: get_note_def sql_get_def owned_note_def [abs_def])

lemma get_note_None: "get_note x None t = None \<longleftrightarrow> x \<notin> n_id ` set t"
  by (auto simp: get_note_def find_None_iff owned_note_def)

lemma set_get_many: "set (get_many ids user t) = {n \<in> set t. n_id n \<in> set ids \<and> n_owner n = user}"
proof -
  have "set (concat (batched IN_CLAUSE_CHUNK_SIZE ids)) = set ids" by (simp add: concat_batched IN_CLAUSE_CHUNK_SIZE_def)
  then have ids: "n_id n \<in> set ids \<longleftrightarrow> (\<exists>c\<in>set (batched IN_CLAUSE_CHUNK_SIZE ids). n_id n \<in> set c)" for n by auto
  show ?thesis by (auto simp: get_many_def ids)
qed

lemma owned_rows_Some:
  assumes "distinct (map n_id t)"
  shows "owned_rows t user ids x = Some n \<longleftrightarrow> x \<in> set ids \<and> n \<in> set t \<and> n_id n = x \<and> n_owner n = user"
proof -
  let ?m = "rev (map (\<lambda>n. (n_id n, n)) (get_many ids user t))"
  have mem: "(x, n) \<in> set ?m \<longleftrightarrow> x \<in> set ids \<and> n \<in> set t \<and> n_id n = x \<and> n_owner n = user" for x n
    by (auto simp: set_get_many)
  show ?thesis
  proof
    assume "owned_rows t user ids x = Some n"
    then have "(x, n) \<in> set ?m" unfolding owned_rows_def by (rule map_of_SomeD)
    then show "x \<in> set ids \<and> n \<in> set t \<and> n_id n = x \<and> n_owner n = user" by (simp only: mem)
  next
    assume r: "x \<in> set ids \<and> n \<in> set t \<and> n_id n = x \<and> n_owner n = user"
    then have "(x, n) \<in> set ?m" by (simp only: mem)
    then obtain n' where n': "map_of ?m x = Some n'" using weak_map_of_SomeI by fastforce
    then have "(x, n') \<in> set ?m" by (rule map_of_SomeD)
    then have "n' \<in> set t \<and> n_id n' = x" by (simp only: mem)
    then have "n' = n" using r assms by (auto simp: distinct_map inj_on_def)
    then show "owned_rows t user ids x = Some n" using n' by (simp add: owned_rows_def)
  qed
qed

lemma owned_rows_None:
  assumes "distinct (map n_id t)" "x \<in> set ids"
  shows "owned_rows t user ids x = None \<longleftrightarrow> (\<forall>n\<in>set t. n_id n = x \<longrightarrow> n_owner n \<noteq> user)"
  using owned_rows_Some [OF assms(1), of user ids x] assms(2) by (cases "owned_rows t user ids x") auto

subsection \<open>One result per identifier\<close>

definition at_index :: "nat \<Rightarrow> target_failure + resolved_target \<Rightarrow> target_failure + resolved_target" where
  "at_index i r = (case r of Inl f \<Rightarrow> Inl (f\<lparr>tf_index := Some i\<rparr>) | Inr x \<Rightarrow> Inr x)"

definition cache_ok :: "string \<Rightarrow> workspace_access list \<Rightarrow> string \<Rightarrow> (string \<rightharpoonup> target_failure + workspace_target) \<Rightarrow> bool" where
  "cache_ok base acc user cache \<longleftrightarrow> (\<forall>w c. cache w = Some c \<longrightarrow>
     (case resolve_workspace base acc user w of
        Inl _ \<Rightarrow> (\<exists>f. c = Inl f \<and> tf_error f = NOT_FOUND \<and> tf_reason f = WorkspaceAccessDenied)
      | Inr x \<Rightarrow> c = Inr x))"

lemma resolve_each_eq:
  assumes "distinct (map n_id t)" "set ids \<subseteq> set all_ids" "cache_ok base acc user cache"
  shows "resolve_each base acc t user (owned_rows t user all_ids) i ids cache =
     map (\<lambda>(j, x). at_index j (resolve_note base acc t user x)) (enumerate i ids)"
  using assms(2,3)
proof (induction ids arbitrary: i cache)
  case Nil
  then show ?case by simp
next
  case (Cons x ids)
  have x: "x \<in> set all_ids" and ids: "set ids \<subseteq> set all_ids" using Cons.prems(1) by simp_all
  show ?case
  proof (cases "owned_rows t user all_ids x")
    case None
    have "resolve_note base acc t user x = Inl \<lparr>tf_index = None, tf_error = NOT_FOUND, tf_reason = missing_reason t x\<rparr>"
    proof (cases "get_note x None t")
      case (Some n)
      then have "n_owner n \<noteq> user" using None owned_rows_None [OF assms(1) x] get_note_unique [OF assms(1)] by blast
      then show ?thesis using Some by (simp add: resolve_note_def missing_reason_def)
    qed (simp add: resolve_note_def missing_reason_def)
    then show ?thesis using None Cons.IH [OF ids Cons.prems(2)] by (simp add: at_index_def)
  next
    case (Some n)
    then have n: "get_note x None t = Some n" "n_owner n = user"
      using owned_rows_Some [OF assms(1)] get_note_unique [OF assms(1)] by blast+
    let ?c = "case cache (n_workspace n) of Some c \<Rightarrow> c
       | None \<Rightarrow> (case resolve_workspace base acc user (n_workspace n) of
             Inl _ \<Rightarrow> Inl \<lparr>tf_index = Some i, tf_error = NOT_FOUND, tf_reason = WorkspaceAccessDenied\<rparr> | Inr w \<Rightarrow> Inr w)"
    have c: "case resolve_workspace base acc user (n_workspace n) of
        Inl _ \<Rightarrow> (\<exists>f. ?c = Inl f \<and> tf_error f = NOT_FOUND \<and> tf_reason f = WorkspaceAccessDenied) | Inr x \<Rightarrow> ?c = Inr x"
      using Cons.prems(2) by (cases "cache (n_workspace n)") (auto simp: cache_ok_def split: sum.split)
    have "cache_ok base acc user (cache(n_workspace n \<mapsto> ?c))" using Cons.prems(2) c by (simp add: cache_ok_def)
    note ih = Cons.IH [OF ids this]
    have "(case ?c of Inl f \<Rightarrow> Inl \<lparr>tf_index = Some i, tf_error = tf_error f, tf_reason = tf_reason f\<rparr>
       | Inr w \<Rightarrow> Inr \<lparr>tg_note_id = x, tg_workspace = w\<rparr>) = at_index i (resolve_note base acc t user x)"
      using n c by (cases "resolve_workspace base acc user (n_workspace n)") (auto simp: resolve_note_def at_index_def)
    then show ?thesis unfolding resolve_each.simps Some option.case Let_def ih by simp
  qed
qed

lemma resolve_notes_eq:
  "distinct (map n_id t) \<Longrightarrow> resolve_notes base acc t user ids =
     map (\<lambda>(j, x). at_index j (resolve_note base acc t user x)) (enumerate 0 ids)"
  unfolding resolve_notes_def by (rule resolve_each_eq) (simp_all add: cache_ok_def)

subsection \<open>The write batch\<close>

lemma id_failures_Nil:
  "id_failures i xs seen = [] \<longleftrightarrow> distinct xs \<and> set xs \<inter> set seen = {} \<and> (\<forall>x\<in>set xs. py_strip x \<noteq> [])"
proof (induction xs arbitrary: i seen)
  case (Cons x xs)
  have "py_strip [] = []" by (simp add: strip_by_def lstrip_by_def rstrip_by_def)
  then show ?case using Cons by auto
qed simp

lemma row_failures_Nil: "row_failures t owned i xs = [] \<longleftrightarrow> (\<forall>x\<in>set xs. owned x \<noteq> None)"
  by (induction xs arbitrary: i) (auto split: option.splits)

lemma single_remdups: "xs \<noteq> [] \<Longrightarrow> \<not> 1 < length (remdups xs) \<longleftrightarrow> (\<forall>x\<in>set xs. x = hd (remdups xs))"
proof -
  assume ne: "xs \<noteq> []"
  show ?thesis
  proof
    assume "\<not> 1 < length (remdups xs)"
    then have "length (remdups xs) = 1" using ne by (cases "remdups xs") auto
    then obtain y where y: "remdups xs = [y]" by (auto simp: length_Suc_conv)
    then have "set xs = {y}" by (metis empty_set list.simps(15) set_remdups)
    then show "\<forall>x\<in>set xs. x = hd (remdups xs)" using y by simp
  next
    assume "\<forall>x\<in>set xs. x = hd (remdups xs)"
    then have "set (remdups xs) \<subseteq> {hd (remdups xs)}" by auto
    then have "card (set (remdups xs)) \<le> card {hd (remdups xs)}" by (intro card_mono) simp_all
    then show "\<not> 1 < length (remdups xs)" by (simp add: length_remdups_card_conv)
  qed
qed

lemma hd_in: "xs \<noteq> [] \<Longrightarrow> hd xs \<in> set xs"
  by simp

definition owned_in :: "note_row list \<Rightarrow> string \<Rightarrow> string \<Rightarrow> string \<Rightarrow> bool" where
  "owned_in t user ws x \<longleftrightarrow> (\<exists>n\<in>set t. n_id n = x \<and> n_owner n = user \<and> n_workspace n = ws)"

lemma workspaces_seen_mem:
  assumes "distinct (map n_id t)" "\<forall>x\<in>set ids. owned_rows t user ids x \<noteq> None"
  shows "w \<in> set (workspaces_seen (owned_rows t user ids) ids) \<longleftrightarrow> (\<exists>x\<in>set ids. owned_in t user w x)"
proof -
  have "w \<in> set (workspaces_seen (owned_rows t user ids) ids) \<longleftrightarrow>
      (\<exists>x\<in>set ids. \<exists>n. owned_rows t user ids x = Some n \<and> n_workspace n = w)"
    by (auto simp: workspaces_seen_def map_filter_def image_iff) force+
  then show ?thesis by (auto simp: owned_rows_Some [OF assms(1)] owned_in_def)
qed

lemma owned_in_unique: "distinct (map n_id t) \<Longrightarrow> owned_in t user w x \<Longrightarrow> owned_in t user w' x \<Longrightarrow> w = w'"
  by (auto simp: owned_in_def distinct_map inj_on_def)

text \<open>C15: what a write batch is allowed to touch. Resolution succeeds exactly when the list is not empty, has at
  most fifty entries, no blank and no repeated one, and there is one workspace, which the user can access, that
  holds a note of that user for every entry. It then returns that workspace at its path and the notes in order.\<close>

theorem batch_authorized:
  assumes "distinct (map n_id t)"
  shows "notes_in_one_workspace base acc t user ids = Inr (w, ts) \<longleftrightarrow>
     ids \<noteq> [] \<and> length ids \<le> MAX_BATCH \<and> distinct ids \<and> (\<forall>x\<in>set ids. py_strip x \<noteq> []) \<and>
     (\<exists>ws. has_access user ws acc \<and> (\<forall>x\<in>set ids. owned_in t user ws x) \<and>
        w = \<lparr>wt_owner_id = user, wt_name = ws, wt_path = py_path (workspace_path ws base user)\<rparr>) \<and>
     ts = map (\<lambda>x. \<lparr>tg_note_id = x, tg_workspace = w\<rparr>) ids"
    (is "?l \<longleftrightarrow> ?r")
proof -
  let ?o = "owned_rows t user ids" and ?seen = "workspaces_seen (owned_rows t user ids) ids"
  show ?thesis
  proof (cases "ids \<noteq> [] \<and> length ids \<le> MAX_BATCH \<and> distinct ids \<and> (\<forall>x\<in>set ids. py_strip x \<noteq> []) \<and> (\<forall>x\<in>set ids. ?o x \<noteq> None)")
    case False
    have "owned_in t user ws x \<Longrightarrow> x \<in> set ids \<Longrightarrow> ?o x \<noteq> None" for ws x
      using owned_rows_None [OF assms, of x ids user] by (auto simp: owned_in_def)
    then have "\<not> ?r" using False by blast
    moreover have "\<not> ?l"
    proof
      assume l: ?l
      have "ids \<noteq> []" "\<not> MAX_BATCH < length ids" "id_failures 0 ids [] = []" "row_failures t ?o 0 ids = []"
        using l by (simp_all add: notes_in_one_workspace_def Let_def split: if_splits)
      then show False using False unfolding id_failures_Nil row_failures_Nil by simp
    qed
    ultimately show ?thesis by simp
  next
    case True
    have some: "\<forall>x\<in>set ids. ?o x \<noteq> None" using True by blast
    have ne: "List.map_filter (\<lambda>x. map_option n_workspace (?o x)) ids \<noteq> []" using True by (cases ids) (auto simp: List.map_filter_simps)
    have mem: "w' \<in> set ?seen \<longleftrightarrow> (\<exists>x\<in>set ids. owned_in t user w' x)" for w' by (rule workspaces_seen_mem [OF assms some])
    have run: "notes_in_one_workspace base acc t user ids =
       (if 1 < length ?seen then Inl (batch_failure MIXED_WORKSPACES MixedWorkspaces)
        else (case resolve_workspace base acc user (hd ?seen) of
            Inl _ \<Rightarrow> Inl (batch_failure NOT_FOUND WorkspaceAccessDenied)
          | Inr w \<Rightarrow> Inr (w, map (\<lambda>x. \<lparr>tg_note_id = x, tg_workspace = w\<rparr>) ids)))"
    proof -
      have "ids \<noteq> []" "\<not> MAX_BATCH < length ids" "id_failures 0 ids [] = []" "row_failures t ?o 0 ids = []"
        using True unfolding id_failures_Nil row_failures_Nil by simp_all
      then show ?thesis by (simp add: notes_in_one_workspace_def Let_def)
    qed
    have every: "\<exists>ws. owned_in t user ws x" if x: "x \<in> set ids" for x
    proof -
      obtain n where n: "?o x = Some n" using bspec [OF some x] by (cases "?o x") simp_all
      have "n \<in> set t \<and> n_id n = x \<and> n_owner n = user" using iffD1 [OF owned_rows_Some [OF assms] n] by simp
      then have "owned_in t user (n_workspace n) x" unfolding owned_in_def by (intro bexI [of _ n] conjI) simp_all
      then show ?thesis ..
    qed
    have one: "\<not> 1 < length ?seen \<longleftrightarrow> (\<forall>x\<in>set ids. owned_in t user (hd ?seen) x)"
    proof -
      have "\<not> 1 < length ?seen \<longleftrightarrow> (\<forall>w'\<in>set ?seen. w' = hd ?seen)"
        using single_remdups [OF ne] by (simp only: workspaces_seen_def set_remdups)
      also have "\<dots> \<longleftrightarrow> (\<forall>x\<in>set ids. owned_in t user (hd ?seen) x)"
      proof
        assume l: "\<forall>w'\<in>set ?seen. w' = List.hd ?seen"
        show "\<forall>x\<in>set ids. owned_in t user (List.hd ?seen) x"
        proof
          fix x assume x: "x \<in> set ids"
          obtain ws where ws: "owned_in t user ws x" using every [OF x] ..
          have "ws \<in> set ?seen" unfolding mem using x ws by (rule bexI [rotated])
          then have "ws = List.hd ?seen" using l by (rule bspec [rotated])
          then show "owned_in t user (List.hd ?seen) x" using ws by (rule subst)
        qed
      next
        assume r: "\<forall>x\<in>set ids. owned_in t user (List.hd ?seen) x"
        show "\<forall>w'\<in>set ?seen. w' = List.hd ?seen"
        proof
          fix w' assume "w' \<in> set ?seen"
          then obtain x where "x \<in> set ids" "owned_in t user w' x" unfolding mem by (rule bexE)
          then show "w' = List.hd ?seen" using bspec [OF r] owned_in_unique [OF assms] by (metis (no_types))
        qed
      qed
      finally show ?thesis .
    qed
    have hd: "owned_in t user ws (List.hd ids) \<Longrightarrow> \<forall>x\<in>set ids. owned_in t user (List.hd ?seen) x \<Longrightarrow> ws = List.hd ?seen" for ws
      using owned_in_unique [OF assms] True by (metis hd_in)
    show ?thesis
    proof (cases "1 < length ?seen")
      case multi: True
      have "\<not> (\<forall>x\<in>set ids. owned_in t user ws x)" for ws
      proof
        assume all: "\<forall>x\<in>set ids. owned_in t user ws x"
        have "set ?seen \<subseteq> {ws}"
        proof
          fix w' assume "w' \<in> set ?seen"
          then obtain x where "x \<in> set ids" "owned_in t user w' x" unfolding mem by (rule bexE)
          then show "w' \<in> {ws}" using bspec [OF all] owned_in_unique [OF assms] by (metis (no_types) singletonI)
        qed
        then have "card (set ?seen) \<le> card {ws}" by (rule card_mono [rotated]) simp
        then show False using multi by (simp add: workspaces_seen_def length_remdups_card_conv)
      qed
      then show ?thesis using run multi True by auto
    next
      case single: False
      then have all: "\<forall>x\<in>set ids. owned_in t user (List.hd ?seen) x" using one by blast
      have "(\<exists>ws. has_access user ws acc \<and> (\<forall>x\<in>set ids. owned_in t user ws x) \<and>
          w = \<lparr>wt_owner_id = user, wt_name = ws, wt_path = py_path (workspace_path ws base user)\<rparr>) \<longleftrightarrow>
        has_access user (List.hd ?seen) acc \<and>
          w = \<lparr>wt_owner_id = user, wt_name = List.hd ?seen, wt_path = py_path (workspace_path (List.hd ?seen) base user)\<rparr>"
        using all hd True hd_in by metis
      then show ?thesis using run single True by (auto simp: resolve_workspace_def)
    qed
  qed
qed

theorem batch_authorized_witness:
  "\<exists>acc t w ts. notes_in_one_workspace ''/srv'' acc t ''u'' [''b'', ''a''] = Inr (w, ts) \<and> wt_name w = ''w'' \<and> map tg_note_id ts = [''b'', ''a'']"
proof -
  let ?n = "\<lambda>i u. \<lparr>n_id = i, n_workspace = ''w'', n_owner = u, n_title = i, n_folder = [], n_tags = None, n_created_at = [], n_updated_at = [],
    n_occurred_at = None, n_period = None, n_index_generation = 0, n_index_state = [], n_indexed_at = None\<rparr>"
  let ?t = "[?n ''a'' ''u'', ?n ''b'' ''u'', ?n ''c'' ''v'']" and ?acc = "grant_access ''u'' ''w'' ''owner'' []"
  let ?w = "\<lparr>wt_owner_id = ''u'', wt_name = ''w'', wt_path = py_path (workspace_path ''w'' ''/srv'' ''u'')\<rparr>"
  have d: "distinct (map n_id ?t)" by simp
  have a: "has_access ''u'' ''w'' ?acc" by (simp add: has_access_grant)
  have o: "\<forall>x\<in>set [''b'', ''a'']. owned_in ?t ''u'' ''w'' x" by (simp add: owned_in_def)
  have s: "\<forall>x\<in>set [''b'', ''a'']. py_strip x \<noteq> []" by code_simp
  have "notes_in_one_workspace ''/srv'' ?acc ?t ''u'' [''b'', ''a''] = Inr (?w, map (\<lambda>x. \<lparr>tg_note_id = x, tg_workspace = ?w\<rparr>) [''b'', ''a''])"
    by (rule batch_authorized [OF d, THEN iffD2], intro conjI exI [of _ "''w''"] a o s) (simp_all add: MAX_BATCH_def)
  moreover have "map tg_note_id (map (\<lambda>x. \<lparr>tg_note_id = x, tg_workspace = ?w\<rparr>) [''b'', ''a'']) = [''b'', ''a'']" by simp
  moreover have "wt_name ?w = ''w''" by simp
  ultimately show ?thesis by (intro exI conjI)
qed

subsection \<open>What a failure reveals\<close>

definition public :: "target_failure \<Rightarrow> nat option \<times> target_error" where
  "public f = (tf_index f, tf_error f)"

definition own :: "string \<Rightarrow> note_row list \<Rightarrow> note_row list" where
  "own user t = filter (\<lambda>n. n_owner n = user) t"

lemma resolve_note_public:
  assumes "distinct (map n_id t)"
  shows "map_sum public id (resolve_note base acc t user x) =
     (case find (\<lambda>n. n_id n = x) (own user t) of
        None \<Rightarrow> Inl (None, NOT_FOUND)
      | Some n \<Rightarrow> (case resolve_workspace base acc user (n_workspace n) of
          Inl _ \<Rightarrow> Inl (None, NOT_FOUND) | Inr w \<Rightarrow> Inr \<lparr>tg_note_id = x, tg_workspace = w\<rparr>))"
proof (cases "get_note x None t")
  case None
  then have "\<forall>n\<in>set t. n_id n \<noteq> x" unfolding get_note_None by blast
  then have "find (\<lambda>n. n_id n = x) (own user t) = None" by (auto simp: own_def find_None_iff)
  then show ?thesis using None by (simp add: resolve_note_def public_def)
next
  case (Some n)
  then have n: "n \<in> set t" "n_id n = x" using get_note_unique [OF assms] by blast+
  have uniq: "m = n" if "m \<in> set t" "n_id m = x" for m using that n assms by (auto simp: distinct_map inj_on_def)
  have f: "find (\<lambda>n. n_id n = x) (own user t) = (if n_owner n = user then Some n else None)"
  proof (cases "find (\<lambda>n. n_id n = x) (own user t)")
    case None
    then have "n_owner n \<noteq> user" using n by (auto simp: own_def find_None_iff)
    then show ?thesis using None by simp
  next
    case m: (Some m)
    then have "m \<in> set (own user t)" "n_id m = x" unfolding find_Some_iff by (metis nth_mem)+
    then have om: "m \<in> set t" "n_owner m = user" "n_id m = x" by (simp_all add: own_def)
    then have "m = n" by (intro uniq)
    then show ?thesis using m om(2) by simp
  qed
  show ?thesis
  proof (cases "n_owner n = user")
    case True
    then show ?thesis unfolding f using Some
      by (cases "resolve_workspace base acc user (n_workspace n)") (simp_all add: resolve_note_def public_def)
  next
    case False
    then show ?thesis unfolding f using Some by (simp add: resolve_note_def public_def)
  qed
qed

lemma at_index_public: "map_sum public id (at_index j r) = (case map_sum public id r of Inl (_, e) \<Rightarrow> Inl (Some j, e) | Inr x \<Rightarrow> Inr x)"
  by (cases r) (simp_all add: at_index_def public_def)

lemma get_many_own: "get_many ids user t = get_many ids user (own user t)"
proof -
  have "filter (\<lambda>n. n_id n \<in> set c \<and> n_owner n = user) t = filter (\<lambda>n. n_id n \<in> set c \<and> n_owner n = user) (own user t)" for c
    by (simp add: own_def conj_commute)
  then show ?thesis by (simp add: get_many_def)
qed

lemma row_failures_public: "map public (row_failures t owned i xs) = map public (row_failures t' owned i xs)"
  by (induction xs arbitrary: i) (auto simp: public_def split: option.split)

text \<open>C16: foreign notes cannot be told from missing ones. Two tables with the same rows of a user give that user the
  same answers from every resolver, up to the private reasons: what other users store has no influence.\<close>

theorem targets_hide_others:
  assumes "distinct (map n_id t)" "distinct (map n_id t')" "own user t = own user t'"
  shows "map_sum public id (resolve_note base acc t user x) = map_sum public id (resolve_note base acc t' user x) \<and>
     map (map_sum public id) (resolve_notes base acc t user ids) = map (map_sum public id) (resolve_notes base acc t' user ids) \<and>
     map_sum (map public) id (notes_in_one_workspace base acc t user ids) = map_sum (map public) id (notes_in_one_workspace base acc t' user ids)"
proof (intro conjI)
  have one: "map_sum public id (resolve_note base acc t user x) = map_sum public id (resolve_note base acc t' user x)" for x
    by (simp only: resolve_note_public [OF assms(1)] resolve_note_public [OF assms(2)] assms(3))
  then show "map_sum public id (resolve_note base acc t user x) = map_sum public id (resolve_note base acc t' user x)" .
  show "map (map_sum public id) (resolve_notes base acc t user ids) = map (map_sum public id) (resolve_notes base acc t' user ids)"
    unfolding resolve_notes_eq [OF assms(1)] resolve_notes_eq [OF assms(2)] list.map_comp
    by (rule map_cong [OF refl]) (simp add: at_index_public one split: prod.split)
  have rows: "owned_rows t user ids = owned_rows t' user ids"
    unfolding owned_rows_def get_many_own [of ids user t] get_many_own [of ids user t'] assms(3) ..
  let ?o = "owned_rows t' user ids"
  have nil: "row_failures t ?o 0 ids = [] \<longleftrightarrow> row_failures t' ?o 0 ids = []" by (simp only: row_failures_Nil)
  show "map_sum (map public) id (notes_in_one_workspace base acc t user ids) = map_sum (map public) id (notes_in_one_workspace base acc t' user ids)"
    unfolding notes_in_one_workspace_def Let_def rows nil using row_failures_public [of t ?o 0 ids t'] by simp
qed

theorem targets_hide_others_witness:
  "\<exists>t. t \<noteq> [] \<and> own ''u'' t = [] \<and>
     map_sum public id (resolve_note ''/srv'' [] t ''u'' ''a'') = map_sum public id (resolve_note ''/srv'' [] [] ''u'' ''a'')"
proof -
  let ?n = "\<lparr>n_id = ''a'', n_workspace = ''w'', n_owner = ''v'', n_title = [], n_folder = [], n_tags = None, n_created_at = [], n_updated_at = [],
    n_occurred_at = None, n_period = None, n_index_generation = 0, n_index_state = [], n_indexed_at = None\<rparr>"
  have "own ''u'' [?n] = []" by (simp add: own_def)
  moreover have "own ''u'' [?n] = own ''u'' []" by (simp add: own_def)
  ultimately show ?thesis using targets_hide_others [of "[?n]" "[]" "''u''" "''/srv''" "[]" "''a''"] by (intro exI [of _ "[?n]"]) simp
qed

end
