(* ===== verification/Tag_Service.thy ===== *)
theory Tag_Service
  imports Frontmatter Tag_Store Workspace_Tx Git_History
begin

section \<open>The tag service\<close>

text \<open>
  Models \<open>services/notes/tags.py\<close>: reading the tags of a note's file, changing them, and writing file, row and tag
  rows back through \<open>commit_rows_then_tree\<close>. The state is the database (notes, tags) and the working tree
  of one workspace. What a call is given besides its arguments is the record \<open>note_env\<close>: the serializer and the
  parser, the order in which Python enumerates a set, clock and generated identifiers, and the faults of the
  operating system and of the database. Warnings are values, not texts.
\<close>

subsection \<open>Tags of a note\<close>

datatype tag_warning = InvalidTag string | StillInline string | TemporalIgnored string | FileMissing string

definition normalize_tags :: "string list \<Rightarrow> string list" where
  "normalize_tags raw = foldl (\<lambda>out tag. case normalize tag of None \<Rightarrow> out | Some t \<Rightarrow> if t \<in> set out then out else out @ [t]) [] raw"

fun normalize_with_warnings :: "string list \<Rightarrow> string list \<Rightarrow> tag_warning list \<Rightarrow> string list \<times> tag_warning list" where
  "normalize_with_warnings [] out warnings = (out, warnings)"
| "normalize_with_warnings (tag # raw) out warnings =
     (case normalize tag of
        None \<Rightarrow> normalize_with_warnings raw out (warnings @ [InvalidTag tag])
      | Some t \<Rightarrow> normalize_with_warnings raw (if t \<in> set out then out else out @ [t]) warnings)"

text \<open>\<open>dict.fromkeys(fm_tags, "frontmatter")\<close>, then \<open>setdefault(tag, "inline")\<close>: a dictionary keeps the first
  position of a key. \<open>dedup\<close> is \<open>list(dict.fromkeys(xs))\<close>.\<close>

definition dedup :: "'a list \<Rightarrow> 'a list" where
  "dedup xs = foldl (\<lambda>out x. if x \<in> set out then out else out @ [x]) [] xs"

definition tagged :: "(string set \<Rightarrow> string list) \<Rightarrow> (string \<Rightarrow> token list) \<Rightarrow> string list \<Rightarrow> string \<Rightarrow> (string \<times> string) list" where
  "tagged enum md_parse fm_tags content =
     map (\<lambda>t. (t, ''frontmatter'')) (dedup fm_tags) @
     map (\<lambda>t. (t, ''inline'')) (filter (\<lambda>t. t \<notin> set fm_tags) (enum (extract_inline_tags md_parse content)))"

subsection \<open>The state and its faults\<close>

datatype note_error = NoteNotFound string | NoteFileNotFound string | TagAttributeError | TagValueError | MetaError meta_error
  | WriteError exn | DbError db_error | GitHistoryError git_error

record 'g note_env =
  ne_ws_path :: string
  ne_loads :: "string \<Rightarrow> metadata \<times> string"
  ne_dumps :: "metadata \<Rightarrow> string \<Rightarrow> string"
  ne_parse :: "string \<Rightarrow> token list"
  ne_enum :: "string set \<Rightarrow> string list"
  ne_now :: string
  ne_gen :: "nat \<Rightarrow> nat \<Rightarrow> string"
  ne_ops :: "'g git_ops"
  ne_walker :: walker
  ne_flush :: "tag_db \<Rightarrow> exn option"
  ne_commit :: "tag_db \<Rightarrow> exn option"
  ne_write :: "string \<Rightarrow> exn option"

text \<open>\<open>locate_note\<close>: the path of a note's file below the workspace. Whether it exists is asked of the tree.\<close>

definition note_relative :: "string \<Rightarrow> string \<Rightarrow> string \<Rightarrow> string" where
  "note_relative ws_path folder title =
     (case relative_parts (py_path ws_path) (py_path (note_filepath ws_path folder title)) of Some ps \<Rightarrow> join ''/'' ps | None \<Rightarrow> [])"

definition row_relative :: "string \<Rightarrow> note_row \<Rightarrow> string" where
  "row_relative ws_path n = note_relative ws_path (n_folder n) (n_title n)"

text \<open>The tags of the file are whatever its YAML list holds: \<open>normalize\<close> of something that is no string raises.\<close>

fun text_tags :: "yaml list \<Rightarrow> string list option" where
  "text_tags [] = Some []"
| "text_tags (YStr s # ts) = map_option (\<lambda>ss. s # ss) (text_tags ts)"
| "text_tags (t # ts) = None"

definition current_tags :: "note_frontmatter \<Rightarrow> note_error + string list" where
  "current_tags meta = (case text_tags (nf_tags meta) of None \<Rightarrow> Inl TagAttributeError | Some ts \<Rightarrow> Inr (normalize_tags ts))"

text \<open>The row of a note, its path and what its file holds.\<close>

definition load_note ::
  "'g note_env \<Rightarrow> string \<Rightarrow> string \<Rightarrow> tag_db \<times> 'g ws \<Rightarrow> note_error + note_row \<times> string \<times> note_frontmatter \<times> string \<times> string" where
  "load_note env owner note_id st =
     (case get_note note_id (Some owner) (td_notes (fst st)) of
        None \<Rightarrow> Inl (NoteNotFound note_id)
      | Some n \<Rightarrow>
          (let rel = row_relative (ne_ws_path env) n in
           case w_files (snd st) rel of
             None \<Rightarrow> Inl (NoteFileNotFound note_id)
           | Some raw \<Rightarrow>
               (case read_note_file_raw (ne_loads env) raw of
                  Inl e \<Rightarrow> Inl (MetaError e)
                | Inr (meta, content, raw) \<Rightarrow> Inr (n, rel, meta, content, raw))))"

subsection \<open>Changing the tags of one note\<close>

record tag_result =
  tr_note_id :: string
  tr_tags :: "string list"
  tr_frontmatter_tags :: "string list"
  tr_warnings :: "tag_warning list"
  tr_changed :: bool

text \<open>A staged write of a note file, and the row update that goes with it.\<close>

definition stage_write :: "'g note_env \<Rightarrow> string \<Rightarrow> note_frontmatter \<Rightarrow> string \<Rightarrow> string \<Rightarrow> staged_change" where
  "stage_write env rel meta body raw =
     \<lparr>sc_add = Some rel, sc_remove = None, sc_apply = write_apply rel (written_text (ne_dumps env) meta body) (ne_write env rel),
      sc_known_bytes = Some raw, sc_pure_rename = False\<rparr>"

definition tag_patch :: "note_row \<Rightarrow> string list \<Rightarrow> string \<Rightarrow> string option \<Rightarrow> string option \<Rightarrow> bool \<Rightarrow> note_patch" where
  "tag_patch n tags now occurred_at period bump =
     \<lparr>np_title = Some (n_title n), np_tags = Some tags, np_updated_at = now, np_folder = Some (n_folder n), np_created_at = None,
      np_occurred_at = Some occurred_at, np_period = Some period, np_bump = bump\<rparr>"

definition with_notes :: "tag_db \<Rightarrow> (note_row list \<Rightarrow> py_error + note_row list) \<Rightarrow> exn + tag_db" where
  "with_notes db f = (case f (td_notes db) of Inl _ \<Rightarrow> Inl (ExnOther ''ValueError'') | Inr t \<Rightarrow> Inr (db\<lparr>td_notes := t\<rparr>))"

definition written_meta :: "note_frontmatter \<Rightarrow> note_row \<Rightarrow> string list \<Rightarrow> string \<Rightarrow> string option \<Rightarrow> string option \<Rightarrow> note_frontmatter" where
  "written_meta meta n tags now occurred_at period =
     meta\<lparr>nf_id := YStr (n_id n), nf_title := YStr (n_title n), nf_tags := map YStr tags, nf_created_at := YStr (n_created_at n),
          nf_updated_at := YStr now, nf_occurred_at := occurred_at, nf_period := period\<rparr>"

definition apply_tag_change ::
  "'g note_env \<Rightarrow> string \<Rightarrow> string \<Rightarrow> (string list \<Rightarrow> string \<Rightarrow> string list \<times> tag_warning list) \<Rightarrow> tag_db \<times> 'g ws \<Rightarrow>
     (note_error + tag_result) \<times> tag_db \<times> 'g ws" where
  "apply_tag_change env owner note_id mutate st =
     (case load_note env owner note_id st of
        Inl e \<Rightarrow> (Inl e, st)
      | Inr (n, rel, meta, content, raw) \<Rightarrow>
     (case current_tags meta of
        Inl e \<Rightarrow> (Inl e, st)
      | Inr current \<Rightarrow>
     (let (new_tags, warnings) = mutate current content;
          inline = extract_inline_tags (ne_parse env) content;
          result = \<lparr>tr_note_id = note_id, tr_tags = dedup (new_tags @ sorted_list_of_set inline), tr_frontmatter_tags = new_tags,
             tr_warnings = warnings @ map (\<lambda>w. TemporalIgnored (snd w)) (temporal_drop_warnings (nf_temporal_dropped meta)),
             tr_changed = (new_tags \<noteq> current)\<rparr>
      in if new_tags = current then (Inr result, st)
         else (let (occurred_at, period) = temporal_or meta (n_occurred_at n) (n_period n) in
           case mk_frontmatter (written_meta meta n new_tags (ne_now env) occurred_at period) of
             Inl e \<Rightarrow> (Inl (MetaError e), st)
           | Inr apply_meta \<Rightarrow>
               (case commit_rows_then_tree (ne_ops env) [stage_write env rel apply_meta content raw] (''note: tag '' @ n_title n)
                   (\<lambda>db. with_notes db (update_note note_id (Some owner) (tag_patch n new_tags (ne_now env) occurred_at period False)))
                   (ne_flush env) (ne_commit env) st of
                  (Some e, st') \<Rightarrow> (Inl (WriteError e), st')
                | (None, db', w') \<Rightarrow>
                    (case sync_note_tags (ne_gen env 0) (n_workspace n) owner (ne_now env) note_id
                        (tagged (ne_enum env) (ne_parse env) new_tags content) 0 db' of
                       Inl e \<Rightarrow> (Inl (DbError e), db', w')
                     | Inr db'' \<Rightarrow> (Inr result, db'', w')))))))"

definition add_mutate :: "string list \<Rightarrow> string list \<Rightarrow> string \<Rightarrow> string list \<times> tag_warning list" where
  "add_mutate tags current content =
     (let (normalized, warnings) = normalize_with_warnings tags [] [] in (dedup (current @ normalized), warnings))"

definition remove_mutate :: "(string \<Rightarrow> token list) \<Rightarrow> string list \<Rightarrow> string list \<Rightarrow> string \<Rightarrow> string list \<times> tag_warning list" where
  "remove_mutate md_parse tags current content =
     (let (normalized, warnings) = normalize_with_warnings tags [] [] in
      (filter (\<lambda>t. t \<notin> set normalized) current,
       warnings @ map StillInline (filter (\<lambda>t. t \<in> extract_inline_tags md_parse content) normalized)))"

definition add_tags :: "'g note_env \<Rightarrow> string \<Rightarrow> string \<Rightarrow> string list \<Rightarrow> tag_db \<times> 'g ws \<Rightarrow> (note_error + tag_result) \<times> tag_db \<times> 'g ws" where
  "add_tags env owner note_id tags st = apply_tag_change env owner note_id (add_mutate tags) st"

definition remove_tags :: "'g note_env \<Rightarrow> string \<Rightarrow> string \<Rightarrow> string list \<Rightarrow> tag_db \<times> 'g ws \<Rightarrow> (note_error + tag_result) \<times> tag_db \<times> 'g ws" where
  "remove_tags env owner note_id tags st = apply_tag_change env owner note_id (remove_mutate (ne_parse env) tags) st"

text \<open>\<open>set_tags\<close>: the result is \<^const>\<open>None\<close> for a stale version.\<close>

definition set_tags ::
  "'g note_env \<Rightarrow> string \<Rightarrow> string \<Rightarrow> string list \<Rightarrow> string option \<Rightarrow> tag_db \<times> 'g ws \<Rightarrow>
     (note_error + tag_result option) \<times> tag_db \<times> 'g ws" where
  "set_tags env owner note_id tags expected_sha st =
     (let (normalized, warnings) = normalize_with_warnings tags [] [];
          run = (case apply_tag_change env owner note_id (\<lambda>current content. (normalized, warnings)) st of
                   (r, st') \<Rightarrow> (map_sum id Some r, st'))
      in case get_note note_id (Some owner) (td_notes (fst st)) of
           None \<Rightarrow> (Inl (NoteNotFound note_id), st)
         | Some n \<Rightarrow>
             (let rel = row_relative (ne_ws_path env) n in
              if w_files (snd st) rel = None then (Inl (NoteFileNotFound note_id), st)
              else (case expected_sha of
                  None \<Rightarrow> run
                | Some sha \<Rightarrow>
                    (case current_head_sha (ne_walker env) rel of
                       Inl e \<Rightarrow> (Inl (GitHistoryError e), st)
                     | Inr head \<Rightarrow> if sha_is_fresh head (Some sha) then run else (Inr None, st)))))"

subsection \<open>Renaming a tag in a workspace\<close>

record renamed_note =
  rt_note :: note_row
  rt_rel :: string
  rt_meta :: note_frontmatter
  rt_new_tags :: "string list"
  rt_new_body :: string
  rt_old_body :: string
  rt_raw :: string

definition body_changed :: "renamed_note \<Rightarrow> bool" where
  "body_changed x \<longleftrightarrow> rt_new_body x \<noteq> rt_old_body x"

datatype rename_result =
  TagExists string nat nat
| TagRenamed string string nat bool nat "tag_warning list"

definition MAX_BATCH_COMMIT_SIZE :: nat where "MAX_BATCH_COMMIT_SIZE = 500"

text \<open>The loop over the notes that carry the old tag: what each file holds and what it becomes.\<close>

fun stage_renames ::
  "'g note_env \<Rightarrow> string \<Rightarrow> string \<Rightarrow> fs \<Rightarrow> note_row list \<Rightarrow> note_error + renamed_note list \<times> tag_warning list" where
  "stage_renames env old new f [] = Inr ([], [])"
| "stage_renames env old new f (n # ns) =
     (let rel = row_relative (ne_ws_path env) n in
      case f rel of
        None \<Rightarrow> (case stage_renames env old new f ns of Inl e \<Rightarrow> Inl e | Inr (xs, ws) \<Rightarrow> Inr (xs, FileMissing (n_title n) # ws))
      | Some raw \<Rightarrow>
          (case read_note_file_raw (ne_loads env) raw of
             Inl e \<Rightarrow> Inl (MetaError e)
           | Inr (meta, content, raw) \<Rightarrow>
               (case current_tags meta of
                  Inl e \<Rightarrow> Inl e
                | Inr old_tags \<Rightarrow>
                    (let new_tags = dedup (map (\<lambda>t. case remap_path t old new of Some x \<Rightarrow> x | None \<Rightarrow> t) old_tags);
                         new_body = fst (rewrite_inline_tags content (\<lambda>t. remap_path t old new));
                         x = \<lparr>rt_note = n, rt_rel = rel, rt_meta = meta, rt_new_tags = new_tags, rt_new_body = new_body,
                              rt_old_body = content, rt_raw = raw\<rparr>
                     in case stage_renames env old new f ns of
                          Inl e \<Rightarrow> Inl e
                        | Inr (xs, ws) \<Rightarrow> Inr (if new_tags \<noteq> old_tags \<or> new_body \<noteq> content then x # xs else xs, ws)))))"

text \<open>The metadata a rename writes: the temporal fields are those of the file.\<close>

definition rename_meta :: "'g note_env \<Rightarrow> renamed_note \<Rightarrow> note_frontmatter" where
  "rename_meta env x = written_meta (rt_meta x) (rt_note x) (rt_new_tags x) (ne_now env) (nf_occurred_at (rt_meta x)) (nf_period (rt_meta x))"

fun rename_items :: "'g note_env \<Rightarrow> renamed_note list \<Rightarrow> note_error + staged_change list" where
  "rename_items env [] = Inr []"
| "rename_items env (x # xs) =
     (case mk_frontmatter (rename_meta env x) of
        Inl e \<Rightarrow> Inl (MetaError e)
      | Inr meta \<Rightarrow>
          (case rename_items env xs of
             Inl e \<Rightarrow> Inl e
           | Inr items \<Rightarrow> Inr (stage_write env (rt_rel x) meta (rt_new_body x) (rt_raw x) # items)))"

definition rename_patch :: "'g note_env \<Rightarrow> renamed_note \<Rightarrow> note_patch" where
  "rename_patch env x = tag_patch (rt_note x) (rt_new_tags x) (ne_now env) (nf_occurred_at (rt_meta x)) (nf_period (rt_meta x)) (body_changed x)"

fun rename_updates :: "'g note_env \<Rightarrow> string \<Rightarrow> renamed_note list \<Rightarrow> note_row list \<Rightarrow> py_error + note_row list" where
  "rename_updates env owner [] t = Inr t"
| "rename_updates env owner (x # xs) t =
     (case update_note (n_id (rt_note x)) (Some owner) (rename_patch env x) t of
        Inl e \<Rightarrow> Inl e
      | Inr t' \<Rightarrow> rename_updates env owner xs t')"

definition rename_tagged :: "'g note_env \<Rightarrow> renamed_note list \<Rightarrow> tagged_notes" where
  "rename_tagged env xs = map (\<lambda>x. (n_id (rt_note x), tagged (ne_enum env) (ne_parse env) (rt_new_tags x) (rt_new_body x))) xs"

definition rename_rows :: "'g note_env \<Rightarrow> string \<Rightarrow> string \<Rightarrow> nat \<Rightarrow> renamed_note list \<Rightarrow> tag_db \<Rightarrow> exn + tag_db" where
  "rename_rows env ws owner c xs db =
     (case with_notes db (rename_updates env owner xs) of
        Inl e \<Rightarrow> Inl e
      | Inr db' \<Rightarrow>
          (case sync_note_tags_many_in_session (ne_gen env c) ws owner (ne_now env) (rename_tagged env xs) 0 db' of
             Inl e \<Rightarrow> Inl (ExnOther ''IntegrityError'')
           | Inr (_, _, db'') \<Rightarrow> Inr db''))"

fun rename_chunks ::
  "'g note_env \<Rightarrow> string \<Rightarrow> string \<Rightarrow> string \<Rightarrow> nat \<Rightarrow> renamed_note list list \<Rightarrow> tag_db \<times> 'g ws \<Rightarrow> note_error option \<times> tag_db \<times> 'g ws" where
  "rename_chunks env ws owner message c [] st = (None, st)"
| "rename_chunks env ws owner message c (chunk # chunks) st =
     (case rename_items env chunk of
        Inl e \<Rightarrow> (Some e, st)
      | Inr items \<Rightarrow>
          (case commit_rows_then_tree (ne_ops env) items message (rename_rows env ws owner c chunk) (ne_flush env) (ne_commit env) st of
             (Some e, st') \<Rightarrow> (Some (WriteError e), st')
           | (None, st') \<Rightarrow> rename_chunks env ws owner message (Suc c) chunks st'))"

text \<open>The outcome and the notes handed to the indexer.\<close>

definition rename_tag ::
  "'g note_env \<Rightarrow> string \<Rightarrow> string \<Rightarrow> string \<Rightarrow> string \<Rightarrow> bool \<Rightarrow> tag_db \<times> 'g ws \<Rightarrow>
     (note_error + rename_result \<times> string list) \<times> tag_db \<times> 'g ws" where
  "rename_tag env ws owner old new merge st =
     (case (normalize old, normalize new) of
        (None, _) \<Rightarrow> (Inl TagValueError, st)
      | (Some _, None) \<Rightarrow> (Inl TagValueError, st)
      | (Some old_n, Some new_n) \<Rightarrow>
         (if old_n = new_n then (Inr (TagRenamed old_n new_n 0 False 0 [], []), st)
          else if prefix (old_n @ ''/'') new_n then (Inl TagValueError, st)
          else (let source_ids = note_ids_for_tags ws owner [old_n] True (fst st) in
            if source_ids = [] then (Inl TagValueError, st)
            else (let target_ids = note_ids_for_tags ws owner [new_n] True (fst st) in
              if target_ids \<noteq> [] \<and> \<not> merge then (Inr (TagExists new_n (length target_ids) (length source_ids), []), st)
              else (case stage_renames env old_n new_n (w_files (snd st)) (get_many (sort source_ids) owner (td_notes (fst st))) of
                  Inl e \<Rightarrow> (Inl e, st)
                | Inr (staged, warnings) \<Rightarrow>
                    (if staged = [] then (Inr (TagRenamed old_n new_n 0 (target_ids \<noteq> []) 0 warnings, []), st)
                     else (case rename_chunks env ws owner (''tag: rename '' @ old_n @ '' -> '' @ new_n) 0
                              (batched MAX_BATCH_COMMIT_SIZE staged) st of
                         (Some e, st') \<Rightarrow> (Inl e, st')
                       | (None, db', w') \<Rightarrow>
                           (case sweep_orphan_tags ws owner db' of
                              Inl e \<Rightarrow> (Inl (DbError e), db', w')
                            | Inr db'' \<Rightarrow>
                                (let rewritten = map (\<lambda>x. n_id (rt_note x)) (filter body_changed staged) in
                                 (Inr (TagRenamed old_n new_n (length staged) (target_ids \<noteq> []) (length rewritten) warnings, rewritten),
                                  db'', w'))))))))))"

subsection \<open>Successful writes\<close>

lemma commit_changes_files: "commit_changes ops removed added message w = (e, w') \<Longrightarrow> w_files w' = w_files w"
  by (auto simp: commit_changes_def split: if_splits option.splits prod.splits)

lemma staged_success:
  assumes "staged_workspace_change ops items message w = (None, w')"
  shows "apply_all items (w_files w) = (None, w_files w')"
proof -
  obtain e f where a: "apply_all items (w_files w) = (e, f)" by fastforce
  show ?thesis
  proof (cases e)
    case None
    obtain e' u where c: "commit_changes ops (truthy_paths (map sc_remove items)) (truthy_paths (map sc_add items)) message (w\<lparr>w_files := f\<rparr>) = (e', u)"
      by fastforce
    have "e' = None" "w' = u"
      using assms a None c by (auto simp: staged_workspace_change_def Let_def split: option.splits exn.splits)
    then show ?thesis using a None commit_changes_files [OF c] by simp
  next
    case (Some x)
    then show ?thesis using assms a by (auto simp: staged_workspace_change_def Let_def split: exn.splits)
  qed
qed

lemma commit_rows_success:
  assumes "commit_rows_then_tree ops items message write_rows flush commit_db (db, w) = (None, db', w')"
  shows "write_rows db = Inr db'" "apply_all items (w_files w) = (None, w_files w')"
proof -
  have "write_rows db = Inr db' \<and> staged_workspace_change ops items message w = (None, w')"
    using assms by (auto simp: commit_rows_then_tree_def commit_rows_then_def split: sum.splits option.splits prod.splits)
  then show "write_rows db = Inr db'" "apply_all items (w_files w) = (None, w_files w')" using staged_success by blast+
qed

lemma mk_frontmatter_id: "mk_frontmatter m = Inr m' \<Longrightarrow> m' = m"
  by (auto simp: mk_frontmatter_def split: if_splits sum.splits)

lemma update_note_Inr:
  "update_note note_id owner p t = Inr t' \<Longrightarrow> t' = sql_update (\<lambda>r. n_id r = note_id) (patch_note p) t"
  by (auto simp: update_note_def get_note_def find_Some_iff owned_note_def split: option.splits)

lemma patch_note_id [simp]: "n_id (patch_note p n) = n_id n"
  by (simp add: patch_note_def)

lemma with_notes_Inr: "with_notes db f = Inr db' \<longleftrightarrow> (\<exists>t. f (td_notes db) = Inr t \<and> db' = db\<lparr>td_notes := t\<rparr>)"
  by (auto simp: with_notes_def split: sum.splits)

lemma rename_items_Inr:
  "rename_items env xs = Inr items \<Longrightarrow>
     items = map (\<lambda>x. stage_write env (rt_rel x) (rename_meta env x) (rt_new_body x) (rt_raw x)) xs"
  by (induction xs arbitrary: items) (auto dest: mk_frontmatter_id split: sum.splits)

definition rename_files :: "'g note_env \<Rightarrow> renamed_note list \<Rightarrow> (string \<times> string) list" where
  "rename_files env xs = map (\<lambda>x. (rt_rel x, written_text (ne_dumps env) (rename_meta env x) (rt_new_body x))) xs"

lemma apply_stage_writes:
  "apply_all (map (\<lambda>x. stage_write env (rt_rel x) (rename_meta env x) (rt_new_body x) (rt_raw x)) xs) f = (None, f') \<Longrightarrow>
     f' = f ++ map_of (rev (rename_files env xs))"
proof (induction xs arbitrary: f)
  case Nil
  then show ?case by (simp add: rename_files_def)
next
  case (Cons x xs)
  let ?t = "written_text (ne_dumps env) (rename_meta env x) (rt_new_body x)"
  have "ne_write env (rt_rel x) = None" using Cons.prems by (auto simp: stage_write_def write_apply_def split: option.splits)
  then have "apply_all (map (\<lambda>x. stage_write env (rt_rel x) (rename_meta env x) (rt_new_body x) (rt_raw x)) xs) (f(rt_rel x \<mapsto> ?t)) = (None, f')"
    using Cons.prems by (simp add: stage_write_def write_apply_def)
  note ih = Cons.IH [OF this]
  have "f(rt_rel x \<mapsto> ?t) ++ map_of (rev (rename_files env xs)) = f ++ map_of (rev (rename_files env (x # xs)))"
    by (rule ext) (simp add: rename_files_def map_add_def split: option.split)
  then show ?case using ih by (rule trans [rotated])
qed

text \<open>The rows after a rename.\<close>

definition renamed_row :: "'g note_env \<Rightarrow> renamed_note list \<Rightarrow> note_row \<Rightarrow> note_row" where
  "renamed_row env xs r = (case find (\<lambda>x. n_id (rt_note x) = n_id r) xs of Some x \<Rightarrow> patch_note (rename_patch env x) r | None \<Rightarrow> r)"

lemma renamed_row_Nil: "map (renamed_row env []) t = t"
  by (rule map_idI) (simp add: renamed_row_def)

lemma renamed_row_id [simp]: "n_id (renamed_row env xs r) = n_id r"
  by (simp add: renamed_row_def split: option.split)

lemma find_none_ids: "i \<notin> set (map (\<lambda>x. n_id (rt_note x)) xs) \<Longrightarrow> find (\<lambda>x. n_id (rt_note x) = i) xs = None"
  by (auto simp: find_None_iff)

lemma renamed_row_Cons:
  assumes "n_id (rt_note x) \<notin> set (map (\<lambda>x. n_id (rt_note x)) xs)"
  shows "renamed_row env xs (if n_id r = n_id (rt_note x) then patch_note (rename_patch env x) r else r) = renamed_row env (x # xs) r"
  using find_none_ids [OF assms] by (simp add: renamed_row_def)

lemma rename_updates_Inr:
  "rename_updates env owner xs t = Inr t' \<Longrightarrow> distinct (map (\<lambda>x. n_id (rt_note x)) xs) \<Longrightarrow> t' = map (renamed_row env xs) t"
proof (induction xs arbitrary: t)
  case Nil
  then show ?case by (simp add: renamed_row_def)
next
  case (Cons x xs)
  let ?t = "sql_update (\<lambda>r. n_id r = n_id (rt_note x)) (patch_note (rename_patch env x)) t"
  have "rename_updates env owner xs ?t = Inr t'"
    using Cons.prems(1) by (auto dest: update_note_Inr split: sum.splits)
  then have "t' = map (renamed_row env xs) ?t" using Cons by simp
  also have "\<dots> = map (renamed_row env (x # xs)) t"
    unfolding sql_update_def list.map_comp
    by (rule map_cong [OF refl]) (use renamed_row_Cons [of x xs env] Cons.prems(2) in \<open>simp add: comp_def\<close>)
  finally show ?case .
qed

lemma renamed_row_append:
  assumes "distinct (map (\<lambda>x. n_id (rt_note x)) (xs @ ys))"
  shows "renamed_row env ys (renamed_row env xs r) = renamed_row env (xs @ ys) r"
proof (cases "find (\<lambda>x. n_id (rt_note x) = n_id r) xs")
  case None
  then have "find (\<lambda>x. n_id (rt_note x) = n_id r) (xs @ ys) = find (\<lambda>x. n_id (rt_note x) = n_id r) ys"
    by (induction xs) auto
  then show ?thesis using None by (simp add: renamed_row_def)
next
  case (Some x)
  then have "x \<in> set xs" "n_id (rt_note x) = n_id r" unfolding find_Some_iff by (metis nth_mem)+
  then have "n_id r \<notin> set (map (\<lambda>x. n_id (rt_note x)) ys)" using assms by auto
  then have "find (\<lambda>x. n_id (rt_note x) = n_id r) ys = None" by (rule find_none_ids)
  moreover have "find (\<lambda>x. n_id (rt_note x) = n_id r) (xs @ ys) = Some x" using Some by (induction xs) auto
  ultimately show ?thesis using Some by (simp add: renamed_row_def)
qed

lemma sync_pairs_notes: "sync_pairs gen ws owner now pairs memo k db = Inr (memo', k', db') \<Longrightarrow> td_notes db' = td_notes db"
proof (induction pairs arbitrary: memo k db)
  case (Cons x pairs)
  obtain n p s where "x = (n, p, s)" by (cases x)
  then show ?case using Cons.prems by (force dest: Cons.IH split: sum.splits prod.splits if_splits option.splits)
qed simp

lemma sync_session_notes:
  "sync_note_tags_many_in_session gen ws owner now tg k db = Inr (memo, k', db') \<Longrightarrow> td_notes db' = td_notes db"
  by (auto simp: sync_note_tags_many_in_session_def dest: sync_pairs_notes split: if_splits)

lemma rename_rows_Inr:
  assumes "rename_rows env ws owner c xs db = Inr db'" "distinct (map (\<lambda>x. n_id (rt_note x)) xs)"
  obtains memo k' where "td_notes db' = map (renamed_row env xs) (td_notes db)"
    "sync_note_tags_many_in_session (ne_gen env c) ws owner (ne_now env) (rename_tagged env xs) 0
       (db\<lparr>td_notes := map (renamed_row env xs) (td_notes db)\<rparr>) = Inr (memo, k', db')"
proof -
  obtain t memo k' where "rename_updates env owner xs (td_notes db) = Inr t"
    "sync_note_tags_many_in_session (ne_gen env c) ws owner (ne_now env) (rename_tagged env xs) 0 (db\<lparr>td_notes := t\<rparr>) = Inr (memo, k', db')"
    using assms(1) by (auto simp: rename_rows_def with_notes_def split: sum.splits prod.splits)
  then show thesis using that rename_updates_Inr [OF _ assms(2)] sync_session_notes by fastforce
qed

text \<open>Files and rows after all batches.\<close>

lemma rename_chunks_rows:
  "rename_chunks env ws owner message c chunks (db, w) = (None, db', w') \<Longrightarrow>
     distinct (map (\<lambda>x. n_id (rt_note x)) (concat chunks)) \<Longrightarrow>
     td_notes db' = map (renamed_row env (concat chunks)) (td_notes db) \<and>
     w_files w' = w_files w ++ map_of (rev (rename_files env (concat chunks)))"
proof (induction chunks arbitrary: c db w)
  case Nil
  then show ?case by (simp add: renamed_row_def rename_files_def)
next
  case (Cons xs chunks)
  have dx: "distinct (map (\<lambda>x. n_id (rt_note x)) xs)" and dc: "distinct (map (\<lambda>x. n_id (rt_note x)) (concat chunks))"
    using Cons.prems(2) by simp_all
  obtain items db1 w1 where i: "rename_items env xs = Inr items"
    and c1: "commit_rows_then_tree (ne_ops env) items message (rename_rows env ws owner c xs) (ne_flush env) (ne_commit env) (db, w) = (None, db1, w1)"
    and rest: "rename_chunks env ws owner message (Suc c) chunks (db1, w1) = (None, db', w')"
    using Cons.prems(1) by (auto split: sum.splits prod.splits option.splits)
  have rows: "td_notes db1 = map (renamed_row env xs) (td_notes db)"
    by (rule rename_rows_Inr [OF commit_rows_success(1) [OF c1] dx])
  have files: "w_files w1 = w_files w ++ map_of (rev (rename_files env xs))"
    using apply_stage_writes commit_rows_success(2) [OF c1] unfolding rename_items_Inr [OF i] by blast
  note ih = Cons.IH [OF rest dc]
  have "td_notes db' = map (renamed_row env (concat (xs # chunks))) (td_notes db)"
    using ih rows renamed_row_append [of xs "concat chunks" env] Cons.prems(2) by simp
  moreover have "w_files w' = w_files w ++ map_of (rev (rename_files env (concat (xs # chunks))))"
    using ih files by (simp add: rename_files_def)
  ultimately show ?case ..
qed

subsection \<open>Tag rows across batches\<close>

lemma ensure_chain_ids:
  "ensure_chain gen ws owner now as parent tid k tags = Inr (tid', k', tags') \<Longrightarrow> t_id ` set tags' \<subseteq> t_id ` set tags \<union> range gen"
proof (induction as arbitrary: parent tid k tags)
  case (Cons a as)
  show ?case
  proof (cases "tag_at ws owner a tags")
    case None
    then obtain t1 where t1: "sql_insert t_id (new_tag (gen k) ws owner now a parent) tags = Inr t1"
      "ensure_chain gen ws owner now as (Some (gen k)) (gen k) (Suc k) t1 = Inr (tid', k', tags')"
      using Cons.prems by (auto split: sum.splits)
    have "t_id ` set t1 \<subseteq> t_id ` set tags \<union> range gen" using t1(1) by (auto simp: sql_insert_Inr new_tag_def)
    then show ?thesis using Cons.IH [OF t1(2)] by blast
  next
    case (Some r)
    then show ?thesis using Cons.prems Cons.IH by simp
  qed
qed simp

lemma sync_pairs_ids:
  "sync_pairs gen ws owner now pairs memo k db = Inr (memo', k', db') \<Longrightarrow> t_id ` set (td_tags db') \<subseteq> t_id ` set (td_tags db) \<union> range gen"
proof (induction pairs arbitrary: memo k db)
  case (Cons x pairs)
  obtain n p s where x: "x = (n, p, s)" by (cases x)
  obtain tid memo1 k1 tags where e: "(case map_of memo p of
        Some tid \<Rightarrow> Inr (tid, memo, k, td_tags db)
      | None \<Rightarrow> (case ensure_tag gen ws owner now p k (td_tags db) of
          Inl e \<Rightarrow> Inl e | Inr (tid, k', tags) \<Rightarrow> Inr (tid, memo @ [(p, tid)], k', tags))) = Inr (tid, memo1, k1, tags)"
    using Cons.prems unfolding x sync_pairs.simps by (auto split: sum.splits)
  obtain links where "sync_pairs gen ws owner now pairs memo1 k1 (db\<lparr>td_tags := tags, td_links := links\<rparr>) = Inr (memo', k', db')"
    using Cons.prems unfolding x sync_pairs.simps e by (auto split: sum.splits if_splits)
  from Cons.IH [OF this] have "t_id ` set (td_tags db') \<subseteq> t_id ` set tags \<union> range gen" by simp
  moreover have "t_id ` set tags \<subseteq> t_id ` set (td_tags db) \<union> range gen"
    using e by (auto simp: ensure_tag_def dest: ensure_chain_ids split: option.splits sum.splits)
  ultimately show ?case by blast
qed simp

lemma sync_session_ids:
  assumes "sync_note_tags_many_in_session gen ws owner now tg k db = Inr (memo, k', db')"
  shows "t_id ` set (td_tags db') \<subseteq> t_id ` set (td_tags db) \<union> range gen"
proof (cases "tg = []")
  case True
  then show ?thesis using assms by (simp add: sync_note_tags_many_in_session_def)
next
  case False
  then have "sync_pairs gen ws owner now (tagged_pairs tg) [] k
      (db\<lparr>td_links := sql_delete (\<lambda>l. nt_note l \<in> fst ` set tg) (td_links db)\<rparr>) = Inr (memo, k', db')"
    using assms by (simp add: sync_note_tags_many_in_session_def)
  from sync_pairs_ids [OF this] show ?thesis by simp
qed

lemma sync_session_ok:
  assumes "tag_wf db" "fresh gen k (td_tags db)" "syncable db tg"
    and run: "sync_note_tags_many_in_session gen ws owner now tg k db = Inr (memo, k', db')"
  shows "tag_wf db'" "note_tags ws owner db' = {x \<in> note_tags ws owner db. fst x \<notin> fst ` set tg} \<union> set (tagged_pairs tg)"
proof -
  have "tag_wf db' \<and> note_tags ws owner db' = {x \<in> note_tags ws owner db. fst x \<notin> fst ` set tg} \<union> set (tagged_pairs tg)"
  proof (cases "tg = []")
    case True
    then show ?thesis using run assms(1) by (simp add: sync_note_tags_many_in_session_def tagged_pairs_def)
  next
    case False
    let ?db = "db\<lparr>td_links := sql_delete (\<lambda>l. nt_note l \<in> fst ` set tg) (td_links db)\<rparr>"
    have wf: "tag_wf ?db" using assms(1) by (auto simp: tag_wf_def sql_simps distinct_sql_delete)
    have m: "memo_ok ws owner (td_tags ?db) []" by (simp add: memo_ok_def)
    have dp: "distinct (map (\<lambda>(n, p, s). (n, p)) (tagged_pairs tg))" "fst ` set (tagged_pairs tg) \<subseteq> fst ` set tg"
      using distinct_pairs [of tg] assms(3) by (auto simp: syncable_def)
    have ok: "\<forall>(n, p, s)\<in>set (tagged_pairs tg). tag_path p \<and> n \<in> n_id ` set (td_notes ?db)"
      using assms(3) by (fastforce simp: tagged_pairs_iff syncable_def canonical_def)
    have free: "\<forall>(n, p, s)\<in>set (tagged_pairs tg). \<forall>q. tag_at ws owner p (td_tags ?db) = Some q \<longrightarrow>
        (n, t_id q) \<notin> (\<lambda>l. (nt_note l, nt_tag l)) ` set (td_links ?db)"
      using dp(2) by (force simp: sql_simps)
    have fr: "fresh gen k (td_tags ?db)" using assms(2) by simp
    have r0: "sync_pairs gen ws owner now (tagged_pairs tg) [] k ?db = Inr (memo, k', db')"
      using run False by (simp add: sync_note_tags_many_in_session_def)
    from sync_pairs_ok [OF wf fr m ok dp(1) free, of now] r0 have r: "tag_wf db'"
      "grows (ws, owner) ((\<lambda>(n, p, s). p) ` set (tagged_pairs tg)) (td_tags ?db) (td_tags db')"
      "\<forall>(n, p, s)\<in>set (tagged_pairs tg). tag_at ws owner p (td_tags db') \<noteq> None"
      "td_links db' = td_links ?db @ map (link_of ws owner (td_tags db')) (tagged_pairs tg)"
      by auto
    then show ?thesis using note_tags_synced [OF wf r] note_tags_delete [of ws owner "\<lambda>n. n \<in> fst ` set tg" db] by simp
  qed
  then show "tag_wf db'" "note_tags ws owner db' = {x \<in> note_tags ws owner db. fst x \<notin> fst ` set tg} \<union> set (tagged_pairs tg)" by blast+
qed

lemma note_tags_rows [simp]: "note_tags ws owner (db\<lparr>td_notes := t\<rparr>) = note_tags ws owner db"
  by (simp add: note_tags_def)

lemma tag_wf_rows [simp]: "tag_wf (db\<lparr>td_notes := t\<rparr>) = tag_wf db"
  by (simp add: tag_wf_def)

text \<open>Generated identifiers: every call has its own, and none is in the table from call \<open>c\<close> on.\<close>

definition gens_ok :: "(nat \<Rightarrow> nat \<Rightarrow> string) \<Rightarrow> nat \<Rightarrow> tag_row list \<Rightarrow> bool" where
  "gens_ok gen c tags \<longleftrightarrow> (\<forall>a. inj (gen a)) \<and> (\<forall>a b. a \<noteq> b \<longrightarrow> range (gen a) \<inter> range (gen b) = {}) \<and>
     (\<forall>a\<ge>c. range (gen a) \<inter> t_id ` set tags = {})"

lemma gens_okD:
  assumes "gens_ok gen c tags"
  shows "inj (gen a)" "a \<noteq> b \<Longrightarrow> range (gen a) \<inter> range (gen b) = {}" "c \<le> a \<Longrightarrow> range (gen a) \<inter> t_id ` set tags = {}"
  using assms unfolding gens_ok_def by blast+

lemma gens_ok_fresh: "gens_ok gen c tags \<Longrightarrow> fresh (gen c) 0 tags"
  using gens_okD(1) [of gen c tags c] gens_okD(3) [of gen c tags c] unfolding fresh_def by blast

lemma gens_ok_Suc:
  assumes g: "gens_ok gen c tags" and s: "t_id ` set tags' \<subseteq> t_id ` set tags \<union> range (gen c)"
  shows "gens_ok gen (Suc c) tags'"
proof -
  have new: "range (gen a) \<inter> t_id ` set tags' = {}" if a: "Suc c \<le> a" for a
  proof -
    have 1: "range (gen a) \<inter> t_id ` set tags = {}" using gens_okD(3) [OF g, of a] a by simp
    have 2: "range (gen a) \<inter> range (gen c) = {}" by (rule gens_okD(2) [OF g]) (use a in simp)
    have "range (gen a) \<inter> t_id ` set tags' \<subseteq> range (gen a) \<inter> (t_id ` set tags \<union> range (gen c))"
      using s by (rule Int_mono [OF subset_refl])
    then show ?thesis unfolding Int_Un_distrib 1 2 by (simp only: Un_empty subset_empty Un_empty_left)
  qed
  show ?thesis unfolding gens_ok_def
  proof (intro conjI allI impI)
    show "inj (gen a)" for a by (rule gens_okD(1) [OF g])
    show "range (gen a) \<inter> range (gen b) = {}" if "a \<noteq> b" for a b using that by (rule gens_okD(2) [OF g])
    show "range (gen a) \<inter> t_id ` set tags' = {}" if "Suc c \<le> a" for a using that by (rule new)
  qed
qed

definition enum_ok :: "(string set \<Rightarrow> string list) \<Rightarrow> bool" where
  "enum_ok enum \<longleftrightarrow> (\<forall>S. finite S \<longrightarrow> set (enum S) = S \<and> distinct (enum S))"

lemma dedup_snoc: "dedup (xs @ [x]) = (if x \<in> set (dedup xs) then dedup xs else dedup xs @ [x])"
  by (simp add: dedup_def)

lemma set_dedup [simp]: "set (dedup xs) = set xs"
  by (induction xs rule: rev_induct) (auto simp: dedup_snoc, simp add: dedup_def)

lemma distinct_dedup [simp]: "distinct (dedup xs)"
  by (induction xs rule: rev_induct) (auto simp: dedup_snoc, simp add: dedup_def)

lemma dedup_distinct: "distinct xs \<Longrightarrow> dedup xs = xs"
  by (induction xs rule: rev_induct) (auto simp: dedup_snoc, simp add: dedup_def)

definition tags_of :: "'g note_env \<Rightarrow> renamed_note \<Rightarrow> (string \<times> string) list" where
  "tags_of env x = tagged (ne_enum env) (ne_parse env) (rt_new_tags x) (rt_new_body x)"

lemma distinct_tagged: "enum_ok enum \<Longrightarrow> distinct (map fst (tagged enum p fm c))"
proof -
  assume "enum_ok enum"
  then have "distinct (enum (extract_inline_tags p c))" by (simp add: enum_ok_def extract_inline_tags_def)
  then show ?thesis by (auto simp: tagged_def comp_def)
qed

lemma rename_tagged_syncable:
  assumes "enum_ok (ne_enum env)" "distinct (map (\<lambda>x. n_id (rt_note x)) xs)"
    and "\<forall>x\<in>set xs. n_id (rt_note x) \<in> n_id ` set (td_notes db) \<and> (\<forall>(p, s)\<in>set (tags_of env x). canonical p)"
  shows "syncable db (rename_tagged env xs)"
  using assms distinct_tagged [OF assms(1)] by (auto simp: syncable_def rename_tagged_def tags_of_def comp_def)

lemma tagged_pairs_append: "tagged_pairs (xs @ ys) = tagged_pairs xs @ tagged_pairs ys"
  by (simp add: tagged_pairs_def)

lemma fst_rename_tagged: "fst ` set (rename_tagged env xs) = (\<lambda>x. n_id (rt_note x)) ` set xs"
  by (simp add: rename_tagged_def image_image)

lemma fst_tagged_pairs: "fst ` set (tagged_pairs tg) \<subseteq> fst ` set tg"
  by (force simp: tagged_pairs_iff)

lemma rename_chunks_tags:
  "rename_chunks env ws owner message c chunks (db, w) = (None, db', w') \<Longrightarrow> tag_wf db \<Longrightarrow> gens_ok (ne_gen env) c (td_tags db) \<Longrightarrow>
     enum_ok (ne_enum env) \<Longrightarrow> distinct (map (\<lambda>x. n_id (rt_note x)) (concat chunks)) \<Longrightarrow>
     \<forall>x\<in>set (concat chunks). n_id (rt_note x) \<in> n_id ` set (td_notes db) \<and> (\<forall>(p, s)\<in>set (tags_of env x). canonical p) \<Longrightarrow>
     tag_wf db' \<and> note_tags ws owner db' = {y \<in> note_tags ws owner db. fst y \<notin> (\<lambda>x. n_id (rt_note x)) ` set (concat chunks)}
       \<union> set (tagged_pairs (rename_tagged env (concat chunks)))"
proof (induction chunks arbitrary: c db w)
  case Nil
  then show ?case by (simp add: tagged_pairs_def rename_tagged_def)
next
  case (Cons xs chunks)
  let ?id = "\<lambda>x. n_id (rt_note x)"
  have dx: "distinct (map ?id xs)" and dc: "distinct (map ?id (concat chunks))" and disj: "?id ` set xs \<inter> ?id ` set (concat chunks) = {}"
    using Cons.prems(5) by simp_all
  obtain items db1 w1 where
    c1: "commit_rows_then_tree (ne_ops env) items message (rename_rows env ws owner c xs) (ne_flush env) (ne_commit env) (db, w) = (None, db1, w1)"
    and rest: "rename_chunks env ws owner message (Suc c) chunks (db1, w1) = (None, db', w')"
    using Cons.prems(1) by (auto split: sum.splits prod.splits option.splits)
  let ?dbr = "db\<lparr>td_notes := map (renamed_row env xs) (td_notes db)\<rparr>"
  obtain memo k' where rows: "td_notes db1 = map (renamed_row env xs) (td_notes db)"
    and sync: "sync_note_tags_many_in_session (ne_gen env c) ws owner (ne_now env) (rename_tagged env xs) 0 ?dbr = Inr (memo, k', db1)"
    by (rule rename_rows_Inr [OF commit_rows_success(1) [OF c1] dx])
  have ids: "n_id ` set (map (renamed_row env xs) (td_notes db)) = n_id ` set (td_notes db)" by (simp add: image_image)
  have fr: "fresh (ne_gen env c) 0 (td_tags ?dbr)" using gens_ok_fresh [OF Cons.prems(3)] by simp
  have sy: "syncable ?dbr (rename_tagged env xs)"
  proof (rule rename_tagged_syncable [OF Cons.prems(4) dx], intro ballI)
    fix x assume "x \<in> set xs"
    then have "x \<in> set (concat (xs # chunks))" by simp
    from bspec [OF Cons.prems(6) this] show "?id x \<in> n_id ` set (td_notes ?dbr) \<and> (\<forall>(p, s)\<in>set (tags_of env x). canonical p)"
      using ids by simp
  qed
  have "tag_wf ?dbr" using Cons.prems(2) by simp
  note one = sync_session_ok [OF this fr sy sync]
  have g: "gens_ok (ne_gen env) (Suc c) (td_tags db1)"
    by (rule gens_ok_Suc [OF Cons.prems(3)]) (use sync_session_ids [OF sync] in simp)
  have all1: "\<forall>x\<in>set (concat chunks). ?id x \<in> n_id ` set (td_notes db1) \<and> (\<forall>(p, s)\<in>set (tags_of env x). canonical p)"
  proof
    fix x assume "x \<in> set (concat chunks)"
    then have "x \<in> set (concat (xs # chunks))" by simp
    from bspec [OF Cons.prems(6) this] show "?id x \<in> n_id ` set (td_notes db1) \<and> (\<forall>(p, s)\<in>set (tags_of env x). canonical p)"
      using ids unfolding rows by simp
  qed
  note ih = Cons.IH [OF rest one(1) g Cons.prems(4) dc all1]
  have nt1: "note_tags ws owner db1 = {y \<in> note_tags ws owner db. fst y \<notin> ?id ` set xs} \<union> set (tagged_pairs (rename_tagged env xs))"
    using one(2) by (simp only: fst_rename_tagged note_tags_rows)
  have keep: "fst y \<notin> ?id ` set (concat chunks)" if "y \<in> set (tagged_pairs (rename_tagged env xs))" for y
    using that fst_tagged_pairs [of "rename_tagged env xs"] disj unfolding fst_rename_tagged by blast
  have "set (tagged_pairs (rename_tagged env (concat (xs # chunks)))) =
      set (tagged_pairs (rename_tagged env xs)) \<union> set (tagged_pairs (rename_tagged env (concat chunks)))"
    by (simp add: rename_tagged_def tagged_pairs_append)
  moreover have "?id ` set (concat (xs # chunks)) = ?id ` set xs \<union> ?id ` set (concat chunks)" by (simp add: image_Un)
  ultimately show ?case using ih keep unfolding nt1 by blast
qed

subsection \<open>Renaming is exact\<close>

lemma stage_renames_notes:
  "stage_renames env old new f ns = Inr (xs, warns) \<Longrightarrow> subseq (map rt_note xs) ns"
proof (induction ns arbitrary: xs warns)
  case (Cons n ns)
  show ?case
  proof (cases "f (row_relative (ne_ws_path env) n)")
    case None
    then show ?thesis using Cons by (auto simp: Let_def split: sum.splits intro: list_emb_Cons)
  next
    case (Some raw)
    then obtain x ys ws where "stage_renames env old new f ns = Inr (ys, ws)" "xs = x # ys \<and> rt_note x = n \<or> xs = ys"
      using Cons.prems by (auto simp: Let_def split: sum.splits prod.splits if_splits)
    then show ?thesis using Cons.IH by (auto intro: list_emb_Cons)
  qed
qed simp

lemma distinct_get_many:
  assumes "distinct ids" "distinct (map n_id t)"
  shows "distinct (map n_id (get_many ids owner t))"
proof -
  have "distinct (map n_id (concat (map (\<lambda>c. filter (\<lambda>n. n_id n \<in> set c \<and> n_owner n = owner) t) bs)))" if "distinct (concat bs)" for bs :: "string list list"
    using that
  proof (induction bs)
    case (Cons b bs)
    have "distinct (map n_id (filter (\<lambda>n. n_id n \<in> set b \<and> n_owner n = owner) t))" using assms(2) by (rule distinct_map_filter)
    then show ?case using Cons by auto
  qed simp
  moreover have "distinct (concat (batched IN_CLAUSE_CHUNK_SIZE ids))" using assms(1) by (simp add: concat_batched IN_CLAUSE_CHUNK_SIZE_def)
  ultimately show ?thesis by (simp add: get_many_def)
qed

lemma get_many_rows: "n \<in> set (get_many ids owner t) \<Longrightarrow> n \<in> set t"
  by (auto simp: get_many_def split: if_splits)

text \<open>The notes a rename stages, and what is asked of the database and of the identifiers.\<close>

definition renames :: "'g note_env \<Rightarrow> string \<Rightarrow> string \<Rightarrow> string \<Rightarrow> string \<Rightarrow> tag_db \<times> 'g ws \<Rightarrow> note_error + renamed_note list \<times> tag_warning list" where
  "renames env ws owner old_n n st =
     stage_renames env old_n n (w_files (snd st)) (get_many (sort (note_ids_for_tags ws owner [old_n] True (fst st))) owner (td_notes (fst st)))"

definition tag_db_ok :: "'g note_env \<Rightarrow> tag_db \<Rightarrow> bool" where
  "tag_db_ok env db \<longleftrightarrow> tag_wf db \<and> distinct (map n_id (td_notes db)) \<and> gens_ok (ne_gen env) 0 (td_tags db) \<and> enum_ok (ne_enum env)"

definition canonical_tags :: "'g note_env \<Rightarrow> renamed_note \<Rightarrow> bool" where
  "canonical_tags env x \<longleftrightarrow> (\<forall>(p, s)\<in>set (tags_of env x). canonical p)"

lemma renames_facts:
  assumes "renames env ws owner old_n n (db, w) = Inr (xs, warns)" "tag_db_ok env db"
  shows "distinct (map (\<lambda>x. n_id (rt_note x)) xs)" "\<forall>x\<in>set xs. rt_note x \<in> set (td_notes db)"
proof -
  let ?ids = "sort (note_ids_for_tags ws owner [old_n] True db)"
  have sub: "subseq (map rt_note xs) (get_many ?ids owner (td_notes db))"
    using assms(1) by (auto simp: renames_def dest: stage_renames_notes)
  have "distinct ?ids" by (simp add: note_ids_for_tags_def Let_def)
  then have "distinct (map n_id (get_many ?ids owner (td_notes db)))"
    using assms(2) by (intro distinct_get_many) (simp_all add: tag_db_ok_def)
  moreover have "subseq (map n_id (map rt_note xs)) (map n_id (get_many ?ids owner (td_notes db)))" by (rule subseq_map [OF sub])
  ultimately have "distinct (map n_id (map rt_note xs))" by (auto simp: subseq_conv_nths intro: distinct_nthsI)
  then show "distinct (map (\<lambda>x. n_id (rt_note x)) xs)" by (simp add: comp_def)
  show "\<forall>x\<in>set xs. rt_note x \<in> set (td_notes db)"
  proof
    fix x assume "x \<in> set xs"
    then have "rt_note x \<in> set (map rt_note xs)" by simp
    with sub obtain y where "y \<in> set (get_many ?ids owner (td_notes db))" "rt_note x = y" by (rule list_emb_set)
    then show "rt_note x \<in> set (td_notes db)" using get_many_rows by blast
  qed
qed

lemma rename_tag_cases:
  assumes "normalize old = Some old_n" "normalize new = Some n" "old_n \<noteq> n" "renames env ws owner old_n n (db, w) = Inr (xs, warns)"
    and "rename_tag env ws owner old new merge (db, w) = (Inr (TagRenamed old_n n k m i warns', idx), db', w')"
  obtains "xs = []" "db' = db" "w' = w" "k = 0" "idx = []"
  | db1 where "xs \<noteq> []" "rename_chunks env ws owner (''tag: rename '' @ old_n @ '' -> '' @ n) 0 (batched MAX_BATCH_COMMIT_SIZE xs) (db, w) = (None, db1, w')"
      "sweep_orphan_tags ws owner db1 = Inr db'" "k = length xs" "idx = map (\<lambda>x. n_id (rt_note x)) (filter body_changed xs)"
proof -
  have 1: "\<not> prefix (old_n @ ''/'') n" using assms(1,2,3,5) by (auto simp: rename_tag_def)
  note u = assms(5) [unfolded rename_tag_def assms(1,2) option.case prod.case if_not_P [OF assms(3)] if_not_P [OF 1] Let_def fst_conv snd_conv]
  have 2: "note_ids_for_tags ws owner [old_n] True db \<noteq> []"
  proof
    assume "note_ids_for_tags ws owner [old_n] True db = []"
    from u [unfolded if_P [OF this]] show False by simp
  qed
  have 3: "\<not> (note_ids_for_tags ws owner [n] True db \<noteq> [] \<and> \<not> merge)"
  proof
    assume "note_ids_for_tags ws owner [n] True db \<noteq> [] \<and> \<not> merge"
    from u [unfolded if_not_P [OF 2] if_P [OF this]] show False by simp
  qed
  have 4: "stage_renames env old_n n (w_files w) (get_many (sort (note_ids_for_tags ws owner [old_n] True db)) owner (td_notes db)) = Inr (xs, warns)"
    using assms(4) by (simp add: renames_def)
  have run: "(if xs = [] then (Inr (TagRenamed old_n n 0 (note_ids_for_tags ws owner [n] True db \<noteq> []) 0 warns, []), db, w)
      else (case rename_chunks env ws owner (''tag: rename '' @ old_n @ '' -> '' @ n) 0 (batched MAX_BATCH_COMMIT_SIZE xs) (db, w) of
          (Some e, st') \<Rightarrow> (Inl e, st')
        | (None, db', w') \<Rightarrow>
            (case sweep_orphan_tags ws owner db' of
               Inl e \<Rightarrow> (Inl (DbError e), db', w')
             | Inr db'' \<Rightarrow>
                 (let rewritten = map (\<lambda>x. n_id (rt_note x)) (filter body_changed xs) in
                  (Inr (TagRenamed old_n n (length xs) (note_ids_for_tags ws owner [n] True db \<noteq> []) (length rewritten) warns, rewritten), db'', w')))))
      = (Inr (TagRenamed old_n n k m i warns', idx), db', w')"
    using u unfolding if_not_P [OF 2] if_not_P [OF 3] 4 sum.case prod.case Let_def .
  show thesis
  proof (cases "xs = []")
    case True
    then show thesis using run that(1) by simp
  next
    case False
    then show thesis using run that(2) by (auto simp: Let_def split: option.splits prod.splits sum.splits)
  qed
qed

lemma rename_tag_rows:
  assumes "normalize old = Some old_n" "normalize new = Some n" "old_n \<noteq> n" "renames env ws owner old_n n (db, w) = Inr (xs, warns)"
    and "tag_db_ok env db" "\<forall>x\<in>set xs. canonical_tags env x"
    and "rename_tag env ws owner old new merge (db, w) = (Inr (TagRenamed old_n n k m i warns', idx), db', w')"
  shows "k = length xs \<and> idx = map (\<lambda>x. n_id (rt_note x)) (filter body_changed xs) \<and>
     td_notes db' = map (renamed_row env xs) (td_notes db) \<and>
     w_files w' = w_files w ++ map_of (rev (rename_files env xs)) \<and>
     note_tags ws owner db' = {y \<in> note_tags ws owner db. \<forall>x\<in>set xs. fst y \<noteq> n_id (rt_note x)} \<union>
       {(n_id (rt_note x), p, s) | x p s. x \<in> set xs \<and> (p, s) \<in> set (tags_of env x)} \<and>
     (xs \<noteq> [] \<longrightarrow> tree_paths ws owner db' = (\<Union>p\<in>carried ws owner db'. set (ancestors p)))"
proof -
  note f = renames_facts [OF assms(4,5)]
  have pairs: "set (tagged_pairs (rename_tagged env xs)) = {(n_id (rt_note x), p, s) | x p s. x \<in> set xs \<and> (p, s) \<in> set (tags_of env x)}"
    by (force simp: tagged_pairs_iff rename_tagged_def tags_of_def)
  from assms(1-4,7) show ?thesis
  proof (rule rename_tag_cases)
    assume "xs = []" "db' = db" "w' = w" "k = 0" "idx = []"
    then show ?thesis by (simp add: renamed_row_Nil rename_files_def)
  next
    fix db1
    assume ne: "xs \<noteq> []" and k: "k = length xs" "idx = map (\<lambda>x. n_id (rt_note x)) (filter body_changed xs)"
      and run: "rename_chunks env ws owner (''tag: rename '' @ old_n @ '' -> '' @ n) 0 (batched MAX_BATCH_COMMIT_SIZE xs) (db, w) = (None, db1, w')"
      and sw: "sweep_orphan_tags ws owner db1 = Inr db'"
    have cc: "concat (batched MAX_BATCH_COMMIT_SIZE xs) = xs" by (rule concat_batched) (simp add: MAX_BATCH_COMMIT_SIZE_def)
    have rows: "td_notes db1 = map (renamed_row env xs) (td_notes db)" "w_files w' = w_files w ++ map_of (rev (rename_files env xs))"
      using rename_chunks_rows [OF run] f(1) by (simp_all add: cc)
    have wf: "tag_wf db" "gens_ok (ne_gen env) 0 (td_tags db)" "enum_ok (ne_enum env)" using assms(5) by (simp_all add: tag_db_ok_def)
    have all: "\<forall>x\<in>set xs. n_id (rt_note x) \<in> n_id ` set (td_notes db) \<and> (\<forall>(p, s)\<in>set (tags_of env x). canonical p)"
      using f(2) assms(6) by (simp add: canonical_tags_def)
    have tags: "tag_wf db1" "note_tags ws owner db1 = {y \<in> note_tags ws owner db. fst y \<notin> (\<lambda>x. n_id (rt_note x)) ` set xs} \<union>
        set (tagged_pairs (rename_tagged env xs))"
      using rename_chunks_tags [OF run wf, unfolded cc, OF f(1) all] by blast+
    have db': "db' = swept ws owner db1" using sweep_ok [OF tags(1), of ws owner] sw by simp
    have nt: "note_tags ws owner db' = note_tags ws owner db1" unfolding db' by (rule note_tags_swept [OF tags(1)])
    have "tree_paths ws owner db' = (\<Union>p\<in>carried ws owner db'. set (ancestors p))"
      using tree_paths_swept [OF tags(1)] nt unfolding db' by (simp add: carried_note_tags)
    moreover have "note_tags ws owner db' = {y \<in> note_tags ws owner db. \<forall>x\<in>set xs. fst y \<noteq> n_id (rt_note x)} \<union>
       {(n_id (rt_note x), p, s) | x p s. x \<in> set xs \<and> (p, s) \<in> set (tags_of env x)}"
      unfolding nt tags(2) pairs by auto
    moreover have "td_notes db' = td_notes db1" by (simp add: db' swept_def)
    ultimately show ?thesis using k rows by simp
  qed
qed



subsection \<open>Renaming and the temporal fields\<close>

lemma parse_dropped:
  assumes "parse_frontmatter md content = Inr (m, c)"
  shows "(''occurred_at'' \<in> set (nf_temporal_dropped m) \<longrightarrow> nf_occurred_at m = None) \<and> (''period'' \<in> set (nf_temporal_dropped m) \<longrightarrow> nf_period m = None)"
  using assms unfolding parse_frontmatter_def
  by (auto simp: parse_temporal_soft_eq Let_def dest!: mk_frontmatter_id split: prod.splits sum.splits meta_error.splits)

lemma stage_renames_read:
  "stage_renames env old new f ns = Inr (xs, warns) \<Longrightarrow> x \<in> set xs \<Longrightarrow> \<exists>raw c r. read_note_file_raw (ne_loads env) raw = Inr (rt_meta x, c, r)"
proof (induction ns arbitrary: xs warns)
  case (Cons n ns)
  show ?case
  proof (cases "f (row_relative (ne_ws_path env) n)")
    case None
    then show ?thesis using Cons by (auto simp: Let_def split: sum.splits)
  next
    case (Some raw)
    then obtain m ys ws c r where 1: "stage_renames env old new f ns = Inr (ys, ws)"
      "read_note_file_raw (ne_loads env) raw = Inr (m, c, r)" "(\<exists>y. xs = y # ys \<and> rt_meta y = m) \<or> xs = ys"
      using Cons.prems(1) by (auto simp: Let_def split: sum.splits prod.splits if_splits)
    show ?thesis
    proof (cases "x \<in> set ys")
      case True
      then show ?thesis by (rule Cons.IH [OF 1(1)])
    next
      case False
      then have "rt_meta x = m" using 1(3) Cons.prems(2) by auto
      then show ?thesis using 1(2) by blast
    qed
  qed
qed simp

lemma read_dropped:
  "read_note_file_raw loads raw = Inr (m, c, r) \<Longrightarrow> ''period'' \<in> set (nf_temporal_dropped m) \<Longrightarrow> nf_period m = None"
  using parse_dropped by (auto simp: read_note_file_raw_def split: prod.splits sum.splits)


subsection \<open>Witnesses\<close>

definition ex_tag_gen :: "nat \<Rightarrow> nat \<Rightarrow> string" where
  "ex_tag_gen a k = replicate a CHR ''x'' @ ''-'' @ replicate k CHR ''y''"

definition ex_tag_env :: "idx_git note_env" where
  "ex_tag_env = \<lparr>ne_ws_path = ''/w'', ne_loads = (\<lambda>_. ([(YStr ''tags'', YList [YStr ''old'']), (YStr ''period'', YStr ''soon'')], ''x'')),
     ne_dumps = (\<lambda>_ _. ''text''), ne_parse = (\<lambda>_. []), ne_enum = sorted_list_of_set, ne_now = ''now'', ne_gen = ex_tag_gen, ne_ops = idx_ops,
     ne_walker = (\<lambda>_. ([], None)), ne_flush = (\<lambda>_. None), ne_commit = (\<lambda>_. None), ne_write = (\<lambda>_. None)\<rparr>"

definition ex_tag_rows :: tag_db where
  "ex_tag_rows = ex_tag_db\<lparr>td_notes := [(ex_tag_note ''n'')\<lparr>n_period := Some ''2026-W01''\<rparr>]\<rparr>"

definition ex_tag_ws :: "idx_git ws" where
  "ex_tag_ws = ex_ws\<lparr>w_files := [''n.md'' \<mapsto> ''raw''], w_git := (w_git ex_ws)\<lparr>gi_locked := False\<rparr>\<rparr>"

lemma ex_gens_ok: "gens_ok ex_tag_gen 0 (td_tags ex_tag_rows)"
proof -
  have tw: "takeWhile ((=) CHR ''x'') (ex_tag_gen a k) = replicate a CHR ''x''" for a k
    by (induction a) (simp_all add: ex_tag_gen_def)
  have 1: "a = b" if "ex_tag_gen a k = ex_tag_gen b j" for a b k j
    using arg_cong [OF that, of "\<lambda>s. length (takeWhile ((=) CHR ''x'') s)"] by (simp add: tw)
  have 2: "k = j" if "ex_tag_gen a k = ex_tag_gen a j" for a k j
    using arg_cong [OF that, of length] by (simp add: ex_tag_gen_def)
  have 3: "''t'' \<noteq> ex_tag_gen a k" for a k by (cases a) (simp_all add: ex_tag_gen_def)
  have "t_id ` set (td_tags ex_tag_rows) = {''t''}" by (simp add: ex_tag_rows_def ex_tag_db_def new_tag_def)
  moreover have "inj (ex_tag_gen a)" for a using 2 by (rule injI)
  moreover have "range (ex_tag_gen a) \<inter> range (ex_tag_gen b) = {}" if "a \<noteq> b" for a b using that 1 [of a _ b] by blast
  moreover have "range (ex_tag_gen a) \<inter> {''t''} = {}" for a using 3 [of a] by auto
  ultimately show ?thesis by (simp add: gens_ok_def)
qed

lemma ex_tag_db_ok: "tag_db_ok ex_tag_env ex_tag_rows"
proof -
  have "tag_wf ex_tag_rows" using ex_tag_wf by (simp add: ex_tag_rows_def ex_tag_db_def tag_wf_def ex_tag_note_def)
  moreover have "enum_ok sorted_list_of_set" by (simp add: enum_ok_def)
  ultimately show ?thesis using ex_gens_ok by (simp add: tag_db_ok_def ex_tag_env_def ex_tag_rows_def)
qed

definition ex_renamed :: renamed_note where
  "ex_renamed = \<lparr>rt_note = (ex_tag_note ''n'')\<lparr>n_period := Some ''2026-W01''\<rparr>, rt_rel = ''n.md'',
     rt_meta = fst (projr (parse_frontmatter (fst (ne_loads ex_tag_env [])) ''x'')), rt_new_tags = [''new''], rt_new_body = ''x'', rt_old_body = ''x'', rt_raw = ''raw''\<rparr>"

lemma ex_renames: "renames ex_tag_env ''w'' ''u'' ''old'' ''new'' (ex_tag_rows, ex_tag_ws) = Inr ([ex_renamed], [])"
  by code_simp

lemma ex_canonical_tags: "canonical_tags ex_tag_env ex_renamed"
  by code_simp

lemma ex_rename_run:
  "\<exists>db' w'. rename_tag ex_tag_env ''w'' ''u'' ''old'' ''new'' False (ex_tag_rows, ex_tag_ws) = (Inr (TagRenamed ''old'' ''new'' 1 False 0 [], []), db', w')"
proof -
  have "fst (rename_tag ex_tag_env ''w'' ''u'' ''old'' ''new'' False (ex_tag_rows, ex_tag_ws)) = Inr (TagRenamed ''old'' ''new'' 1 False 0 [], [])"
    by code_simp
  then show ?thesis by (metis prod.collapse)
qed

lemma ex_norm: "normalize ''old'' = Some ''old''" "normalize ''new'' = Some ''new''" by code_simp+

lemma ex_tags_of: "set (tags_of ex_tag_env ex_renamed) = {(''new'', ''frontmatter'')}" by code_simp




end
