(* ===== verification/Note_Create.thy ===== *)
theory Note_Create
  imports Tag_Service Link_Reconcile
begin

section \<open>Creating notes\<close>

text \<open>
  Models \<open>services/notes/paths.py\<close> (which note claims a path) and \<open>services/notes/create.py\<close> (\<open>save\<close> and
  \<open>save_many\<close>) over the rows, the tag rows, the link graph, the dirty set, the job queue and the working tree
  of one workspace. Generated identifiers, the clock, the parser, the serializer and the faults of the operating
  system and the database are fields of the environment. A call also returns the notes it hands to the indexer.
  The lock of the transaction is modelled in \<open>Workspace_Lock\<close>.
\<close>

subsection \<open>Claims on paths\<close>

definition path_conflict_key :: "string \<Rightarrow> string" where
  "path_conflict_key filepath = py_casefold filepath"

definition indexed_key :: "string \<Rightarrow> indexed_note \<Rightarrow> string" where
  "indexed_key ws_path n = path_conflict_key (note_filepath ws_path (in_folder n) (in_title n))"

definition note_path_conflict :: "indexed_note list \<Rightarrow> string \<Rightarrow> string \<Rightarrow> string \<Rightarrow> string option \<Rightarrow> indexed_note option" where
  "note_path_conflict paths ws_path folder title exclude_id =
     find (\<lambda>n. Some (in_note_id n) \<noteq> exclude_id \<and> indexed_key ws_path n = path_conflict_key (note_filepath ws_path folder title)) paths"

definition build_path_index :: "indexed_note list \<Rightarrow> string \<Rightarrow> string \<rightharpoonup> indexed_note" where
  "build_path_index paths ws_path = foldl (\<lambda>m n. m(indexed_key ws_path n \<mapsto> n)) (\<lambda>_. None) paths"

fun group_add :: "string \<Rightarrow> 'a \<Rightarrow> (string \<times> 'a list) list \<Rightarrow> (string \<times> 'a list) list" where
  "group_add k x [] = [(k, [x])]"
| "group_add k x ((j, xs) # gs) = (if j = k then (j, xs @ [x]) # gs else (j, xs) # group_add k x gs)"

definition find_path_collisions :: "indexed_note list \<Rightarrow> string \<Rightarrow> (string \<times> indexed_note list) list" where
  "find_path_collisions paths ws_path =
     filter (\<lambda>(k, ns). 1 < length ns) (foldl (\<lambda>gs n. group_add (indexed_key ws_path n) n gs) [] paths)"

subsection \<open>Drafts\<close>

record new_note =
  nn_title :: string
  nn_content :: string
  nn_tags :: "string list"
  nn_folder :: string
  nn_occurred_at :: yaml
  nn_period :: yaml
  nn_extras :: metadata

text \<open>What an item can be refused with; \<open>PathClaimed\<close> carries title, path and the note that has it.\<close>

datatype item_error = BlankTitle | DuplicateInBatch string string | BadFolder | BadMeta meta_error
  | PathClaimed string string indexed_note | FileOnDisk string | BrokenLinks "string list"

record note_draft =
  dn_id :: string
  dn_title :: string
  dn_content :: string
  dn_tags :: "string list"
  dn_folder :: string
  dn_occurred_at :: "string option"
  dn_period :: "string option"
  dn_created_at :: string
  dn_meta :: note_frontmatter
  dn_filepath :: string
  dn_relative :: string

definition draft_meta :: "string \<Rightarrow> string \<Rightarrow> new_note \<Rightarrow> string list \<Rightarrow> string option \<Rightarrow> string option \<Rightarrow> note_frontmatter" where
  "draft_meta note_id now x tags occurred_at period =
     \<lparr>nf_id = YStr note_id, nf_title = YStr (nn_title x), nf_tags = map YStr tags, nf_created_at = YStr now, nf_updated_at = YStr now,
      nf_occurred_at = occurred_at, nf_period = period, nf_extras = nn_extras x, nf_temporal_dropped = []\<rparr>"

definition build_draft :: "string \<Rightarrow> string \<Rightarrow> string \<Rightarrow> new_note \<Rightarrow> item_error + note_draft" where
  "build_draft ws_path now note_id x =
     (case normalize_folder (nn_folder x) of
        Inl e \<Rightarrow> Inl BadFolder
      | Inr folder \<Rightarrow>
          (case normalize_temporal_metadata (nn_occurred_at x) (nn_period x) of
             Inl e \<Rightarrow> Inl (BadMeta e)
           | Inr (occurred_at, period) \<Rightarrow>
               (let tags = normalize_tags (nn_tags x) in
                case mk_frontmatter (draft_meta note_id now x tags occurred_at period) of
                  Inl e \<Rightarrow> Inl (BadMeta e)
                | Inr meta \<Rightarrow>
                    Inr \<lparr>dn_id = note_id, dn_title = nn_title x, dn_content = nn_content x, dn_tags = tags, dn_folder = folder,
                      dn_occurred_at = occurred_at, dn_period = period, dn_created_at = now, dn_meta = meta,
                      dn_filepath = note_filepath ws_path folder (nn_title x),
                      dn_relative = note_relative ws_path folder (nn_title x)\<rparr>)))"

definition path_key :: "note_draft \<Rightarrow> string" where
  "path_key d = path_conflict_key (dn_filepath d)"

definition draft_indexed :: "note_draft \<Rightarrow> indexed_note" where
  "draft_indexed d = \<lparr>in_note_id = dn_id d, in_folder = dn_folder d, in_title = dn_title d\<rparr>"

text \<open>\<open>None\<close> when the path is free. Directories are not part of the tree of the model.\<close>

definition ensure_path_free :: "indexed_note option \<Rightarrow> fs \<Rightarrow> note_draft \<Rightarrow> item_error option" where
  "ensure_path_free conflict f d =
     (case conflict of
        Some n \<Rightarrow> Some (PathClaimed (dn_title d) (dn_filepath d) n)
      | None \<Rightarrow> if f (dn_relative d) \<noteq> None then Some (FileOnDisk (dn_filepath d)) else None)"

definition new_note_row :: "string \<Rightarrow> string \<Rightarrow> note_draft \<Rightarrow> note_row" where
  "new_note_row workspace owner_id d =
     \<lparr>n_id = dn_id d, n_workspace = workspace, n_owner = owner_id, n_title = dn_title d, n_folder = dn_folder d,
      n_tags = Some (dn_tags d), n_created_at = dn_created_at d, n_updated_at = dn_created_at d, n_occurred_at = dn_occurred_at d,
      n_period = dn_period d, n_index_generation = 1, n_index_state = ''stale'', n_indexed_at = None\<rparr>"

subsection \<open>The state\<close>

record note_db =
  nd_rows :: tag_db
  nd_links :: link_db
  nd_dirty :: "dirty_row list"
  nd_jobs :: "job list"

text \<open>\<open>ce_reconcile\<close> is the identifier of the job and the clock, or \<^const>\<open>None\<close> without a reconcile repository.\<close>

record 'g create_env = "'g note_env" +
  ce_ids :: "nat \<Rightarrow> string"
  ce_link_gens :: "string \<Rightarrow> string list"
  ce_validated :: bool
  ce_dangling :: bool
  ce_reconcile :: "(string \<times> epoch) option"

datatype note_create_error = Rejected item_error | CreateWrite exn | CreateDb db_error

definition staged_draft :: "'g create_env \<Rightarrow> note_draft \<Rightarrow> staged_change" where
  "staged_draft env d =
     \<lparr>sc_add = Some (dn_relative d), sc_remove = None,
      sc_apply = write_apply (dn_relative d) (written_text (ne_dumps env) (dn_meta d) (dn_content d)) (ne_write env (dn_relative d)),
      sc_known_bytes = None, sc_pure_rename = False\<rparr>"

subsection \<open>Writing drafts\<close>

fun insert_rows :: "note_row list \<Rightarrow> note_row list \<Rightarrow> db_error + note_row list" where
  "insert_rows [] t = Inr t"
| "insert_rows (r # rs) t = (case insert_note r t of Inl e \<Rightarrow> Inl e | Inr t' \<Rightarrow> insert_rows rs t')"

definition create_rows :: "string \<Rightarrow> string \<Rightarrow> note_draft list \<Rightarrow> note_db \<Rightarrow> exn + note_db" where
  "create_rows ws_name owner_id ds db =
     (case insert_rows (map (new_note_row ws_name owner_id) ds) (td_notes (nd_rows db)) of
        Inl e \<Rightarrow> Inl (ExnOther ''IntegrityError'')
      | Inr t \<Rightarrow> Inr (db\<lparr>nd_rows := (nd_rows db)\<lparr>td_notes := t\<rparr>\<rparr>))"

text \<open>The loop of \<open>sync_tags\<close>: every call is a transaction of its own.\<close>

fun sync_drafts :: "'g create_env \<Rightarrow> string \<Rightarrow> string \<Rightarrow> nat \<Rightarrow> note_draft list \<Rightarrow> tag_db \<Rightarrow> db_error option \<times> tag_db" where
  "sync_drafts env ws_name owner_id c [] db = (None, db)"
| "sync_drafts env ws_name owner_id c (d # ds) db =
     (case sync_note_tags (ne_gen env c) ws_name owner_id (ne_now env) (dn_id d)
        (tagged (ne_enum env) (ne_parse env) (dn_tags d) (dn_content d)) 0 db of
        Inl e \<Rightarrow> (Some e, db)
      | Inr db' \<Rightarrow> sync_drafts env ws_name owner_id (Suc c) ds db')"

definition write_drafts ::
  "'g create_env \<Rightarrow> string \<Rightarrow> string \<Rightarrow> indexed_note list \<Rightarrow> (note_draft \<times> link_resolution) list \<Rightarrow> string \<Rightarrow> note_db \<times> 'g ws \<Rightarrow>
     note_create_error option \<times> note_db \<times> 'g ws" where
  "write_drafts env ws_name owner_id paths prepared message st =
     (let ds = map fst prepared;
          affected = affected_sources ws_name owner_id (ce_dangling env) paths (remdups (map dn_title ds)) [] (nd_links (fst st))
      in case commit_rows_then_tree (ne_ops env) (map (staged_draft env) ds) message (create_rows ws_name owner_id ds)
           (\<lambda>db. ne_flush env (nd_rows db)) (\<lambda>db. ne_commit env (nd_rows db)) st of
           (Some e, st') \<Rightarrow> (Some (CreateWrite e), st')
         | (None, db1, w1) \<Rightarrow>
             (let db2 = db1\<lparr>nd_links := persist_many (ce_link_gens env) ws_name owner_id (ne_now env) (ce_dangling env)
                    (map (\<lambda>(d, links). (dn_id d, links)) prepared) [] (nd_links db1)\<rparr>
              in case sync_drafts env ws_name owner_id 0 ds (nd_rows db2) of
                   (Some e, rows) \<Rightarrow> (Some (CreateDb e), db2\<lparr>nd_rows := rows\<rparr>, w1)
                 | (None, rows) \<Rightarrow>
                     (let db3 = db2\<lparr>nd_rows := rows\<rparr> in
                      case ce_reconcile env of
                        None \<Rightarrow> (None, db3, w1)
                      | Some (jid, clock) \<Rightarrow>
                          (case mark_and_enqueue jid clock owner_id ws_name affected (nd_dirty db3, nd_jobs db3) of
                             Inl e \<Rightarrow> (Some (CreateDb e), db3, w1)
                           | Inr (_, dirty, jobs) \<Rightarrow> (None, db3\<lparr>nd_dirty := dirty, nd_jobs := jobs\<rparr>, w1)))))"

text \<open>The lookup behind \<open>for_workspace(...).validate\<close>.\<close>

definition found_notes :: "string \<Rightarrow> note_db \<Rightarrow> string list \<Rightarrow> string list" where
  "found_notes owner_id db ids = map n_id (get_many ids owner_id (td_notes (nd_rows db)))"

definition workspace_paths :: "string \<Rightarrow> string \<Rightarrow> note_db \<Rightarrow> indexed_note list" where
  "workspace_paths ws_name owner_id db = list_paths ws_name owner_id (td_notes (nd_rows db))"

record saved_note =
  sn_note_id :: string
  sn_warnings :: "wikilink_warning list"
  sn_occurred_at :: "string option"
  sn_period :: "string option"

definition save :: "'g create_env \<Rightarrow> string \<Rightarrow> string \<Rightarrow> new_note \<Rightarrow> note_db \<times> 'g ws \<Rightarrow> (note_create_error + saved_note) \<times> note_db \<times> 'g ws" where
  "save env ws_name owner_id x st =
     (case build_draft (ne_ws_path env) (ne_now env) (ce_ids env 0) x of
        Inl e \<Rightarrow> (Inl (Rejected e), st)
      | Inr d \<Rightarrow>
          (let paths = workspace_paths ws_name owner_id (fst st) in
           case ensure_path_free (note_path_conflict paths (ne_ws_path env) (dn_folder d) (dn_title d) None) (w_files (snd st)) d of
             Some e \<Rightarrow> (Inl (Rejected e), st)
           | None \<Rightarrow>
               (case validate_wikilinks (ne_parse env) (found_notes owner_id (fst st)) (ce_validated env) (mk_index paths) (nn_content x) (dn_folder d) of
                  Inl (BrokenWikilinkError ts) \<Rightarrow> (Inl (Rejected (BrokenLinks ts)), st)
                | Inr links \<Rightarrow>
                    (case write_drafts env ws_name owner_id paths [(d, links)] (''note: add '' @ nn_title x) st of
                       (Some e, st') \<Rightarrow> (Inl e, st')
                     | (None, st') \<Rightarrow>
                         (Inr \<lparr>sn_note_id = dn_id d, sn_warnings = wikilink_warnings links, sn_occurred_at = dn_occurred_at d,
                            sn_period = dn_period d\<rparr>, st')))))"

subsection \<open>Batches\<close>

definition admit_batch_item ::
  "string \<Rightarrow> string \<Rightarrow> string \<Rightarrow> fs \<Rightarrow> (string \<times> string) list \<Rightarrow> (string \<rightharpoonup> indexed_note) \<Rightarrow> new_note \<Rightarrow> item_error + note_draft" where
  "admit_batch_item note_id ws_path now f accepted path_index x =
     (let title = py_strip (nn_title x) in
      if title = [] then Inl BlankTitle
      else (case build_draft ws_path now note_id (x\<lparr>nn_title := title\<rparr>) of
          Inl e \<Rightarrow> Inl e
        | Inr d \<Rightarrow>
            if (dn_folder d, title) \<in> set accepted then Inl (DuplicateInBatch title (dn_folder d))
            else (case ensure_path_free (path_index (path_key d)) f d of Some e \<Rightarrow> Inl e | None \<Rightarrow> Inr d)))"

text \<open>\<open>_ITEM_REJECTIONS\<close>: everything else ends the call.\<close>

definition item_rejection :: "item_error \<Rightarrow> bool" where
  "item_rejection e \<longleftrightarrow> e \<noteq> BadMeta MetaValueError"

fun admit_all ::
  "(nat \<Rightarrow> string) \<Rightarrow> string \<Rightarrow> string \<Rightarrow> fs \<Rightarrow> nat \<Rightarrow> new_note list \<Rightarrow> (string \<times> string) list \<Rightarrow> (string \<rightharpoonup> indexed_note) \<Rightarrow>
     item_error + (nat \<times> item_error) list \<times> (nat \<times> note_draft) list" where
  "admit_all ids ws_path now f i [] accepted path_index = Inr ([], [])"
| "admit_all ids ws_path now f i (x # xs) accepted path_index =
     (case admit_batch_item (ids i) ws_path now f accepted path_index x of
        Inl e \<Rightarrow>
          if item_rejection e
          then (case admit_all ids ws_path now f (Suc i) xs accepted path_index of
              Inl e' \<Rightarrow> Inl e' | Inr (errs, ds) \<Rightarrow> Inr ((i, e) # errs, ds))
          else Inl e
      | Inr d \<Rightarrow>
          (case admit_all ids ws_path now f (Suc i) xs ((dn_folder d, dn_title d) # accepted) (path_index(path_key d \<mapsto> draft_indexed d)) of
             Inl e' \<Rightarrow> Inl e' | Inr (errs, ds) \<Rightarrow> Inr (errs, (i, d) # ds)))"

fun validate_drafts ::
  "(string \<Rightarrow> string \<Rightarrow> link_error + link_resolution) \<Rightarrow> (nat \<times> note_draft) list \<Rightarrow>
     (nat \<times> item_error) list \<times> (nat \<times> note_draft \<times> link_resolution) list" where
  "validate_drafts validate [] = ([], [])"
| "validate_drafts validate ((i, d) # ds) =
     (let (errs, valid) = validate_drafts validate ds in
      case validate (dn_content d) (dn_folder d) of
        Inl (BrokenWikilinkError ts) \<Rightarrow> ((i, BrokenLinks ts) # errs, valid)
      | Inr links \<Rightarrow> (errs, (i, d, links) # valid))"

datatype batch_result = NoteCreated nat string "wikilink_warning list" | NoteRejected nat item_error

fun result_index :: "batch_result \<Rightarrow> nat" where
  "result_index (NoteCreated i _ _) = i"
| "result_index (NoteRejected i _) = i"

text \<open>The list \<open>results\<close>, one slot per note, without the slots that stayed \<^const>\<open>None\<close>.\<close>

definition batch_results :: "nat \<Rightarrow> batch_result list \<Rightarrow> batch_result list" where
  "batch_results n rs = List.map_filter (\<lambda>i. find (\<lambda>r. result_index r = i) rs) [0..<n]"

fun nat_text :: "nat \<Rightarrow> string" where
  "nat_text n = (if n < 10 then [char_of (48 + n)] else nat_text (n div 10) @ [char_of (48 + n mod 10)])"

declare nat_text.simps [simp del]

definition add_message :: "nat \<Rightarrow> string" where
  "add_message n = ''note: add '' @ nat_text n @ '' note'' @ (if n = 1 then [] else ''s'')"

definition save_many ::
  "'g create_env \<Rightarrow> string \<Rightarrow> string \<Rightarrow> new_note list \<Rightarrow> note_db \<times> 'g ws \<Rightarrow>
     (note_create_error + batch_result list \<times> string list) \<times> note_db \<times> 'g ws" where
  "save_many env ws_name owner_id xs st =
     (let base = workspace_paths ws_name owner_id (fst st) in
      case admit_all (ce_ids env) (ne_ws_path env) (ne_now env) (w_files (snd st)) 0 xs [] (build_path_index base (ne_ws_path env)) of
        Inl e \<Rightarrow> (Inl (Rejected e), st)
      | Inr (errs, ds) \<Rightarrow>
          (let paths = base @ map (draft_indexed \<circ> snd) ds;
               (broken, valid) = validate_drafts
                 (validate_wikilinks (ne_parse env) (found_notes owner_id (fst st)) (ce_validated env) (mk_index paths)) ds;
               rejected = map (\<lambda>(i, e). NoteRejected i e) (errs @ broken)
           in if valid = [] then (Inr (batch_results (length xs) rejected, []), st)
              else (case write_drafts env ws_name owner_id paths (map snd valid) (add_message (length valid)) st of
                  (Some e, st') \<Rightarrow> (Inl e, st')
                | (None, st') \<Rightarrow>
                    (Inr (batch_results (length xs) (rejected @ map (\<lambda>(i, d, links). NoteCreated i (dn_id d) (wikilink_warnings links)) valid),
                       map (\<lambda>(i, d, links). dn_id d) valid), st'))))"

subsection \<open>Paths of drafts\<close>

definition draft_ok :: "string \<Rightarrow> note_draft \<Rightarrow> bool" where
  "draft_ok ws_path d \<longleftrightarrow> dn_filepath d = note_filepath ws_path (dn_folder d) (dn_title d) \<and>
     dn_relative d = note_relative ws_path (dn_folder d) (dn_title d) \<and> (\<exists>raw. normalize_folder raw = Inr (dn_folder d))"

lemma build_draft_Inr:
  assumes "build_draft ws_path now note_id x = Inr d"
  shows "draft_ok ws_path d" "dn_id d = note_id" "dn_title d = nn_title x" "dn_content d = nn_content x"
    "dn_meta d = draft_meta note_id now x (dn_tags d) (dn_occurred_at d) (dn_period d)" "dn_created_at d = now"
proof -
  obtain f o' p m where f: "normalize_folder (nn_folder x) = Inr f"
    and m: "mk_frontmatter (draft_meta note_id now x (normalize_tags (nn_tags x)) o' p) = Inr m"
    and d: "d = \<lparr>dn_id = note_id, dn_title = nn_title x, dn_content = nn_content x, dn_tags = normalize_tags (nn_tags x), dn_folder = f,
        dn_occurred_at = o', dn_period = p, dn_created_at = now, dn_meta = m, dn_filepath = note_filepath ws_path f (nn_title x),
        dn_relative = note_relative ws_path f (nn_title x)\<rparr>"
    using assms by (auto simp: build_draft_def Let_def split: sum.splits)
  show "draft_ok ws_path d" using f by (auto simp: draft_ok_def d)
  show "dn_meta d = draft_meta note_id now x (dn_tags d) (dn_occurred_at d) (dn_period d)" using mk_frontmatter_id [OF m] by (simp add: d)
qed (use assms in \<open>auto simp: build_draft_def Let_def split: sum.splits\<close>)

lemma relative_eq:
  assumes "normalize_folder raw = Inr f"
  shows "note_relative ws_path f t = join ''/'' (path_segments f @ [title_to_windows_filename t @ ''.md''])"
  by (simp add: note_relative_def relative_parts_def note_path_eq [OF assms])

lemma plain_segments:
  assumes "normalize_folder raw = Inr f"
  shows "\<forall>s\<in>set (path_segments f @ [title_to_windows_filename t @ ''.md'']). s \<noteq> [] \<and> CHR ''/'' \<notin> set s"
proof -
  have "plain_segment s" if "s \<in> set (path_segments f @ [title_to_windows_filename t @ ''.md''])" for s
    using normalize_folder_Inr(1) [OF assms] filename_plain filename_md_plain that by auto
  then show ?thesis by (auto simp: plain_segment_def)
qed

lemma relative_filepath:
  assumes "draft_ok ws_path d" "draft_ok ws_path e" "dn_relative d = dn_relative e"
  shows "dn_filepath d = dn_filepath e"
proof -
  obtain r r' where r: "normalize_folder r = Inr (dn_folder d)" "normalize_folder r' = Inr (dn_folder e)"
    using assms(1,2) by (auto simp: draft_ok_def)
  let ?segs = "\<lambda>x. path_segments (dn_folder x) @ [title_to_windows_filename (dn_title x) @ ''.md'']"
  have rel: "dn_relative d = join ''/'' (?segs d)" "dn_relative e = join ''/'' (?segs e)"
    using assms(1,2) relative_eq [OF r(1)] relative_eq [OF r(2)] by (simp_all add: draft_ok_def)
  have "?segs d = path_segments (join ''/'' (?segs d))" using path_segments_join [OF plain_segments [OF r(1)]] by simp
  also have "\<dots> = path_segments (join ''/'' (?segs e))" using assms(3) unfolding rel by (rule arg_cong)
  also have "\<dots> = ?segs e" using path_segments_join [OF plain_segments [OF r(2)]] by simp
  finally show ?thesis using assms(1,2) by (simp add: draft_ok_def note_filepath_def)
qed

lemma relative_ne: "draft_ok ws_path d \<Longrightarrow> dn_relative d \<noteq> []"
  unfolding draft_ok_def using relative_eq join_eq_Nil [OF ballI, of _ "''/''"] plain_segments
  by (metis Nil_is_append_conv join_eq_Nil list.discI)

lemma distinct_relative:
  assumes "\<forall>d\<in>set ds. draft_ok ws_path d" "distinct (map path_key ds)"
  shows "distinct (map dn_relative ds)"
  using assms
proof (induction ds)
  case (Cons d ds)
  have "dn_relative d \<noteq> dn_relative e" if "e \<in> set ds" for e
  proof
    assume "dn_relative d = dn_relative e"
    then have "dn_filepath d = dn_filepath e" using Cons.prems(1) that by (intro relative_filepath [of ws_path]) auto
    then have "path_key d = path_key e" by (simp add: path_key_def)
    then show False using Cons.prems(2) that by (metis distinct.simps(2) image_eqI list.set_map list.simps(9))
  qed
  then show ?case using Cons by auto
qed simp

definition paths_unique :: "string \<Rightarrow> string \<Rightarrow> string \<Rightarrow> note_db \<Rightarrow> bool" where
  "paths_unique ws_path ws_name owner_id db \<longleftrightarrow> distinct (map (indexed_key ws_path) (workspace_paths ws_name owner_id db))"

lemma indexed_key_draft: "draft_ok ws_path d \<Longrightarrow> indexed_key ws_path (draft_indexed d) = path_key d"
  by (simp add: indexed_key_def draft_indexed_def path_key_def draft_ok_def)

lemma dom_path_index: "dom (build_path_index paths ws_path) = indexed_key ws_path ` set paths"
  unfolding build_path_index_def by (induction paths rule: rev_induct) (auto simp: dom_def split: if_splits)

lemma workspace_paths_rows:
  "td_notes (nd_rows db') = td_notes (nd_rows db) @ map (new_note_row ws_name owner_id) ds \<Longrightarrow>
     workspace_paths ws_name owner_id db' = workspace_paths ws_name owner_id db @ map draft_indexed ds"
  by (simp add: workspace_paths_def list_paths_def in_scope_def new_note_row_def draft_indexed_def filter_map comp_def)

lemma paths_unique_rows:
  assumes "paths_unique ws_path ws_name owner_id db"
    and "td_notes (nd_rows db') = td_notes (nd_rows db) @ map (new_note_row ws_name owner_id) ds"
    and "\<forall>d\<in>set ds. draft_ok ws_path d \<and> path_key d \<notin> indexed_key ws_path ` set (workspace_paths ws_name owner_id db)"
    and "distinct (map path_key ds)"
  shows "paths_unique ws_path ws_name owner_id db'"
proof -
  let ?old = "workspace_paths ws_name owner_id db"
  have keys: "map (indexed_key ws_path) (?old @ map draft_indexed ds) = map (indexed_key ws_path) ?old @ map path_key ds"
    using assms(3) by (simp add: indexed_key_draft)
  have "set (map (indexed_key ws_path) ?old) \<inter> set (map path_key ds) = {}"
  proof (rule equals0I)
    fix k assume "k \<in> set (map (indexed_key ws_path) ?old) \<inter> set (map path_key ds)"
    then obtain d where "d \<in> set ds" "k = path_key d" "k \<in> indexed_key ws_path ` set ?old"
      unfolding set_map by blast
    then show False using assms(3) by blast
  qed
  then show ?thesis
    using assms(1,4) unfolding paths_unique_def workspace_paths_rows [OF assms(2)] keys distinct_append by blast
qed

lemma paths_unique_same: "td_notes (nd_rows db') = td_notes (nd_rows db) \<Longrightarrow> paths_unique ws_path ws_name owner_id db' = paths_unique ws_path ws_name owner_id db"
  by (simp add: paths_unique_def workspace_paths_def)

subsection \<open>Writing\<close>

lemma commit_rows_outcome:
  assumes ok: "batch_ok (w_files w) items"
    and run: "commit_rows_then_tree ops items message write_rows flush commit_db (db, w) = (Some e, db', w')"
  shows "db' = db \<and> (w_files w' = w_files w \<or> w_files w' = snd (apply_all items (w_files w)))"
proof -
  obtain x u where s: "staged_workspace_change ops items message w = (x, u)" by fastforce
  have "w_files u = w_files w \<or> w_files u = snd (apply_all items (w_files w))"
    using staged_cases [OF ok s] by (auto split: option.splits exn.splits)
  then show ?thesis
    using run s by (auto simp: commit_rows_then_tree_def commit_rows_then_def split: sum.splits option.splits)
qed

lemma staged_drafts_ok: "\<forall>d\<in>set ds. draft_ok ws_path d \<Longrightarrow> batch_ok f (map (staged_draft env) ds)"
  using wr.frame_apply_axioms
  by (auto simp: batch_ok_def item_ok_def staged_draft_def touched_def truthy_paths_def List.map_filter_def relative_ne)

definition draft_files :: "'g create_env \<Rightarrow> note_draft list \<Rightarrow> (string \<times> string) list" where
  "draft_files env ds = map (\<lambda>d. (dn_relative d, written_text (ne_dumps env) (dn_meta d) (dn_content d))) ds"

lemma apply_drafts_frame:
  "p \<notin> dn_relative ` set ds \<Longrightarrow> snd (apply_all (map (staged_draft env) ds) f) p = f p"
  by (induction ds arbitrary: f) (auto simp: staged_draft_def write_apply_def split: option.splits)

lemma apply_drafts_ok:
  "apply_all (map (staged_draft env) ds) f = (None, f') \<Longrightarrow> f' = f ++ map_of (rev (draft_files env ds))"
proof (induction ds arbitrary: f)
  case Nil
  then show ?case by (simp add: draft_files_def)
next
  case (Cons d ds)
  let ?t = "written_text (ne_dumps env) (dn_meta d) (dn_content d)"
  have "ne_write env (dn_relative d) = None" using Cons.prems by (auto simp: staged_draft_def write_apply_def split: option.splits)
  then have "apply_all (map (staged_draft env) ds) (f(dn_relative d \<mapsto> ?t)) = (None, f')"
    using Cons.prems by (simp add: staged_draft_def [of env d] write_apply_def)
  note ih = Cons.IH [OF this]
  have "f(dn_relative d \<mapsto> ?t) ++ map_of (rev (draft_files env ds)) = f ++ map_of (rev (draft_files env (d # ds)))"
    by (rule ext) (simp add: draft_files_def map_add_def split: option.split)
  then show ?case using ih by (rule trans [rotated])
qed

lemma insert_rows_Inr: "insert_rows rs t = Inr t' \<Longrightarrow> t' = t @ rs"
  by (induction rs arbitrary: t) (fastforce simp: insert_note_def sql_insert_Inr split: sum.splits)+

lemma create_rows_Inr:
  "create_rows ws_name owner_id ds db = Inr db' \<Longrightarrow>
     db' = db\<lparr>nd_rows := (nd_rows db)\<lparr>td_notes := td_notes (nd_rows db) @ map (new_note_row ws_name owner_id) ds\<rparr>\<rparr>"
  by (auto simp: create_rows_def dest: insert_rows_Inr split: sum.splits)

lemma sweep_notes: "sweep_orphan_tags ws owner db = Inr db' \<Longrightarrow> td_notes db' = td_notes db"
proof (induction ws owner db rule: sweep_orphan_tags.induct)
  case (1 ws owner db)
  then show ?case by (cases "sql_count (sweepable ws owner db) (td_tags db) = 0")
      (auto simp: sweep_orphan_tags.simps [of ws owner db] split: sum.splits)
qed

lemma sync_tags_notes: "sync_note_tags gen ws owner now n tg k db = Inr db' \<Longrightarrow> td_notes db' = td_notes db"
  by (auto simp: sync_note_tags_def sync_note_tags_many_def dest!: sweep_notes sync_session_notes split: sum.splits)

lemma sync_drafts_notes: "sync_drafts env ws_name owner_id c ds db = (e, db') \<Longrightarrow> td_notes db' = td_notes db"
  by (induction ds arbitrary: c db) (auto dest: sync_tags_notes split: sum.splits)

text \<open>The two ends of a write: refused by the transaction, or committed (whatever the bookkeeping after it does).\<close>

lemma write_drafts_cases:
  assumes ok: "\<forall>d\<in>set (map fst prepared). draft_ok ws_path d"
    and run: "write_drafts env ws_name owner_id paths prepared message (db, w) = (e, db', w')"
  shows "e \<noteq> None \<and> db' = db \<and> (\<forall>p. p \<notin> dn_relative ` fst ` set prepared \<longrightarrow> w_files w' p = w_files w p) \<or>
    td_notes (nd_rows db') = td_notes (nd_rows db) @ map (new_note_row ws_name owner_id \<circ> fst) prepared \<and>
      w_files w' = w_files w ++ map_of (rev (draft_files env (map fst prepared)))"
proof -
  let ?ds = "map fst prepared"
  obtain x db1 w1 where c: "commit_rows_then_tree (ne_ops env) (map (staged_draft env) ?ds) message (create_rows ws_name owner_id ?ds)
      (\<lambda>db. ne_flush env (nd_rows db)) (\<lambda>db. ne_commit env (nd_rows db)) (db, w) = (x, db1, w1)"
    by (metis prod.exhaust)
  show ?thesis
  proof (cases x)
    case (Some y)
    have "e = Some (CreateWrite y)" "db' = db1" "w' = w1" using run c Some by (simp_all add: write_drafts_def Let_def)
    moreover have "db1 = db \<and> (w_files w1 = w_files w \<or> w_files w1 = snd (apply_all (map (staged_draft env) ?ds) (w_files w)))"
      by (rule commit_rows_outcome [OF staged_drafts_ok [OF ok] c [unfolded Some]])
    ultimately show ?thesis using apply_drafts_frame [of _ ?ds env "w_files w"] by (auto simp: image_image)
  next
    case None
    note r = commit_rows_success [OF c [unfolded None]]
    have w1: "w_files w1 = w_files w ++ map_of (rev (draft_files env ?ds))" by (rule apply_drafts_ok [OF r(2)])
    obtain y rows where s: "sync_drafts env ws_name owner_id 0 ?ds (nd_rows db1) = (y, rows)" by fastforce
    have "td_notes rows = td_notes (nd_rows db) @ map (new_note_row ws_name owner_id) ?ds"
      using sync_drafts_notes [OF s] create_rows_Inr [OF r(1)] by simp
    then have "td_notes (nd_rows db') = td_notes (nd_rows db) @ map (new_note_row ws_name owner_id) ?ds" "w' = w1"
      using run c None s by (auto simp: write_drafts_def Let_def split: option.splits sum.splits prod.splits)
    then show ?thesis using w1 by simp
  qed
qed

subsection \<open>Admission\<close>

lemma admit_batch_item_Inr:
  assumes "admit_batch_item note_id ws_path now f accepted path_index x = Inr d"
  shows "draft_ok ws_path d" "dn_id d = note_id" "f (dn_relative d) = None" "path_index (path_key d) = None"
proof -
  have b: "build_draft ws_path now note_id (x\<lparr>nn_title := py_strip (nn_title x)\<rparr>) = Inr d"
    and e: "ensure_path_free (path_index (path_key d)) f d = None"
    using assms by (auto simp: admit_batch_item_def Let_def split: if_splits sum.splits option.splits)
  show "draft_ok ws_path d" "dn_id d = note_id" using build_draft_Inr [OF b] by simp_all
  show "f (dn_relative d) = None" "path_index (path_key d) = None"
    using e by (auto simp: ensure_path_free_def split: option.splits if_splits)
qed

lemma admit_all_Cons:
  assumes "admit_all ids ws_path now f i (x # xs) accepted path_index = Inr (errs, ds)"
  obtains e errs' where "admit_all ids ws_path now f (Suc i) xs accepted path_index = Inr (errs', ds)" "errs = (i, e) # errs'"
  | d ds' where "admit_batch_item (ids i) ws_path now f accepted path_index x = Inr d"
      "admit_all ids ws_path now f (Suc i) xs ((dn_folder d, dn_title d) # accepted) (path_index(path_key d \<mapsto> draft_indexed d)) = Inr (errs, ds')"
      "ds = (i, d) # ds'"
  using assms by (auto split: sum.splits if_splits)

lemma admit_all_drafts:
  "admit_all ids ws_path now f i xs accepted path_index = Inr (errs, ds) \<Longrightarrow>
     distinct (map (path_key \<circ> snd) ds) \<and>
     (\<forall>(j, d)\<in>set ds. draft_ok ws_path d \<and> f (dn_relative d) = None \<and> path_key d \<notin> dom path_index \<and> dn_id d = ids j)"
proof (induction xs arbitrary: i accepted path_index errs ds)
  case (Cons x xs)
  from Cons.prems show ?case
  proof (rule admit_all_Cons)
    fix e errs'
    assume "admit_all ids ws_path now f (Suc i) xs accepted path_index = Inr (errs', ds)" "errs = (i, e) # errs'"
    then show ?thesis using Cons.IH by blast
  next
    fix d ds'
    assume d: "admit_batch_item (ids i) ws_path now f accepted path_index x = Inr d"
      and r: "admit_all ids ws_path now f (Suc i) xs ((dn_folder d, dn_title d) # accepted) (path_index(path_key d \<mapsto> draft_indexed d)) = Inr (errs, ds')"
      and ds: "ds = (i, d) # ds'"
    note ih = Cons.IH [OF r]
    have new: "path_key d \<notin> (path_key \<circ> snd) ` set ds'" using ih by fastforce
    have "\<forall>(j, d)\<in>set ds'. draft_ok ws_path d \<and> f (dn_relative d) = None \<and> path_key d \<notin> dom path_index \<and> dn_id d = ids j"
      using ih by auto
    then show ?thesis using ih new admit_batch_item_Inr [OF d] by (simp add: ds domIff)
  qed
qed simp

lemma admit_all_indices:
  "admit_all ids ws_path now f i xs accepted path_index = Inr (errs, ds) \<Longrightarrow>
     fst ` set errs \<union> fst ` set ds = {i..<i + length xs}"
proof (induction xs arbitrary: i accepted path_index errs ds)
  case (Cons x xs)
  have step: "{i..<i + length (x # xs)} = insert i {Suc i..<Suc i + length xs}" by auto
  from Cons.prems show ?case
  proof (rule admit_all_Cons)
    fix e errs'
    assume "admit_all ids ws_path now f (Suc i) xs accepted path_index = Inr (errs', ds)" "errs = (i, e) # errs'"
    then show ?thesis using Cons.IH step by auto
  next
    fix d ds'
    assume "admit_all ids ws_path now f (Suc i) xs ((dn_folder d, dn_title d) # accepted) (path_index(path_key d \<mapsto> draft_indexed d)) = Inr (errs, ds')"
      "ds = (i, d) # ds'"
    then show ?thesis using Cons.IH step by auto
  qed
qed simp

lemma validate_drafts_facts:
  "validate_drafts validate ds = (errs, valid) \<Longrightarrow>
     subseq (map (\<lambda>(i, d, links). (i, d)) valid) ds \<and> fst ` set errs \<union> fst ` set valid = fst ` set ds"
proof (induction ds arbitrary: errs valid)
  case (Cons x ds)
  obtain i d where x: "x = (i, d)" by fastforce
  obtain errs' valid' where r: "validate_drafts validate ds = (errs', valid')" by fastforce
  note ih = Cons.IH [OF r]
  show ?case
  proof (cases "validate (dn_content d) (dn_folder d)")
    case (Inl e)
    then obtain ts where "errs = (i, BrokenLinks ts) # errs'" "valid = valid'"
      using Cons.prems by (cases e) (auto simp: x r)
    then show ?thesis using ih by (simp add: x image_Un [symmetric]) blast
  next
    case (Inr links)
    then have "errs = errs'" "valid = (i, d, links) # valid'" using Cons.prems by (auto simp: x r)
    then show ?thesis using ih by (simp add: x)
  qed
qed simp

lemma batch_results_index:
  assumes "\<forall>i<n. \<exists>r\<in>set rs. result_index r = i"
  shows "map result_index (batch_results n rs) = [0..<n]"
proof -
  have "\<exists>r. find (\<lambda>r. result_index r = i) rs = Some r \<and> result_index r = i" if "i < n" for i
  proof (cases "find (\<lambda>r. result_index r = i) rs")
    case None
    then show ?thesis using assms that by (auto simp: find_None_iff)
  next
    case (Some r)
    then show ?thesis by (auto simp: find_Some_iff)
  qed
  then have "map result_index (List.map_filter (\<lambda>i. find (\<lambda>r. result_index r = i) rs) is) = is" if "set is \<subseteq> {..<n}" for "is"
    using that by (induction "is") (force simp: List.map_filter_simps)+
  from this [of "[0..<n]"] show ?thesis by (simp add: batch_results_def atLeast0LessThan)
qed

lemma batch_results_subset: "set (batch_results n rs) \<subseteq> set rs"
proof
  fix r assume "r \<in> set (batch_results n rs)"
  then obtain i where "find (\<lambda>r. result_index r = i) rs = Some r" by (auto simp: batch_results_def List.map_filter_def)
  then show "r \<in> set rs" by (auto simp: find_Some_iff)
qed

lemma rejected_indices:
  assumes "fst ` set errs \<union> fst ` set broken = {0..<n}"
  shows "\<forall>i<n. \<exists>x\<in>set (map (\<lambda>(i, e). NoteRejected i e) (errs @ broken)). result_index x = i"
proof (intro allI impI)
  fix i assume "i < n"
  then have "i \<in> fst ` set (errs @ broken)" using assms by (simp add: image_Un)
  then obtain p where "p \<in> set (errs @ broken)" "i = fst p" by (rule imageE)
  then have "(i, snd p) \<in> set (errs @ broken)" by simp
  then obtain e where "(i, e) \<in> set (errs @ broken)" ..
  then have "NoteRejected i e \<in> set (map (\<lambda>(i, e). NoteRejected i e) (errs @ broken))" by force
  then show "\<exists>x\<in>set (map (\<lambda>(i, e). NoteRejected i e) (errs @ broken)). result_index x = i" by (rule bexI [rotated]) simp
qed

lemma created_indices:
  assumes "fst ` set errs \<union> fst ` set ds = {0..<0 + n}" "fst ` set broken \<union> fst ` set valid = fst ` set ds"
  shows "\<forall>i<n. \<exists>x\<in>set (map (\<lambda>(i, e). NoteRejected i e) (errs @ broken) @
      map (\<lambda>(i, d, links). NoteCreated i (dn_id d) (wikilink_warnings links)) valid). result_index x = i"
proof (intro allI impI)
  fix i assume "i < n"
  then have "i \<in> fst ` set errs \<union> (fst ` set broken \<union> fst ` set valid)" unfolding assms(2) using assms(1) by simp
  then consider "i \<in> fst ` set (errs @ broken)" | "i \<in> fst ` set valid" unfolding set_append image_Un by blast
  then show "\<exists>x\<in>set (map (\<lambda>(i, e). NoteRejected i e) (errs @ broken) @
      map (\<lambda>(i, d, links). NoteCreated i (dn_id d) (wikilink_warnings links)) valid). result_index x = i"
  proof cases
    case 1
    then obtain p where "p \<in> set (errs @ broken)" "i = fst p" by (rule imageE)
    then have "NoteRejected i (snd p) \<in> (\<lambda>(i, e). NoteRejected i e) ` set (errs @ broken)" by force
    then show ?thesis by (intro bexI [of _ "NoteRejected i (snd p)"]) auto
  next
    case 2
    then obtain d links where "(i, d, links) \<in> set valid" by auto
    then have "NoteCreated i (dn_id d) (wikilink_warnings links) \<in> (\<lambda>(i, d, links). NoteCreated i (dn_id d) (wikilink_warnings links)) ` set valid"
      by force
    then show ?thesis by (intro bexI [of _ "NoteCreated i (dn_id d) (wikilink_warnings links)"]) auto
  qed
qed

lemma map_of_rev_distinct: "distinct (map fst kvs) \<Longrightarrow> map_of (rev kvs) = map_of kvs"
proof (rule ext)
  fix k assume d: "distinct (map fst kvs)"
  then have "distinct (map fst (rev kvs))" by (simp add: rev_map [symmetric])
  then have "map_of (rev kvs) k = Some v \<longleftrightarrow> map_of kvs k = Some v" for v using d by (simp only: map_of_eq_Some_iff set_rev)
  then show "map_of (rev kvs) k = map_of kvs k" by (metis option.exhaust)
qed

subsection \<open>Creation is safe\<close>

lemma subseq_drafts:
  assumes "subseq (map (\<lambda>(i, d, links). (i, d)) valid) ds" "distinct (map (path_key \<circ> snd) ds)"
  shows "set (map (\<lambda>(i, d, links). d) valid) \<subseteq> snd ` set ds" "distinct (map (\<lambda>(i, d, links). path_key d) valid)"
proof -
  have snds: "map (\<lambda>(i, d, links). d) valid = map snd (map (\<lambda>(i, d, links). (i, d)) valid)" by (simp add: case_prod_beta comp_def)
  have sub: "set (map (\<lambda>(i, d, links). (i, d)) valid) \<subseteq> set ds"
  proof
    fix y assume "y \<in> set (map (\<lambda>(i, d, links). (i, d)) valid)"
    with assms(1) obtain z where "z \<in> set ds" "y = z" by (rule list_emb_set)
    then show "y \<in> set ds" by simp
  qed
  show "set (map (\<lambda>(i, d, links). d) valid) \<subseteq> snd ` set ds"
    unfolding snds set_map [of snd] using sub by (rule image_mono)
  have "subseq (map (path_key \<circ> snd) (map (\<lambda>(i, d, links). (i, d)) valid)) (map (path_key \<circ> snd) ds)" by (rule subseq_map [OF assms(1)])
  then obtain I where "map (path_key \<circ> snd) (map (\<lambda>(i, d, links). (i, d)) valid) = nths (map (path_key \<circ> snd) ds) I"
    unfolding subseq_conv_nths by blast
  then have "distinct (map (path_key \<circ> snd) (map (\<lambda>(i, d, links). (i, d)) valid))" using distinct_nthsI [OF assms(2)] by metis
  then have "distinct (map (\<lambda>x. path_key (fst (snd x))) valid)" by (simp add: case_prod_beta comp_def)
  moreover have "map (\<lambda>(i, d, links). path_key d) valid = map (\<lambda>x. path_key (fst (snd x))) valid" by (rule map_cong) auto
  ultimately show "distinct (map (\<lambda>(i, d, links). path_key d) valid)" by (rule ssubst [rotated])
qed

text \<open>What a call may do to rows and files: nothing to what is there, and new rows only at free paths.\<close>

definition creates :: "string \<Rightarrow> string \<Rightarrow> string \<Rightarrow> note_db \<times> 'g ws \<Rightarrow> note_db \<times> 'g ws \<Rightarrow> bool" where
  "creates ws_path ws_name owner_id st st' \<longleftrightarrow>
     (\<exists>ds. td_notes (nd_rows (fst st')) = td_notes (nd_rows (fst st)) @ map (new_note_row ws_name owner_id) ds \<and>
        (\<forall>d\<in>set ds. draft_ok ws_path d \<and> path_key d \<notin> indexed_key ws_path ` set (workspace_paths ws_name owner_id (fst st)) \<and>
           w_files (snd st) (dn_relative d) = None \<and> w_files (snd st') (dn_relative d) \<noteq> None) \<and>
        distinct (map path_key ds)) \<and>
     (\<forall>p. w_files (snd st) p \<noteq> None \<longrightarrow> w_files (snd st') p = w_files (snd st) p)"

lemma creates_refl: "creates ws_path ws_name owner_id st st"
  unfolding creates_def by (intro conjI exI [of _ "[]"]) simp_all

lemma write_drafts_creates:
  assumes ok: "\<forall>d\<in>set (map fst prepared). draft_ok ws_path d \<and> w_files w (dn_relative d) = None \<and>
      path_key d \<notin> indexed_key ws_path ` set (workspace_paths ws_name owner_id db)"
    and dis: "distinct (map (path_key \<circ> fst) prepared)"
    and run: "write_drafts env ws_name owner_id paths prepared message (db, w) = (e, db', w')"
  shows "creates ws_path ws_name owner_id (db, w) (db', w')"
proof -
  let ?ds = "map fst prepared"
  have "\<forall>d\<in>set ?ds. draft_ok ws_path d" using ok by blast
  from write_drafts_cases [OF this run] show ?thesis
  proof (elim disjE conjE)
    assume "db' = db" and f: "\<forall>p. p \<notin> dn_relative ` fst ` set prepared \<longrightarrow> w_files w' p = w_files w p"
    moreover have "w_files w' p = w_files w p" if "w_files w p \<noteq> None" for p
    proof -
      have "p \<notin> dn_relative ` fst ` set prepared" using that ok by auto
      then show ?thesis using f by blast
    qed
    ultimately show ?thesis unfolding creates_def by (intro conjI exI [of _ "[]"]) simp_all
  next
    assume rows: "td_notes (nd_rows db') = td_notes (nd_rows db) @ map (new_note_row ws_name owner_id \<circ> fst) prepared"
      and f: "w_files w' = w_files w ++ map_of (rev (draft_files env ?ds))"
    have dom: "dom (map_of (rev (draft_files env ?ds))) = dn_relative ` set ?ds"
      by (simp add: dom_map_of_conv_image_fst draft_files_def image_image)
    have new: "w_files w' (dn_relative d) \<noteq> None" if "d \<in> set ?ds" for d
    proof -
      have "dn_relative d \<in> dom (map_of (rev (draft_files env ?ds)))" using that unfolding dom by (rule imageI)
      then show ?thesis unfolding f by (auto simp: map_add_def split: option.split)
    qed
    have old: "w_files w' p = w_files w p" if "w_files w p \<noteq> None" for p
    proof -
      have "p \<notin> dn_relative ` set ?ds" using ok that by auto
      then show ?thesis unfolding f using dom by (simp add: map_add_dom_app_simps(3))
    qed
    have "td_notes (nd_rows db') = td_notes (nd_rows db) @ map (new_note_row ws_name owner_id) ?ds" using rows by simp
    moreover have "distinct (map path_key ?ds)" using dis by simp
    ultimately show ?thesis unfolding creates_def fst_conv snd_conv using ok new old by blast
  qed
qed

lemma creates_unique:
  "creates ws_path ws_name owner_id st st' \<Longrightarrow> paths_unique ws_path ws_name owner_id (fst st) \<Longrightarrow> paths_unique ws_path ws_name owner_id (fst st')"
  unfolding creates_def by (elim conjE exE) (rule paths_unique_rows, auto)

lemma save_creates:
  assumes "save env ws_name owner_id x (db, w) = (r, db', w')"
  shows "creates (ne_ws_path env) ws_name owner_id (db, w) (db', w')"
proof (cases "\<exists>d links. build_draft (ne_ws_path env) (ne_now env) (ce_ids env 0) x = Inr d \<and>
    ensure_path_free (note_path_conflict (workspace_paths ws_name owner_id db) (ne_ws_path env) (dn_folder d) (dn_title d) None) (w_files w) d = None \<and>
    validate_wikilinks (ne_parse env) (found_notes owner_id db) (ce_validated env) (mk_index (workspace_paths ws_name owner_id db)) (nn_content x) (dn_folder d) = Inr links")
  case False
  then have "(db', w') = (db, w)"
    using assms by (auto simp: save_def Let_def split: sum.splits option.splits link_error.splits)
  then show ?thesis by (simp add: creates_refl)
next
  case True
  then obtain d links where d: "build_draft (ne_ws_path env) (ne_now env) (ce_ids env 0) x = Inr d"
    and free: "ensure_path_free (note_path_conflict (workspace_paths ws_name owner_id db) (ne_ws_path env) (dn_folder d) (dn_title d) None) (w_files w) d = None"
    and v: "validate_wikilinks (ne_parse env) (found_notes owner_id db) (ce_validated env) (mk_index (workspace_paths ws_name owner_id db)) (nn_content x) (dn_folder d) = Inr links"
    by blast
  obtain e where run: "write_drafts env ws_name owner_id (workspace_paths ws_name owner_id db) [(d, links)] (''note: add '' @ nn_title x) (db, w) = (e, db', w')"
    using assms d free v by (auto simp: save_def Let_def split: option.splits prod.splits)
  have ok: "draft_ok (ne_ws_path env) d" using build_draft_Inr [OF d] by simp
  have "w_files w (dn_relative d) = None" and none: "note_path_conflict (workspace_paths ws_name owner_id db) (ne_ws_path env) (dn_folder d) (dn_title d) None = None"
    using free by (auto simp: ensure_path_free_def split: option.splits if_splits)
  moreover have "path_key d \<notin> indexed_key (ne_ws_path env) ` set (workspace_paths ws_name owner_id db)"
    using none ok by (auto simp: note_path_conflict_def find_None_iff path_key_def draft_ok_def)
  ultimately show ?thesis using ok by (intro write_drafts_creates [OF _ _ run]) simp_all
qed

lemma save_many_run:
  assumes "save_many env ws_name owner_id xs (db, w) = (r, db', w')"
  obtains "(db', w') = (db, w)" "\<And>rs queued. r = Inr (rs, queued) \<Longrightarrow> queued = [] \<and> map result_index rs = [0..<length xs] \<and> (\<forall>x\<in>set rs. \<exists>i e. x = NoteRejected i e)"
  | errs ds broken valid e where
    "admit_all (ce_ids env) (ne_ws_path env) (ne_now env) (w_files w) 0 xs [] (build_path_index (workspace_paths ws_name owner_id db) (ne_ws_path env)) = Inr (errs, ds)"
    "validate_drafts (validate_wikilinks (ne_parse env) (found_notes owner_id db) (ce_validated env)
       (mk_index (workspace_paths ws_name owner_id db @ map (draft_indexed \<circ> snd) ds))) ds = (broken, valid)"
    "valid \<noteq> []"
    "write_drafts env ws_name owner_id (workspace_paths ws_name owner_id db @ map (draft_indexed \<circ> snd) ds) (map snd valid)
       (add_message (length valid)) (db, w) = (e, db', w')"
    "r = (case e of Some x \<Rightarrow> Inl x | None \<Rightarrow> Inr (batch_results (length xs) (map (\<lambda>(i, e). NoteRejected i e) (errs @ broken) @
        map (\<lambda>(i, d, links). NoteCreated i (dn_id d) (wikilink_warnings links)) valid), map (\<lambda>(i, d, links). dn_id d) valid))"
proof -
  let ?base = "workspace_paths ws_name owner_id db"
  show thesis
  proof (cases "admit_all (ce_ids env) (ne_ws_path env) (ne_now env) (w_files w) 0 xs [] (build_path_index ?base (ne_ws_path env))")
    case (Inl e)
    then show thesis using assms that(1) by (auto simp: save_many_def Let_def)
  next
    case (Inr p)
    then obtain errs ds where a: "admit_all (ce_ids env) (ne_ws_path env) (ne_now env) (w_files w) 0 xs [] (build_path_index ?base (ne_ws_path env)) = Inr (errs, ds)"
      by (cases p) simp
    obtain broken valid where v: "validate_drafts (validate_wikilinks (ne_parse env) (found_notes owner_id db) (ce_validated env)
       (mk_index (?base @ map (draft_indexed \<circ> snd) ds))) ds = (broken, valid)" by fastforce
    show thesis
    proof (cases "valid = []")
      case True
      let ?rs = "map (\<lambda>(i, e). NoteRejected i e) (errs @ broken)"
      have out: "(db', w') = (db, w)" "r = Inr (batch_results (length xs) ?rs, [])"
        using assms a v True by (simp_all add: save_many_def Let_def)
      have "fst ` set errs \<union> fst ` set broken = {0..<length xs}"
        using admit_all_indices [OF a] validate_drafts_facts [OF v] True by simp
      then have "\<forall>i<length xs. \<exists>x\<in>set ?rs. result_index x = i" by (rule rejected_indices)
      then have i: "map result_index (batch_results (length xs) ?rs) = [0..<length xs]" by (rule batch_results_index)
      have "set (batch_results (length xs) ?rs) \<subseteq> set ?rs" by (rule batch_results_subset)
      then have "\<forall>x\<in>set (batch_results (length xs) ?rs). \<exists>i e. x = NoteRejected i e" by fastforce
      then show thesis using that(1) out i by simp
    next
      case False
      obtain e d u where run: "write_drafts env ws_name owner_id (?base @ map (draft_indexed \<circ> snd) ds) (map snd valid) (add_message (length valid)) (db, w) = (e, d, u)"
        by (metis prod.exhaust)
      show thesis
        by (rule that(2) [OF a v False, of e]) (use assms a v False run in \<open>auto simp: save_many_def Let_def split: option.splits\<close>)
    qed
  qed
qed

lemma save_many_drafts:
  assumes a: "admit_all (ce_ids env) (ne_ws_path env) (ne_now env) (w_files w) 0 xs [] (build_path_index (workspace_paths ws_name owner_id db) (ne_ws_path env)) = Inr (errs, ds)"
    and v: "validate_drafts validate ds = (broken, valid)"
  shows "\<forall>d\<in>set (map fst (map snd valid)). draft_ok (ne_ws_path env) d \<and> w_files w (dn_relative d) = None \<and>
      path_key d \<notin> indexed_key (ne_ws_path env) ` set (workspace_paths ws_name owner_id db)"
    "distinct (map (path_key \<circ> fst) (map snd valid))"
proof -
  note ad = admit_all_drafts [OF a, unfolded dom_path_index]
  have sub: "subseq (map (\<lambda>(i, d, links). (i, d)) valid) ds" using validate_drafts_facts [OF v] by simp
  note sd = subseq_drafts [OF sub conjunct1 [OF ad]]
  have m: "map fst (map snd valid) = map (\<lambda>(i, d, links). d) valid" by auto
  show "\<forall>d\<in>set (map fst (map snd valid)). draft_ok (ne_ws_path env) d \<and> w_files w (dn_relative d) = None \<and>
      path_key d \<notin> indexed_key (ne_ws_path env) ` set (workspace_paths ws_name owner_id db)"
    unfolding m using sd(1) ad by fastforce
  have "map (path_key \<circ> fst) (map snd valid) = map (\<lambda>(i, d, links). path_key d) valid" by auto
  then show "distinct (map (path_key \<circ> fst) (map snd valid))" using sd(2) by (rule ssubst)
qed

lemma save_many_creates:
  assumes "save_many env ws_name owner_id xs (db, w) = (r, db', w')"
  shows "creates (ne_ws_path env) ws_name owner_id (db, w) (db', w')"
  using assms
proof (rule save_many_run)
  assume "(db', w') = (db, w)"
  then show ?thesis by (simp add: creates_refl)
next
  fix errs ds broken valid e
  assume a: "admit_all (ce_ids env) (ne_ws_path env) (ne_now env) (w_files w) 0 xs [] (build_path_index (workspace_paths ws_name owner_id db) (ne_ws_path env)) = Inr (errs, ds)"
    and v: "validate_drafts (validate_wikilinks (ne_parse env) (found_notes owner_id db) (ce_validated env)
       (mk_index (workspace_paths ws_name owner_id db @ map (draft_indexed \<circ> snd) ds))) ds = (broken, valid)"
    and run: "write_drafts env ws_name owner_id (workspace_paths ws_name owner_id db @ map (draft_indexed \<circ> snd) ds) (map snd valid)
       (add_message (length valid)) (db, w) = (e, db', w')"
  show ?thesis by (rule write_drafts_creates [OF save_many_drafts [OF a v] run])
qed

text \<open>A sequence of calls of \<open>save\<close> and \<open>save_many\<close> on one workspace, each with its own environment and outcome.\<close>

inductive create_step :: "string \<Rightarrow> string \<Rightarrow> string \<Rightarrow> note_db \<times> 'g ws \<Rightarrow> note_db \<times> 'g ws \<Rightarrow> bool" for ws_path ws_name owner_id where
  one: "save env ws_name owner_id x st = (r, st') \<Longrightarrow> ne_ws_path env = ws_path \<Longrightarrow> create_step ws_path ws_name owner_id st st'"
| many: "save_many env ws_name owner_id xs st = (r, st') \<Longrightarrow> ne_ws_path env = ws_path \<Longrightarrow> create_step ws_path ws_name owner_id st st'"

lemma create_step_creates: "create_step ws_path ws_name owner_id st st' \<Longrightarrow> creates ws_path ws_name owner_id st st'"
  by (induction rule: create_step.induct) (use save_creates save_many_creates in \<open>metis prod.collapse\<close>)+

text \<open>C8: creating notes never overwrites anything. Over any sequence of \<open>save\<close> and \<open>save_many\<close>, whatever their
  outcomes, faults included: no two notes of the workspace claim the same path up to case, every file that existed is
  as it was, and every row that existed keeps its place and its contents.\<close>

theorem create_never_overwrites:
  assumes "(create_step ws_path ws_name owner_id)\<^sup>*\<^sup>* (db, w) (db', w')" "paths_unique ws_path ws_name owner_id db"
  shows "paths_unique ws_path ws_name owner_id db' \<and> (\<forall>p. w_files w p \<noteq> None \<longrightarrow> w_files w' p = w_files w p) \<and>
     prefix (td_notes (nd_rows db)) (td_notes (nd_rows db'))"
  using assms
proof (induction "(db', w')" arbitrary: db' w' rule: rtranclp_induct)
  case (step st)
  obtain db1 w1 where st: "st = (db1, w1)" by fastforce
  have c: "creates ws_path ws_name owner_id (db1, w1) (db', w')" using step.hyps(2) unfolding st by (rule create_step_creates)
  have ih: "paths_unique ws_path ws_name owner_id db1 \<and> (\<forall>p. w_files w p \<noteq> None \<longrightarrow> w_files w1 p = w_files w p) \<and>
     prefix (td_notes (nd_rows db)) (td_notes (nd_rows db1))" using step.hyps(3) [OF st step.prems] .
  have "\<forall>p. w_files w p \<noteq> None \<longrightarrow> w_files w' p = w_files w p" using c ih unfolding creates_def by fastforce
  moreover have "prefix (td_notes (nd_rows db)) (td_notes (nd_rows db'))" using c ih unfolding creates_def by (auto intro: prefix_order.trans)
  moreover have "paths_unique ws_path ws_name owner_id db'" using creates_unique [OF c] ih by simp
  ultimately show ?case by blast
qed simp


subsection \<open>Repair of dangling links\<close>

lemma save_run:
  assumes "save env ws_name owner_id x (db, w) = (Inr r, db', w')"
  obtains d links where "build_draft (ne_ws_path env) (ne_now env) (ce_ids env 0) x = Inr d" "sn_note_id r = dn_id d"
    "write_drafts env ws_name owner_id (workspace_paths ws_name owner_id db) [(d, links)] (''note: add '' @ nn_title x) (db, w) = (None, db', w')"
  using assms by (auto simp: save_def Let_def split: sum.splits option.splits link_error.splits prod.splits)

lemma write_drafts_marks:
  assumes run: "write_drafts env ws_name owner_id paths prepared message (db, w) = (None, db', w')"
    and rec: "ce_reconcile env = Some (jid, clock)" and inv: "dirty_inv (nd_dirty db)"
  shows "dirty_map owner_id ws_name (nd_dirty db') =
     bump {s \<in> set (affected_sources ws_name owner_id (ce_dangling env) paths (remdups (map dn_title (map fst prepared))) [] (nd_links db)). s \<noteq> []}
       (dirty_map owner_id ws_name (nd_dirty db))"
proof -
  let ?ds = "map fst prepared"
  let ?aff = "affected_sources ws_name owner_id (ce_dangling env) paths (remdups (map dn_title ?ds)) [] (nd_links db)"
  let ?src = "sort (remdups (filter (\<lambda>s. s \<noteq> []) ?aff))"
  obtain e db1 w1 where c: "commit_rows_then_tree (ne_ops env) (map (staged_draft env) ?ds) message (create_rows ws_name owner_id ?ds)
      (\<lambda>db. ne_flush env (nd_rows db)) (\<lambda>db. ne_commit env (nd_rows db)) (db, w) = (e, db1, w1)"
    by (metis prod.exhaust)
  have e: "e = None" using run c by (auto simp: write_drafts_def Let_def split: option.splits)
  have d1: "nd_dirty db1 = nd_dirty db" using create_rows_Inr [OF commit_rows_success(1) [OF c [unfolded e]]] by simp
  obtain y rows where s: "sync_drafts env ws_name owner_id 0 ?ds (nd_rows db1) = (y, rows)" by fastforce
  obtain j dirty jobs where m: "mark_and_enqueue jid clock owner_id ws_name ?aff (nd_dirty db1, nd_jobs db1) = Inr (j, dirty, jobs)"
    and db': "nd_dirty db' = dirty"
    using run c e s rec by (auto simp: write_drafts_def Let_def split: option.splits sum.splits prod.splits)
  have "dirty_map owner_id ws_name dirty = bump (set ?src) (dirty_map owner_id ws_name (nd_dirty db))"
  proof (cases "?src = []")
    case True
    have "dirty = nd_dirty db" using m [unfolded mark_and_enqueue_def Let_def if_P [OF True]] d1 by simp
    then show ?thesis unfolding True by (simp add: bump_def)
  next
    case False
    then have "dirty = foldl (\<lambda>t s. mark_source owner_id ws_name s t) (nd_dirty db) ?src"
      using m [unfolded mark_and_enqueue_def Let_def if_not_P [OF False]] d1 by (auto split: sum.splits)
    moreover have "distinct ?src" by simp
    ultimately show ?thesis using dirty_map_marks [OF inv, of ?src owner_id ws_name] by metis
  qed
  moreover have "set ?src = {s \<in> set ?aff. s \<noteq> []}" by auto
  ultimately show ?thesis unfolding db' by simp
qed

lemma set_backlinks_many:
  "set (backlinks_many ids (Some ws) db) = {nl_source l | l. l \<in> set (ld_links db) \<and> nl_target l \<in> set ids \<and> nl_workspace l = ws}"
  by (auto simp: backlinks_many_def in_workspace_def)

lemma set_sources_for_titles:
  "set (sources_for_titles owner_id ws titles db) = {dg_source g | g. g \<in> set (ld_dangling db) \<and> dangling_in owner_id ws g \<and> dg_title g \<in> set titles}"
  by (auto simp: sources_for_titles_def)

text \<open>C10: a new title wakes the notes it concerns. A successful \<open>save\<close> marks as dirty, once more each, exactly the sources
  of a dangling link written with this title and those that link to another note of the same title.\<close>

theorem save_marks_exactly:
  assumes "save env ws_name owner_id x (db, w) = (Inr r, db', w')" "ce_reconcile env = Some (jid, clock)" "dirty_inv (nd_dirty db)"
  shows "dirty_map owner_id ws_name (nd_dirty db') =
     bump (({nl_source l | l. l \<in> set (ld_links (nd_links db)) \<and> nl_workspace l = ws_name \<and>
               (\<exists>n\<in>set (workspace_paths ws_name owner_id db). in_title n = nn_title x \<and> in_note_id n = nl_target l)} \<union>
            {dg_source g | g. g \<in> set (ld_dangling (nd_links db)) \<and> ce_dangling env \<and> dangling_in owner_id ws_name g \<and> dg_title g = nn_title x}) - {[]})
       (dirty_map owner_id ws_name (nd_dirty db))"
proof -
  from assms(1) obtain d links where b: "build_draft (ne_ws_path env) (ne_now env) (ce_ids env 0) x = Inr d"
    and run: "write_drafts env ws_name owner_id (workspace_paths ws_name owner_id db) [(d, links)] (''note: add '' @ nn_title x) (db, w) = (None, db', w')"
    by (rule save_run)
  let ?aff = "set (affected_sources ws_name owner_id (ce_dangling env) (workspace_paths ws_name owner_id db) [nn_title x] [] (nd_links db))"
  let ?links = "{nl_source l | l. l \<in> set (ld_links (nd_links db)) \<and> nl_workspace l = ws_name \<and>
     (\<exists>n\<in>set (workspace_paths ws_name owner_id db). in_title n = nn_title x \<and> in_note_id n = nl_target l)}"
  let ?dang = "{dg_source g | g. g \<in> set (ld_dangling (nd_links db)) \<and> ce_dangling env \<and> dangling_in owner_id ws_name g \<and> dg_title g = nn_title x}"
  have t: "dn_title d = nn_title x" by (rule build_draft_Inr(3) [OF b])
  have tgt: "nl_target l \<in> set (target_ids_for_titles (workspace_paths ws_name owner_id db) [nn_title x]) \<longleftrightarrow>
      (\<exists>n\<in>set (workspace_paths ws_name owner_id db). in_title n = nn_title x \<and> in_note_id n = nl_target l)" for l
    by (auto simp: target_ids_for_titles_def) (metis (mono_tags, lifting) image_eqI mem_Collect_eq)
  have "set (backlinks_many (target_ids_for_titles (workspace_paths ws_name owner_id db) [nn_title x]) (Some ws_name) (nd_links db)) = ?links"
    unfolding set_backlinks_many tgt by blast
  moreover have "set (if ce_dangling env then sources_for_titles owner_id ws_name [nn_title x] (nd_links db) else []) = ?dang"
    by (cases "ce_dangling env") (auto simp: set_sources_for_titles)
  ultimately have "?aff = ?links \<union> ?dang" unfolding affected_sources_def set_remdups set_append by simp
  then have "{s \<in> ?aff. s \<noteq> []} = (?links \<union> ?dang) - {[]}" by blast
  then show ?thesis using write_drafts_marks [OF run assms(2,3)] by (simp add: t)
qed

text \<open>C11: a case variant is not repaired. A wikilink may differ from the title in case only; it resolves to the note as
  soon as there is one, but the repair looks for the title as written. So when a note is created, a dangling link that
  spells the new title in another case now has a target, and nothing is marked for it.\<close>

theorem case_variant_not_repaired:
  assumes "save env ws_name owner_id x (db, w) = (Inr r, db', w')" "ce_reconcile env = Some (jid, clock)" "dirty_inv (nd_dirty db)"
    and "split_target t = ([], c)" "c \<noteq> nn_title x" "py_casefold c = py_casefold (nn_title x)"
    and "\<forall>n\<in>set (workspace_paths ws_name owner_id db). py_casefold (in_title n) \<noteq> py_casefold (nn_title x)"
    and "\<forall>g\<in>set (ld_dangling (nd_links db)). dangling_in owner_id ws_name g \<longrightarrow> dg_title g \<noteq> nn_title x"
  shows "resolve_detailed (mk_index (workspace_paths ws_name owner_id db)) t src True = None \<and>
     (\<exists>m. resolve_detailed (mk_index (workspace_paths ws_name owner_id db')) t src True = Some m \<and> in_note_id (lm_chosen m) = sn_note_id r) \<and>
     dirty_map owner_id ws_name (nd_dirty db') = dirty_map owner_id ws_name (nd_dirty db)"
proof -
  let ?ps = "workspace_paths ws_name owner_id db" and ?ps' = "workspace_paths ws_name owner_id db'"
  from assms(1) obtain d links where b: "build_draft (ne_ws_path env) (ne_now env) (ce_ids env 0) x = Inr d" and id: "sn_note_id r = dn_id d"
    and run: "write_drafts env ws_name owner_id ?ps [(d, links)] (''note: add '' @ nn_title x) (db, w) = (None, db', w')"
    by (rule save_run)
  have t: "dn_title d = nn_title x" by (rule build_draft_Inr(3) [OF b])
  have "td_notes (nd_rows db') = td_notes (nd_rows db) @ map (new_note_row ws_name owner_id) [d]"
    using write_drafts_cases [of "[(d, links)]" "ne_ws_path env", OF _ run] build_draft_Inr(1) [OF b] by simp
  then have ps': "?ps' = ?ps @ [draft_indexed d]" using workspace_paths_rows [of db' db ws_name owner_id "[d]"] by simp
  have no: "py_casefold (in_title n) \<noteq> py_casefold c" "in_title n \<noteq> c" if "n \<in> set ?ps" for n using assms(6,7) that by auto
  have e: "exact_candidates ?ps t = {}" "folded_candidates ?ps t = {}"
    using no by (auto simp: exact_candidates_def folded_candidates_def assms(4))
  have e': "exact_candidates ?ps' t = {}" "folded_candidates ?ps' t = {draft_indexed d}"
    using no assms(5,6) by (auto simp: exact_candidates_def folded_candidates_def assms(4) ps' draft_indexed_def t folder_matches_def)
  have "resolve_detailed (mk_index ?ps) t src True = None"
    using resolve_best [where nts = "?ps" and target = t and source = src and allow = True] e by (auto split: option.splits if_splits)
  moreover have "\<exists>m. resolve_detailed (mk_index ?ps') t src True = Some m \<and> in_note_id (lm_chosen m) = sn_note_id r"
    using resolve_best [where nts = "?ps'" and target = t and source = src and allow = True] e' by (auto simp: id draft_indexed_def split: option.splits if_splits)
  moreover have "set (affected_sources ws_name owner_id (ce_dangling env) ?ps [nn_title x] [] (nd_links db)) = {}"
    using assms(7,8) by (auto simp: affected_sources_def set_backlinks_many set_sources_for_titles target_ids_for_titles_def)
  then have "dirty_map owner_id ws_name (nd_dirty db') = dirty_map owner_id ws_name (nd_dirty db)"
    using write_drafts_marks [OF run assms(2,3)] by (simp add: t bump_def)
  ultimately show ?thesis by blast
qed

subsection \<open>Witnesses\<close>

definition ex_create_env :: "idx_git create_env" where
  "ex_create_env = \<lparr>ne_ws_path = ''/w'', ne_loads = (\<lambda>_. ([], ''x'')), ne_dumps = (\<lambda>_ b. b), ne_parse = (\<lambda>_. []), ne_enum = sorted_list_of_set,
     ne_now = ''now'', ne_gen = ex_tag_gen, ne_ops = idx_ops, ne_walker = (\<lambda>_. ([], None)), ne_flush = (\<lambda>_. None), ne_commit = (\<lambda>_. None),
     ne_write = (\<lambda>_. None), ce_ids = (\<lambda>i. CHR ''i'' # replicate i CHR ''x''), ce_link_gens = (\<lambda>_. []), ce_validated = True, ce_dangling = True,
     ce_reconcile = Some (''j'', 0)\<rparr>"

definition ex_dangling_row :: dangling_row where
  "ex_dangling_row = \<lparr>dg_id = ''g'', dg_workspace = ''w'', dg_owner = ''u'', dg_source = ''s'', dg_folder = [], dg_title = ''plan'', dg_created_at = []\<rparr>"

definition ex_note_db :: note_db where
  "ex_note_db = \<lparr>nd_rows = \<lparr>td_tags = [], td_links = [], td_notes = []\<rparr>, nd_links = \<lparr>ld_links = [], ld_dangling = [ex_dangling_row]\<rparr>,
     nd_dirty = [], nd_jobs = []\<rparr>"

definition ex_new :: "string \<Rightarrow> new_note" where
  "ex_new t = \<lparr>nn_title = t, nn_content = ''body'', nn_tags = [''A''], nn_folder = [], nn_occurred_at = YNone, nn_period = YNone, nn_extras = []\<rparr>"

lemma ex_save:
  assumes "t \<in> {''plan'', ''Plan''}"
  obtains r db' w' where "save ex_create_env ''w'' ''u'' (ex_new t) (ex_note_db, ex_tag_ws) = (Inr r, db', w')" "sn_note_id r = ''i''"
proof -
  have "map_sum id sn_note_id (fst (save ex_create_env ''w'' ''u'' (ex_new ''plan'') (ex_note_db, ex_tag_ws))) = Inr ''i''"
    "map_sum id sn_note_id (fst (save ex_create_env ''w'' ''u'' (ex_new ''Plan'') (ex_note_db, ex_tag_ws))) = Inr ''i''"
    by code_simp+
  then have m: "map_sum id sn_note_id (fst (save ex_create_env ''w'' ''u'' (ex_new t) (ex_note_db, ex_tag_ws))) = Inr ''i''" using assms by blast
  then obtain r where "fst (save ex_create_env ''w'' ''u'' (ex_new t) (ex_note_db, ex_tag_ws)) = Inr r" "sn_note_id r = ''i''"
    by (cases "fst (save ex_create_env ''w'' ''u'' (ex_new t) (ex_note_db, ex_tag_ws))") simp_all
  then show thesis using that by (metis prod.collapse)
qed

lemma ex_create_facts: "ce_reconcile ex_create_env = Some (''j'', 0)" "dirty_inv (nd_dirty ex_note_db)"
    "workspace_paths ''w'' ''u'' ex_note_db = []" "ce_dangling ex_create_env" "ne_ws_path ex_create_env = ''/w''"
  by (simp_all add: ex_create_env_def ex_note_db_def dirty_inv_def workspace_paths_def list_paths_def)

theorem create_never_overwrites_witness:
  "\<exists>db' w'. (create_step ''/w'' ''w'' ''u'')\<^sup>*\<^sup>* (ex_note_db, ex_tag_ws) (db', w') \<and> w_files w' ''n.md'' = Some ''raw'' \<and> paths_unique ''/w'' ''w'' ''u'' db'"
proof -
  obtain r db' w' where s: "save ex_create_env ''w'' ''u'' (ex_new ''plan'') (ex_note_db, ex_tag_ws) = (Inr r, db', w')"
    by (rule ex_save [of "''plan''"]) simp_all
  have "(create_step ''/w'' ''w'' ''u'')\<^sup>*\<^sup>* (ex_note_db, ex_tag_ws) (db', w')"
    by (rule r_into_rtranclp) (rule create_step.one [OF s ex_create_facts(5)])
  moreover have "paths_unique ''/w'' ''w'' ''u'' ex_note_db" by (simp add: paths_unique_def ex_create_facts(3))
  ultimately show ?thesis using create_never_overwrites [of "''/w''" "''w''" "''u''" ex_note_db ex_tag_ws db' w'] by (fastforce simp: ex_tag_ws_def)
qed


theorem save_marks_exactly_witness:
  "\<exists>r db' w'. save ex_create_env ''w'' ''u'' (ex_new ''plan'') (ex_note_db, ex_tag_ws) = (Inr r, db', w') \<and>
     dirty_map ''u'' ''w'' (nd_dirty db') = [''s'' \<mapsto> 1]"
proof -
  obtain r db' w' where s: "save ex_create_env ''w'' ''u'' (ex_new ''plan'') (ex_note_db, ex_tag_ws) = (Inr r, db', w')"
    by (rule ex_save [of "''plan''"]) simp_all
  have g: "{dg_source g | g. g \<in> set (ld_dangling (nd_links ex_note_db)) \<and> dangling_in ''u'' ''w'' g \<and> dg_title g = ''plan''} = {''s''}"
    by (auto simp: ex_note_db_def ex_dangling_row_def dangling_in_def)
  have "dirty_map ''u'' ''w'' (nd_dirty ex_note_db) = Map.empty" by (simp add: ex_note_db_def dirty_map_def list_dirty_def)
  then have "dirty_map ''u'' ''w'' (nd_dirty db') = bump {''s''} Map.empty"
    using save_marks_exactly [OF s ex_create_facts(1,2)] by (simp add: ex_create_facts ex_new_def g)
  then show ?thesis using s by (auto simp: bump_def fun_eq_iff)
qed

theorem case_variant_not_repaired_witness:
  "\<exists>r db' w'. save ex_create_env ''w'' ''u'' (ex_new ''Plan'') (ex_note_db, ex_tag_ws) = (Inr r, db', w') \<and>
     map dg_title (ld_dangling (nd_links ex_note_db)) = [''plan''] \<and>
     (\<exists>m. resolve_detailed (mk_index (workspace_paths ''w'' ''u'' db')) ''plan'' [] True = Some m \<and> in_note_id (lm_chosen m) = ''i'') \<and>
     dirty_map ''u'' ''w'' (nd_dirty db') = Map.empty"
proof -
  obtain r db' w' where s: "save ex_create_env ''w'' ''u'' (ex_new ''Plan'') (ex_note_db, ex_tag_ws) = (Inr r, db', w')" "sn_note_id r = ''i''"
    by (rule ex_save [of "''Plan''"]) simp_all
  have t: "split_target ''plan'' = ([], ''plan'')" "py_casefold ''plan'' = py_casefold ''Plan''" by code_simp+
  have "dirty_map ''u'' ''w'' (nd_dirty ex_note_db) = Map.empty" by (simp add: ex_note_db_def dirty_map_def list_dirty_def)
  moreover have "map dg_title (ld_dangling (nd_links ex_note_db)) = [''plan'']" by (simp add: ex_note_db_def ex_dangling_row_def)
  moreover have "\<forall>n\<in>set (workspace_paths ''w'' ''u'' ex_note_db). py_casefold (in_title n) \<noteq> py_casefold (nn_title (ex_new ''Plan''))"
    "\<forall>g\<in>set (ld_dangling (nd_links ex_note_db)). dangling_in ''u'' ''w'' g \<longrightarrow> dg_title g \<noteq> nn_title (ex_new ''Plan'')"
    "''plan'' \<noteq> nn_title (ex_new ''Plan'')" "py_casefold ''plan'' = py_casefold (nn_title (ex_new ''Plan''))"
    using t(2) by (simp_all add: ex_create_facts(3)) (simp_all add: ex_note_db_def ex_dangling_row_def ex_new_def)
  ultimately show ?thesis
    using case_variant_not_repaired [OF s(1) ex_create_facts(1,2) t(1), of "[]"] s by auto
qed

end
