(* ===== verification/Spec2Isabelle.thy ===== *)
theory Spec2Isabelle
  imports Worker Auth Frontmatter Note_Edit Chunking Tags Link_Reconcile Git_History Workspace_Tx Tag_Store
    Workspace_Lock Notices Share_Links Ranking Targets Tag_Service Note_Create
begin

text \<open>
  A verification library for \<open>kajet-turbo\<close>, a server for Markdown notes that are files of a git working
  tree and rows of an SQLite database at the same time. All paths below are under
  \<open>src/src/kajet_turbo\<close>.

  \<^bold>\<open>The program and its model.\<close> A write of a note takes the lock of its workspace, changes files and
  rows together, commits to git and, after the lock is released, enqueues the work derived from the
  write (link rows, embeddings, pushes) as jobs. A worker claims jobs, runs their handlers under a
  renewed lease and records the result. Browsers and MCP clients authenticate with sessions and OAuth
  tokens. Note texts carry wikilinks, hashtags and frontmatter, which the \<open>markdown\<close> package parses,
  resolves and rewrites.

  \<^item> \<open>Jobs\<close> is \<open>repositories/jobs.py\<close>: the table \<open>jobs\<close> as a list of rows and every method as a function
    on it. The rows of a reachable table (relation \<open>jobs_step\<close>, one constructor per method) never hold two
    running rows of one key or two pending rows of one kind and key; claims are exact; a worker that lost
    its row is fenced; retries, debouncing and batches behave as documented.
  \<^item> \<open>Worker\<close> is \<open>worker.py\<close>: \<open>run_job\<close> against the interface \<open>job_store\<close> (interpreted on the methods
    of \<open>Jobs\<close>), and the pool, the heartbeat and other processes as the step relation \<open>worker_step\<close> with an
    explicit clock. While heartbeats keep up, no other worker can take a running job.
  \<^item> \<open>OAuth_Repo\<close> and \<open>Auth\<close> are \<open>repositories/oauth.py\<close>, \<open>repositories/sessions.py\<close>, \<open>auth.py\<close> and
    \<open>identity.py\<close>: token families with rotation and reuse detection, single-use codes, the identity of a
    bearer token, over all interleavings of provider calls (\<open>provider_step\<close>).
  \<^item> \<open>Workspace_Lock\<close> is \<open>locking.py\<close> with the transaction scope of \<open>repositories/git.py\<close>: one lock per
    outermost transaction, hooks and deferred callbacks after its release, polling of the file lock.
  \<^item> \<open>Workspace_Tx\<close> is \<open>commit_changes\<close>, \<open>commit_files\<close>, \<open>delete_files\<close> of \<open>repositories/git.py\<close> and
    \<open>services/notes/staged_change.py\<close> with the file operations staged through it: rows and tree change
    together, and a failed batch restores the files. The locales \<open>frame_apply\<close> and \<open>rename_apply\<close> state what
    an \<open>apply\<close> callback must promise and are interpreted on the writes and moves of the services.
  \<^item> \<open>Git_History\<close> is the history half of \<open>repositories/git.py\<close> and \<open>services/notes/staleness.py\<close>: one
    walk with per-path budgets gives what separate walks would, and the version check compares with the
    newest commit of the path.
  \<^item> \<open>Paths\<close> and \<open>Frontmatter\<close> are \<open>workspace.py\<close>: file names from titles, folder normalization, pruning
    of empty directories, reading and writing of the metadata block, the two temporal fields.
  \<^item> \<open>Periods\<close> is \<open>periods.py\<close> with the part of Python's \<open>datetime.date\<close> it uses.
  \<^item> \<open>Markdown_Tokens\<close>, \<open>Note_Edit\<close>, \<open>Chunking\<close>, \<open>Tags\<close>, \<open>Wikilinks\<close>, \<open>Link_Index\<close> are the modules of
    \<open>markdown\<close> of these names: section edits touch only their section, chunks keep every visible
    character within the limit, hashtags and wikilinks are rewritten pointwise, a target written for a
    note resolves to that note.
  \<^item> \<open>Link_Store\<close> is \<open>repositories/notes/links.py\<close>, \<open>repositories/dangling_links.py\<close>,
    \<open>services/notes/links.py\<close> and the text part of \<open>services/notes/backlinks.py\<close>: the neighbourhood
    query is bounded breadth-first search, and links follow the notes they resolved to when those move.
  \<^item> \<open>Link_Reconcile\<close> is \<open>repositories/link_reconcile.py\<close> and \<open>services/reconcile_links_handler.py\<close>: the
    dirty set refines a map of generations, and the protocol between writers and the handler (relation
    \<open>rc_step\<close>) keeps every outdated source scheduled, except in one interleaving that is proved to exist.
  \<^item> \<open>Note_Rows\<close> and \<open>Tag_Store\<close> are \<open>repositories/notes/crud.py\<close> and \<open>repositories/notes/tags.py\<close>: the rows
    of notes with the sorting and matching done in Python, and the tree of tag rows, which after every
    synchronization is the ancestor closure of the tags that notes carry.
  \<^item> \<open>Tag_Service\<close> is \<open>services/notes/tags.py\<close>: a change of tags writes file, row and tag rows as one, a
    rename does so for every note that carries the tag, in batches; it erases temporal values the reader
    could not parse.
  \<^item> \<open>Note_Create\<close> is \<open>services/notes/create.py\<close> and \<open>services/notes/paths.py\<close>: creating notes, alone or in
    batches, over all tables and the tree. Nothing is overwritten, whatever fails; a new title marks the
    dangling links that spell it exactly, and only those.
  \<^item> \<open>Events\<close> is \<open>repositories/events.py\<close> with the socket of \<open>api/ws.py\<close>: over all interleavings of staged and
    committed events (\<open>outbox_step\<close>) a connection sends nothing twice, misses nothing if commits follow
    \<open>created_at\<close>, and can miss an event otherwise. \<open>Notices\<close> is \<open>repositories/notices.py\<close> and
    \<open>services/notices.py\<close>: an event is published exactly when the notices a user sees change.
  \<^item> \<open>Share_Links\<close> is \<open>repositories/note_share_link.py\<close> with its service and the public read of
    \<open>api/public_notes.py\<close>: revocation is final, reads are counted.
  \<^item> \<open>Ranking\<close> is \<open>services/notes/fusion.py\<close> and \<open>services/notes/related_ranking.py\<close>: both rankings equal
    declarative descriptions of the policy.
  \<^item> \<open>Targets\<close> is \<open>services/targets.py\<close> with \<open>repositories/workspaces.py\<close>: which notes and workspaces a caller
    may touch, and that a failure tells nothing about other users.
  \<^item> \<open>Prelude\<close> holds the Python string methods, the SQL statements, and the two interfaces every table and
    every machine is interpreted on: \<open>keyed_store\<close> and \<open>inv_machine\<close>.

  \<^bold>\<open>Conventions.\<close> A database table is a list of rows, a method a function from tables to tables; a raise
  is \<^const>\<open>Inl\<close> and then the caller's tables are the old ones. Clocks, random values and generated
  identifiers are arguments. Strings are lists of characters below 256; the character classes are Python's
  on that range. Floats are exact rationals or reals: rounding is not modelled. A loop that may not
  end is a \<open>partial_function\<close> into options (the hard cut of \<open>chunking.py\<close>, the poll of \<open>locking.py\<close>), and
  that it returns is proved; every other function is total. No fuel is used.

  \<^bold>\<open>Parameters.\<close> Code outside the repository is an argument of the definitions that use it: the
  CommonMark parser (tokens of a text; \<open>headings_wf\<close> is what is relied on of its line numbers), the YAML
  serializer (reads back what it wrote), dulwich (\<open>rm\<close>, \<open>add\<close>, \<open>commit\<close> and the walker), the MCP SDK (two
  lifetimes and the construction of redirects), the HTML escape of the parser package.

  \<^bold>\<open>Not modelled.\<close> The HTTP and MCP layers, the wiring of the processes, logging and metrics are
  input and output around the modelled operations. Embedding clients, vector search and ciphers rest on
  services and libraries that are not part of the repository. Symbolic links and I/O errors of the file
  system are left out except where the code handles them. Open in the plan, in this order: the tag service, collections, the note services.
\<close>

end
